(* ===== verification/Prelude.thy ===== *)
theory Prelude
  imports Main "HOL-Library.Word" "HOL-Library.Multiset"
begin

text \<open>
  Shared material of the development: the types that stand for Go's basic types, the interfaces
  (locales) that several components use, and the generic lemmas on lists, maps and words.

  Conventions. A \<open>time.Time\<close> is an \<open>instant\<close> and a \<open>time.Duration\<close> a \<open>duration\<close>, both counted in
  nanoseconds. \<open>time.Now()\<close> is an argument of the operation that calls it. A Go \<open>int\<close> is an \<open>int\<close>
  where it is signed data and a \<open>nat\<close> where it is a length, an index or a loop counter. A
  \<open>uint64\<close> is a \<open>64 word\<close>. A Go map is a HOL map; the order in which \<open>range\<close> visits a map is
  unspecified in Go and is an explicit list argument here. Every operation of a type with a mutex
  takes the lock for its whole body, so an operation is one atomic state transformer.
\<close>

type_synonym instant = int
type_synonym duration = int
type_synonym u64 = "64 word"
type_synonym u32 = "32 word"
type_synonym byte = "8 word"

abbreviation second :: duration where
  "second \<equiv> 1000000000"

text \<open>Signed 64-bit arithmetic on \<open>int\<close>, where it may wrap around.\<close>

definition int64 :: "int \<Rightarrow> int" where
  "int64 i = (i + 2 ^ 63) mod 2 ^ 64 - 2 ^ 63"

lemma int64_add: "int64 (int64 a + b) = int64 (a + b)"
  unfolding int64_def by (simp add: mod_simps algebra_simps)

named_theorems op_defs \<open>definitions of the operations a step relation is made of\<close>
named_theorems inv_intros \<open>preservation lemmas of component invariants\<close>

section \<open>Transition systems\<close>

text \<open>
  The contract between a step relation and a property that it keeps. Each state machine of the
  development interprets this locale on its own steps and gets the statement for whole runs.
\<close>

locale invariant_system =
  fixes init :: "'s \<Rightarrow> bool"
    and step :: "'s \<Rightarrow> 's \<Rightarrow> bool"
    and invar :: "'s \<Rightarrow> bool"
  assumes invar_init: "init s \<Longrightarrow> invar s"
    and invar_step: "invar s \<Longrightarrow> step s t \<Longrightarrow> invar t"
begin

lemma invar_steps: "step\<^sup>*\<^sup>* s t \<Longrightarrow> invar s \<Longrightarrow> invar t"
  by (induction rule: rtranclp_induct) (auto intro: invar_step)

lemma invar_reachable: "init s \<Longrightarrow> step\<^sup>*\<^sup>* s t \<Longrightarrow> invar t"
  by (blast intro: invar_init invar_steps)

end

text \<open>
  A component whose operations are functions: a run is the fold of a list of operations from the
  initial state. It is the special case of a step relation with one successor per operation.
\<close>

locale operation_system =
  fixes start :: 's
    and exec :: "'op \<Rightarrow> 's \<Rightarrow> 's"
    and invar :: "'s \<Rightarrow> bool"
  assumes invar_start: "invar start"
    and invar_exec: "invar s \<Longrightarrow> invar (exec op s)"

sublocale operation_system \<subseteq> invariant_system "(=) start" "\<lambda>s t. \<exists>op. t = exec op s" invar
  by unfold_locales (auto intro: invar_start invar_exec)

context operation_system
begin

lemma invar_fold: "invar s \<Longrightarrow> invar (fold exec ops s)"
  by (induction ops arbitrary: s) (auto intro: invar_exec)

lemma invar_run: "invar (fold exec ops start)"
  by (rule invar_fold) (rule invar_start)

lemma run_reachable: "(\<lambda>s t. \<exists>op. t = exec op s)\<^sup>*\<^sup>* start (fold exec ops start)"
  by (induction ops rule: rev_induct) (auto intro: rtranclp.rtrancl_into_rtrancl)

end

section \<open>Quorums\<close>

text \<open>
  What an election needs of its quorums: two quorums of one membership share a member.
\<close>

locale quorum_system =
  fixes members :: "'n set"
    and is_quorum :: "'n set \<Rightarrow> bool"
  assumes quorum_intersect:
    "is_quorum Q \<Longrightarrow> is_quorum Q' \<Longrightarrow> Q \<subseteq> members \<Longrightarrow> Q' \<subseteq> members \<Longrightarrow> \<exists>x. x \<in> Q \<and> x \<in> Q'"
begin

lemma quorum_agree:
  assumes "is_quorum Q" and "is_quorum Q'" and "Q \<subseteq> members" and "Q' \<subseteq> members"
    and "\<And>x. x \<in> Q \<Longrightarrow> f x = a" and "\<And>x. x \<in> Q' \<Longrightarrow> f x = b"
  shows "a = b"
  using quorum_intersect [OF assms(1-4)] assms(5,6) by metis

end

lemma majorities_meet:
  assumes "finite M" and "Q \<subseteq> M" and "Q' \<subseteq> M"
    and "card M < card Q + card Q'"
  shows "\<exists>x. x \<in> Q \<and> x \<in> Q'"
proof (rule ccontr)
  assume "\<not> ?thesis"
  then have "Q \<inter> Q' = {}" by auto
  moreover have "finite Q" "finite Q'"
    using assms(1-3) by (auto intro: finite_subset)
  ultimately have "card (Q \<union> Q') = card Q + card Q'"
    by (intro card_Un_disjoint)
  moreover have "card (Q \<union> Q') \<le> card M"
    using assms(1-3) by (intro card_mono) auto
  ultimately show False using assms(4) by simp
qed

section \<open>Lists\<close>

lemma dropWhile_eq_filter:
  "sorted xs \<Longrightarrow> dropWhile (\<lambda>x. x < (c :: 'a :: linorder)) xs = filter (\<lambda>x. \<not> x < c) xs"
proof (induction xs)
  case (Cons x xs)
  show ?case
  proof (cases "x < c")
    case False
    with Cons.prems have "\<forall>y \<in> set (x # xs). \<not> y < c" by fastforce
    then have "filter (\<lambda>x. \<not> x < c) (x # xs) = x # xs"
      unfolding filter_id_conv by blast
    with False show ?thesis by simp
  qed (use Cons in simp)
qed simp

lemma sorted_dropWhile: "sorted xs \<Longrightarrow> sorted (dropWhile P xs)"
  by (metis dropWhile_eq_drop sorted_wrt_drop)


lemma find_filter_keep: "find P xs = Some x \<Longrightarrow> Q x \<Longrightarrow> find P (filter Q xs) = Some x"
  by (induction xs) (auto split: if_splits)

lemma find_filter_None: "find P xs = None \<Longrightarrow> find P (filter Q xs) = None"
  by (simp add: find_None_iff)

lemma find_key: "distinct (map key xs) \<Longrightarrow> x \<in> set xs \<Longrightarrow> find (\<lambda>y. key y = key x) xs = Some x"
  by (induction xs) force+

lemma fold_independent:
  assumes "distinct ks" and "\<And>k s j. j \<noteq> k \<Longrightarrow> look (f k s) j = look s j"
    and "\<And>k s s'. look s k = look s' k \<Longrightarrow> look (f k s) k = look (f k s') k"
  shows "look (fold f ks s) j = (if j \<in> set ks then look (f j s) j else look s j)"
  using assms(1)
proof (induction ks arbitrary: s)
  case (Cons k ks)
  then have IH: "look (fold f ks (f k s)) j = (if j \<in> set ks then look (f j (f k s)) j else look (f k s) j)"
    by simp
  show ?case
  proof (cases "j = k")
    case True
    with Cons.prems IH show ?thesis by simp
  next
    case False
    then have "look (f j (f k s)) j = look (f j s) j"
      by (intro assms(3) assms(2))
    with False IH assms(2) show ?thesis by simp
  qed
qed simp

lemma fold_map_upd:
  "fold (\<lambda>k m. case g k of Some v \<Rightarrow> m(k \<mapsto> v) | None \<Rightarrow> m) ks m0 k =
   (if k \<in> set ks \<and> g k \<noteq> None then g k else m0 k)"
  by (induction ks arbitrary: m0) (auto split: option.splits)

section \<open>Iteration and sorting\<close>

text \<open>The order in which \<open>range\<close> visits the keys of a map: any enumeration without repetition.\<close>

definition visits :: "('a set \<Rightarrow> 'a list) \<Rightarrow> bool" where
  "visits visit \<longleftrightarrow> (\<forall>S. finite S \<longrightarrow> distinct (visit S) \<and> set (visit S) = S)"

lemma visits_some: "visits (\<lambda>S. SOME xs. distinct xs \<and> set xs = S)"
proof -
  have "distinct (SOME xs. distinct xs \<and> set xs = S) \<and> set (SOME xs. distinct xs \<and> set xs = S) = S"
    if fin: "finite S" for S :: "'a set"
    by (rule someI_ex) (use finite_distinct_list [OF fin] in blast)
  then show ?thesis by (simp add: visits_def)
qed

text \<open>
  \<open>sort.Slice\<close>. For a strict linear order of keys that no two elements share the sorted slice is
  unique; the insertion sort computes it.
\<close>

fun insertBy :: "('a \<Rightarrow> 'a \<Rightarrow> bool) \<Rightarrow> 'a \<Rightarrow> 'a list \<Rightarrow> 'a list" where
  "insertBy lt x [] = [x]"
| "insertBy lt x (y # ys) = (if lt y x then y # insertBy lt x ys else x # y # ys)"

definition sortSlice :: "('a \<Rightarrow> 'a \<Rightarrow> bool) \<Rightarrow> 'a list \<Rightarrow> 'a list" where
  "sortSlice lt xs = foldr (insertBy lt) xs []"

lemma sortSlice_sort_key:
  assumes "\<And>a b. lt a b \<longleftrightarrow> key a < (key b :: 'k :: linorder)"
  shows "sortSlice lt xs = sort_key key xs"
proof -
  have "insertBy lt x ys = insort_key key x ys" for x ys
    by (induction ys) (auto simp: assms not_less)
  then have "insertBy lt = insort_key key" by blast
  then show ?thesis by (simp add: sortSlice_def sort_key_def)
qed

section \<open>Ranked lists\<close>

text \<open>
  A list of candidates in ascending order of a rank, scanned for the first acceptable one: what the
  scan finds has the least rank among the acceptable candidates.
\<close>

locale ranked_list =
  fixes candidates :: "'a list"
    and rank :: "'a \<Rightarrow> 'k :: linorder"
  assumes ranked: "sorted (map rank candidates)"
begin

lemma first_is_best:
  assumes "find P candidates = Some x"
  shows "P x \<and> x \<in> set candidates \<and> (\<forall>y \<in> set candidates. P y \<longrightarrow> rank x \<le> rank y)"
proof -
  obtain i where i: "i < length candidates" "P (candidates ! i)" "x = candidates ! i" "\<forall>j < i. \<not> P (candidates ! j)"
    using assms by (auto simp: find_Some_iff)
  have "rank x \<le> rank y" if y: "y \<in> set candidates" "P y" for y
  proof -
    obtain j where j: "j < length candidates" "y = candidates ! j" using y(1) by (metis in_set_conv_nth)
    with i(4) y(2) have "i \<le> j" by (meson not_le)
    then show ?thesis
      using sorted_nth_mono [OF ranked, of i j] i(1,3) j by simp
  qed
  with i show ?thesis by auto
qed

lemma first_missing: "find P candidates = None \<longleftrightarrow> (\<forall>y \<in> set candidates. \<not> P y)"
  by (auto simp: find_None_iff)

lemma head_is_best: "candidates \<noteq> [] \<Longrightarrow> y \<in> set candidates \<Longrightarrow> rank (hd candidates) \<le> rank y"
  using ranked by (cases candidates) auto

end

section \<open>Decimal numerals\<close>

text \<open>\<open>strconv.Itoa\<close> and the verb \<open>%d\<close>.\<close>

fun digits :: "nat \<Rightarrow> string" where
  "digits n = (if n < 10 then [char_of (48 + n)] else digits (n div 10) @ [char_of (48 + n mod 10)])"

declare digits.simps [simp del]

definition Itoa :: "int \<Rightarrow> string" where
  "Itoa i = (if i < 0 then CHR ''-'' # digits (nat (- i)) else digits (nat i))"

definition undigits :: "string \<Rightarrow> nat" where
  "undigits = foldl (\<lambda>n c. 10 * n + (of_char c - 48)) 0"

lemma undigits_digits: "undigits (digits n) = n"
proof (induction n rule: digits.induct)
  case (1 n)
  show ?case
  proof (cases "n < 10")
    case True
    then show ?thesis by (simp add: digits.simps [of n] undigits_def)
  next
    case False
    then have "undigits (digits n) = 10 * undigits (digits (n div 10)) + n mod 10"
      by (subst digits.simps) (simp add: undigits_def)
    with "1.IH" False show ?thesis by simp
  qed
qed

lemma digits_inj: "digits a = digits b \<longleftrightarrow> a = b"
  by (metis undigits_digits)

lemma digits_chars: "c \<in> set (digits n) \<Longrightarrow> 48 \<le> (of_char c :: nat) \<and> (of_char c :: nat) \<le> 57"
proof (induction n rule: digits.induct)
  case (1 n)
  then show ?case
    by (subst (asm) digits.simps) (auto split: if_splits)
qed

lemma digits_nonempty: "digits n \<noteq> []"
  by (subst digits.simps) simp

lemma digits_no_char: "\<not> (48 \<le> (of_char c :: nat) \<and> (of_char c :: nat) \<le> 57) \<Longrightarrow> c \<notin> set (digits n)"
  using digits_chars by blast

lemma Itoa_no_char:
  assumes "c \<noteq> CHR ''-''" "\<not> (48 \<le> (of_char c :: nat) \<and> (of_char c :: nat) \<le> 57)"
  shows "c \<notin> set (Itoa i)"
  using digits_no_char [OF assms(2)] assms(1) by (auto simp: Itoa_def)

lemma Itoa_inj: "Itoa a = Itoa b \<longleftrightarrow> a = b"
proof
  assume eq: "Itoa a = Itoa b"
  have "CHR ''-'' \<notin> set (digits n)" for n
    by (rule digits_no_char) simp
  then have neg: "CHR ''-'' # xs \<noteq> digits n" "digits n \<noteq> CHR ''-'' # xs" for xs n
    by (metis list.set_intros(1))+
  show "a = b"
    using eq by (auto simp: Itoa_def digits_inj neg split: if_splits)
qed simp

text \<open>A separator that does not occur in the tail parts splits a string in one way.\<close>

lemma takeWhile_sep: "c \<notin> set b \<Longrightarrow> takeWhile (\<lambda>x. x \<noteq> c) (b @ c # a) = b"
  by (induction b) auto

lemma sep_unique:
  assumes "a @ c # b = a' @ c # b'" and "c \<notin> set b" and "c \<notin> set b'"
  shows "a = a' \<and> b = b'"
proof -
  have "rev b @ c # rev a = rev b' @ c # rev a'"
    using arg_cong [OF assms(1), of rev] by simp
  then have "takeWhile (\<lambda>x. x \<noteq> c) (rev b @ c # rev a) = takeWhile (\<lambda>x. x \<noteq> c) (rev b' @ c # rev a')"
    by simp
  then have "rev b = rev b'"
    using assms(2,3) by (simp add: takeWhile_sep)
  with assms(1) show ?thesis by simp
qed

section \<open>Binary search\<close>

text \<open>\<open>sort.Search\<close>: the least index in \<open>[0, n)\<close> at which the monotone predicate \<open>f\<close> holds, else \<open>n\<close>.\<close>

function search_loop :: "(nat \<Rightarrow> bool) \<Rightarrow> nat \<Rightarrow> nat \<Rightarrow> nat" where
  "search_loop f i j = (if i < j then
     (let h = (i + j) div 2 in if \<not> f h then search_loop f (h + 1) j else search_loop f i h) else i)"
  by pat_completeness auto
termination
  by (relation "measure (\<lambda>(f, i, j). j - i)") auto

declare search_loop.simps [simp del]

definition Search :: "nat \<Rightarrow> (nat \<Rightarrow> bool) \<Rightarrow> nat" where
  "Search n f = search_loop f 0 n"

definition upclosed :: "nat \<Rightarrow> (nat \<Rightarrow> bool) \<Rightarrow> bool" where
  "upclosed n f \<longleftrightarrow> (\<forall>a b. a \<le> b \<longrightarrow> b < n \<longrightarrow> f a \<longrightarrow> f b)"

definition first_true :: "nat \<Rightarrow> (nat \<Rightarrow> bool) \<Rightarrow> nat \<Rightarrow> bool" where
  "first_true n f i \<longleftrightarrow> i \<le> n \<and> (\<forall>a < i. \<not> f a) \<and> (i < n \<longrightarrow> f i)"

lemma search_loop_spec:
  assumes "upclosed n f" and "i \<le> j" "j \<le> n" and "\<forall>a < i. \<not> f a" and "\<forall>a. j \<le> a \<and> a < n \<longrightarrow> f a"
  shows "first_true n f (search_loop f i j)"
  using assms
proof (induction f i j rule: search_loop.induct)
  case (1 f i j)
  let ?h = "(i + j) div 2"
  show ?case
  proof (cases "i < j")
    case False
    then have "search_loop f i j = i" by (simp add: search_loop.simps [of f i j])
    with False "1.prems" show ?thesis by (simp add: first_true_def)
  next
    case True
    then have h: "?h < n" "i \<le> ?h" "?h < j" using "1.prems"(3) by auto
    show ?thesis
    proof (cases "f ?h")
      case False
      then have "\<forall>a < ?h + 1. \<not> f a"
        using "1.prems"(1) h by (auto simp: upclosed_def less_Suc_eq_le)
      then have "first_true n f (search_loop f (?h + 1) j)"
        using "1.IH"(1) [OF True refl False "1.prems"(1)] "1.prems"(3,5) h by simp
      then show ?thesis using True False by (simp add: search_loop.simps [of f i j] Let_def)
    next
      case fh: True
      then have "\<forall>a. ?h \<le> a \<and> a < n \<longrightarrow> f a"
        using "1.prems"(1) by (auto simp: upclosed_def)
      then have "first_true n f (search_loop f i ?h)"
        using "1.IH"(2) [OF True refl _ "1.prems"(1)] fh "1.prems"(4) h by simp
      then show ?thesis using True fh by (simp add: search_loop.simps [of f i j] Let_def)
    qed
  qed
qed

lemma Search_spec: "upclosed n f \<Longrightarrow> first_true n f (Search n f)"
  unfolding Search_def by (rule search_loop_spec) auto

text \<open>On a list sorted by a key, the search finds the element that a linear scan finds.\<close>

lemma Search_find:
  assumes "sorted (map key xs)" and "idx = Search (length xs) (\<lambda>i. h \<le> key (xs ! i))"
  shows "find (\<lambda>x. h \<le> key x) xs = (if idx < length xs then Some (xs ! idx) else None)"
proof -
  have "upclosed (length xs) (\<lambda>i. h \<le> key (xs ! i))"
    unfolding upclosed_def using sorted_nth_mono [OF assms(1)] by fastforce
  then have S: "first_true (length xs) (\<lambda>i. h \<le> key (xs ! i)) idx"
    unfolding assms(2) by (rule Search_spec)
  show ?thesis
  proof (cases "idx < length xs")
    case True
    with S have "find (\<lambda>x. h \<le> key x) xs = Some (xs ! idx)"
      unfolding find_Some_iff first_true_def by blast
    with True show ?thesis by simp
  next
    case False
    with S have "\<forall>x \<in> set xs. \<not> h \<le> key x" by (auto simp: first_true_def in_set_conv_nth)
    with False show ?thesis by (auto simp: find_None_iff)
  qed
qed

end
