(* ===== verification/CircuitBreaker.thy ===== *)
theory CircuitBreaker
  imports Prelude
begin

text \<open>
  The Z3 circuit breaker (\<open>src/internal/circuitbreaker/circuitbreaker.go\<close>): configuration,
  the three-state machine with its sliding window of timeouts, and the single half-open probe.
  The lemmas give the state invariant, the abstract specification of the window and the
  fast-fail guarantee while the circuit is open.
\<close>

section \<open>Data\<close>

datatype cb_state = Closed | Open | HalfOpen

definition State_String :: "cb_state \<Rightarrow> string" where
  "State_String s = (case s of Open \<Rightarrow> ''open'' | HalfOpen \<Rightarrow> ''half-open'' | _ \<Rightarrow> ''closed'')"

record Config =
  TimeoutThreshold :: duration
  WindowDuration :: duration
  FailureThreshold :: int
  OpenDuration :: duration

definition DefaultConfig :: Config where
  "DefaultConfig = \<lparr>TimeoutThreshold = 30 * second, WindowDuration = 60 * second,
     FailureThreshold = 3, OpenDuration = 90 * second\<rparr>"

record CircuitBreaker =
  cb_cfg :: Config
  cb_state :: cb_state
  timeoutStamps :: "instant list"
  openedAt :: instant
  probeInFlight :: bool

section \<open>Operations\<close>

definition New_config :: "Config \<Rightarrow> Config" where
  "New_config cfg = (let def = DefaultConfig;
     cfg = (if TimeoutThreshold cfg \<le> 0 then cfg\<lparr>TimeoutThreshold := TimeoutThreshold def\<rparr> else cfg);
     cfg = (if WindowDuration cfg \<le> 0 then cfg\<lparr>WindowDuration := WindowDuration def\<rparr> else cfg);
     cfg = (if FailureThreshold cfg \<le> 0 then cfg\<lparr>FailureThreshold := FailureThreshold def\<rparr> else cfg);
     cfg = (if OpenDuration cfg \<le> 0 then cfg\<lparr>OpenDuration := OpenDuration def\<rparr> else cfg)
   in cfg)"

text \<open>The zero \<open>time.Time\<close> of a new breaker's \<open>openedAt\<close> is the instant 0.\<close>

definition New :: "Config \<Rightarrow> CircuitBreaker" where
  "New cfg = \<lparr>cb_cfg = New_config cfg, cb_state = Closed, timeoutStamps = [], openedAt = 0,
     probeInFlight = False\<rparr>"

definition Allow :: "instant \<Rightarrow> CircuitBreaker \<Rightarrow> bool \<times> CircuitBreaker" where
  "Allow now cb = (case cb_state cb of
     Closed \<Rightarrow> (True, cb)
   | Open \<Rightarrow>
       (if now - openedAt cb \<ge> OpenDuration (cb_cfg cb)
        then (True, cb\<lparr>cb_state := HalfOpen, probeInFlight := True\<rparr>)
        else (False, cb))
   | HalfOpen \<Rightarrow>
       (if probeInFlight cb then (False, cb) else (True, cb\<lparr>probeInFlight := True\<rparr>)))"

definition trip :: "instant \<Rightarrow> CircuitBreaker \<Rightarrow> CircuitBreaker" where
  "trip now cb = cb\<lparr>cb_state := Open, openedAt := now, probeInFlight := False, timeoutStamps := []\<rparr>"

text \<open>
  The pruning loop advances \<open>i\<close> over the stamps before the cutoff and cuts the slice there.
\<close>

definition pruneStamps :: "instant \<Rightarrow> CircuitBreaker \<Rightarrow> CircuitBreaker" where
  "pruneStamps now cb =
     (let cutoff = now - WindowDuration (cb_cfg cb)
      in cb\<lparr>timeoutStamps := dropWhile (\<lambda>t. t < cutoff) (timeoutStamps cb)\<rparr>)"

definition RecordTimeout :: "instant \<Rightarrow> duration \<Rightarrow> CircuitBreaker \<Rightarrow> CircuitBreaker" where
  "RecordTimeout now elapsed cb =
     (if elapsed < TimeoutThreshold (cb_cfg cb) then cb
      else case cb_state cb of
        Closed \<Rightarrow>
          (let cb1 = pruneStamps now cb;
               cb2 = cb1\<lparr>timeoutStamps := timeoutStamps cb1 @ [now]\<rparr>
           in if int (length (timeoutStamps cb2)) \<ge> FailureThreshold (cb_cfg cb2)
              then trip now cb2 else cb2)
      | HalfOpen \<Rightarrow> trip now cb
      | Open \<Rightarrow> cb)"

definition RecordSuccess :: "CircuitBreaker \<Rightarrow> CircuitBreaker" where
  "RecordSuccess cb = (case cb_state cb of
     HalfOpen \<Rightarrow> cb\<lparr>cb_state := Closed, timeoutStamps := [], probeInFlight := False\<rparr>
   | Closed \<Rightarrow> cb\<lparr>timeoutStamps := []\<rparr>
   | Open \<Rightarrow> cb)"

lemmas cb_op_defs = Allow_def trip_def pruneStamps_def RecordTimeout_def RecordSuccess_def

section \<open>The breaker as a state machine\<close>

text \<open>
  A call of the breaker's interface, with the clock reading the call makes. \<open>cb_apply\<close> also
  returns the answer of \<open>Allow\<close>.
\<close>

datatype cb_event = EvAllow instant | EvTimeout instant duration | EvSuccess instant

fun ev_time :: "cb_event \<Rightarrow> instant" where
  "ev_time (EvAllow t) = t"
| "ev_time (EvTimeout t _) = t"
| "ev_time (EvSuccess t) = t"

fun cb_apply :: "cb_event \<Rightarrow> CircuitBreaker \<Rightarrow> bool option \<times> CircuitBreaker" where
  "cb_apply (EvAllow t) cb = (let (b, cb') = Allow t cb in (Some b, cb'))"
| "cb_apply (EvTimeout t d) cb = (None, RecordTimeout t d cb)"
| "cb_apply (EvSuccess t) cb = (None, RecordSuccess cb)"

fun cb_run :: "CircuitBreaker \<Rightarrow> cb_event list \<Rightarrow> bool option list \<times> CircuitBreaker" where
  "cb_run cb [] = ([], cb)"
| "cb_run cb (e # es) =
     (let (r, cb') = cb_apply e cb; (rs, cb'') = cb_run cb' es in (r # rs, cb''))"

text \<open>A state of the machine is the breaker together with the last clock reading.\<close>

inductive cb_step :: "CircuitBreaker \<times> instant \<Rightarrow> CircuitBreaker \<times> instant \<Rightarrow> bool" where
  "t \<le> ev_time e \<Longrightarrow> cb_step (cb, t) (snd (cb_apply e cb), ev_time e)"

inductive_cases cb_stepE: "cb_step s t"

definition cb_init :: "CircuitBreaker \<times> instant \<Rightarrow> bool" where
  "cb_init s \<longleftrightarrow> (\<exists>cfg t. s = (New cfg, t))"

definition cb_inv :: "CircuitBreaker \<times> instant \<Rightarrow> bool" where
  "cb_inv s \<longleftrightarrow> (case s of (cb, t) \<Rightarrow>
      0 < FailureThreshold (cb_cfg cb) \<and> 0 < OpenDuration (cb_cfg cb)
    \<and> 0 < WindowDuration (cb_cfg cb) \<and> 0 < TimeoutThreshold (cb_cfg cb)
    \<and> probeInFlight cb = (cb_state cb = HalfOpen)
    \<and> (cb_state cb \<noteq> Closed \<longrightarrow> timeoutStamps cb = [])
    \<and> int (length (timeoutStamps cb)) < FailureThreshold (cb_cfg cb)
    \<and> sorted (timeoutStamps cb) \<and> (\<forall>x \<in> set (timeoutStamps cb). x \<le> t)
    \<and> (cb_state cb \<noteq> Closed \<longrightarrow> openedAt cb \<le> t))"

section \<open>Lemmas\<close>

lemma New_config_positive:
  "0 < TimeoutThreshold (New_config cfg) \<and> 0 < WindowDuration (New_config cfg)
   \<and> 0 < FailureThreshold (New_config cfg) \<and> 0 < OpenDuration (New_config cfg)"
  by (simp add: New_config_def DefaultConfig_def Let_def)

lemma cb_inv_New: "cb_inv (New cfg, t)"
  using New_config_positive [of cfg] by (simp add: cb_inv_def New_def)

lemma cb_inv_Allow: "cb_inv (cb, t) \<Longrightarrow> t \<le> now \<Longrightarrow> cb_inv (snd (Allow now cb), now)"
  by (fastforce simp: cb_inv_def Allow_def split: cb_state.splits)

lemma cb_inv_RecordSuccess: "cb_inv (cb, t) \<Longrightarrow> t \<le> now \<Longrightarrow> cb_inv (RecordSuccess cb, now)"
  by (fastforce simp: cb_inv_def RecordSuccess_def split: cb_state.splits)

lemma cb_inv_trip: "cb_inv (cb, t) \<Longrightarrow> cb_inv (trip now cb, now)"
  by (simp add: cb_inv_def trip_def)

lemma cb_inv_RecordTimeout:
  assumes "cb_inv (cb, t)" and "t \<le> now"
  shows "cb_inv (RecordTimeout now d cb, now)"
  using assms
  by (cases "cb_state cb")
    (fastforce simp: cb_inv_def RecordTimeout_def trip_def pruneStamps_def Let_def sorted_append
       sorted_dropWhile dest: set_dropWhileD)+

interpretation breaker: invariant_system cb_init cb_step cb_inv
proof unfold_locales
  show "cb_init s \<Longrightarrow> cb_inv s" for s
    by (auto simp: cb_init_def cb_inv_New)
  show "cb_inv s \<Longrightarrow> cb_step s t \<Longrightarrow> cb_inv t" for s t
  proof (erule cb_stepE)
    fix t1 e cb
    assume "cb_inv s" "s = (cb, t1)" "t = (snd (cb_apply e cb), ev_time e)" "t1 \<le> ev_time e"
    then show "cb_inv t"
      by (cases e) (auto simp: cb_inv_Allow cb_inv_RecordSuccess cb_inv_RecordTimeout split: prod.splits
          dest: cb_inv_Allow)
  qed
qed


lemma pruneStamps_window:
  assumes "cb_inv (cb, t)"
  shows "timeoutStamps (pruneStamps now cb) =
    filter (\<lambda>s. now - s \<le> WindowDuration (cb_cfg cb)) (timeoutStamps cb)"
proof -
  have "timeoutStamps (pruneStamps now cb) =
      filter (\<lambda>s. \<not> s < now - WindowDuration (cb_cfg cb)) (timeoutStamps cb)"
    using assms by (simp add: pruneStamps_def Let_def cb_inv_def dropWhile_eq_filter)
  also have "\<dots> = filter (\<lambda>s. now - s \<le> WindowDuration (cb_cfg cb)) (timeoutStamps cb)"
    by (rule filter_cong) auto
  finally show ?thesis .
qed

lemma Allow_open_early:
  "cb_state cb = Open \<Longrightarrow> now < openedAt cb + OpenDuration (cb_cfg cb) \<Longrightarrow> Allow now cb = (False, cb)"
  by (simp add: Allow_def)

lemma cb_run_Cons:
  "fst (cb_run cb (e # es)) = fst (cb_apply e cb) # fst (cb_run (snd (cb_apply e cb)) es)"
  "snd (cb_run cb (e # es)) = snd (cb_run (snd (cb_apply e cb)) es)"
  by (simp_all add: case_prod_unfold Let_def)

lemma cb_run_absorbing:
  assumes "\<And>e. e \<in> set es \<Longrightarrow> cb_apply e cb \<in> {(None, cb), (Some False, cb)}"
  shows "Some True \<notin> set (fst (cb_run cb es)) \<and> snd (cb_run cb es) = cb"
  using assms
proof (induction es)
  case (Cons e es)
  have IH: "Some True \<notin> set (fst (cb_run cb es)) \<and> snd (cb_run cb es) = cb"
    using Cons by simp
  have "cb_apply e cb = (None, cb) \<or> cb_apply e cb = (Some False, cb)"
    using Cons.prems by auto
  with IH show ?case by (elim disjE) (simp_all add: cb_run_Cons del: cb_run.simps)
qed simp

lemma cb_apply_open:
  assumes "cb_state cb = Open" and "ev_time e < openedAt cb + OpenDuration (cb_cfg cb)"
  shows "cb_apply e cb \<in> {(None, cb), (Some False, cb)}"
  using assms by (cases e) (auto simp: Allow_open_early RecordTimeout_def RecordSuccess_def)

fun reports_result :: "CircuitBreaker \<Rightarrow> cb_event \<Rightarrow> bool" where
  "reports_result cb (EvAllow _) = False"
| "reports_result cb (EvTimeout _ d) = (TimeoutThreshold (cb_cfg cb) \<le> d)"
| "reports_result cb (EvSuccess _) = True"

lemma cb_apply_probing:
  assumes "cb_state cb = HalfOpen" and "probeInFlight cb" and "\<not> reports_result cb e"
  shows "cb_apply e cb \<in> {(None, cb), (Some False, cb)}"
  using assms by (cases e) (auto simp: Allow_def RecordTimeout_def)

section \<open>Properties\<close>

text \<open>C35: Every state a breaker can reach from \<open>New\<close> by calls at non-decreasing clock readings
  satisfies the invariant: the configuration is positive, a probe is in flight exactly in the
  half-open state, stamps are kept only while closed, are sorted, lie in the past and stay below
  the failure threshold.\<close>

theorem breaker_invariant:
  assumes "cb_step\<^sup>*\<^sup>* (New cfg, t0) (cb, t)"
  shows "cb_inv (cb, t)"
  by (rule breaker.invar_reachable [OF _ assms]) (auto simp: cb_init_def)

theorem breaker_invariant_witness:
  "cb_inv (RecordTimeout 70 (31 * second) (New DefaultConfig), 70)"
proof -
  have "cb_step (New DefaultConfig, 0)
      (snd (cb_apply (EvTimeout 70 (31 * second)) (New DefaultConfig)), ev_time (EvTimeout 70 (31 * second)))"
    by (rule cb_step.intros) simp
  then have "cb_step\<^sup>*\<^sup>* (New DefaultConfig, 0) (RecordTimeout 70 (31 * second) (New DefaultConfig), 70)"
    by simp
  then show ?thesis by (rule breaker_invariant)
qed

text \<open>What \<open>RecordTimeout\<close> does with a qualifying timeout in the closed state, against the
  documented rule: with \<open>recent\<close> the recorded timeouts inside the sliding window, the circuit
  opens at once when \<open>recent\<close> and this timeout together reach the failure threshold, and
  otherwise stays closed and remembers exactly \<open>recent\<close> and this timeout.\<close>

theorem RecordTimeout_closed:
  assumes "cb_inv (cb, t)" and "t \<le> now" and "cb_state cb = Closed"
    and "TimeoutThreshold (cb_cfg cb) \<le> elapsed"
    and "recent = filter (\<lambda>s. now - s \<le> WindowDuration (cb_cfg cb)) (timeoutStamps cb)"
  shows "RecordTimeout now elapsed cb =
    (if FailureThreshold (cb_cfg cb) \<le> int (length recent) + 1
     then cb\<lparr>cb_state := Open, openedAt := now, probeInFlight := False, timeoutStamps := []\<rparr>
     else cb\<lparr>timeoutStamps := recent @ [now]\<rparr>)"
proof -
  have "timeoutStamps (pruneStamps now cb) = recent"
    using pruneStamps_window [OF assms(1)] assms(5) by simp
  moreover have "cb_cfg (pruneStamps now cb) = cb_cfg cb"
    and "(pruneStamps now cb)\<lparr>timeoutStamps := xs\<rparr> = cb\<lparr>timeoutStamps := xs\<rparr>" for xs
    by (simp_all add: pruneStamps_def Let_def)
  ultimately show ?thesis
    using assms(3,4) by (simp add: RecordTimeout_def trip_def Let_def)
qed

theorem RecordTimeout_closed_witness:
  "cb_inv (New DefaultConfig, 0) \<and>
   RecordTimeout 5 (30 * second) (New DefaultConfig) = (New DefaultConfig)\<lparr>timeoutStamps := [5]\<rparr>"
proof -
  have "RecordTimeout 5 (30 * second) (New DefaultConfig) =
      (if FailureThreshold (cb_cfg (New DefaultConfig)) \<le> int (length ([] :: int list)) + 1
       then (New DefaultConfig)\<lparr>cb_state := Open, openedAt := 5, probeInFlight := False, timeoutStamps := []\<rparr>
       else (New DefaultConfig)\<lparr>timeoutStamps := [] @ [5]\<rparr>)"
    by (rule RecordTimeout_closed [OF cb_inv_New [where t = 0]])
      (simp_all add: New_def New_config_def DefaultConfig_def)
  then show ?thesis by (simp add: cb_inv_New) (simp add: New_def New_config_def DefaultConfig_def)
qed

text \<open>Fast fail. While the circuit is open and the cool-down has not elapsed, no sequence of
  calls, whatever it reports, gets a request admitted, and none of them changes the breaker.\<close>

theorem open_rejects_all:
  assumes "cb_state cb = Open"
    and "\<forall>e \<in> set es. ev_time e < openedAt cb + OpenDuration (cb_cfg cb)"
  shows "Some True \<notin> set (fst (cb_run cb es)) \<and> snd (cb_run cb es) = cb"
  using assms by (intro cb_run_absorbing cb_apply_open) auto

theorem open_rejects_all_witness:
  "Some True \<notin> set (fst (cb_run (trip 10 (New DefaultConfig))
     [EvAllow 11, EvSuccess 12, EvTimeout 13 (40 * second), EvAllow (89 * second)]))"
proof -
  have "Some True \<notin> set (fst (cb_run (trip 10 (New DefaultConfig))
     [EvAllow 11, EvSuccess 12, EvTimeout 13 (40 * second), EvAllow (89 * second)])) \<and>
     snd (cb_run (trip 10 (New DefaultConfig))
     [EvAllow 11, EvSuccess 12, EvTimeout 13 (40 * second), EvAllow (89 * second)]) =
     trip 10 (New DefaultConfig)"
    by (rule open_rejects_all) (simp_all add: trip_def New_def New_config_def DefaultConfig_def)
  then show ?thesis by blast
qed

text \<open>Single probe. Once the cool-down has elapsed the next \<open>Allow\<close> is granted, and after it no
  further request is admitted until the probe's outcome is reported; a timeout below the
  configured threshold is not such a report, so a probe that ends that way leaves the breaker
  half-open and rejecting.\<close>

theorem half_open_single_probe:
  assumes "cb_state cb = Open" and "openedAt cb + OpenDuration (cb_cfg cb) \<le> now"
    and "\<forall>e \<in> set es. \<not> reports_result cb e"
  shows "\<exists>rs cb'. cb_run cb (EvAllow now # es) = (Some True # rs, cb') \<and> Some True \<notin> set rs
    \<and> cb_state cb' = HalfOpen \<and> probeInFlight cb'"
proof -
  define p where "p = cb\<lparr>cb_state := HalfOpen, probeInFlight := True\<rparr>"
  have a: "cb_apply (EvAllow now) cb = (Some True, p)"
    using assms(1,2) by (simp add: Allow_def p_def)
  have "reports_result p e = reports_result cb e" for e
    by (cases e) (simp_all add: p_def)
  then have "Some True \<notin> set (fst (cb_run p es)) \<and> snd (cb_run p es) = p"
    using assms(3) by (intro cb_run_absorbing cb_apply_probing) (auto simp: p_def)
  then show ?thesis
    using a by (intro exI [of _ "fst (cb_run p es)"] exI [of _ p]) (auto simp: p_def split: prod.splits)
qed

theorem half_open_single_probe_witness:
  "\<exists>rs cb'. cb_run (trip 0 (New DefaultConfig)) [EvAllow (90 * second), EvAllow (91 * second),
     EvTimeout (92 * second) (2 * second)] = (Some True # rs, cb') \<and> Some True \<notin> set rs
    \<and> cb_state cb' = HalfOpen \<and> probeInFlight cb'"
  by (rule half_open_single_probe) (simp_all add: trip_def New_def New_config_def DefaultConfig_def)

end
