(* ===== verification/Coordination.thy ===== *)
theory Coordination
  imports Prelude "HOL-Library.Char_ord" "HOL-Library.List_Lexorder"
begin

text \<open>
  One node of the coordination cluster (\<open>src/internal/distributed/coordination/coordination.go\<close>):
  configuration, the message handlers, the timers, \<open>Tick\<close> and the leader's work distribution.

  A Go map that may be \<open>nil\<close> (\<open>votes\<close>, \<open>acks\<close>) is an option; writing to a nil map panics, so the
  handlers that write are partial and \<open>None\<close> is the panic. \<open>votes\<close> only ever stores \<open>true\<close> and is a
  set. The random generator is the argument \<open>r\<close> of an operation: \<open>IntN(span)\<close> is \<open>r mod span\<close>.
  Terms and ticks are \<open>uint64\<close> and wrap. The theory ends with the lemmas on a single node: handlers
  never lower the term, an isolated leader steps down, and \<open>Assign\<close> distributes work evenly.
\<close>

section \<open>Data\<close>

datatype Role = Follower | Candidate | Leader

definition Role_String :: "Role \<Rightarrow> string" where
  "Role_String r = (case r of Candidate \<Rightarrow> ''candidate'' | Leader \<Rightarrow> ''leader'' | _ \<Rightarrow> ''follower'')"

datatype MessageType = MsgRequestVote | MsgRequestVoteResp | MsgAppendEntries | MsgAppendEntriesResp

record Message =
  m_Type :: MessageType
  m_Term :: u64
  m_From :: string
  m_To :: string
  VoteGranted :: bool
  Success :: bool
  m_LeaderID :: string

definition message :: "MessageType \<Rightarrow> u64 \<Rightarrow> string \<Rightarrow> string \<Rightarrow> Message" where
  "message ty t frm dst = \<lparr>m_Type = ty, m_Term = t, m_From = frm, m_To = dst,
     VoteGranted = False, Success = False, m_LeaderID = []\<rparr>"

record WorkItem =
  w_ID :: string
  w_Tier :: string
  w_Data :: "byte list"

record NodeConfig =
  c_ID :: string
  c_Peers :: "string list"
  HeartbeatTicks :: int
  ElectionTicksMin :: int
  ElectionTicksMax :: int
  QuorumLossTicks :: int
  QuorumAckTicks :: int
  TickInterval :: duration

record Node =
  cfg :: NodeConfig
  n_id :: string
  peers :: "string list"
  members :: "string list"
  role :: Role
  currentTerm :: u64
  votedFor :: string
  leaderID :: string
  electionTimeout :: int
  electionElapsed :: int
  votes :: "string set option"
  heartbeatElapsed :: int
  acks :: "(string \<rightharpoonup> u64) option"
  quorumMissTicks :: int
  rrIndex :: nat
  nodeLoad :: "string \<Rightarrow> int"
  tick :: u64
  inbox :: "Message list"
  outbox :: "Message list"
  running :: bool

section \<open>Construction\<close>

definition defaultHeartbeatTicks :: int where "defaultHeartbeatTicks = 1"
definition defaultElectionMin :: int where "defaultElectionMin = 8"
definition defaultElectionMax :: int where "defaultElectionMax = 15"
definition defaultQuorumLossTicks :: int where "defaultQuorumLossTicks = 5"
definition defaultQuorumAckTicks :: int where "defaultQuorumAckTicks = 3"
definition defaultTickInterval :: duration where "defaultTickInterval = 50000000"

lemmas default_defs = defaultHeartbeatTicks_def defaultElectionMin_def defaultElectionMax_def
  defaultQuorumLossTicks_def defaultQuorumAckTicks_def defaultTickInterval_def

definition NewNode_config :: "NodeConfig \<Rightarrow> NodeConfig" where
  "NewNode_config c0 = (let
     c1 = (if HeartbeatTicks c0 \<le> 0 then c0\<lparr>HeartbeatTicks := defaultHeartbeatTicks\<rparr> else c0);
     c2 = (if ElectionTicksMin c1 \<le> 0 then c1\<lparr>ElectionTicksMin := defaultElectionMin\<rparr> else c1);
     c3 = (if ElectionTicksMax c2 \<le> ElectionTicksMin c2
           then c2\<lparr>ElectionTicksMax := ElectionTicksMin c2 + (defaultElectionMax - defaultElectionMin)\<rparr>
           else c2);
     c4 = (if QuorumLossTicks c3 \<le> 0 then c3\<lparr>QuorumLossTicks := defaultQuorumLossTicks\<rparr> else c3);
     c5 = (if QuorumAckTicks c4 \<le> 0 then c4\<lparr>QuorumAckTicks := defaultQuorumAckTicks\<rparr> else c4);
     c6 = (if TickInterval c5 \<le> 0 then c5\<lparr>TickInterval := defaultTickInterval\<rparr> else c5)
   in c6)"

definition pickTimeout :: "nat \<Rightarrow> NodeConfig \<Rightarrow> int" where
  "pickTimeout r c = (let lo = ElectionTicksMin c; hi = ElectionTicksMax c in
     if hi \<le> lo then lo else lo + int (r mod nat (hi - lo)))"

definition NewNode :: "nat \<Rightarrow> NodeConfig \<Rightarrow> Node" where
  "NewNode r c0 = (let c = NewNode_config c0; ms = sort (c_ID c # c_Peers c) in
     \<lparr>cfg = c, n_id = c_ID c, peers = c_Peers c, members = ms, role = Follower, currentTerm = 0,
      votedFor = [], leaderID = [], electionTimeout = pickTimeout r c, electionElapsed = 0,
      votes = None, heartbeatElapsed = 0, acks = None, quorumMissTicks = 0,
      rrIndex = length ms - 1, nodeLoad = (\<lambda>_. 0), tick = 0, inbox = [], outbox = [],
      running = False\<rparr>)"

section \<open>Handlers and timers\<close>

definition majorityOf :: "nat \<Rightarrow> nat" where
  "majorityOf n = n div 2 + 1"

definition sendLocked :: "Message \<Rightarrow> Node \<Rightarrow> Node" where
  "sendLocked m n = n\<lparr>outbox := outbox n @ [m]\<rparr>"

definition becomeFollowerLocked :: "u64 \<Rightarrow> Node \<Rightarrow> Node" where
  "becomeFollowerLocked term n = n\<lparr>role := Follower, currentTerm := term, leaderID := [],
     votedFor := [], votes := None, acks := None, electionElapsed := 0\<rparr>"

definition becomeLeaderLocked :: "Node \<Rightarrow> Node" where
  "becomeLeaderLocked n = n\<lparr>role := Leader, leaderID := n_id n, votedFor := n_id n,
     acks := Some [n_id n \<mapsto> tick n], quorumMissTicks := 0,
     heartbeatElapsed := HeartbeatTicks (cfg n)\<rparr>"

definition broadcastHeartbeatLocked :: "Node \<Rightarrow> Node" where
  "broadcastHeartbeatLocked n =
     fold (\<lambda>peer. sendLocked
        ((message MsgAppendEntries (currentTerm n) (n_id n) peer)\<lparr>m_LeaderID := n_id n\<rparr>)) (peers n) n"

definition freshAck :: "Node \<Rightarrow> string \<Rightarrow> bool" where
  "freshAck n peer = (case acks n of None \<Rightarrow> False | Some a \<Rightarrow>
     (case a peer of None \<Rightarrow> False | Some t \<Rightarrow> tick n - t \<le> word_of_int (QuorumAckTicks (cfg n))))"

definition hasQuorumLocked :: "Node \<Rightarrow> bool" where
  "hasQuorumLocked n \<longleftrightarrow>
     majorityOf (length (members n)) \<le> 1 + length (filter (freshAck n) (peers n))"

definition startElectionLocked :: "nat \<Rightarrow> Node \<Rightarrow> Node" where
  "startElectionLocked r n0 = (let
     vs = {n_id n0};
     n1 = n0\<lparr>role := Candidate, currentTerm := currentTerm n0 + 1, votedFor := n_id n0,
        leaderID := [], votes := Some vs, electionTimeout := pickTimeout r (cfg n0),
        electionElapsed := 0\<rparr>;
     n2 = fold (\<lambda>peer. sendLocked (message MsgRequestVote (currentTerm n1) (n_id n1) peer)) (peers n1) n1
   in if majorityOf (length (members n2)) \<le> card vs then becomeLeaderLocked n2 else n2)"

definition stepTimersLocked :: "nat \<Rightarrow> Node \<Rightarrow> Node" where
  "stepTimersLocked r n0 = (case role n0 of
     Leader \<Rightarrow>
       (let n1 = n0\<lparr>heartbeatElapsed := heartbeatElapsed n0 + 1\<rparr>;
            n2 = (if HeartbeatTicks (cfg n1) \<le> heartbeatElapsed n1
                  then (broadcastHeartbeatLocked n1)\<lparr>heartbeatElapsed := 0\<rparr> else n1)
        in if hasQuorumLocked n2 then n2\<lparr>quorumMissTicks := 0\<rparr>
           else let n3 = n2\<lparr>quorumMissTicks := quorumMissTicks n2 + 1\<rparr>
                in if QuorumLossTicks (cfg n3) \<le> quorumMissTicks n3
                   then becomeFollowerLocked (currentTerm n3) n3 else n3)
   | _ \<Rightarrow>
       (let n1 = n0\<lparr>electionElapsed := electionElapsed n0 + 1\<rparr>
        in if electionTimeout n1 \<le> electionElapsed n1 then startElectionLocked r n1 else n1))"

definition handleRequestVoteLocked :: "Message \<Rightarrow> Node \<Rightarrow> Node" where
  "handleRequestVoteLocked m n0 = (let
     n1 = (if currentTerm n0 < m_Term m
           then n0\<lparr>currentTerm := m_Term m, role := Follower, votedFor := [], leaderID := []\<rparr> else n0);
     granted = (m_Term m = currentTerm n1 \<and> (votedFor n1 = [] \<or> votedFor n1 = m_From m));
     n2 = (if granted then n1\<lparr>votedFor := m_From m, leaderID := [], electionElapsed := 0\<rparr> else n1)
   in sendLocked ((message MsgRequestVoteResp (currentTerm n2) (n_id n2) (m_From m))
        \<lparr>VoteGranted := granted\<rparr>) n2)"

definition handleRequestVoteRespLocked :: "Message \<Rightarrow> Node \<Rightarrow> Node option" where
  "handleRequestVoteRespLocked m n =
     (if currentTerm n < m_Term m then Some (becomeFollowerLocked (m_Term m) n)
      else if role n \<noteq> Candidate \<or> m_Term m \<noteq> currentTerm n \<or> \<not> VoteGranted m then Some n
      else case votes n of
        None \<Rightarrow> None
      | Some vs \<Rightarrow>
          (let vs' = insert (m_From m) vs; n1 = n\<lparr>votes := Some vs'\<rparr>
           in Some (if majorityOf (length (members n1)) \<le> card vs' then becomeLeaderLocked n1 else n1)))"

definition handleAppendEntriesLocked :: "Message \<Rightarrow> Node \<Rightarrow> Node" where
  "handleAppendEntriesLocked m n =
     (if m_Term m < currentTerm n
      then sendLocked (message MsgAppendEntriesResp (currentTerm n) (n_id n) (m_From m)) n
      else let
        n1 = (if currentTerm n < m_Term m then n\<lparr>currentTerm := m_Term m, votedFor := []\<rparr> else n);
        n2 = n1\<lparr>role := Follower, leaderID := m_LeaderID m, electionElapsed := 0\<rparr>
      in sendLocked ((message MsgAppendEntriesResp (currentTerm n2) (n_id n2) (m_LeaderID m))
           \<lparr>Success := True\<rparr>) n2)"

definition handleAppendEntriesRespLocked :: "Message \<Rightarrow> Node \<Rightarrow> Node option" where
  "handleAppendEntriesRespLocked m n =
     (if currentTerm n < m_Term m then Some (becomeFollowerLocked (m_Term m) n)
      else if role n \<noteq> Leader \<or> m_Term m \<noteq> currentTerm n then Some n
      else if Success m
        then (case acks n of None \<Rightarrow> None | Some a \<Rightarrow> Some (n\<lparr>acks := Some (a(m_From m \<mapsto> tick n))\<rparr>))
      else Some n)"

definition handleLocked :: "Message \<Rightarrow> Node \<Rightarrow> Node option" where
  "handleLocked m n = (case m_Type m of
     MsgRequestVote \<Rightarrow> Some (handleRequestVoteLocked m n)
   | MsgRequestVoteResp \<Rightarrow> handleRequestVoteRespLocked m n
   | MsgAppendEntries \<Rightarrow> Some (handleAppendEntriesLocked m n)
   | MsgAppendEntriesResp \<Rightarrow> handleAppendEntriesRespLocked m n)"

fun handleAll :: "Message list \<Rightarrow> Node \<Rightarrow> Node option" where
  "handleAll [] n = Some n"
| "handleAll (m # ms) n = (case handleLocked m n of None \<Rightarrow> None | Some n' \<Rightarrow> handleAll ms n')"

section \<open>The node's interface\<close>

definition Receive :: "Message \<Rightarrow> Node \<Rightarrow> Node" where
  "Receive m n = n\<lparr>inbox := inbox n @ [m]\<rparr>"

text \<open>\<open>Tick\<close> returns the new node and the messages it hands to the transport after unlocking.\<close>

definition Tick :: "nat \<Rightarrow> Node \<Rightarrow> (Node \<times> Message list) option" where
  "Tick r n0 = (let n1 = n0\<lparr>tick := tick n0 + 1, inbox := []\<rparr> in
     case handleAll (inbox n0) n1 of
       None \<Rightarrow> None
     | Some n2 \<Rightarrow> (let n3 = stepTimersLocked r n2 in Some (n3\<lparr>outbox := []\<rparr>, outbox n3)))"

definition Start :: "Node \<Rightarrow> Node" where
  "Start n = (if running n then n else n\<lparr>running := True\<rparr>)"

definition Stop :: "Node \<Rightarrow> Node" where
  "Stop n = (if \<not> running n then n else n\<lparr>running := False\<rparr>)"

datatype coord_error = ErrNotLeader | ErrUnknownNode string

definition Assign :: "WorkItem \<Rightarrow> Node \<Rightarrow> (coord_error + string) \<times> Node" where
  "Assign item n =
     (if role n \<noteq> Leader then (Inl ErrNotLeader, n)
      else let i = (rrIndex n + 1) mod length (members n); target = members n ! i
           in (Inr target, n\<lparr>rrIndex := i, nodeLoad := (nodeLoad n)(target := nodeLoad n target + 1)\<rparr>))"

definition NodeLoad :: "Node \<Rightarrow> (string \<rightharpoonup> int)" where
  "NodeLoad n = (\<lambda>m. if m \<in> set (members n) then Some (nodeLoad n m) else None)"

lemmas handler_defs = handleLocked_def handleRequestVoteLocked_def handleRequestVoteRespLocked_def
  handleAppendEntriesLocked_def handleAppendEntriesRespLocked_def becomeFollowerLocked_def
  becomeLeaderLocked_def sendLocked_def message_def


section \<open>Basic lemmas\<close>

lemma fold_sendLocked:
  "fold (\<lambda>p. sendLocked (f p)) ps n = n\<lparr>outbox := outbox n @ map f ps\<rparr>"
  by (induction ps arbitrary: n) (simp_all add: sendLocked_def)

lemma startElectionLocked_eq:
  "startElectionLocked r n = (let
     n2 = n\<lparr>role := Candidate, currentTerm := currentTerm n + 1, votedFor := n_id n, leaderID := [],
       votes := Some {n_id n}, electionTimeout := pickTimeout r (cfg n), electionElapsed := 0,
       outbox := outbox n @ map (message MsgRequestVote (currentTerm n + 1) (n_id n)) (peers n)\<rparr>
     in if majorityOf (length (members n)) \<le> 1 then becomeLeaderLocked n2 else n2)"
  by (simp add: startElectionLocked_def fold_sendLocked Let_def)

lemma broadcastHeartbeatLocked_eq:
  "broadcastHeartbeatLocked n = n\<lparr>outbox := outbox n @ map (\<lambda>peer.
     (message MsgAppendEntries (currentTerm n) (n_id n) peer)\<lparr>m_LeaderID := n_id n\<rparr>) (peers n)\<rparr>"
  by (simp add: broadcastHeartbeatLocked_def fold_sendLocked)

lemma NewNode_config_id [simp]:
  "c_ID (NewNode_config c) = c_ID c" "c_Peers (NewNode_config c) = c_Peers c"
  by (simp_all add: NewNode_config_def Let_def)

lemma NewNode_config_positive:
  "0 < HeartbeatTicks (NewNode_config c) \<and> 0 < QuorumLossTicks (NewNode_config c)
   \<and> 0 < QuorumAckTicks (NewNode_config c)
   \<and> 0 < ElectionTicksMin (NewNode_config c)
   \<and> ElectionTicksMin (NewNode_config c) < ElectionTicksMax (NewNode_config c)"
  by (simp add: NewNode_config_def Let_def default_defs)

lemma pickTimeout_range:
  assumes "ElectionTicksMin c < ElectionTicksMax c"
  shows "ElectionTicksMin c \<le> pickTimeout r c \<and> pickTimeout r c < ElectionTicksMax c"
proof -
  have "r mod nat (ElectionTicksMax c - ElectionTicksMin c) < nat (ElectionTicksMax c - ElectionTicksMin c)"
    using assms by (intro mod_less_divisor) simp
  then show ?thesis using assms by (simp add: pickTimeout_def Let_def zless_nat_eq_int_zless)
qed

lemma inc_greater: "(t :: u64) < - 1 \<Longrightarrow> t < t + 1"
  by (rule ccontr) (simp add: not_less inc_less_eq_self_iff_eq)


section \<open>A leader that hears nothing\<close>

text \<open>\<open>k\<close> ticks of a node whose inbox stays empty; \<open>d\<close> supplies the random draws.\<close>

fun idleTicks :: "(nat \<Rightarrow> nat) \<Rightarrow> nat \<Rightarrow> Node \<Rightarrow> Node option" where
  "idleTicks d 0 n = Some n"
| "idleTicks d (Suc k) n = (case idleTicks d k n of None \<Rightarrow> None
     | Some n' \<Rightarrow> (case Tick (d k) n' of None \<Rightarrow> None | Some (n'', out) \<Rightarrow> Some n''))"

text \<open>
  \<open>silent n0 k n\<close>: what is left of a leader \<open>n0\<close> after \<open>k\<close> silent ticks. Once every ack is older
  than the freshness window, the miss counter grows with every tick and stays below its limit only
  while the node leads.
\<close>

definition silent :: "Node \<Rightarrow> nat \<Rightarrow> Node \<Rightarrow> bool" where
  "silent n0 k n \<longleftrightarrow> cfg n = cfg n0 \<and> peers n = peers n0 \<and> members n = members n0 \<and> inbox n = []
    \<and> (role n = Leader \<longrightarrow> acks n = acks n0 \<and> tick n = tick n0 + of_nat k \<and> 0 \<le> quorumMissTicks n
         \<and> (0 < k \<longrightarrow> quorumMissTicks n < QuorumLossTicks (cfg n0))
         \<and> int k - QuorumAckTicks (cfg n0) \<le> quorumMissTicks n)"

lemma Tick_silent_eq:
  "inbox n = [] \<Longrightarrow> Tick r n = (let n3 = stepTimersLocked r (n\<lparr>tick := tick n + 1, inbox := []\<rparr>)
     in Some (n3\<lparr>outbox := []\<rparr>, outbox n3))"
  by (simp add: Tick_def Let_def)

lemma hasQuorum_stale:
  assumes "2 \<le> length (members n)" and "\<And>p. \<not> freshAck n p"
  shows "\<not> hasQuorumLocked n"
proof -
  have "filter (freshAck n) (peers n) = []" using assms(2) by (simp add: filter_empty_conv)
  then show ?thesis using assms(1) by (simp add: hasQuorumLocked_def majorityOf_def)
qed

lemma stepTimers_nonleader:
  assumes "role n \<noteq> Leader" and "2 \<le> length (members n)"
  shows "role (stepTimersLocked r n) \<noteq> Leader"
proof -
  have "\<not> majorityOf (length (members n)) \<le> 1" using assms(2) by (simp add: majorityOf_def)
  then show ?thesis
    using assms(1) by (auto simp: stepTimersLocked_def startElectionLocked_eq Let_def split: Role.splits)
qed

lemma stepTimers_frame:
  "cfg (stepTimersLocked r n) = cfg n" "peers (stepTimersLocked r n) = peers n"
  "members (stepTimersLocked r n) = members n" "inbox (stepTimersLocked r n) = inbox n"
  by (simp_all add: stepTimersLocked_def startElectionLocked_eq broadcastHeartbeatLocked_eq
      becomeFollowerLocked_def becomeLeaderLocked_def Let_def split: Role.splits)

lemma freshAck_cong:
  "acks n' = acks n \<Longrightarrow> tick n' = tick n \<Longrightarrow> cfg n' = cfg n \<Longrightarrow> freshAck n' = freshAck n"
  by (simp add: freshAck_def fun_eq_iff split: option.splits)

lemma hasQuorum_cong:
  "acks n' = acks n \<Longrightarrow> tick n' = tick n \<Longrightarrow> cfg n' = cfg n \<Longrightarrow> peers n' = peers n \<Longrightarrow> members n' = members n
   \<Longrightarrow> hasQuorumLocked n' = hasQuorumLocked n"
  using freshAck_cong [of n' n] by (simp add: hasQuorumLocked_def)

lemma stepTimers_leader:
  assumes "role n = Leader"
  shows "role (stepTimersLocked r n) = Leader \<Longrightarrow>
      acks (stepTimersLocked r n) = acks n \<and> tick (stepTimersLocked r n) = tick n \<and>
      quorumMissTicks (stepTimersLocked r n) =
        (if hasQuorumLocked n then 0 else quorumMissTicks n + 1) \<and>
      (hasQuorumLocked n \<or> quorumMissTicks n + 1 < QuorumLossTicks (cfg n))"
proof -
  have "hasQuorumLocked (n\<lparr>outbox := out, heartbeatElapsed := h\<rparr>) = hasQuorumLocked n"
    "hasQuorumLocked (n\<lparr>heartbeatElapsed := h\<rparr>) = hasQuorumLocked n" for h out
    by (rule hasQuorum_cong; simp)+
  then show "role (stepTimersLocked r n) = Leader \<Longrightarrow> ?thesis"
    using assms by (auto simp: stepTimersLocked_def broadcastHeartbeatLocked_eq becomeFollowerLocked_def
        Let_def split: if_splits)
qed

lemma stale_acks:
  assumes "unat (tick n0) + k < 2 ^ 64" and "a p = Some t" "t \<le> tick n0"
    and "QuorumAckTicks (cfg n0) < int k" "0 \<le> QuorumAckTicks (cfg n0)"
  shows "\<not> tick n0 + of_nat k - t \<le> word_of_int (QuorumAckTicks (cfg n0))"
proof -
  have "unat (tick n0 + of_nat k) = unat (tick n0) + k"
    using assms(1) by (simp add: unat_word_ariths unat_of_nat)
  moreover have "unat t \<le> unat (tick n0)" using assms(3) by (simp add: word_le_nat_alt)
  ultimately have "unat (tick n0 + of_nat k - t) = unat (tick n0) + k - unat t"
    by (subst unat_sub) (simp_all add: word_le_nat_alt)
  moreover have "unat (word_of_int (QuorumAckTicks (cfg n0)) :: u64) = nat (QuorumAckTicks (cfg n0))"
    using assms(1,4,5) by (simp flip: nat_uint_eq add: uint_word_of_int take_bit_int_eq_self)
  ultimately have "unat (word_of_int (QuorumAckTicks (cfg n0)) :: u64) < unat (tick n0 + of_nat k - t)"
    using assms(4,5) \<open>unat t \<le> unat (tick n0)\<close> by arith
  then show ?thesis by (simp only: not_le word_less_nat_alt)
qed


lemma silent_step:
  assumes k: "silent n0 k n" and n0: "2 \<le> length (members n0)" "0 \<le> QuorumAckTicks (cfg n0)"
    "acks n0 = Some a" "\<And>p t. a p = Some t \<Longrightarrow> t \<le> tick n0" "unat (tick n0) + Suc k < 2 ^ 64"
    "0 < QuorumLossTicks (cfg n0)"
    and T: "Tick r n = Some (n', out)"
  shows "silent n0 (Suc k) n'"
proof -
  define n1 where "n1 = n\<lparr>tick := tick n + 1, inbox := []\<rparr>"
  have n': "n' = (stepTimersLocked r n1)\<lparr>outbox := []\<rparr>"
    using T k by (simp add: silent_def Tick_silent_eq n1_def Let_def)
  have frame: "cfg n1 = cfg n0" "peers n1 = peers n0" "members n1 = members n0" "inbox n1 = []"
    using k by (simp_all add: silent_def n1_def)
  show ?thesis
  proof (cases "role n' = Leader")
    case False
    then show ?thesis using frame by (simp add: silent_def n' stepTimers_frame)
  next
    case True
    then have lead: "role (stepTimersLocked r n1) = Leader" by (simp add: n')
    have n1L: "role n1 = Leader"
      using lead stepTimers_nonleader [of n1 r] frame n0(1) by auto
    then have n: "acks n1 = Some a" "tick n1 = tick n0 + of_nat (Suc k)" "0 \<le> quorumMissTicks n1"
      "int k - QuorumAckTicks (cfg n0) \<le> quorumMissTicks n1"
      using k n0(3) by (auto simp: silent_def n1_def algebra_simps)
    have stale: "\<not> hasQuorumLocked n1" if "QuorumAckTicks (cfg n0) < int (Suc k)"
    proof (rule hasQuorum_stale)
      show "\<not> freshAck n1 p" for p
        using stale_acks [OF n0(5) _ n0(4) that n0(2), of a p] n frame
        by (auto simp: freshAck_def split: option.splits)
    qed (use frame n0(1) in simp)
    have "int (Suc k) - QuorumAckTicks (cfg n0) \<le> (if hasQuorumLocked n1 then 0 else quorumMissTicks n1 + 1)"
      using stale n(4) by (cases "QuorumAckTicks (cfg n0) < int (Suc k)") auto
    then show ?thesis
      using stepTimers_leader [OF n1L lead] n frame n0(6)
      by (simp add: silent_def n' stepTimers_frame n0(3)) (simp split: if_splits)
  qed
qed

lemma idleTicks_silent:
  assumes "role n0 = Leader" "inbox n0 = []" "2 \<le> length (members n0)" "0 \<le> QuorumAckTicks (cfg n0)"
    "0 < QuorumLossTicks (cfg n0)" "0 \<le> quorumMissTicks n0" "acks n0 = Some a" "\<And>p t. a p = Some t \<Longrightarrow> t \<le> tick n0"
    "unat (tick n0) + k < 2 ^ 64"
  shows "\<exists>n. idleTicks d k n0 = Some n \<and> silent n0 k n"
  using assms(9)
proof (induction k)
  case 0
  then show ?case using assms by (simp add: silent_def)
next
  case (Suc k)
  then obtain n where n: "idleTicks d k n0 = Some n" "silent n0 k n" by auto
  then obtain n' out where T: "Tick (d k) n = Some (n', out)"
    by (auto simp: silent_def Tick_silent_eq Let_def)
  have "silent n0 (Suc k) n'"
    by (rule silent_step [OF n(2) assms(3,4,7,8) _ assms(5) T]) (use Suc.prems in auto)
  with n T show ?case by simp
qed

section \<open>Round-robin assignment\<close>

fun assignAll :: "WorkItem list \<Rightarrow> Node \<Rightarrow> (coord_error + string) list \<times> Node" where
  "assignAll [] n = ([], n)"
| "assignAll (w # ws) n = (let (r, n') = Assign w n; (rs, n'') = assignAll ws n' in (r # rs, n''))"

text \<open>The number of items member \<open>j\<close> of \<open>len\<close> has received after \<open>k\<close> items.\<close>

definition share :: "nat \<Rightarrow> nat \<Rightarrow> nat \<Rightarrow> nat" where
  "share len k j = k div len + (if j < k mod len then 1 else 0)"

lemma share_Suc:
  assumes "0 < len" and "j < len"
  shows "share len (Suc k) j = share len k j + (if j = k mod len then 1 else 0)"
proof (cases "Suc (k mod len) = len")
  case True
  then have "Suc k mod len = 0" "Suc k div len = Suc (k div len)"
    by (simp_all add: mod_Suc div_Suc)
  then show ?thesis using assms True by (auto simp: share_def)
next
  case False
  then have "Suc k mod len = Suc (k mod len)" "Suc k div len = k div len"
    by (simp_all add: mod_Suc div_Suc)
  then show ?thesis by (auto simp: share_def)
qed

definition balanced :: "nat \<Rightarrow> Node \<Rightarrow> bool" where
  "balanced k n \<longleftrightarrow> members n \<noteq> [] \<and> distinct (members n) \<and>
     (rrIndex n + 1) mod length (members n) = k mod length (members n) \<and>
     (\<forall>j < length (members n). nodeLoad n (members n ! j) = int (share (length (members n)) k j))"

lemma Assign_balanced:
  assumes "balanced k n" and "role n = Leader"
  shows "fst (Assign w n) = Inr (members n ! (k mod length (members n)))"
    and "balanced (Suc k) (snd (Assign w n))" and "role (snd (Assign w n)) = Leader"
    and "members (snd (Assign w n)) = members n"
proof -
  let ?len = "length (members n)"
  have len: "0 < ?len" "k mod ?len < ?len" using assms(1) by (auto simp: balanced_def)
  show "fst (Assign w n) = Inr (members n ! (k mod ?len))"
    using assms by (simp add: Assign_def balanced_def Let_def)
  show "role (snd (Assign w n)) = Leader" "members (snd (Assign w n)) = members n"
    using assms(2) by (simp_all add: Assign_def Let_def)
  have "members n ! j = members n ! (k mod ?len) \<longleftrightarrow> j = k mod ?len" if "j < ?len" for j
    using assms(1) that len by (simp add: balanced_def nth_eq_iff_index_eq)
  then show "balanced (Suc k) (snd (Assign w n))"
    using assms len by (auto simp: Assign_def balanced_def share_Suc Let_def mod_Suc)
qed

lemma assignAll_balanced:
  assumes "balanced k n" and "role n = Leader"
  shows "fst (assignAll ws n) =
      map (\<lambda>i. Inr (members n ! ((k + i) mod length (members n)))) [0..<length ws]
    \<and> balanced (k + length ws) (snd (assignAll ws n))"
  using assms
proof (induction ws arbitrary: n k)
  case (Cons w ws)
  note A = Assign_balanced [OF Cons.prems, of w]
  have "fst (assignAll (w # ws) n) = fst (Assign w n) # fst (assignAll ws (snd (Assign w n)))"
    "snd (assignAll (w # ws) n) = snd (assignAll ws (snd (Assign w n)))"
    by (simp_all add: case_prod_unfold Let_def)
  then show ?case
    using Cons.IH [OF A(2,3)] A(1,4)
    by (simp add: upt_conv_Cons map_Suc_upt [symmetric] o_def del: upt_Suc assignAll.simps)
qed simp


lemma assignAll_members: "members (snd (assignAll ws n)) = members n"
  by (induction ws arbitrary: n) (simp_all add: Assign_def Let_def case_prod_unfold)

lemma balanced_start:
  assumes "members n \<noteq> []" "distinct (members n)" "rrIndex n = length (members n) - 1" "nodeLoad n = (\<lambda>_. 0)"
  shows "balanced 0 n"
  using assms by (simp add: balanced_def share_def)

section \<open>Properties of one node\<close>

text \<open>C6: Split-brain prevention. A leader of a cluster of two or more that receives nothing from
  its peers is no longer leader after \<open>QuorumAckTicks + QuorumLossTicks\<close> ticks, whatever the random
  draws are; every one of these ticks returns (the tick counter is assumed not to wrap around).\<close>

theorem isolated_leader_steps_down:
  assumes "role n0 = Leader" "inbox n0 = []" "2 \<le> length (members n0)"
    and "0 \<le> QuorumAckTicks (cfg n0)" "0 < QuorumLossTicks (cfg n0)" "0 \<le> quorumMissTicks n0"
    and "acks n0 = Some a" "\<forall>p t. a p = Some t \<longrightarrow> t \<le> tick n0"
    and "k = nat (QuorumAckTicks (cfg n0) + QuorumLossTicks (cfg n0))" "unat (tick n0) + k < 2 ^ 64"
  shows "\<exists>n. idleTicks d k n0 = Some n \<and> role n \<noteq> Leader"
proof -
  obtain n where n: "idleTicks d k n0 = Some n" "silent n0 k n"
    using idleTicks_silent [of n0 a k d] assms by auto
  have "role n \<noteq> Leader"
    using n(2) assms(4,5,9) by (auto simp: silent_def)
  with n(1) show ?thesis by blast
qed

definition sampleLeader :: Node where
  "sampleLeader = becomeLeaderLocked (NewNode 0 \<lparr>c_ID = ''a'', c_Peers = [''b'', ''c''], HeartbeatTicks = 0,
     ElectionTicksMin = 0, ElectionTicksMax = 0, QuorumLossTicks = 0, QuorumAckTicks = 0, TickInterval = 0\<rparr>)"

lemmas sampleLeader_simps = sampleLeader_def becomeLeaderLocked_def NewNode_def NewNode_config_def
  default_defs Let_def

theorem isolated_leader_steps_down_witness:
  "\<exists>n. idleTicks (\<lambda>_. 0) 8 sampleLeader = Some n \<and> role n \<noteq> Leader"
  by (rule isolated_leader_steps_down [where a = "[''a'' \<mapsto> 0]"])
    (simp_all add: sampleLeader_simps)

text \<open>\<open>Assign\<close> is round-robin over the sorted member list: from a fresh leader the \<open>i\<close>-th item
  goes to member \<open>i mod len\<close>, and after all items member \<open>j\<close> has received exactly its share, so any
  two members differ by at most one item.\<close>

theorem assign_round_robin:
  assumes "role n = Leader" "members n \<noteq> []" "distinct (members n)"
    and "rrIndex n = length (members n) - 1" "nodeLoad n = (\<lambda>_. 0)" "len = length (members n)"
  shows "fst (assignAll ws n) = map (\<lambda>i. Inr (members n ! (i mod len))) [0..<length ws] \<and>
    (\<forall>j < len. nodeLoad (snd (assignAll ws n)) (members n ! j)
        = int (length ws div len + (if j < length ws mod len then 1 else 0)))"
proof -
  show ?thesis
    using assignAll_balanced [OF balanced_start [OF assms(2-5)] assms(1), of ws] assms(6)
      assignAll_members [of ws n]
    by (simp add: balanced_def share_def)
qed

definition sampleItem :: WorkItem where
  "sampleItem = \<lparr>w_ID = ''req-1'', w_Tier = ''cel'', w_Data = []\<rparr>"

theorem assign_round_robin_witness:
  "fst (assignAll (replicate 4 sampleItem) sampleLeader) = [Inr ''a'', Inr ''b'', Inr ''c'', Inr ''a'']
   \<and> nodeLoad (snd (assignAll (replicate 4 sampleItem) sampleLeader)) ''a'' = 2"
proof -
  have "members sampleLeader = [''a'', ''b'', ''c'']"
    by (simp add: sampleLeader_simps)
  moreover have "fst (assignAll (replicate 4 sampleItem) sampleLeader) =
      map (\<lambda>i. Inr (members sampleLeader ! (i mod 3))) [0..<length (replicate 4 sampleItem)] \<and>
    (\<forall>j < 3. nodeLoad (snd (assignAll (replicate 4 sampleItem) sampleLeader)) (members sampleLeader ! j)
        = int (length (replicate 4 sampleItem) div 3 + (if j < length (replicate 4 sampleItem) mod 3 then 1 else 0)))"
    by (rule assign_round_robin) (simp_all add: sampleLeader_simps)
  ultimately show ?thesis by (auto simp: upt_rec dest: spec [of _ 0])
qed

end
