(* ===== verification/Election.thy ===== *)
theory Election
  imports Coordination
begin

text \<open>
  Leader election over an asynchronous network. The nodes of \<open>Coordination\<close> exchange messages
  through any transport that may delay, reorder, duplicate and lose them: a message that was ever
  sent may be delivered to its addressee at any later time, any number of times or never.
\<close>

section \<open>The network\<close>

text \<open>\<open>net_sent\<close> collects every message a node has handed to its transport.\<close>

record Net =
  net_nodes :: "string \<rightharpoonup> Node"
  net_sent :: "Message set"

inductive net_step :: "Net \<Rightarrow> Net \<Rightarrow> bool" where
  deliver: "m \<in> net_sent g \<Longrightarrow> net_nodes g (m_To m) = Some n \<Longrightarrow>
     net_step g (g\<lparr>net_nodes := (net_nodes g)(m_To m \<mapsto> Receive m n)\<rparr>)"
| tick: "net_nodes g i = Some n \<Longrightarrow> currentTerm n < - 1 \<Longrightarrow> Tick r n = Some (n', out) \<Longrightarrow>
     \<forall>m \<in> set (inbox n). m_Term m < - 1 \<Longrightarrow>
     net_step g (g\<lparr>net_nodes := (net_nodes g)(i \<mapsto> n'), net_sent := net_sent g \<union> set out\<rparr>)"

inductive_cases net_stepE: "net_step g g'"


section \<open>The election invariant\<close>

definition grant :: "Message \<Rightarrow> bool" where
  "grant m \<longleftrightarrow> m_Type m = MsgRequestVoteResp \<and> VoteGranted m"

text \<open>
  Vote requests and granted votes go from one member to another, and no member has granted its
  vote of one term to two candidates.
\<close>

definition routed :: "string set \<Rightarrow> Message \<Rightarrow> bool" where
  "routed ids m \<longleftrightarrow> (m_Type m = MsgRequestVote \<or> grant m \<longrightarrow>
     m_From m \<in> ids \<and> m_To m \<in> ids \<and> m_From m \<noteq> m_To m)"

definition one_vote :: "Message set \<Rightarrow> bool" where
  "one_vote M \<longleftrightarrow> (\<forall>m \<in> M. \<forall>m' \<in> M. grant m \<longrightarrow> grant m' \<longrightarrow> m_From m = m_From m' \<longrightarrow>
     m_Term m = m_Term m' \<longrightarrow> m_To m = m_To m')"

definition msgs_inv :: "string set \<Rightarrow> Message set \<Rightarrow> bool" where
  "msgs_inv ids M \<longleftrightarrow> (\<forall>m \<in> M. routed ids m) \<and> one_vote M"

lemma one_voteD:
  "one_vote M \<Longrightarrow> m \<in> M \<Longrightarrow> m' \<in> M \<Longrightarrow> grant m \<Longrightarrow> grant m' \<Longrightarrow> m_From m = m_From m' \<Longrightarrow>
   m_Term m = m_Term m' \<Longrightarrow> m_To m = m_To m'"
  unfolding one_vote_def by blast

lemma msgs_invD:
  assumes "msgs_inv ids M" and "m \<in> M" and "m_Type m = MsgRequestVote \<or> grant m"
  shows "m_From m \<in> ids" "m_To m \<in> ids" "m_From m \<noteq> m_To m"
  using assms unfolding msgs_inv_def routed_def by blast+

lemma msgs_inv_insert:
  assumes "msgs_inv ids M" and "routed ids m"
    and "\<And>g. g \<in> M \<Longrightarrow> grant m \<Longrightarrow> grant g \<Longrightarrow> m_From g = m_From m \<Longrightarrow> m_Term g = m_Term m \<Longrightarrow> m_To g = m_To m"
  shows "msgs_inv ids (insert m M)"
proof -
  have "m_To a = m_To b" if "a \<in> insert m M" "b \<in> insert m M" "grant a" "grant b"
    "m_From a = m_From b" "m_Term a = m_Term b" for a b
  proof (cases "a = m"; cases "b = m")
    assume "a = m" "b \<noteq> m"
    with that assms(3) [of b] show ?thesis by simp
  next
    assume "a \<noteq> m" "b = m"
    with that assms(3) [of a] show ?thesis by simp
  next
    assume "a \<noteq> m" "b \<noteq> m"
    with that assms(1) show ?thesis unfolding msgs_inv_def one_vote_def by blast
  qed simp
  with assms(1,2) show ?thesis unfolding msgs_inv_def one_vote_def by blast
qed

lemma msgs_inv_union:
  assumes "msgs_inv ids M" and "\<forall>m \<in> N. routed ids m \<and> \<not> grant m"
  shows "msgs_inv ids (M \<union> N)"
  using assms unfolding msgs_inv_def one_vote_def by blast

text \<open>Node \<open>i\<close> is backed by \<open>V\<close>: every member of \<open>V\<close> other than \<open>i\<close> has granted \<open>i\<close> its vote of the term.\<close>

definition backed :: "Message set \<Rightarrow> string \<Rightarrow> u64 \<Rightarrow> string set \<Rightarrow> bool" where
  "backed M i t V \<longleftrightarrow> (\<forall>v \<in> V. v = i \<or> (\<exists>m \<in> M. grant m \<and> m_Term m = t \<and> m_From m = v \<and> m_To m = i))"

text \<open>
  What holds of node \<open>i\<close> against the messages \<open>M\<close> ever sent. The last clause is the heart: a vote
  the node has granted in its present term is still the vote it records.
\<close>

definition node_inv :: "string set \<Rightarrow> Message set \<Rightarrow> string \<Rightarrow> Node \<Rightarrow> bool" where
  "node_inv ids M i n \<longleftrightarrow>
      n_id n = i \<and> i \<in> ids \<and> [] \<notin> ids \<and> set (peers n) = ids - {i} \<and> length (members n) = card ids
    \<and> (role n \<noteq> Follower \<longrightarrow> votedFor n = i)
    \<and> (role n \<noteq> Follower \<longrightarrow> (\<exists>V. votes n = Some V \<and> V \<subseteq> ids \<and> backed M i (currentTerm n) V
         \<and> (role n = Leader \<longrightarrow> majorityOf (card ids) \<le> card V)))
    \<and> (role n = Leader \<longrightarrow> acks n \<noteq> None)
    \<and> (\<forall>m \<in> M. grant m \<and> m_From m = i \<longrightarrow>
         m_Term m < currentTerm n \<or> (m_Term m = currentTerm n \<and> votedFor n = m_To m))"

lemma backed_mono: "backed M i t V \<Longrightarrow> M \<subseteq> M' \<Longrightarrow> backed M' i t V"
  unfolding backed_def by blast

lemma backedD:
  "backed M i t V \<Longrightarrow> v \<in> V \<Longrightarrow> v \<noteq> i \<Longrightarrow> \<exists>m \<in> M. grant m \<and> m_Term m = t \<and> m_From m = v \<and> m_To m = i"
  unfolding backed_def by blast

lemma backed_single: "backed M i t {i}"
  by (simp add: backed_def)

text \<open>Messages from other nodes do not disturb a node's invariant.\<close>

lemma node_inv_frame:
  assumes "node_inv ids M i n" and "M \<subseteq> M'" and "\<And>m. m \<in> M' - M \<Longrightarrow> grant m \<Longrightarrow> m_From m \<noteq> i"
  shows "node_inv ids M' i n"
proof -
  have "\<exists>V. votes n = Some V \<and> V \<subseteq> ids \<and> backed M' i (currentTerm n) V
      \<and> (role n = Leader \<longrightarrow> majorityOf (card ids) \<le> card V)" if "role n \<noteq> Follower"
    using assms(1,2) that unfolding node_inv_def by (meson backed_mono)
  moreover have "m_Term m < currentTerm n \<or> (m_Term m = currentTerm n \<and> votedFor n = m_To m)"
    if "m \<in> M'" "grant m" "m_From m = i" for m
    using assms that unfolding node_inv_def by blast
  ultimately show ?thesis using assms(1) unfolding node_inv_def by blast
qed

lemma node_inv_cong:
  assumes "node_inv ids M i n"
    and "n_id n' = n_id n" "peers n' = peers n" "members n' = members n" "role n' = role n"
    and "votedFor n' = votedFor n" "currentTerm n' = currentTerm n" "votes n' = votes n"
    and "role n = Leader \<Longrightarrow> acks n' \<noteq> None"
  shows "node_inv ids M i n'"
  using assms by (simp add: node_inv_def)

text \<open>Moving to a later term as a follower forgets the vote.\<close>

lemma node_inv_newer_term:
  assumes "node_inv ids M i n" and "currentTerm n < t"
    and "n_id n' = n_id n" "peers n' = peers n" "members n' = members n" "role n' = Follower"
    and "currentTerm n' = t"
  shows "node_inv ids M i n'"
  using assms unfolding node_inv_def by (auto intro: less_trans)

lemma node_inv_becomeFollower:
  "node_inv ids M i n \<Longrightarrow> currentTerm n < t \<Longrightarrow> node_inv ids M i (becomeFollowerLocked t n)"
  by (erule node_inv_newer_term) (simp_all add: becomeFollowerLocked_def)

text \<open>Stepping down in the same term forgets the vote too, which is harmless for a leader's own vote.\<close>

lemma node_inv_stepDown:
  assumes "node_inv ids M i n" and "msgs_inv ids M" and "role n = Leader"
  shows "node_inv ids M i (becomeFollowerLocked (currentTerm n) n)"
proof -
  have "m_Term m < currentTerm n" if "m \<in> M" "grant m" "m_From m = i" for m
  proof -
    have "m_Term m < currentTerm n \<or> votedFor n = m_To m" "votedFor n = i"
      using assms(1,3) that unfolding node_inv_def by auto
    moreover have "m_From m \<noteq> m_To m"
      using assms(2) that by (blast dest: msgs_invD)
    ultimately show ?thesis using that by auto
  qed
  with assms show ?thesis unfolding node_inv_def becomeFollowerLocked_def by simp
qed

lemma node_inv_becomeLeader:
  assumes "node_inv ids M i n" and "role n = Candidate" and "votes n = Some V"
    and "majorityOf (card ids) \<le> card V"
  shows "node_inv ids M i (becomeLeaderLocked n)"
  using assms unfolding node_inv_def becomeLeaderLocked_def by auto


section \<open>Every handler keeps the invariant\<close>

text \<open>
  A local step of node \<open>i\<close> from \<open>n\<close> to \<open>n'\<close> may have put messages into the outbox. \<open>node_ok\<close> is the
  invariant with those messages counted as sent.
\<close>

definition node_ok :: "string set \<Rightarrow> Message set \<Rightarrow> string \<Rightarrow> Node \<Rightarrow> bool" where
  "node_ok ids M i n \<longleftrightarrow> node_inv ids (M \<union> set (outbox n)) i n \<and> msgs_inv ids (M \<union> set (outbox n))
     \<and> (\<forall>m \<in> set (outbox n). m_From m = i)"

lemma node_okI:
  assumes "node_inv ids (M \<union> set (outbox n)) i n'" and "msgs_inv ids (M \<union> set (outbox n))"
    and "\<forall>m \<in> set (outbox n). m_From m = i" and "outbox n' = outbox n"
  shows "node_ok ids M i n'"
  using assms by (simp add: node_ok_def)

text \<open>Sending a message that is neither a vote request nor a granted vote.\<close>

lemma node_ok_send:
  assumes "node_ok ids M i n" and "m_From m = i" and "\<not> grant m" and "m_Type m \<noteq> MsgRequestVote"
  shows "node_ok ids M i (sendLocked m n)"
proof -
  let ?M = "M \<union> set (outbox n)"
  have "node_inv ids (insert m ?M) i n"
    by (rule node_inv_frame [of ids ?M]) (use assms in \<open>auto simp: node_ok_def\<close>)
  then have "node_inv ids (insert m ?M) i (sendLocked m n)"
    by (rule node_inv_cong) (use assms(1) in \<open>auto simp: sendLocked_def node_ok_def node_inv_def\<close>)
  moreover have "msgs_inv ids (insert m ?M)"
    using assms by (intro msgs_inv_insert) (auto simp: node_ok_def routed_def)
  ultimately show ?thesis
    using assms(1,2) by (simp add: node_ok_def sendLocked_def)
qed

lemma node_ok_becomeFollower:
  "node_ok ids M i n \<Longrightarrow> currentTerm n < t \<Longrightarrow> node_ok ids M i (becomeFollowerLocked t n)"
  by (rule node_okI [of ids M n])
    (auto simp: node_ok_def node_inv_becomeFollower, simp_all add: becomeFollowerLocked_def)

lemma handleRequestVote_ok:
  assumes ok: "node_ok ids M i n" and m: "m \<in> M" "m_To m = i" "m_Type m = MsgRequestVote"
  shows "node_ok ids M i (handleRequestVoteLocked m n)"
proof -
  let ?M = "M \<union> set (outbox n)"
  define n1 where "n1 = (if currentTerm n < m_Term m
    then n\<lparr>currentTerm := m_Term m, role := Follower, votedFor := [], leaderID := []\<rparr> else n)"
  define granted where
    "granted = (m_Term m = currentTerm n1 \<and> (votedFor n1 = [] \<or> votedFor n1 = m_From m))"
  define n2 where
    "n2 = (if granted then n1\<lparr>votedFor := m_From m, leaderID := [], electionElapsed := 0\<rparr> else n1)"
  define reply where
    "reply = (message MsgRequestVoteResp (currentTerm n2) (n_id n2) (m_From m))\<lparr>VoteGranted := granted\<rparr>"
  have eq: "handleRequestVoteLocked m n = sendLocked reply n2"
    unfolding handleRequestVoteLocked_def n1_def granted_def n2_def reply_def Let_def by (rule refl)
  have from_m: "m_From m \<in> ids" "m_From m \<noteq> i"
    using ok m msgs_invD [of ids ?M m] unfolding node_ok_def by auto
  have n1: "node_inv ids ?M i n1"
  proof (cases "currentTerm n < m_Term m")
    case True
    then show ?thesis
      using ok by (auto simp: n1_def node_ok_def intro: node_inv_newer_term)
  qed (use ok in \<open>simp add: n1_def node_ok_def\<close>)
  have out: "outbox n1 = outbox n" "outbox n2 = outbox n"
    by (simp_all add: n1_def n2_def)
  show ?thesis
  proof (cases granted)
    case False
    then have "node_ok ids M i n2"
      using n1 ok out by (simp add: n2_def node_ok_def)
    then show ?thesis unfolding eq
      using n1 False by (intro node_ok_send)
        (auto simp: reply_def message_def grant_def n2_def node_inv_def)
  next
    case True
    then have r: "m_From reply = i" "grant reply" "m_To reply = m_From m" "m_Term reply = currentTerm n1"
      using n1 by (auto simp: reply_def message_def grant_def n2_def node_inv_def)
    have fol: "votedFor n1 = [] \<or> votedFor n1 = m_From m" using True by (simp add: granted_def)
    have "role n1 = Follower"
      using n1 fol from_m unfolding node_inv_def by metis
    moreover have old: "m_Term g < currentTerm n1 \<or> (m_Term g = currentTerm n1 \<and> m_From m = m_To g)"
      if "g \<in> ?M" "grant g" "m_From g = i" for g
    proof -
      have "m_To g \<in> ids"
        using ok that msgs_invD [of ids ?M g] unfolding node_ok_def by blast
      then have "m_To g \<noteq> []" using n1 unfolding node_inv_def by metis
      then show ?thesis using n1 that fol unfolding node_inv_def by metis
    qed
    ultimately have "node_inv ids (insert reply ?M) i (sendLocked reply n2)"
      using n1 r True unfolding node_inv_def sendLocked_def n2_def by auto
    moreover have "msgs_inv ids (insert reply ?M)"
    proof (rule msgs_inv_insert)
      show "msgs_inv ids ?M" using ok by (simp add: node_ok_def)
      show "routed ids reply"
        using r from_m n1 unfolding node_inv_def routed_def by auto
    qed (use old r in force)
    ultimately show ?thesis
      using ok r out unfolding eq by (simp add: node_ok_def sendLocked_def)
  qed
qed

lemma handleRequestVoteResp_ok:
  assumes ok: "node_ok ids M i n" and m: "m \<in> M" "m_To m = i" "m_Type m = MsgRequestVoteResp"
  shows "\<exists>n'. handleRequestVoteRespLocked m n = Some n' \<and> node_ok ids M i n'"
proof (cases "currentTerm n < m_Term m \<or> role n \<noteq> Candidate \<or> m_Term m \<noteq> currentTerm n \<or> \<not> VoteGranted m")
  case True
  then show ?thesis
    using ok by (auto simp: handleRequestVoteRespLocked_def node_ok_becomeFollower)
next
  case False
  let ?M = "M \<union> set (outbox n)"
  from False ok obtain V where V: "votes n = Some V" "V \<subseteq> ids" "backed ?M i (currentTerm n) V"
    unfolding node_ok_def node_inv_def by auto
  define n1 where "n1 = n\<lparr>votes := Some (insert (m_From m) V)\<rparr>"
  have "backed ?M i (currentTerm n) (insert (m_From m) V)"
    using V(3) m False unfolding backed_def grant_def by auto
  moreover have "m_From m \<in> ids"
    using ok m False by (intro msgs_invD(1) [of ids ?M m]) (auto simp: node_ok_def grant_def)
  ultimately have n1: "node_inv ids ?M i n1"
    using ok V False unfolding node_ok_def node_inv_def n1_def by auto
  have "node_ok ids M i (if majorityOf (length (members n1)) \<le> card (insert (m_From m) V)
      then becomeLeaderLocked n1 else n1)"
  proof (rule node_okI [of ids M n])
    show "node_inv ids ?M i (if majorityOf (length (members n1)) \<le> card (insert (m_From m) V)
        then becomeLeaderLocked n1 else n1)"
      using n1 False by (auto simp: n1_def node_inv_def [of _ _ _ n] intro!: node_inv_becomeLeader)
         (simp_all add: node_inv_def)
  qed (use ok in \<open>auto simp: node_ok_def n1_def becomeLeaderLocked_def\<close>)
  then show ?thesis
    using False V(1) unfolding n1_def
    by (auto simp: handleRequestVoteRespLocked_def Let_def split: if_split_asm)
qed


lemma handleAppendEntries_ok:
  assumes ok: "node_ok ids M i n"
  shows "node_ok ids M i (handleAppendEntriesLocked m n)"
proof -
  let ?M = "M \<union> set (outbox n)"
  have id: "n_id n = i" using ok by (simp add: node_ok_def node_inv_def)
  show ?thesis
  proof (cases "m_Term m < currentTerm n")
    case True
    then show ?thesis
      using ok id by (auto simp: handleAppendEntriesLocked_def message_def grant_def intro!: node_ok_send)
  next
    case False
    define n2 where "n2 = (if currentTerm n < m_Term m then n\<lparr>currentTerm := m_Term m, votedFor := []\<rparr>
      else n)\<lparr>role := Follower, leaderID := m_LeaderID m, electionElapsed := 0\<rparr>"
    have "node_inv ids ?M i n2"
    proof (cases "currentTerm n < m_Term m")
      case True
      then show ?thesis using ok by (auto simp: n2_def node_ok_def intro: node_inv_newer_term)
    next
      case False
      then show ?thesis using ok unfolding n2_def node_ok_def node_inv_def by auto
    qed
    then have "node_ok ids M i n2"
      using ok by (intro node_okI [of ids M n]) (auto simp: node_ok_def n2_def)
    moreover have "handleAppendEntriesLocked m n = sendLocked
        ((message MsgAppendEntriesResp (currentTerm n2) (n_id n2) (m_LeaderID m))\<lparr>Success := True\<rparr>) n2"
      using False by (simp add: handleAppendEntriesLocked_def n2_def Let_def)
    moreover have "n_id n2 = i" using id by (simp add: n2_def)
    ultimately show ?thesis
      by (auto simp: message_def grant_def intro!: node_ok_send)
  qed
qed

lemma handleAppendEntriesResp_ok:
  assumes ok: "node_ok ids M i n"
  shows "\<exists>n'. handleAppendEntriesRespLocked m n = Some n' \<and> node_ok ids M i n'"
proof (cases "currentTerm n < m_Term m")
  case True
  then show ?thesis
    using ok by (simp add: handleAppendEntriesRespLocked_def node_ok_becomeFollower)
next
  case False
  then show ?thesis
    using ok by (auto simp: handleAppendEntriesRespLocked_def node_ok_def intro: node_inv_cong)
      (auto simp: node_inv_def)
qed

lemma handleLocked_ok:
  assumes "node_ok ids M i n" and "m \<in> M" and "m_To m = i"
  shows "\<exists>n'. handleLocked m n = Some n' \<and> node_ok ids M i n'"
  using assms handleRequestVote_ok handleRequestVoteResp_ok handleAppendEntries_ok
    handleAppendEntriesResp_ok
  by (cases "m_Type m") (simp_all add: handleLocked_def)

lemma handleAll_ok:
  assumes "node_ok ids M i n" and "\<forall>m \<in> set ms. m \<in> M \<and> m_To m = i"
  shows "\<exists>n'. handleAll ms n = Some n' \<and> node_ok ids M i n'"
  using assms
proof (induction ms arbitrary: n)
  case (Cons m ms)
  then obtain n1 where "handleLocked m n = Some n1" "node_ok ids M i n1"
    using handleLocked_ok [of ids M i n m] by auto
  with Cons show ?case by auto
qed simp

section \<open>Terms never go back\<close>

lemma handleLocked_term:
  assumes "handleLocked m n = Some n'"
  shows "currentTerm n' = max (currentTerm n) (m_Term m)
    \<or> (currentTerm n' = currentTerm n \<and> m_Term m \<le> currentTerm n)"
  using assms
  by (auto simp: handler_defs Let_def max_def not_less split: MessageType.splits if_splits option.splits)

lemma handleAll_term:
  assumes "handleAll ms n = Some n'" and "currentTerm n < B" and "\<forall>m \<in> set ms. m_Term m < B"
  shows "currentTerm n \<le> currentTerm n' \<and> currentTerm n' < B"
  using assms
proof (induction ms arbitrary: n)
  case (Cons m ms)
  then obtain n1 where n1: "handleLocked m n = Some n1" "handleAll ms n1 = Some n'"
    by (auto split: option.splits)
  have "currentTerm n \<le> currentTerm n1 \<and> currentTerm n1 < B"
    using handleLocked_term [OF n1(1)] Cons.prems by (auto simp: max_def)
  moreover from this have "currentTerm n1 \<le> currentTerm n' \<and> currentTerm n' < B"
    using Cons.IH [OF n1(2)] Cons.prems by auto
  ultimately show ?case by auto
qed simp


section \<open>Timers and ticks\<close>

lemma node_inv_startElection:
  assumes "node_inv ids M i n" and "msgs_inv ids M" and "currentTerm n < - 1"
    and n1: "n1 = n\<lparr>role := Candidate, currentTerm := currentTerm n + 1, votedFor := n_id n, leaderID := [],
       votes := Some {n_id n}, electionTimeout := x, electionElapsed := 0, outbox := out\<rparr>"
  shows "node_inv ids M i n1"
proof -
  have "m_Term m < currentTerm n + 1" if "m \<in> M" "grant m" "m_From m = i" for m
  proof -
    have "m_Term m < currentTerm n \<or> m_Term m = currentTerm n"
      using assms(1) that unfolding node_inv_def by blast
    then show ?thesis using inc_greater [OF assms(3)] by (auto intro: less_trans)
  qed
  then show ?thesis
    using assms(1) unfolding node_inv_def n1 by (auto simp: backed_single)
qed

lemma startElection_ok:
  assumes ok: "node_ok ids M i n" and "currentTerm n < - 1"
  shows "node_ok ids M i (startElectionLocked r n)"
proof -
  let ?reqs = "map (message MsgRequestVote (currentTerm n + 1) (n_id n)) (peers n)"
  define M' where "M' = M \<union> set (outbox n) \<union> set ?reqs"
  define n1 where "n1 = n\<lparr>role := Candidate, currentTerm := currentTerm n + 1, votedFor := n_id n,
    leaderID := [], votes := Some {n_id n}, electionTimeout := pickTimeout r (cfg n),
    electionElapsed := 0, outbox := outbox n @ ?reqs\<rparr>"
  have inv: "node_inv ids (M \<union> set (outbox n)) i n" and msgs: "msgs_inv ids (M \<union> set (outbox n))"
    using ok by (auto simp: node_ok_def)
  have "node_inv ids M' i n"
    using inv by (rule node_inv_frame) (auto simp: M'_def grant_def message_def)
  moreover have id: "n_id n = i" "i \<in> ids" "set (peers n) = ids - {i}"
    using inv by (simp_all add: node_inv_def)
  moreover have msgs': "msgs_inv ids M'"
    unfolding M'_def using id
    by (intro msgs_inv_union [OF msgs]) (auto simp: message_def grant_def routed_def)
  ultimately have n1: "node_inv ids M' i n1"
    using assms(2) unfolding n1_def by (intro node_inv_startElection [OF _ msgs' _ refl]) simp_all
  have "\<forall>m \<in> set (outbox n). m_From m = i" using ok by (simp add: node_ok_def)
  then have out: "M \<union> set (outbox n1) = M'" "\<forall>m \<in> set (outbox n1). m_From m = i"
    by (auto simp: n1_def M'_def message_def id)
  have "node_ok ids M i n1" using n1 msgs' out by (simp add: node_ok_def)
  moreover have "node_ok ids M i (becomeLeaderLocked n1)" if "majorityOf (length (members n)) \<le> 1"
  proof (rule node_okI [of ids M n1])
    show "node_inv ids (M \<union> set (outbox n1)) i (becomeLeaderLocked n1)"
      unfolding out using that inv
      by (intro node_inv_becomeLeader [OF n1, where V = "{n_id n}"]) (auto simp: n1_def node_inv_def)
  qed (use msgs' out in \<open>auto simp: becomeLeaderLocked_def\<close>)
  ultimately show ?thesis
    by (simp add: startElectionLocked_eq n1_def Let_def)
qed

lemma broadcastHeartbeat_ok:
  assumes ok: "node_ok ids M i n"
  shows "node_ok ids M i (broadcastHeartbeatLocked n)"
proof -
  have id: "n_id n = i" using ok by (simp add: node_ok_def node_inv_def)
  have send: "node_ok ids M i (sendLocked ((message MsgAppendEntries t i peer)\<lparr>m_LeaderID := i\<rparr>) n')"
    if "node_ok ids M i n'" for n' t peer
    using that by (rule node_ok_send) (simp_all add: message_def grant_def)
  have "node_ok ids M i (fold (\<lambda>peer. sendLocked
      ((message MsgAppendEntries t i peer)\<lparr>m_LeaderID := i\<rparr>)) ps n)" for ps t
    using ok by (induction ps arbitrary: n) (simp_all add: send)
  then show ?thesis by (simp add: broadcastHeartbeatLocked_def id)
qed

lemma node_ok_cong:
  assumes "node_ok ids M i n"
    and "n_id n' = n_id n" "peers n' = peers n" "members n' = members n" "role n' = role n"
    and "votedFor n' = votedFor n" "currentTerm n' = currentTerm n" "votes n' = votes n"
    and "acks n' = acks n" "outbox n' = outbox n"
  shows "node_ok ids M i n'"
proof -
  have "node_inv ids (M \<union> set (outbox n)) i n'"
    using assms by (intro node_inv_cong [of ids _ i n n']) (auto simp: node_ok_def node_inv_def)
  then show ?thesis using assms(1,10) by (simp add: node_ok_def)
qed

lemma stepTimers_ok:
  assumes ok: "node_ok ids M i n" and "currentTerm n < - 1"
  shows "node_ok ids M i (stepTimersLocked r n)"
proof (cases "role n = Leader")
  case False
  have "node_ok ids M i (n\<lparr>electionElapsed := electionElapsed n + 1\<rparr>)"
    using ok by (rule node_ok_cong) simp_all
  with assms(2) False show ?thesis
    by (cases "role n") (simp_all add: stepTimersLocked_def startElection_ok Let_def)
next
  case True
  define n2 where "n2 = (let n1 = n\<lparr>heartbeatElapsed := heartbeatElapsed n + 1\<rparr>
    in if HeartbeatTicks (cfg n1) \<le> heartbeatElapsed n1
       then (broadcastHeartbeatLocked n1)\<lparr>heartbeatElapsed := 0\<rparr> else n1)"
  have "node_ok ids M i (n\<lparr>heartbeatElapsed := heartbeatElapsed n + 1\<rparr>)"
    using ok by (rule node_ok_cong) simp_all
  then have ok2: "node_ok ids M i n2"
    unfolding n2_def Let_def
    by (auto intro: node_ok_cong [OF broadcastHeartbeat_ok])
  have role2: "role n2 = Leader"
    using True by (simp add: n2_def Let_def broadcastHeartbeatLocked_eq)
  have ok3: "node_ok ids M i (n2\<lparr>quorumMissTicks := x\<rparr>)" for x
    using ok2 by (rule node_ok_cong) simp_all
  have "node_ok ids M i (becomeFollowerLocked (currentTerm n2) (n2\<lparr>quorumMissTicks := x\<rparr>))" for x
    using node_inv_stepDown [of ids "M \<union> set (outbox n2)" i "n2\<lparr>quorumMissTicks := x\<rparr>"] ok3 [of x] role2
    by (intro node_okI [of ids M "n2\<lparr>quorumMissTicks := x\<rparr>"]) (auto simp: node_ok_def becomeFollowerLocked_def)
  moreover have "stepTimersLocked r n = (if hasQuorumLocked n2 then n2\<lparr>quorumMissTicks := 0\<rparr>
      else let n3 = n2\<lparr>quorumMissTicks := quorumMissTicks n2 + 1\<rparr>
           in if QuorumLossTicks (cfg n3) \<le> quorumMissTicks n3
              then becomeFollowerLocked (currentTerm n3) n3 else n3)"
    by (simp only: stepTimersLocked_def True Role.case Let_def n2_def)
  ultimately show ?thesis using ok3 by (simp add: Let_def)
qed


lemma handleLocked_inbox: "handleLocked m n = Some n' \<Longrightarrow> inbox n' = inbox n"
  by (auto simp: handler_defs Let_def split: MessageType.splits if_splits option.splits)

lemma handleAll_inbox: "handleAll ms n = Some n' \<Longrightarrow> inbox n' = inbox n"
  by (induction ms arbitrary: n) (auto split: option.splits dest: handleLocked_inbox)

lemma stepTimers_inbox: "inbox (stepTimersLocked r n) = inbox n"
  by (simp add: stepTimersLocked_def startElectionLocked_eq broadcastHeartbeatLocked_eq
      becomeFollowerLocked_def becomeLeaderLocked_def Let_def split: Role.splits)

lemma Tick_ok:
  assumes inv: "node_inv ids M i n" "msgs_inv ids M" "outbox n = []"
    and box: "\<forall>m \<in> set (inbox n). m \<in> M \<and> m_To m = i"
    and terms: "currentTerm n < - 1" "\<forall>m \<in> set (inbox n). m_Term m < - 1"
  shows "\<exists>n' out. Tick r n = Some (n', out) \<and> node_inv ids (M \<union> set out) i n' \<and> msgs_inv ids (M \<union> set out)
    \<and> (\<forall>m \<in> set out. m_From m = i) \<and> outbox n' = [] \<and> inbox n' = []"
proof -
  define n1 where "n1 = n\<lparr>tick := tick n + 1, inbox := []\<rparr>"
  have "node_ok ids M i n" using inv by (simp add: node_ok_def)
  then have "node_ok ids M i n1"
    by (rule node_ok_cong) (simp_all add: n1_def)
  then obtain n2 where n2: "handleAll (inbox n) n1 = Some n2" "node_ok ids M i n2"
    using handleAll_ok [OF _ box] by blast
  have "currentTerm n2 < - 1"
    using handleAll_term [OF n2(1)] terms by (simp add: n1_def)
  then have n3: "node_ok ids M i (stepTimersLocked r n2)"
    using n2(2) stepTimers_ok by blast
  define n3 where "n3 = stepTimersLocked r n2"
  have "Tick r n = Some (n3\<lparr>outbox := []\<rparr>, outbox n3)"
    using n2(1) by (simp add: Tick_def n1_def n3_def Let_def)
  moreover have "node_inv ids (M \<union> set (outbox n3)) i (n3\<lparr>outbox := []\<rparr>)"
    using n3 by (auto simp: node_ok_def n3_def [symmetric] intro: node_inv_cong) (simp add: node_inv_def)
  moreover have "inbox n3 = []"
    using handleAll_inbox [OF n2(1)] by (simp add: n3_def stepTimers_inbox n1_def)
  ultimately show ?thesis
    using n3 by (simp add: node_ok_def n3_def [symmetric])
qed

section \<open>The network invariant\<close>

definition node_good :: "string set \<Rightarrow> Message set \<Rightarrow> string \<Rightarrow> Node \<Rightarrow> bool" where
  "node_good ids M i n \<longleftrightarrow> node_inv ids M i n \<and> outbox n = [] \<and> (\<forall>m \<in> set (inbox n). m \<in> M \<and> m_To m = i)"

definition net_inv :: "string set \<Rightarrow> Net \<Rightarrow> bool" where
  "net_inv ids g \<longleftrightarrow> finite ids \<and> dom (net_nodes g) = ids \<and> msgs_inv ids (net_sent g)
    \<and> (\<forall>i n. net_nodes g i = Some n \<longrightarrow> node_good ids (net_sent g) i n)"

text \<open>The configuration \<open>NewCluster\<close> gives to the node \<open>id\<close> of a cluster.\<close>

definition cluster_config :: "duration \<Rightarrow> string list \<Rightarrow> string \<Rightarrow> NodeConfig" where
  "cluster_config iv ids i = \<lparr>c_ID = i, c_Peers = sort (filter (\<lambda>other. other \<noteq> i) ids),
     HeartbeatTicks = 0, ElectionTicksMin = 0, ElectionTicksMax = 0, QuorumLossTicks = 0,
     QuorumAckTicks = 0, TickInterval = iv\<rparr>"

definition net_init :: "string list \<Rightarrow> Net \<Rightarrow> bool" where
  "net_init ids g \<longleftrightarrow> distinct ids \<and> [] \<notin> set ids \<and> net_sent g = {}
    \<and> (\<exists>iv draw. net_nodes g =
          (\<lambda>i. if i \<in> set ids then Some (NewNode (draw i) (cluster_config iv ids i)) else None))"

lemma node_inv_NewNode:
  assumes "distinct ids" "[] \<notin> set ids" "i \<in> set ids"
  shows "node_inv (set ids) {} i (NewNode r (cluster_config iv ids i))"
proof -
  have "length (filter (\<lambda>x. x \<noteq> i) ids) = card (set (filter (\<lambda>x. x \<noteq> i) ids))"
    using assms(1) by (simp add: distinct_card del: set_filter)
  also have "set (filter (\<lambda>x. x \<noteq> i) ids) = set ids - {i}" by auto
  finally have "Suc (length (filter (\<lambda>x. x \<noteq> i) ids)) = card (set ids)"
    using assms(3) card.remove [of "set ids" i] by (simp only: finite_set)
  then show ?thesis
    using assms by (auto simp: node_inv_def NewNode_def cluster_config_def Let_def)
qed

lemma net_inv_init:
  assumes "net_init ids g"
  shows "net_inv (set ids) g"
proof -
  have "node_good (set ids) {} i (NewNode r (cluster_config iv ids i))" if "i \<in> set ids" for i r iv
    using assms that by (auto simp: net_init_def node_good_def node_inv_NewNode)
      (simp_all add: NewNode_def Let_def)
  then show ?thesis
    using assms by (auto simp: net_init_def net_inv_def msgs_inv_def one_vote_def split: if_splits)
qed

lemma node_good_Receive:
  assumes "node_good ids M (m_To m) n" and "m \<in> M"
  shows "node_good ids M (m_To m) (Receive m n)"
proof -
  have "node_inv ids M (m_To m) (Receive m n)"
    by (rule node_inv_cong [of _ _ _ n]) (use assms in \<open>auto simp: node_good_def Receive_def node_inv_def\<close>)
  with assms show ?thesis by (auto simp: node_good_def Receive_def)
qed

lemma node_good_frame:
  assumes "node_good ids M j n" and "\<forall>m \<in> N. m_From m = i" and "j \<noteq> i"
  shows "node_good ids (M \<union> N) j n"
proof -
  have "node_inv ids (M \<union> N) j n"
    by (rule node_inv_frame [of ids M]) (use assms in \<open>auto simp: node_good_def\<close>)
  with assms(1) show ?thesis by (auto simp: node_good_def)
qed

lemma net_inv_step:
  assumes inv: "net_inv ids g" and step: "net_step g g'"
  shows "net_inv ids g'"
  using step
proof (cases rule: net_step.cases)
  case (deliver m n)
  have "node_good ids (net_sent g) (m_To m) (Receive m n)"
    using inv deliver by (intro node_good_Receive) (auto simp: net_inv_def)
  then show ?thesis
    using inv deliver by (auto simp: net_inv_def)
next
  case (tick i n r n' out)
  then have n: "node_inv ids (net_sent g) i n" "msgs_inv ids (net_sent g)" "outbox n = []"
    "\<forall>m \<in> set (inbox n). m \<in> net_sent g \<and> m_To m = i"
    using inv unfolding net_inv_def node_good_def by auto
  from Tick_ok [OF n tick(3,5), of r] tick(4)
  have n': "node_inv ids (net_sent g \<union> set out) i n'" "msgs_inv ids (net_sent g \<union> set out)"
    "\<forall>m \<in> set out. m_From m = i" "outbox n' = []" "inbox n' = []"
    by auto
  then have "node_good ids (net_sent g \<union> set out) i n'" by (simp add: node_good_def)
  moreover have "node_good ids (net_sent g \<union> set out) j k" if "net_nodes g j = Some k" "j \<noteq> i" for j k
    using inv that n'(3) by (intro node_good_frame) (auto simp: net_inv_def)
  ultimately show ?thesis
    using inv n'(2) tick by (auto simp: net_inv_def)
qed

interpretation network: invariant_system "net_init ids" net_step "net_inv (set ids)" for ids
  by unfold_locales (auto intro: net_inv_init net_inv_step)

section \<open>Quorums of votes\<close>

definition is_majority :: "string set \<Rightarrow> string set \<Rightarrow> bool" where
  "is_majority ids Q \<longleftrightarrow> finite ids \<and> majorityOf (card ids) \<le> card Q"

interpretation majority: quorum_system ids "is_majority ids" for ids
  by unfold_locales (rule majorities_meet [of ids], auto simp: is_majority_def majorityOf_def)

lemma unique_leader:
  assumes inv: "net_inv ids g" and i: "net_nodes g i = Some n" "role n = Leader"
    and j: "net_nodes g j = Some k" "role k = Leader" and eq: "currentTerm n = currentTerm k"
  shows "i = j"
proof (rule ccontr)
  assume "i \<noteq> j"
  let ?M = "net_sent g" and ?t = "currentTerm k"
  have ni: "node_inv ids ?M i n" "node_inv ids ?M j k" using inv i j by (auto simp: net_inv_def node_good_def)
  obtain V where V: "is_majority ids V" "V \<subseteq> ids" "backed ?M i ?t V"
    using ni(1) i(2) inv eq unfolding node_inv_def net_inv_def is_majority_def by auto
  obtain W where W: "is_majority ids W" "W \<subseteq> ids" "backed ?M j ?t W"
    using ni(2) j(2) inv unfolding node_inv_def net_inv_def is_majority_def by auto
  obtain v where v: "v \<in> V" "v \<in> W" using majority.quorum_intersect V(1,2) W(1,2) by blast
  have "v \<noteq> i"
  proof
    assume "v = i"
    then obtain m where "m \<in> ?M" "grant m" "m_From m = i" "m_To m = j" "m_Term m = currentTerm n"
      using backedD [OF W(3) v(2)] \<open>i \<noteq> j\<close> eq by auto
    then show False using ni(1) i(2) \<open>i \<noteq> j\<close> unfolding node_inv_def by auto
  qed
  have "v \<noteq> j"
  proof
    assume "v = j"
    then obtain m where "m \<in> ?M" "grant m" "m_From m = j" "m_To m = i" "m_Term m = ?t"
      using backedD [OF V(3) v(1)] \<open>i \<noteq> j\<close> by auto
    then show False using ni(2) j(2) \<open>i \<noteq> j\<close> unfolding node_inv_def by auto
  qed
  obtain m where m: "m \<in> ?M" "grant m" "m_From m = v" "m_To m = i" "m_Term m = ?t"
    using backedD [OF V(3) v(1) \<open>v \<noteq> i\<close>] by blast
  obtain m' where m': "m' \<in> ?M" "grant m'" "m_From m' = v" "m_To m' = j" "m_Term m' = ?t"
    using backedD [OF W(3) v(2) \<open>v \<noteq> j\<close>] by blast
  have "one_vote ?M" using inv by (simp add: net_inv_def msgs_inv_def)
  then have "m_To m = m_To m'" by (rule one_voteD [OF _ m(1) m'(1) m(2) m'(2)]) (simp_all add: m m')
  with m m' \<open>i \<noteq> j\<close> show False by simp
qed

end
