(* ===== verification/Cluster.thy ===== *)
theory Cluster
  imports Election
begin

text \<open>
  The in-memory cluster of \<open>coordination.go\<close>: \<open>memTransport\<close> with its partition groups and the
  \<open>Cluster\<close> that wires nodes together. Every cluster operation is simulated by the asynchronous
  network of \<open>Election\<close>, so the safety of elections carries over; executable runs of the cluster and
  of the network provide concrete executions.
\<close>

section \<open>The in-memory cluster\<close>

text \<open>\<open>cl_groups\<close> is the transport's \<open>groups\<close> map; an absent node is in group 0, as in Go.\<close>

record Cluster =
  cl_nodes :: "string \<rightharpoonup> Node"
  cl_order :: "string list"
  cl_groups :: "string \<Rightarrow> int"

definition Send :: "string \<Rightarrow> Message \<Rightarrow> Cluster \<Rightarrow> coord_error option \<times> Cluster" where
  "Send dst m c =
     (if cl_groups c (m_From m) \<noteq> cl_groups c dst then (None, c)
      else case cl_nodes c dst of
        None \<Rightarrow> (Some (ErrUnknownNode dst), c)
      | Some n \<Rightarrow> (None, c\<lparr>cl_nodes := (cl_nodes c)(dst \<mapsto> Receive m n)\<rparr>))"

definition NewCluster :: "duration \<Rightarrow> (string \<Rightarrow> nat) \<Rightarrow> string list \<Rightarrow> Cluster" where
  "NewCluster iv draw ids = \<lparr>cl_nodes =
       (\<lambda>i. if i \<in> set ids then Some (NewNode (draw i) (cluster_config iv ids i)) else None),
     cl_order = ids, cl_groups = (\<lambda>_. 0)\<rparr>"

text \<open>\<open>Tick\<close> of the node \<open>i\<close>, with the flush of its outbox through the transport; errors of \<open>Send\<close>
  are dropped, as the code does.\<close>

definition tickNode :: "nat \<Rightarrow> string \<Rightarrow> Cluster \<Rightarrow> Cluster option" where
  "tickNode r i c = (case cl_nodes c i of None \<Rightarrow> None | Some n \<Rightarrow>
     (case Tick r n of None \<Rightarrow> None | Some (n', out) \<Rightarrow>
        Some (fold (\<lambda>m c. snd (Send (m_To m) m c)) out (c\<lparr>cl_nodes := (cl_nodes c)(i \<mapsto> n')\<rparr>))))"

fun tickNodes :: "(string \<Rightarrow> nat) \<Rightarrow> string list \<Rightarrow> Cluster \<Rightarrow> Cluster option" where
  "tickNodes d [] c = Some c"
| "tickNodes d (i # is) c = (case tickNode (d i) i c of None \<Rightarrow> None | Some c' \<Rightarrow> tickNodes d is c')"

definition TickAll :: "(string \<Rightarrow> nat) \<Rightarrow> Cluster \<Rightarrow> Cluster option" where
  "TickAll d c = tickNodes d (cl_order c) c"

fun TickN :: "(nat \<Rightarrow> string \<Rightarrow> nat) \<Rightarrow> nat \<Rightarrow> Cluster \<Rightarrow> Cluster option" where
  "TickN d 0 c = Some c"
| "TickN d (Suc k) c = (case TickAll (d 0) c of None \<Rightarrow> None | Some c' \<Rightarrow> TickN (\<lambda>j. d (Suc j)) k c')"

text \<open>The scan of \<open>Leader\<close>: the unique leader found so far, or \<open>None\<close> when a second one shows up.\<close>

fun leaderScan :: "(string \<rightharpoonup> Node) \<Rightarrow> string option \<Rightarrow> string list \<Rightarrow> string option" where
  "leaderScan ns leader [] = leader"
| "leaderScan ns leader (i # is) =
     (case ns i of Some n \<Rightarrow>
        if role n = Leader then (if leader \<noteq> None then None else leaderScan ns (Some i) is)
        else leaderScan ns leader is
      | None \<Rightarrow> leaderScan ns leader is)"

definition cluster_Leader :: "Cluster \<Rightarrow> string option" where
  "cluster_Leader c = leaderScan (cl_nodes c) None (cl_order c)"

definition Partition :: "string list \<Rightarrow> string list \<Rightarrow> Cluster \<Rightarrow> Cluster" where
  "Partition groupA groupB c = c\<lparr>cl_groups :=
     fold (\<lambda>i g. g(i := 2)) groupB (fold (\<lambda>i g. g(i := 1)) groupA (\<lambda>_. 0))\<rparr>"

definition Isolate :: "string \<Rightarrow> Cluster \<Rightarrow> Cluster" where
  "Isolate i c = c\<lparr>cl_groups := (cl_groups c)(i := 99)\<rparr>"

definition Heal :: "Cluster \<Rightarrow> Cluster" where
  "Heal c = c\<lparr>cl_groups := (\<lambda>_. 0)\<rparr>"

section \<open>Cluster steps\<close>

text \<open>
  Nodes tick one at a time, in any order (\<open>TickAll\<close> and the goroutines of \<open>Start\<close> are such orders),
  and the operator may partition, isolate and heal at any moment. As in \<open>net_step\<close>, terms are
  assumed to stay below the largest \<open>uint64\<close>.
\<close>

definition tick_safe :: "Node \<Rightarrow> bool" where
  "tick_safe n \<longleftrightarrow> currentTerm n < - 1 \<and> (\<forall>m \<in> set (inbox n). m_Term m < - 1)"

inductive cluster_step :: "Cluster \<Rightarrow> Cluster \<Rightarrow> bool" where
  c_tick: "cl_nodes c i = Some n \<Longrightarrow> tick_safe n \<Longrightarrow> tickNode r i c = Some c' \<Longrightarrow> cluster_step c c'"
| c_partition: "cluster_step c (Partition A B c)"
| c_isolate: "cluster_step c (Isolate i c)"
| c_heal: "cluster_step c (Heal c)"

section \<open>Simulation by the network\<close>

definition as_net :: "Cluster \<Rightarrow> Message set \<Rightarrow> Net" where
  "as_net c M = \<lparr>net_nodes = cl_nodes c, net_sent = M\<rparr>"

lemma Send_simulated:
  assumes "m \<in> M"
  shows "net_step\<^sup>*\<^sup>* (as_net c M) (as_net (snd (Send (m_To m) m c)) M)"
proof (cases "cl_nodes c (m_To m)")
  case (Some n)
  have "net_step (as_net c M) (as_net (c\<lparr>cl_nodes := (cl_nodes c)(m_To m \<mapsto> Receive m n)\<rparr>) M)"
    using net_step.deliver [of m "as_net c M" n] assms Some by (simp add: as_net_def)
  then show ?thesis using Some by (simp add: Send_def r_into_rtranclp)
qed (simp add: Send_def)

lemma flush_simulated:
  "set out \<subseteq> M \<Longrightarrow>
   net_step\<^sup>*\<^sup>* (as_net c M) (as_net (fold (\<lambda>m c. snd (Send (m_To m) m c)) out c) M)"
proof (induction out arbitrary: c)
  case (Cons m out)
  then have "net_step\<^sup>*\<^sup>* (as_net c M) (as_net (snd (Send (m_To m) m c)) M)"
    by (simp add: Send_simulated)
  also have "net_step\<^sup>*\<^sup>* \<dots> (as_net (fold (\<lambda>m c. snd (Send (m_To m) m c)) out (snd (Send (m_To m) m c))) M)"
    using Cons by simp
  finally show ?case by simp
qed simp

lemma tickNode_simulated:
  assumes "cl_nodes c i = Some n" "tick_safe n" "tickNode r i c = Some c'"
  shows "\<exists>M'. net_step\<^sup>*\<^sup>* (as_net c M) (as_net c' M')"
proof -
  obtain n' out where T: "Tick r n = Some (n', out)"
    and c': "c' = fold (\<lambda>m c. snd (Send (m_To m) m c)) out (c\<lparr>cl_nodes := (cl_nodes c)(i \<mapsto> n')\<rparr>)"
    using assms by (auto simp: tickNode_def split: option.splits prod.splits)
  have "net_step (as_net c M) (as_net (c\<lparr>cl_nodes := (cl_nodes c)(i \<mapsto> n')\<rparr>) (M \<union> set out))"
    using net_step.tick [of "as_net c M" i n r n' out] assms(1,2) T by (simp add: as_net_def tick_safe_def)
  also have "net_step\<^sup>*\<^sup>* \<dots> (as_net c' (M \<union> set out))"
    unfolding c' by (rule flush_simulated) simp
  finally show ?thesis by blast
qed

lemma cluster_step_simulated:
  assumes "cluster_step c c'"
  shows "\<exists>M'. net_step\<^sup>*\<^sup>* (as_net c M) (as_net c' M')"
  using assms
proof cases
  case (c_tick i n r)
  then show ?thesis by (rule tickNode_simulated)
next
  case (c_partition A B)
  then have "as_net c' M = as_net c M" by (simp add: as_net_def Partition_def)
  then show ?thesis by (metis rtranclp.rtrancl_refl)
next
  case (c_isolate i)
  then have "as_net c' M = as_net c M" by (simp add: as_net_def Isolate_def)
  then show ?thesis by (metis rtranclp.rtrancl_refl)
next
  case c_heal
  then have "as_net c' M = as_net c M" by (simp add: as_net_def Heal_def)
  then show ?thesis by (metis rtranclp.rtrancl_refl)
qed

lemma cluster_simulated:
  assumes "cluster_step\<^sup>*\<^sup>* c c'"
  shows "\<exists>M'. net_step\<^sup>*\<^sup>* (as_net c M) (as_net c' M')"
  using assms
proof (induction rule: rtranclp_induct)
  case (step y z)
  then obtain M1 where "net_step\<^sup>*\<^sup>* (as_net c M) (as_net y M1)" by blast
  moreover obtain M2 where "net_step\<^sup>*\<^sup>* (as_net y M1) (as_net z M2)"
    using cluster_step_simulated [OF step.hyps(2)] by blast
  ultimately show ?case by (blast intro: rtranclp_trans)
qed blast

lemma NewCluster_net_init:
  "distinct ids \<Longrightarrow> [] \<notin> set ids \<Longrightarrow> net_init ids (as_net (NewCluster iv draw ids) {})"
  by (auto simp: net_init_def as_net_def NewCluster_def)

lemma cluster_reachable_inv:
  assumes "distinct ids" "[] \<notin> set ids" "cluster_step\<^sup>*\<^sup>* (NewCluster iv draw ids) c"
  obtains M where "net_inv (set ids) (as_net c M)"
  using cluster_simulated [OF assms(3), of "{}"]
    network.invar_reachable [OF NewCluster_net_init [OF assms(1,2), of iv draw]] by blast


section \<open>Executable runs\<close>

datatype action = ADeliver Message | ATick string nat

fun net_exec :: "action list \<Rightarrow> (string \<rightharpoonup> Node) \<times> Message list \<Rightarrow> ((string \<rightharpoonup> Node) \<times> Message list) option" where
  "net_exec [] (ns, ms) = Some (ns, ms)"
| "net_exec (ADeliver m # as) (ns, ms) =
     (case ns (m_To m) of None \<Rightarrow> None | Some n \<Rightarrow>
        if m \<in> set ms then net_exec as (ns(m_To m \<mapsto> Receive m n), ms) else None)"
| "net_exec (ATick i r # as) (ns, ms) =
     (case ns i of None \<Rightarrow> None | Some n \<Rightarrow>
        if tick_safe n then
          (case Tick r n of None \<Rightarrow> None | Some (n', out) \<Rightarrow> net_exec as (ns(i \<mapsto> n'), ms @ out))
        else None)"

lemma net_exec_sound:
  "net_exec as (ns, ms) = Some (ns', ms') \<Longrightarrow>
   net_step\<^sup>*\<^sup>* \<lparr>net_nodes = ns, net_sent = set ms\<rparr> \<lparr>net_nodes = ns', net_sent = set ms'\<rparr>"
proof (induction as "(ns, ms)" arbitrary: ns ms rule: net_exec.induct)
  case (2 m as ns ms)
  then obtain n where n: "ns (m_To m) = Some n" "m \<in> set ms"
    and run: "net_exec as (ns(m_To m \<mapsto> Receive m n), ms) = Some (ns', ms')"
    by (auto split: option.splits if_splits)
  have "net_step \<lparr>net_nodes = ns, net_sent = set ms\<rparr>
      \<lparr>net_nodes = ns(m_To m \<mapsto> Receive m n), net_sent = set ms\<rparr>"
    using net_step.deliver [of m "\<lparr>net_nodes = ns, net_sent = set ms\<rparr>" n] n by simp
  also have "net_step\<^sup>*\<^sup>* \<dots> \<lparr>net_nodes = ns', net_sent = set ms'\<rparr>"
    using 2 n run by simp
  finally show ?case .
next
  case (3 i r as ns ms)
  then obtain n n' out where n: "ns i = Some n" "tick_safe n" "Tick r n = Some (n', out)"
    and run: "net_exec as (ns(i \<mapsto> n'), ms @ out) = Some (ns', ms')"
    by (auto split: option.splits if_splits prod.splits)
  have "net_step \<lparr>net_nodes = ns, net_sent = set ms\<rparr> \<lparr>net_nodes = ns(i \<mapsto> n'), net_sent = set ms \<union> set out\<rparr>"
    using net_step.tick [of "\<lparr>net_nodes = ns, net_sent = set ms\<rparr>" i n r n' out] n
    by (simp add: tick_safe_def)
  also have "net_step\<^sup>*\<^sup>* \<dots> \<lparr>net_nodes = ns', net_sent = set ms'\<rparr>"
    using 3 n run by simp
  finally show ?case .
qed simp

definition trio :: "string \<rightharpoonup> Node" where
  "trio = cl_nodes (NewCluster 0 (\<lambda>_. 0) [''a'', ''b'', ''c''])"

text \<open>Nodes \<open>a\<close> and \<open>b\<close> start an election of term 1; \<open>c\<close> votes for \<open>a\<close>, which becomes leader.\<close>

definition first_act :: "action list" where
  "first_act = replicate 8 (ATick ''a'' 0) @ replicate 8 (ATick ''b'' 0) @
     [ADeliver (message MsgRequestVote 1 ''a'' ''c''), ATick ''c'' 0,
      ADeliver ((message MsgRequestVoteResp 1 ''c'' ''a'')\<lparr>VoteGranted := True\<rparr>), ATick ''a'' 0]"

text \<open>\<open>a\<close> hears nothing, steps down, forgets its vote and grants the delayed request of \<open>b\<close>.\<close>

definition second_act :: "action list" where
  "second_act = replicate 4 (ATick ''a'' 0) @
     [ADeliver (message MsgRequestVote 1 ''b'' ''a''), ATick ''a'' 0,
      ADeliver ((message MsgRequestVoteResp 1 ''a'' ''b'')\<lparr>VoteGranted := True\<rparr>), ATick ''b'' 0]"

definition view :: "((string \<rightharpoonup> Node) \<times> Message list) option \<Rightarrow> string \<Rightarrow> (Role \<times> u64) option" where
  "view s i = (case s of None \<Rightarrow> None | Some (ns, _) \<Rightarrow> map_option (\<lambda>n. (role n, currentTerm n)) (ns i))"


lemma trio_net_init: "net_init [''a'', ''b'', ''c''] \<lparr>net_nodes = trio, net_sent = set []\<rparr>"
  using NewCluster_net_init [of "[''a'', ''b'', ''c'']" 0 "\<lambda>_. 0"] by (simp add: trio_def as_net_def)

lemma net_exec_append:
  "net_exec (as @ bs) s = (case net_exec as s of None \<Rightarrow> None | Some s' \<Rightarrow> net_exec bs s')"
  by (induction as s rule: net_exec.induct) (auto split: option.splits)

lemma view_Some:
  assumes "view s i = Some (r, t)"
  obtains ns ms n where "s = Some (ns, ms)" "ns i = Some n" "role n = r" "currentTerm n = t"
  using assms by (auto simp: view_def split: option.splits)

lemma first_act_view: "view (net_exec first_act (trio, [])) ''a'' = Some (Leader, 1)"
  by code_simp

lemma second_act_view: "view (net_exec (first_act @ second_act) (trio, [])) ''b'' = Some (Leader, 1)"
  by code_simp

section \<open>Properties\<close>

text \<open>C1: Election safety. In every state that nodes of \<open>coordination.go\<close> can reach over an
  asynchronous network that delays, reorders, duplicates and loses messages, two nodes that are
  leaders of the same term at the same time are the same node.\<close>

theorem election_safety:
  assumes "net_init ids g0" and "net_step\<^sup>*\<^sup>* g0 g"
    and "net_nodes g i = Some n" "role n = Leader"
    and "net_nodes g j = Some k" "role k = Leader" and "currentTerm n = currentTerm k"
  shows "i = j"
  using network.invar_reachable [OF assms(1,2)] assms(3-7) by (rule unique_leader)

theorem election_safety_witness:
  "\<exists>g n. net_step\<^sup>*\<^sup>* \<lparr>net_nodes = trio, net_sent = set []\<rparr> g \<and> net_nodes g ''a'' = Some n \<and> role n = Leader
    \<and> (\<forall>j k. net_nodes g j = Some k \<and> role k = Leader \<and> currentTerm k = currentTerm n \<longrightarrow> j = ''a'')"
proof -
  obtain ns ms n where run: "net_exec first_act (trio, []) = Some (ns, ms)"
    and n: "ns ''a'' = Some n" "role n = Leader"
    using first_act_view by (rule view_Some)
  let ?g = "\<lparr>net_nodes = ns, net_sent = set ms\<rparr>"
  have steps: "net_step\<^sup>*\<^sup>* \<lparr>net_nodes = trio, net_sent = set []\<rparr> ?g"
    using run by (rule net_exec_sound)
  have "j = ''a''" if "net_nodes ?g j = Some k" "role k = Leader" "currentTerm k = currentTerm n" for j k
    using election_safety [OF trio_net_init steps that(1,2), of "''a''" n] n that(3) by simp
  moreover have "net_nodes ?g ''a'' = Some n" using n by simp
  ultimately show ?thesis using steps n(2) by blast
qed

text \<open>C5: The in-memory cluster inherits election safety and never panics: after any interleaving of
  node ticks, partitions, isolations and heals from \<open>NewCluster\<close>, no two leaders share a term, and a
  further tick of any member returns (no handler writes to a nil map).\<close>

theorem cluster_safety:
  assumes "distinct ids" and "[] \<notin> set ids" and "cluster_step\<^sup>*\<^sup>* (NewCluster iv draw ids) c"
  shows "(\<forall>i j n k. cl_nodes c i = Some n \<and> cl_nodes c j = Some k \<and> role n = Leader \<and> role k = Leader
      \<and> currentTerm n = currentTerm k \<longrightarrow> i = j)
    \<and> (\<forall>i \<in> set ids. \<exists>n. cl_nodes c i = Some n \<and> (tick_safe n \<longrightarrow> (\<forall>r. \<exists>c'. tickNode r i c = Some c')))"
proof -
  obtain M where inv: "net_inv (set ids) (as_net c M)"
    using cluster_reachable_inv [OF assms] .
  have "\<exists>n. cl_nodes c i = Some n \<and> (tick_safe n \<longrightarrow> (\<forall>r. \<exists>c'. tickNode r i c = Some c'))" if i: "i \<in> set ids" for i
  proof -
    have "dom (cl_nodes c) = set ids" using inv by (simp add: net_inv_def as_net_def)
    then obtain n where n: "cl_nodes c i = Some n" using i by blast
    then have "node_good (set ids) M i n" "msgs_inv (set ids) M"
      using inv by (auto simp: net_inv_def as_net_def)
    then have "\<exists>n' out. Tick r n = Some (n', out)" if "tick_safe n" for r
      using Tick_ok [of "set ids" M i n r] that unfolding node_good_def tick_safe_def by blast
    then have "\<exists>c'. tickNode r i c = Some c'" if "tick_safe n" for r
      using n that by (auto simp: tickNode_def split: option.splits prod.splits)
    with n show ?thesis by blast
  qed
  moreover have "i = j" if "cl_nodes c i = Some n" "role n = Leader" "cl_nodes c j = Some k"
    "role k = Leader" "currentTerm n = currentTerm k" for i j n k
    using unique_leader [OF inv] that by (simp add: as_net_def)
  ultimately show ?thesis by blast
qed

theorem cluster_safety_witness:
  "\<exists>c'. tickNode 5 ''b'' (Isolate ''a'' (NewCluster 0 (\<lambda>_. 3) [''a'', ''b''])) = Some c'"
proof -
  let ?c = "Isolate ''a'' (NewCluster 0 (\<lambda>_. 3) [''a'', ''b''])"
  have "cluster_step\<^sup>*\<^sup>* (NewCluster 0 (\<lambda>_. 3) [''a'', ''b'']) ?c"
    by (rule r_into_rtranclp, rule cluster_step.c_isolate)
  from cluster_safety [OF _ _ this] obtain n where
    n: "cl_nodes ?c ''b'' = Some n" "tick_safe n \<longrightarrow> (\<forall>r. \<exists>c'. tickNode r ''b'' ?c = Some c')"
    by auto
  moreover have "tick_safe n"
    using n(1) by (auto simp: Isolate_def NewCluster_def NewNode_def tick_safe_def Let_def word_gt_0)
  ultimately show ?thesis by blast
qed

text \<open>C28: A term can have two leaders, one after the other. There is an execution in which node \<open>a\<close>
  leads term 1 and later, without a new term, node \<open>b\<close> leads term 1: a leader that loses its quorum
  re-enters the same term with its vote cleared and may vote again. Raft promises at most one leader
  per term.\<close>

theorem same_term_two_leaders:
  "\<exists>g1 g2 n1 n2. net_step\<^sup>*\<^sup>* \<lparr>net_nodes = trio, net_sent = {}\<rparr> g1 \<and> net_step\<^sup>*\<^sup>* g1 g2
    \<and> net_nodes g1 ''a'' = Some n1 \<and> role n1 = Leader \<and> currentTerm n1 = 1
    \<and> net_nodes g2 ''b'' = Some n2 \<and> role n2 = Leader \<and> currentTerm n2 = 1"
proof -
  obtain ns ms n where one: "net_exec first_act (trio, []) = Some (ns, ms)"
    and n: "ns ''a'' = Some n" "role n = Leader" "currentTerm n = 1"
    using first_act_view by (rule view_Some)
  obtain ns' ms' n' where two: "net_exec (first_act @ second_act) (trio, []) = Some (ns', ms')"
    and n': "ns' ''b'' = Some n'" "role n' = Leader" "currentTerm n' = 1"
    using second_act_view by (rule view_Some)
  have "net_step\<^sup>*\<^sup>* \<lparr>net_nodes = trio, net_sent = {}\<rparr> \<lparr>net_nodes = ns, net_sent = set ms\<rparr>"
    using net_exec_sound [OF one] by simp
  moreover have "net_step\<^sup>*\<^sup>* \<lparr>net_nodes = ns, net_sent = set ms\<rparr> \<lparr>net_nodes = ns', net_sent = set ms'\<rparr>"
    using two one by (intro net_exec_sound [of second_act]) (simp add: net_exec_append)
  ultimately show ?thesis
    using n n' by (intro exI [of _ "\<lparr>net_nodes = ns, net_sent = set ms\<rparr>"]
        exI [of _ "\<lparr>net_nodes = ns', net_sent = set ms'\<rparr>"] exI [of _ n] exI [of _ n']) simp
qed

end
