(* ===== verification/Ring.thy ===== *)
theory Ring
  imports Prelude "HOL-Library.Char_ord" "HOL-Library.List_Lexorder"
begin

text \<open>
  The consistent-hashing ring (\<open>src/internal/distributed/sharding/ring.go\<close>). The hash function
  (\<open>xxhash.Sum64String\<close>, a third-party package) is the parameter \<open>hf\<close>. \<open>sort.Slice\<close> promises a
  sorted permutation but no order among equal hashes; the sorting function is the parameter \<open>srt\<close>
  with exactly that contract, the locale \<open>hash_sorter\<close>.
\<close>

section \<open>Data and operations\<close>

record virtualNode =
  vhash :: u64
  vnode :: string

record Ring =
  virtuals :: "virtualNode list"
  rnodes :: "string set"
  vnodesPerNode :: nat

definition defaultVirtualNodes :: nat where "defaultVirtualNodes = 150"

text \<open>\<open>NewRing\<close> applies its options in order; the only option is \<open>WithVirtualNodes n\<close>, given by \<open>n\<close>.\<close>

definition WithVirtualNodes :: "int \<Rightarrow> Ring \<Rightarrow> Ring" where
  "WithVirtualNodes n r = (if 0 < n then r\<lparr>vnodesPerNode := nat n\<rparr> else r)"

definition NewRing :: "int list \<Rightarrow> Ring" where
  "NewRing opts = fold WithVirtualNodes opts
     \<lparr>virtuals = [], rnodes = {}, vnodesPerNode = defaultVirtualNodes\<rparr>"

definition vnodesOf :: "(string \<Rightarrow> u64) \<Rightarrow> nat \<Rightarrow> string \<Rightarrow> virtualNode list" where
  "vnodesOf hf n nodeID =
     map (\<lambda>i. \<lparr>vhash = hf (nodeID @ ''#'' @ Itoa (int i)), vnode = nodeID\<rparr>) [0..<n]"

definition AddNode ::
  "(string \<Rightarrow> u64) \<Rightarrow> (virtualNode list \<Rightarrow> virtualNode list) \<Rightarrow> string \<Rightarrow> Ring \<Rightarrow> Ring" where
  "AddNode hf srt nodeID r =
     (if nodeID \<in> rnodes r then r
      else r\<lparr>rnodes := insert nodeID (rnodes r),
             virtuals := srt (virtuals r @ vnodesOf hf (vnodesPerNode r) nodeID)\<rparr>)"

definition RemoveNode :: "string \<Rightarrow> Ring \<Rightarrow> Ring" where
  "RemoveNode nodeID r =
     (if nodeID \<notin> rnodes r then r
      else r\<lparr>rnodes := rnodes r - {nodeID},
             virtuals := filter (\<lambda>vn. vnode vn \<noteq> nodeID) (virtuals r)\<rparr>)"

definition Lookup :: "(string \<Rightarrow> u64) \<Rightarrow> string \<Rightarrow> Ring \<Rightarrow> string option" where
  "Lookup hf key r =
     (if virtuals r = [] then None
      else let h = hf key;
               idx = Search (length (virtuals r)) (\<lambda>i. h \<le> vhash (virtuals r ! i));
               idx = (if length (virtuals r) \<le> idx then 0 else idx)
           in Some (vnode (virtuals r ! idx)))"

definition Members :: "Ring \<Rightarrow> string list" where
  "Members r = sorted_list_of_set (rnodes r)"

definition ring_Size :: "Ring \<Rightarrow> nat" where
  "ring_Size r = card (rnodes r)"

definition NodeCount :: "Ring \<Rightarrow> nat" where
  "NodeCount r = length (virtuals r)"

text \<open>
  The loop of \<open>MigrationKeys\<close> over \<open>keys\<close>; \<open>sim\<close> is the ring without \<open>fromNode\<close>. On an empty ring
  \<open>old\<close> is the empty string.
\<close>

definition MigrationKeys :: "(string \<Rightarrow> u64) \<Rightarrow> string list \<Rightarrow> string \<Rightarrow> Ring \<Rightarrow> (string \<rightharpoonup> string)" where
  "MigrationKeys hf keys fromNode r = (let
     sim = \<lparr>virtuals = filter (\<lambda>vn. vnode vn \<noteq> fromNode) (virtuals r),
            rnodes = rnodes r - {fromNode}, vnodesPerNode = vnodesPerNode r\<rparr>
   in fold (\<lambda>k migrations.
        let old = (case Lookup hf k r of None \<Rightarrow> [] | Some s \<Rightarrow> s)
        in (case Lookup hf k sim of
              Some new \<Rightarrow> if old \<noteq> new \<and> old = fromNode then migrations(k \<mapsto> new) else migrations
            | None \<Rightarrow> migrations)) keys Map.empty)"

section \<open>The sorting contract\<close>

locale hash_sorter =
  fixes srt :: "virtualNode list \<Rightarrow> virtualNode list"
  assumes srt_mset: "mset (srt vs) = mset vs"
    and srt_sorted: "sorted (map vhash (srt vs))"
begin

lemma srt_set: "set (srt vs) = set vs"
  by (metis srt_mset set_mset_mset)

lemma srt_nil: "srt vs = [] \<longleftrightarrow> vs = []"
  by (metis srt_mset mset_zero_iff)

end

interpretation insertion_sort: hash_sorter "sort_key vhash"
  by unfold_locales simp_all

section \<open>The ring invariant\<close>

text \<open>Sorted, and exactly the \<open>vnodesPerNode\<close> replicas of every member.\<close>

definition ring_inv :: "(string \<Rightarrow> u64) \<Rightarrow> Ring \<Rightarrow> bool" where
  "ring_inv hf r \<longleftrightarrow> finite (rnodes r) \<and> 0 < vnodesPerNode r \<and> sorted (map vhash (virtuals r))
     \<and> mset (virtuals r) = (\<Sum>n \<in> rnodes r. mset (vnodesOf hf (vnodesPerNode r) n))"

lemma vnode_vnodesOf: "v \<in> set (vnodesOf hf n x) \<Longrightarrow> vnode v = x"
  by (auto simp: vnodesOf_def)

lemma vnodesOf_nil: "vnodesOf hf n x = [] \<longleftrightarrow> n = 0"
  by (simp add: vnodesOf_def)

lemma ring_virtuals_set:
  assumes "ring_inv hf r"
  shows "set (virtuals r) = (\<Union>n \<in> rnodes r. set (vnodesOf hf (vnodesPerNode r) n))"
proof -
  have "set (virtuals r) = set_mset (\<Sum>n \<in> rnodes r. mset (vnodesOf hf (vnodesPerNode r) n))"
    using assms by (simp add: ring_inv_def flip: set_mset_mset)
  then show ?thesis
    using assms by (simp add: set_mset_sum ring_inv_def)
qed

lemma ring_virtuals_member: "ring_inv hf r \<Longrightarrow> v \<in> set (virtuals r) \<Longrightarrow> vnode v \<in> rnodes r"
  by (auto simp: ring_virtuals_set dest: vnode_vnodesOf)

lemma ring_virtuals_nil:
  assumes "ring_inv hf r"
  shows "virtuals r = [] \<longleftrightarrow> rnodes r = {}"
proof -
  have "virtuals r = [] \<longleftrightarrow> set (virtuals r) = {}" by simp
  also have "\<dots> \<longleftrightarrow> rnodes r = {}"
    using assms by (auto simp: ring_virtuals_set vnodesOf_nil ring_inv_def)
  finally show ?thesis .
qed

lemma ring_inv_NewRing: "ring_inv hf (NewRing opts)"
proof -
  have "ring_inv hf (fold WithVirtualNodes opts r)" if "ring_inv hf r" "virtuals r = []" "rnodes r = {}" for r
    using that by (induction opts arbitrary: r) (auto simp: WithVirtualNodes_def ring_inv_def)
  then show ?thesis by (simp add: NewRing_def ring_inv_def defaultVirtualNodes_def)
qed



lemma ring_inv_AddNode:
  assumes "ring_inv hf r" and "hash_sorter srt"
  shows "ring_inv hf (AddNode hf srt x r)"
  using assms(1) hash_sorter.srt_mset [OF assms(2)] hash_sorter.srt_sorted [OF assms(2)]
  by (simp add: ring_inv_def AddNode_def add.commute)

lemma filter_vnodesOf: "filter (\<lambda>vn. vnode vn \<noteq> x) (vnodesOf hf k n) =
    (if n = x then [] else vnodesOf hf k n)"
  by (auto simp: filter_empty_conv filter_id_conv dest: vnode_vnodesOf)

lemma filter_mset_other: "filter_mset (\<lambda>vn. vnode vn \<noteq> x) (mset (vnodesOf hf k n)) =
    (if n = x then {#} else mset (vnodesOf hf k n))"
  by (simp flip: mset_filter add: filter_vnodesOf)

lemma filter_mset_sum:
  "finite N \<Longrightarrow> filter_mset P (\<Sum>n \<in> N. f n) = (\<Sum>n \<in> N. filter_mset P (f n))"
  by (induction N rule: finite_induct) auto

lemma ring_inv_RemoveNode:
  assumes "ring_inv hf r"
  shows "ring_inv hf (RemoveNode x r)"
proof (cases "x \<in> rnodes r")
  case True
  have "(\<Sum>n \<in> rnodes r. filter_mset (\<lambda>vn. vnode vn \<noteq> x) (mset (vnodesOf hf (vnodesPerNode r) n)))
      = (\<Sum>n \<in> rnodes r - {x}. mset (vnodesOf hf (vnodesPerNode r) n))"
    using assms True by (subst sum.remove [of _ x]) (auto simp: ring_inv_def filter_mset_other intro: sum.cong)
  moreover have "sorted (map vhash (filter P (virtuals r)))" for P
    using assms by (simp add: ring_inv_def sorted_filter)
  ultimately show ?thesis
    using assms True by (simp add: ring_inv_def RemoveNode_def filter_mset_sum)
qed (simp add: RemoveNode_def assms)

section \<open>Lookup\<close>

text \<open>
  The reference: the first virtual node clockwise from the key's hash, wrapping around to the first
  virtual node of the ring.
\<close>

definition clockwise :: "u64 \<Rightarrow> virtualNode list \<Rightarrow> virtualNode option" where
  "clockwise h vs = (case find (\<lambda>v. h \<le> vhash v) vs of
     Some v \<Rightarrow> Some v
   | None \<Rightarrow> (case vs of [] \<Rightarrow> None | v # _ \<Rightarrow> Some v))"

lemma Lookup_clockwise:
  assumes "sorted (map vhash (virtuals r))"
  shows "Lookup hf k r = map_option vnode (clockwise (hf k) (virtuals r))"
  using Search_find [OF assms refl, of "hf k"]
  by (cases "virtuals r") (auto simp: Lookup_def clockwise_def Let_def split: option.splits if_splits)

lemma clockwise_in: "clockwise h vs = Some v \<Longrightarrow> v \<in> set vs"
  by (auto simp: clockwise_def find_Some_iff split: option.splits list.splits)

lemma clockwise_None: "clockwise h vs = None \<longleftrightarrow> vs = []"
  by (auto simp: clockwise_def split: option.splits list.splits)

lemma clockwise_filter:
  assumes "clockwise h vs = Some v" and "P v"
  shows "clockwise h (filter P vs) = Some v"
proof (cases "find (\<lambda>v. h \<le> vhash v) vs")
  case None
  then have "\<exists>ws. vs = v # ws" using assms(1) by (auto simp: clockwise_def split: list.splits)
  with None assms(2) find_filter_None [OF None] show ?thesis
    by (auto simp: clockwise_def)
next
  case (Some w)
  with assms have "find (\<lambda>v. h \<le> vhash v) (filter P vs) = Some v"
    by (intro find_filter_keep) (auto simp: clockwise_def)
  then show ?thesis by (simp add: clockwise_def)
qed

text \<open>The same by positions instead of list order: \<open>v\<close> is a clockwise neighbour of \<open>h\<close> in the set \<open>V\<close>.\<close>

definition neighbour :: "u64 \<Rightarrow> virtualNode set \<Rightarrow> virtualNode \<Rightarrow> bool" where
  "neighbour h V v \<longleftrightarrow> v \<in> V \<and>
     (if \<exists>w \<in> V. h \<le> vhash w then h \<le> vhash v \<and> (\<forall>w \<in> V. h \<le> vhash w \<longrightarrow> vhash v \<le> vhash w)
      else \<forall>w \<in> V. vhash v \<le> vhash w)"

lemma clockwise_neighbour:
  assumes "sorted (map vhash vs)" and "clockwise h vs = Some v"
  shows "neighbour h (set vs) v"
proof (cases "find (\<lambda>v. h \<le> vhash v) vs")
  case None
  then obtain ws where "vs = v # ws" using assms(2) by (auto simp: clockwise_def split: list.splits)
  moreover have "\<not> (\<exists>w \<in> set vs. h \<le> vhash w)" using None by (auto simp: find_None_iff)
  ultimately show ?thesis using assms(1) by (auto simp: neighbour_def)
next
  case (Some w)
  then have "find (\<lambda>v. h \<le> vhash v) vs = Some v"
    using assms(2) by (simp add: clockwise_def)
  then obtain i where i: "i < length vs" "h \<le> vhash (vs ! i)" "v = vs ! i" "\<forall>j < i. \<not> h \<le> vhash (vs ! j)"
    by (auto simp: find_Some_iff)
  have "vhash v \<le> vhash (vs ! j)" if "j < length vs" "h \<le> vhash (vs ! j)" for j
  proof -
    have "i \<le> j" using that i(4) by (meson not_le)
    then show ?thesis using sorted_nth_mono [OF assms(1), of i j] that i by simp
  qed
  then have "\<forall>w \<in> set vs. h \<le> vhash w \<longrightarrow> vhash v \<le> vhash w" by (auto simp: in_set_conv_nth)
  moreover have "v \<in> set vs" "h \<le> vhash v" using i by simp_all
  ultimately show ?thesis unfolding neighbour_def by auto
qed

lemma neighbour_unique:
  assumes "neighbour h V v" "neighbour h V w" and "inj_on vhash V"
  shows "v = w"
proof -
  have "vhash v = vhash w"
    using assms(1,2) by (auto simp: neighbour_def split: if_splits intro: antisym)
  with assms show ?thesis by (auto simp: neighbour_def dest: inj_onD)
qed

lemma neighbour_subset: "neighbour h V v \<Longrightarrow> W \<subseteq> V \<Longrightarrow> v \<in> W \<Longrightarrow> neighbour h W v"
  unfolding neighbour_def by (auto split: if_splits)


lemma Lookup_None_iff: "ring_inv hf r \<Longrightarrow> Lookup hf k r = None \<longleftrightarrow> rnodes r = {}"
  using ring_virtuals_nil [of hf r] by (simp add: Lookup_def Let_def)

lemma Lookup_member:
  assumes "ring_inv hf r" and "Lookup hf k r = Some n"
  shows "n \<in> rnodes r"
proof -
  have "sorted (map vhash (virtuals r))" using assms(1) by (simp add: ring_inv_def)
  then obtain v where "clockwise (hf k) (virtuals r) = Some v" "vnode v = n"
    using assms(2) by (auto simp: Lookup_clockwise)
  then show ?thesis using ring_virtuals_member [OF assms(1)] by (auto dest: clockwise_in)
qed

section \<open>Properties\<close>

text \<open>The ring invariant. From any ring that satisfies it, and in particular from \<open>NewRing\<close>,
  joining and leaving nodes keeps the virtual nodes sorted by hash and exactly the configured
  replicas of the present members, with any sorting routine that meets the contract of \<open>sort.Slice\<close>.\<close>

theorem ring_invariant:
  assumes "hash_sorter srt" and "ring_inv hf r"
  shows "ring_inv hf (NewRing opts) \<and> ring_inv hf (AddNode hf srt x r) \<and> ring_inv hf (RemoveNode x r)"
  using assms by (simp add: ring_inv_NewRing ring_inv_AddNode ring_inv_RemoveNode)

text \<open>A hash for examples.\<close>

definition poly_hash :: "string \<Rightarrow> u64" where
  "poly_hash s = foldl (\<lambda>h c. 37 * h + of_char c) 7 s"

definition ring_ab :: Ring where
  "ring_ab = AddNode poly_hash (sort_key vhash) ''b'' (AddNode poly_hash (sort_key vhash) ''a'' (NewRing [2]))"

lemma ring_inv_ab: "ring_inv poly_hash ring_ab"
  unfolding ring_ab_def
  by (intro ring_inv_AddNode ring_inv_NewRing insertion_sort.hash_sorter_axioms)

theorem ring_invariant_witness:
  "ring_inv poly_hash (AddNode poly_hash (sort_key vhash) ''c'' ring_ab) \<and> ring_inv poly_hash (RemoveNode ''a'' ring_ab)"
  using ring_invariant [OF insertion_sort.hash_sorter_axioms ring_inv_ab] by blast

text \<open>C14: \<open>Lookup\<close> answers exactly when the ring has a member, the answer is a member, and its binary
  search agrees with the reference: the first virtual node clockwise from the key's hash.\<close>

theorem Lookup_correct:
  assumes "ring_inv hf r"
  shows "Lookup hf k r = map_option vnode (clockwise (hf k) (virtuals r))
    \<and> (Lookup hf k r = None \<longleftrightarrow> rnodes r = {}) \<and> (\<forall>n. Lookup hf k r = Some n \<longrightarrow> n \<in> rnodes r)"
  using assms Lookup_clockwise [of r hf k] Lookup_None_iff [OF assms, of k] Lookup_member [OF assms, of k]
  by (simp add: ring_inv_def)

theorem Lookup_correct_witness: "\<exists>n. Lookup poly_hash ''key'' ring_ab = Some n \<and> n \<in> rnodes ring_ab"
proof -
  have "rnodes ring_ab \<noteq> {}" by (auto simp: ring_ab_def AddNode_def)
  then obtain n where n: "Lookup poly_hash ''key'' ring_ab = Some n"
    using Lookup_correct [OF ring_inv_ab, of "''key''"] by blast
  then show ?thesis using Lookup_correct [OF ring_inv_ab, of "''key''"] by blast
qed

text \<open>C7: Minimal rebalancing on leave. Removing a node moves only the keys that node owned.\<close>

theorem RemoveNode_minimal:
  assumes "ring_inv hf r" and "Lookup hf k r = Some n" and "n \<noteq> x"
  shows "Lookup hf k (RemoveNode x r) = Some n"
proof -
  have sorted: "sorted (map vhash (virtuals r))" "sorted (map vhash (virtuals (RemoveNode x r)))"
    using assms(1) ring_inv_RemoveNode [OF assms(1), of x] by (simp_all add: ring_inv_def)
  obtain v where v: "clockwise (hf k) (virtuals r) = Some v" "vnode v = n"
    using assms(2) Lookup_clockwise [OF sorted(1)] by auto
  then have "clockwise (hf k) (virtuals (RemoveNode x r)) = Some v"
    using assms(3) clockwise_filter [of _ "virtuals r" v "\<lambda>vn. vnode vn \<noteq> x"] by (auto simp: RemoveNode_def)
  then show ?thesis using v(2) Lookup_clockwise [OF sorted(2)] by simp
qed

theorem RemoveNode_minimal_witness:
  "Lookup poly_hash ''a#3'' (RemoveNode ''a'' ring_ab) = Some ''b''"
proof (rule RemoveNode_minimal [OF ring_inv_ab])
  show "Lookup poly_hash ''a#3'' ring_ab = Some ''b''" by code_simp
qed simp

text \<open>C10: Minimal rebalancing on join. When no two virtual nodes of the enlarged ring share a hash, a
  key keeps its owner or moves to the node that joined.\<close>

theorem AddNode_minimal:
  assumes "hash_sorter srt" and "ring_inv hf r" and "Lookup hf k r = Some n"
    and "inj_on vhash (set (virtuals (AddNode hf srt x r)))"
  shows "Lookup hf k (AddNode hf srt x r) = Some n \<or> Lookup hf k (AddNode hf srt x r) = Some x"
proof -
  let ?r = "AddNode hf srt x r"
  have inv: "ring_inv hf ?r" using assms(1,2) by (simp add: ring_inv_AddNode)
  have sorted: "sorted (map vhash (virtuals r))" "sorted (map vhash (virtuals ?r))"
    using assms(2) inv by (simp_all add: ring_inv_def)
  have sub: "set (virtuals r) \<subseteq> set (virtuals ?r)"
    and new: "v \<in> set (virtuals ?r) \<Longrightarrow> v \<in> set (virtuals r) \<or> vnode v = x" for v
    using hash_sorter.srt_set [OF assms(1)]
    by (auto simp: AddNode_def split: if_splits dest: vnode_vnodesOf)
  obtain v where v: "clockwise (hf k) (virtuals r) = Some v" "vnode v = n"
    using assms(3) Lookup_clockwise [OF sorted(1)] by auto
  then obtain w where w: "clockwise (hf k) (virtuals ?r) = Some w"
    using sub clockwise_in [OF v(1)] by (metis clockwise_None empty_iff empty_set not_None_eq subsetD)
  have "w = v" if "w \<in> set (virtuals r)"
  proof (rule neighbour_unique)
    show "neighbour (hf k) (set (virtuals r)) w"
      using clockwise_neighbour [OF sorted(2) w] sub that by (rule neighbour_subset)
    show "neighbour (hf k) (set (virtuals r)) v" using clockwise_neighbour [OF sorted(1) v(1)] .
    show "inj_on vhash (set (virtuals r))" using assms(4) sub by (rule inj_on_subset)
  qed
  then show ?thesis
    using new [OF clockwise_in [OF w]] v(2) w Lookup_clockwise [OF sorted(2)] by auto
qed

theorem AddNode_minimal_witness:
  "Lookup poly_hash ''k'' (AddNode poly_hash (sort_key vhash) ''y'' ring_ab) \<in> {Some ''a'', Some ''y''}"
proof -
  have "inj_on vhash (set (virtuals (AddNode poly_hash (sort_key vhash) ''y'' ring_ab)))"
    by code_simp
  moreover have "Lookup poly_hash ''k'' ring_ab = Some ''a''" by code_simp
  ultimately show ?thesis
    using AddNode_minimal [OF insertion_sort.hash_sorter_axioms ring_inv_ab] by blast
qed

text \<open>\<open>MigrationKeys\<close> predicts \<open>RemoveNode\<close>: for a member \<open>x\<close> it maps exactly the given keys that
  \<open>x\<close> owns and that have an owner afterwards, each to its owner after the removal.\<close>

theorem MigrationKeys_correct:
  assumes "ring_inv hf r" and "x \<in> rnodes r"
  shows "MigrationKeys hf keys x r k =
    (if k \<in> set keys \<and> Lookup hf k r = Some x then Lookup hf k (RemoveNode x r) else None)"
proof -
  define g where "g k = (if Lookup hf k r = Some x then Lookup hf k (RemoveNode x r) else None)" for k
  have sim: "\<lparr>virtuals = filter (\<lambda>vn. vnode vn \<noteq> x) (virtuals r), rnodes = rnodes r - {x},
      vnodesPerNode = vnodesPerNode r\<rparr> = RemoveNode x r"
    using assms(2) by (simp add: RemoveNode_def)
  have "(let old = case Lookup hf k r of None \<Rightarrow> [] | Some s \<Rightarrow> s
       in case Lookup hf k (RemoveNode x r) of
            Some new \<Rightarrow> if old \<noteq> new \<and> old = x then m(k \<mapsto> new) else m | None \<Rightarrow> m)
     = (case g k of Some v \<Rightarrow> m(k \<mapsto> v) | None \<Rightarrow> m)" for k m
  proof -
    have "Lookup hf k r \<noteq> None" using Lookup_None_iff [OF assms(1)] assms(2) by auto
    moreover have "x \<notin> rnodes (RemoveNode x r)" by (simp add: RemoveNode_def)
    then have "Lookup hf k (RemoveNode x r) \<noteq> Some x"
      using Lookup_member [OF ring_inv_RemoveNode [OF assms(1)]] by blast
    ultimately show ?thesis by (auto simp: g_def Let_def split: option.splits)
  qed
  then have "MigrationKeys hf keys x r = fold (\<lambda>k m. case g k of Some v \<Rightarrow> m(k \<mapsto> v) | None \<Rightarrow> m) keys Map.empty"
    by (simp add: MigrationKeys_def sim Let_def)
  then show ?thesis by (auto simp: fold_map_upd g_def)
qed

theorem MigrationKeys_correct_witness:
  "MigrationKeys poly_hash [''k'', ''a#3''] ''a'' ring_ab ''k'' = Some ''b''"
proof -
  have "''a'' \<in> rnodes ring_ab" by (simp add: ring_ab_def AddNode_def NewRing_def WithVirtualNodes_def)
  from MigrationKeys_correct [OF ring_inv_ab this, of "[''k'', ''a#3'']" "''k''"]
  have "MigrationKeys poly_hash [''k'', ''a#3''] ''a'' ring_ab ''k'' =
      (if Lookup poly_hash ''k'' ring_ab = Some ''a'' then Lookup poly_hash ''k'' (RemoveNode ''a'' ring_ab) else None)"
    by simp
  moreover have "Lookup poly_hash ''k'' ring_ab = Some ''a''" by code_simp
  moreover have "Lookup poly_hash ''k'' (RemoveNode ''a'' ring_ab) = Some ''b''" by code_simp
  ultimately show ?thesis by simp
qed

end
