(* ===== verification/NodeManager.thy ===== *)
theory NodeManager
  imports Ring
begin

text \<open>
  Membership and health tracking on top of the ring
  (\<open>src/internal/distributed/sharding/node_manager.go\<close>). \<open>checkHealth\<close> ranges over a Go map; the
  visiting order is its argument \<open>order\<close>. The \<open>OnChange\<close> callback is the list \<open>nm_calls\<close> of the
  snapshots it has been given.
\<close>

section \<open>Data and operations\<close>

datatype NodeState = StateHealthy | StateSuspect | StateDown

definition NodeState_String :: "NodeState \<Rightarrow> string" where
  "NodeState_String s = (case s of StateSuspect \<Rightarrow> ''suspect'' | StateDown \<Rightarrow> ''down'' | _ \<Rightarrow> ''healthy'')"

record NodeInfo =
  ni_ID :: string
  ni_State :: NodeState
  JoinedAt :: instant
  LastSeen :: instant
  ShardLoad :: int

record NodeManagerOptions =
  SuspectAfter :: duration
  DownAfter :: duration
  CheckInterval :: duration
  OnChange :: bool

record NodeManager =
  nm_ring :: Ring
  nm_nodes :: "string \<rightharpoonup> NodeInfo"
  nm_opts :: NodeManagerOptions
  nm_calls :: "(string \<rightharpoonup> NodeInfo) list"

definition NewNodeManager :: "Ring \<Rightarrow> NodeManagerOptions \<Rightarrow> NodeManager" where
  "NewNodeManager r o0 = (let
     o1 = (if CheckInterval o0 = 0 then o0\<lparr>CheckInterval := 5 * second\<rparr> else o0);
     o2 = (if SuspectAfter o1 = 0 then o1\<lparr>SuspectAfter := 2 * CheckInterval o1\<rparr> else o1);
     o3 = (if DownAfter o2 = 0 then o2\<lparr>DownAfter := 3 * CheckInterval o2\<rparr> else o2)
   in \<lparr>nm_ring = r, nm_nodes = Map.empty, nm_opts = o3, nm_calls = []\<rparr>)"

definition notifyLocked :: "NodeManager \<Rightarrow> NodeManager" where
  "notifyLocked nm = (if OnChange (nm_opts nm) then nm\<lparr>nm_calls := nm_calls nm @ [nm_nodes nm]\<rparr> else nm)"

definition newInfo :: "string \<Rightarrow> instant \<Rightarrow> NodeInfo" where
  "newInfo nodeID now = \<lparr>ni_ID = nodeID, ni_State = StateHealthy, JoinedAt = now, LastSeen = now, ShardLoad = 0\<rparr>"

definition Join :: "(string \<Rightarrow> u64) \<Rightarrow> (virtualNode list \<Rightarrow> virtualNode list) \<Rightarrow> instant \<Rightarrow> string \<Rightarrow>
    NodeManager \<Rightarrow> NodeManager" where
  "Join hf srt now nodeID nm = (case nm_nodes nm nodeID of
     Some info \<Rightarrow>
       nm\<lparr>nm_nodes := (nm_nodes nm)(nodeID \<mapsto> info\<lparr>ni_State := StateHealthy, LastSeen := now\<rparr>)\<rparr>
   | None \<Rightarrow>
       notifyLocked (nm\<lparr>nm_ring := AddNode hf srt nodeID (nm_ring nm),
                        nm_nodes := (nm_nodes nm)(nodeID \<mapsto> newInfo nodeID now)\<rparr>))"

definition Leave :: "string \<Rightarrow> NodeManager \<Rightarrow> NodeManager" where
  "Leave nodeID nm = notifyLocked
     (nm\<lparr>nm_nodes := (nm_nodes nm)(nodeID := None), nm_ring := RemoveNode nodeID (nm_ring nm)\<rparr>)"

definition Heartbeat :: "(string \<Rightarrow> u64) \<Rightarrow> (virtualNode list \<Rightarrow> virtualNode list) \<Rightarrow> instant \<Rightarrow> string \<Rightarrow>
    NodeManager \<Rightarrow> NodeManager" where
  "Heartbeat hf srt now nodeID nm = (case nm_nodes nm nodeID of
     Some info \<Rightarrow>
       (let info1 = info\<lparr>LastSeen := now\<rparr>;
            info2 = (if ni_State info1 \<noteq> StateHealthy then info1\<lparr>ni_State := StateHealthy\<rparr> else info1)
        in nm\<lparr>nm_nodes := (nm_nodes nm)(nodeID \<mapsto> info2)\<rparr>)
   | None \<Rightarrow>
       notifyLocked (nm\<lparr>nm_ring := AddNode hf srt nodeID (nm_ring nm),
                        nm_nodes := (nm_nodes nm)(nodeID \<mapsto> newInfo nodeID now)\<rparr>))"

definition HealthyNodes :: "string list \<Rightarrow> NodeManager \<Rightarrow> string list" where
  "HealthyNodes order nm = filter (\<lambda>i. case nm_nodes nm i of
     Some info \<Rightarrow> ni_State info = StateHealthy | None \<Rightarrow> False) order"

text \<open>One iteration of the loop of \<open>checkHealth\<close>, on the manager and the flag \<open>changed\<close>.\<close>

definition checkNode :: "instant \<Rightarrow> string \<Rightarrow> NodeManager \<times> bool \<Rightarrow> NodeManager \<times> bool" where
  "checkNode now i s = (case s of (nm, changed) \<Rightarrow> (case nm_nodes nm i of None \<Rightarrow> (nm, changed)
     | Some info \<Rightarrow> (let elapsed = now - LastSeen info in
         case ni_State info of
           StateHealthy \<Rightarrow>
             (if elapsed \<ge> SuspectAfter (nm_opts nm)
              then (nm\<lparr>nm_nodes := (nm_nodes nm)(i \<mapsto> info\<lparr>ni_State := StateSuspect\<rparr>)\<rparr>, changed)
              else (nm, changed))
         | StateSuspect \<Rightarrow>
             (if elapsed \<ge> DownAfter (nm_opts nm)
              then (nm\<lparr>nm_ring := RemoveNode i (nm_ring nm), nm_nodes := (nm_nodes nm)(i := None)\<rparr>, True)
              else (nm, changed))
         | StateDown \<Rightarrow> (nm, changed))))"

definition checkHealth :: "string list \<Rightarrow> instant \<Rightarrow> NodeManager \<Rightarrow> NodeManager" where
  "checkHealth order now nm = (let (nm', changed) = fold (checkNode now) order (nm, False)
     in if changed then notifyLocked nm' else nm')"

section \<open>Invariant\<close>

definition nm_inv :: "(string \<Rightarrow> u64) \<Rightarrow> NodeManager \<Rightarrow> bool" where
  "nm_inv hf nm \<longleftrightarrow> ring_inv hf (nm_ring nm) \<and> dom (nm_nodes nm) = rnodes (nm_ring nm)
     \<and> (\<forall>i info. nm_nodes nm i = Some info \<longrightarrow> ni_ID info = i \<and> ni_State info \<noteq> StateDown)"

inductive nm_step :: "(string \<Rightarrow> u64) \<Rightarrow> NodeManager \<Rightarrow> NodeManager \<Rightarrow> bool" for hf where
  "hash_sorter srt \<Longrightarrow> nm_step hf nm (Join hf srt now i nm)"
| "nm_step hf nm (Leave i nm)"
| "hash_sorter srt \<Longrightarrow> nm_step hf nm (Heartbeat hf srt now i nm)"
| "distinct order \<Longrightarrow> set order = dom (nm_nodes nm) \<Longrightarrow> nm_step hf nm (checkHealth order now nm)"

definition nm_init :: "NodeManager \<Rightarrow> bool" where
  "nm_init nm \<longleftrightarrow> (\<exists>opts o0. nm = NewNodeManager (NewRing opts) o0)"

lemma nm_inv_notify [simp]: "nm_inv hf (notifyLocked nm) = nm_inv hf nm"
  by (simp add: nm_inv_def notifyLocked_def)

lemma rnodes_simps [simp]:
  "rnodes (AddNode hf srt x r) = insert x (rnodes r)" "rnodes (RemoveNode x r) = rnodes r - {x}"
  by (auto simp: AddNode_def RemoveNode_def)

lemma rnodes_NewRing: "rnodes (NewRing opts) = {}"
proof -
  have "rnodes (fold WithVirtualNodes opts r) = rnodes r" for r
    by (induction opts arbitrary: r) (auto simp: WithVirtualNodes_def)
  then show ?thesis by (simp add: NewRing_def)
qed

lemma nm_inv_admit:
  "nm_inv hf nm \<Longrightarrow> hash_sorter srt \<Longrightarrow> nm_inv hf (nm\<lparr>nm_ring := AddNode hf srt i (nm_ring nm),
     nm_nodes := (nm_nodes nm)(i \<mapsto> newInfo i now)\<rparr>)"
  by (auto simp: nm_inv_def ring_inv_AddNode newInfo_def)

lemma nm_inv_refresh:
  "nm_inv hf nm \<Longrightarrow> nm_nodes nm i = Some info \<Longrightarrow> ni_ID info' = ni_ID info \<Longrightarrow> ni_State info' \<noteq> StateDown \<Longrightarrow>
   nm_inv hf (nm\<lparr>nm_nodes := (nm_nodes nm)(i \<mapsto> info')\<rparr>)"
  by (auto simp: nm_inv_def)

lemma nm_inv_drop:
  "nm_inv hf nm \<Longrightarrow> nm_inv hf (nm\<lparr>nm_ring := RemoveNode i (nm_ring nm), nm_nodes := (nm_nodes nm)(i := None)\<rparr>)"
  by (auto simp: nm_inv_def ring_inv_RemoveNode)

lemma nm_inv_checkNode:
  assumes "nm_inv hf (fst s)"
  shows "nm_inv hf (fst (checkNode now i s))"
proof -
  obtain nm ch where s: "s = (nm, ch)" by (cases s)
  show ?thesis
    using assms s by (auto simp: checkNode_def Let_def nm_inv_drop split: option.splits NodeState.splits
        intro!: nm_inv_refresh)
qed

lemma nm_inv_fold: "nm_inv hf (fst s) \<Longrightarrow> nm_inv hf (fst (fold (checkNode now) order s))"
  by (induction order arbitrary: s) (auto simp: nm_inv_checkNode)

lemma nm_inv_step: "nm_inv hf nm \<Longrightarrow> nm_step hf nm nm' \<Longrightarrow> nm_inv hf nm'"
proof (erule nm_step.cases)
  fix srt now i nm1
  assume "nm_inv hf nm" "nm = nm1" "nm' = Join hf srt now i nm1" "hash_sorter srt"
  then show "nm_inv hf nm'"
    by (auto simp: Join_def nm_inv_admit split: option.splits intro!: nm_inv_refresh)
next
  fix nm1 i
  assume "nm_inv hf nm" "nm = nm1" "nm' = Leave i nm1"
  then show "nm_inv hf nm'" by (auto simp: Leave_def) (auto simp: nm_inv_def ring_inv_RemoveNode)
next
  fix srt nm1 now i
  assume "nm_inv hf nm" "nm = nm1" "nm' = Heartbeat hf srt now i nm1" "hash_sorter srt"
  then show "nm_inv hf nm'"
    by (auto simp: Heartbeat_def Let_def nm_inv_admit split: option.splits intro!: nm_inv_refresh)
next
  fix order nm1 now
  assume "nm_inv hf nm" "nm = nm1" "nm' = checkHealth order now nm1"
  then show "nm_inv hf nm'"
    using nm_inv_fold [of hf "(nm, False)" now order] by (auto simp: checkHealth_def split: prod.splits)
qed

interpretation manager: invariant_system nm_init "nm_step hf" "nm_inv hf" for hf
proof unfold_locales
  show "nm_init s \<Longrightarrow> nm_inv hf s" for s
    by (auto simp: nm_init_def nm_inv_def NewNodeManager_def Let_def ring_inv_NewRing rnodes_NewRing)
qed (rule nm_inv_step)


section \<open>What a scan does\<close>

text \<open>The fate of one node in a scan, and the nodes a scan removes.\<close>

definition scanned :: "NodeManagerOptions \<Rightarrow> instant \<Rightarrow> NodeInfo \<Rightarrow> NodeInfo option" where
  "scanned opts now info = (let elapsed = now - LastSeen info in
     if ni_State info = StateHealthy \<and> SuspectAfter opts \<le> elapsed then Some (info\<lparr>ni_State := StateSuspect\<rparr>)
     else if ni_State info = StateSuspect \<and> DownAfter opts \<le> elapsed then None
     else Some info)"

definition expired :: "NodeManager \<Rightarrow> instant \<Rightarrow> string set" where
  "expired nm now = {i. \<exists>info. nm_nodes nm i = Some info \<and> scanned (nm_opts nm) now info = None}"

definition dropNodes :: "string set \<Rightarrow> Ring \<Rightarrow> Ring" where
  "dropNodes X r = r\<lparr>rnodes := rnodes r - X, virtuals := filter (\<lambda>vn. vnode vn \<notin> X) (virtuals r)\<rparr>"

lemma RemoveNode_dropNodes:
  "i \<in> rnodes r \<Longrightarrow> i \<notin> X \<Longrightarrow> RemoveNode i (dropNodes X r) = dropNodes (insert i X) r"
proof -
  assume "i \<in> rnodes r" "i \<notin> X"
  moreover have "rnodes r - X - {i} = rnodes r - insert i X" by auto
  moreover have "filter (\<lambda>x. vnode x \<notin> X \<and> vnode x \<noteq> i) (virtuals r) = filter (\<lambda>vn. vnode vn \<notin> insert i X) (virtuals r)"
    by (rule filter_cong) auto
  ultimately show ?thesis by (simp add: RemoveNode_def dropNodes_def)
qed

text \<open>The state of the loop after visiting the nodes \<open>D\<close>.\<close>

definition scan_state :: "NodeManager \<Rightarrow> instant \<Rightarrow> string set \<Rightarrow> NodeManager \<times> bool" where
  "scan_state nm now D = (nm\<lparr>
     nm_nodes := (\<lambda>i. if i \<in> D then Option.bind (nm_nodes nm i) (scanned (nm_opts nm) now) else nm_nodes nm i),
     nm_ring := dropNodes (expired nm now \<inter> D) (nm_ring nm)\<rparr>, expired nm now \<inter> D \<noteq> {})"

lemma expired_member: "nm_inv hf nm \<Longrightarrow> i \<in> expired nm now \<Longrightarrow> i \<in> rnodes (nm_ring nm)"
  by (auto simp: expired_def nm_inv_def)

lemma checkNode_scan:
  assumes inv: "nm_inv hf nm" and "i \<in> dom (nm_nodes nm)" and "i \<notin> D"
  shows "checkNode now i (scan_state nm now D) = scan_state nm now (insert i D)"
proof -
  obtain info where info: "nm_nodes nm i = Some info" using assms(2) by blast
  have "ni_State info \<noteq> StateDown" using inv info by (simp add: nm_inv_def)
  moreover have "expired nm now \<inter> insert i D =
      (if scanned (nm_opts nm) now info = None then insert i (expired nm now \<inter> D) else expired nm now \<inter> D)"
    using info by (auto simp: expired_def)
  moreover have "RemoveNode i (dropNodes (expired nm now \<inter> D) (nm_ring nm))
      = dropNodes (insert i (expired nm now \<inter> D)) (nm_ring nm)"
    using inv info assms(3) by (intro RemoveNode_dropNodes) (auto simp: nm_inv_def)
  ultimately show ?thesis
    using info assms(3)
    by (auto simp: checkNode_def scan_state_def scanned_def Let_def fun_eq_iff split: NodeState.splits if_splits)
qed

lemma fold_scan:
  assumes "nm_inv hf nm" and "distinct order" and "set order \<subseteq> dom (nm_nodes nm)" and "set order \<inter> D = {}"
  shows "fold (checkNode now) order (scan_state nm now D) = scan_state nm now (D \<union> set order)"
  using assms(2-4)
proof (induction order arbitrary: D)
  case (Cons i order)
  then show ?case using checkNode_scan [OF assms(1), of i D now] by auto
qed simp

lemma scan_state_empty: "scan_state nm now {} = (nm, False)"
  by (simp add: scan_state_def dropNodes_def)

lemma checkHealth_eq:
  assumes "nm_inv hf nm" and "distinct order" and "set order = dom (nm_nodes nm)"
  shows "checkHealth order now nm = (let nm' = nm\<lparr>
      nm_nodes := (\<lambda>i. Option.bind (nm_nodes nm i) (scanned (nm_opts nm) now)),
      nm_ring := dropNodes (expired nm now) (nm_ring nm)\<rparr>
    in if expired nm now \<noteq> {} then notifyLocked nm' else nm')"
proof -
  have "expired nm now \<inter> dom (nm_nodes nm) = expired nm now" by (auto simp: expired_def)
  moreover have "(\<lambda>i. if i \<in> dom (nm_nodes nm) then Option.bind (nm_nodes nm i) (scanned (nm_opts nm) now)
      else nm_nodes nm i) = (\<lambda>i. Option.bind (nm_nodes nm i) (scanned (nm_opts nm) now))"
    by (auto simp: fun_eq_iff domIff)
  ultimately show ?thesis
    using fold_scan [OF assms(1,2), of "{}" now] assms(3)
    by (simp add: checkHealth_def scan_state_empty) (simp add: scan_state_def Let_def)
qed


section \<open>Properties\<close>

text \<open>C33: Membership and ring agree. Whatever joins, leaves, heartbeats and health scans follow
  \<open>NewNodeManager\<close> on a new ring, the ring satisfies its invariant, its members are exactly the
  tracked nodes, and no tracked node is marked down.\<close>

theorem manager_invariant:
  assumes "(nm_step hf)\<^sup>*\<^sup>* (NewNodeManager (NewRing opts) o0) nm"
  shows "ring_inv hf (nm_ring nm) \<and> dom (nm_nodes nm) = rnodes (nm_ring nm)
    \<and> (\<forall>i info. nm_nodes nm i = Some info \<longrightarrow> ni_ID info = i \<and> ni_State info \<noteq> StateDown)"
  using manager.invar_reachable [OF _ assms] by (auto simp: nm_init_def nm_inv_def)

definition sampleOpts :: NodeManagerOptions where
  "sampleOpts = \<lparr>SuspectAfter = 0, DownAfter = 0, CheckInterval = 10, OnChange = True\<rparr>"

definition sampleManager :: NodeManager where
  "sampleManager = Join poly_hash (sort_key vhash) 100 ''a'' (NewNodeManager (NewRing [1]) sampleOpts)"

lemma sampleManager_reach: "(nm_step poly_hash)\<^sup>*\<^sup>* (NewNodeManager (NewRing [1]) sampleOpts) sampleManager"
  unfolding sampleManager_def
  by (rule r_into_rtranclp, rule nm_step.intros(1), rule insertion_sort.hash_sorter_axioms)

theorem manager_invariant_witness: "rnodes (nm_ring sampleManager) = dom (nm_nodes sampleManager)"
  using manager_invariant [OF sampleManager_reach] by simp

lemma sampleManager_inv: "nm_inv poly_hash sampleManager"
  using manager.invar_reachable [OF _ sampleManager_reach] by (auto simp: nm_init_def)

text \<open>A health scan does not depend on the order in which Go visits the map: any two orders give
  the same nodes, ring and callbacks.\<close>

theorem checkHealth_order_independent:
  assumes "nm_inv hf nm" and "distinct o1" "set o1 = dom (nm_nodes nm)"
    and "distinct o2" "set o2 = dom (nm_nodes nm)"
  shows "checkHealth o1 now nm = checkHealth o2 now nm"
  using checkHealth_eq [OF assms(1-3)] checkHealth_eq [OF assms(1,4,5)] by simp

theorem checkHealth_order_independent_witness:
  "checkHealth [''a'', ''b''] 500 (Join poly_hash (sort_key vhash) 110 ''b'' sampleManager)
   = checkHealth [''b'', ''a''] 500 (Join poly_hash (sort_key vhash) 110 ''b'' sampleManager)"
proof (rule checkHealth_order_independent)
  show "nm_inv poly_hash (Join poly_hash (sort_key vhash) 110 ''b'' sampleManager)"
    by (rule nm_inv_step [OF sampleManager_inv]) (rule nm_step.intros(1), rule insertion_sort.hash_sorter_axioms)
qed (auto simp: sampleManager_def Join_def NewNodeManager_def notifyLocked_def sampleOpts_def Let_def)

text \<open>C26: Failure detection, in every membership, also of a single node or of silent nodes only. A node that stays
  silent is suspected by the first scan after \<open>SuspectAfter\<close> and gone from the membership and from the ring after the
  next scan past \<open>DownAfter\<close>, so no key is routed to it any more; every node seen within \<open>SuspectAfter\<close> of
  both scans is untouched.\<close>

theorem silent_node_removed:
  assumes inv: "nm_inv hf nm" and "distinct o1" "set o1 = dom (nm_nodes nm)"
    and nm1: "nm1 = checkHealth o1 t1 nm" and "distinct o2" "set o2 = dom (nm_nodes nm1)"
    and nm2: "nm2 = checkHealth o2 t2 nm1"
    and x: "nm_nodes nm x = Some info" "SuspectAfter (nm_opts nm) \<le> t1 - LastSeen info"
      "DownAfter (nm_opts nm) \<le> t2 - LastSeen info"
  shows "nm_nodes nm2 x = None \<and> x \<notin> rnodes (nm_ring nm2) \<and> (\<forall>k. Lookup hf k (nm_ring nm2) \<noteq> Some x) \<and>
    (\<forall>y info'. nm_nodes nm y = Some info' \<and> ni_State info' = StateHealthy \<and> t1 - LastSeen info' < SuspectAfter (nm_opts nm) \<and>
      t2 - LastSeen info' < SuspectAfter (nm_opts nm) \<longrightarrow> nm_nodes nm2 y = Some info' \<and> y \<in> rnodes (nm_ring nm2))"
proof -
  have inv1: "nm_inv hf nm1" unfolding nm1
    by (rule nm_inv_step [OF inv]) (rule nm_step.intros(4) [OF assms(2,3)])
  have inv2: "nm_inv hf nm2" unfolding nm2
    by (rule nm_inv_step [OF inv1]) (rule nm_step.intros(4) [OF assms(5,6)])
  have one: "nm_nodes nm1 i = Option.bind (nm_nodes nm i) (scanned (nm_opts nm) t1)" "nm_opts nm1 = nm_opts nm" for i
    unfolding nm1 using checkHealth_eq [OF assms(1-3)] by (simp_all add: notifyLocked_def Let_def)
  have two: "nm_nodes nm2 i = Option.bind (nm_nodes nm1 i) (scanned (nm_opts nm) t2)" for i
    unfolding nm2 using checkHealth_eq [OF inv1 assms(5,6)] one(2) by (simp add: notifyLocked_def Let_def)
  have "ni_State info \<noteq> StateDown" using inv x(1) by (simp add: nm_inv_def)
  then have "nm_nodes nm2 x = None"
    using x by (cases "ni_State info") (auto simp: two one scanned_def Let_def)
  moreover from this have gone: "x \<notin> rnodes (nm_ring nm2)" using inv2 by (auto simp: nm_inv_def)
  then have "Lookup hf k (nm_ring nm2) \<noteq> Some x" for k
    using Lookup_member inv2 unfolding nm_inv_def by blast
  moreover have "nm_nodes nm2 y = Some info' \<and> y \<in> rnodes (nm_ring nm2)"
    if "nm_nodes nm y = Some info'" "ni_State info' = StateHealthy"
      "t1 - LastSeen info' < SuspectAfter (nm_opts nm)" "t2 - LastSeen info' < SuspectAfter (nm_opts nm)" for y info'
  proof -
    have "nm_nodes nm2 y = Some info'" using that by (simp add: two one scanned_def Let_def)
    then show ?thesis using inv2 by (auto simp: nm_inv_def)
  qed
  ultimately show ?thesis using gone by blast
qed


lemmas sample_simps = sampleManager_def Join_def NewNodeManager_def notifyLocked_def sampleOpts_def
  newInfo_def checkHealth_def checkNode_def Let_def

text \<open>A silent node beside one that is alive, and a silent node alone.\<close>

theorem silent_node_removed_witness:
  "let nm = Join poly_hash (sort_key vhash) 120 ''b'' sampleManager;
       nm2 = checkHealth [''b'', ''a''] 135 (checkHealth [''a'', ''b''] 125 nm)
   in nm_nodes nm2 ''a'' = None \<and> (\<forall>k. Lookup poly_hash k (nm_ring nm2) \<noteq> Some ''a'')
      \<and> nm_nodes nm2 ''b'' = Some (newInfo ''b'' 120)
      \<and> nm_nodes (checkHealth [''a''] 135 (checkHealth [''a''] 125 sampleManager)) ''a'' = None"
proof -
  define nm where "nm = Join poly_hash (sort_key vhash) 120 ''b'' sampleManager"
  define nm1 where "nm1 = checkHealth [''a'', ''b''] 125 nm"
  have inv: "nm_inv poly_hash nm" unfolding nm_def
    by (rule nm_inv_step [OF sampleManager_inv]) (rule nm_step.intros(1), rule insertion_sort.hash_sorter_axioms)
  have nodes: "nm_nodes nm = [''a'' \<mapsto> newInfo ''a'' 100, ''b'' \<mapsto> newInfo ''b'' 120]"
    "SuspectAfter (nm_opts nm) = 20" "DownAfter (nm_opts nm) = 30"
    by (simp_all add: nm_def sample_simps)
  have d1: "set [''a'', ''b''] = dom (nm_nodes nm)" using nodes by auto
  have d2: "set [''b'', ''a''] = dom (nm_nodes nm1)"
    using nodes by (simp add: nm1_def checkHealth_def checkNode_def newInfo_def Let_def insert_commute)
  have a: "nm_nodes nm ''a'' = Some (newInfo ''a'' 100)" "nm_nodes nm ''b'' = Some (newInfo ''b'' 120)"
    using nodes(1) by simp_all
  have "nm_nodes (checkHealth [''b'', ''a''] 135 nm1) ''a'' = None
      \<and> (\<forall>k. Lookup poly_hash k (nm_ring (checkHealth [''b'', ''a''] 135 nm1)) \<noteq> Some ''a'')
      \<and> nm_nodes (checkHealth [''b'', ''a''] 135 nm1) ''b'' = Some (newInfo ''b'' 120)"
    using silent_node_removed [OF inv _ d1 nm1_def _ d2 refl a(1)] a(2) by (simp add: nodes(2,3) newInfo_def)
  moreover have alone: "nm_nodes sampleManager = [''a'' \<mapsto> newInfo ''a'' 100]" "SuspectAfter (nm_opts sampleManager) = 20"
    "DownAfter (nm_opts sampleManager) = 30"
    by (simp_all add: sample_simps)
  have "nm_nodes (checkHealth [''a''] 135 (checkHealth [''a''] 125 sampleManager)) ''a'' = None"
  proof -
    have "set [''a''] = dom (nm_nodes (checkHealth [''a''] 125 sampleManager))"
      using alone by (simp add: checkHealth_def checkNode_def newInfo_def Let_def)
    then show ?thesis
      using silent_node_removed [OF sampleManager_inv _ _ refl _ _ refl, of "[''a'']" "[''a'']" 125 "''a''" "newInfo ''a'' 100" 135]
      by (simp add: alone newInfo_def)
  qed
  ultimately show ?thesis by (simp add: nm_def nm1_def Let_def)
qed

end
