(* ===== verification/Schema.thy ===== *)
theory Schema
  imports Prelude
begin

text \<open>
  Policy schemas and their versions (\<open>src/internal/governance/schema.go\<close>): semantic versions with
  their printed form and parser, the registry keyed by \<open>id@version\<close>, the exchange sort of \<open>List\<close> and
  the predecessor walk of \<open>MigrationChain\<close>. Go ranges over the registry map in an unspecified order;
  \<open>order\<close> is the list of the keys in the order visited.
\<close>

section \<open>Versions\<close>

record SchemaVersion =
  Major :: int
  Minor :: int
  Patch :: int

definition Version_String :: "SchemaVersion \<Rightarrow> string" where
  "Version_String v = Itoa (Major v) @ ''.'' @ Itoa (Minor v) @ ''.'' @ Itoa (Patch v)"

definition versionGt :: "SchemaVersion \<Rightarrow> SchemaVersion \<Rightarrow> bool" where
  "versionGt a b =
     (if Major a \<noteq> Major b then Major a > Major b
      else if Minor a \<noteq> Minor b then Minor a > Minor b
      else Patch a > Patch b)"

text \<open>
  \<open>fmt.Sscanf\<close> with the verb \<open>%d\<close>: skip blanks, an optional sign, at least one digit, and a value in
  the range of a 64-bit \<open>int\<close>. A literal of the format must match; input after the last verb is
  ignored.
\<close>

definition is_blank :: "char \<Rightarrow> bool" where
  "is_blank c \<longleftrightarrow> (of_char c :: nat) \<in> {9, 11, 12, 13, 32}"

definition is_digit :: "char \<Rightarrow> bool" where
  "is_digit c \<longleftrightarrow> 48 \<le> (of_char c :: nat) \<and> (of_char c :: nat) \<le> 57"

definition scan_d :: "string \<Rightarrow> (int \<times> string) option" where
  "scan_d s0 = (let s1 = dropWhile is_blank s0;
     (neg, s2) = (case s1 of c # s \<Rightarrow> if c = CHR ''-'' then (True, s) else if c = CHR ''+'' then (False, s) else (False, s1)
                  | [] \<Rightarrow> (False, []));
     ds = takeWhile is_digit s2; rest = dropWhile is_digit s2;
     value = (if neg then - int (undigits ds) else int (undigits ds))
   in if ds = [] \<or> value < - (2 ^ 63) \<or> 2 ^ 63 \<le> value then None else Some (value, rest))"

definition scan_dot :: "string \<Rightarrow> string option" where
  "scan_dot s = (case s of c # s' \<Rightarrow> if c = CHR ''.'' then Some s' else None | [] \<Rightarrow> None)"

definition scan_version :: "string \<Rightarrow> SchemaVersion option" where
  "scan_version s = (case scan_d s of None \<Rightarrow> None | Some (a, s) \<Rightarrow>
     (case scan_dot s of None \<Rightarrow> None | Some s \<Rightarrow>
       (case scan_d s of None \<Rightarrow> None | Some (b, s) \<Rightarrow>
         (case scan_dot s of None \<Rightarrow> None | Some s \<Rightarrow>
           (case scan_d s of None \<Rightarrow> None | Some (c, s) \<Rightarrow>
              Some \<lparr>Major = a, Minor = b, Patch = c\<rparr>)))))"

datatype schema_error = InvalidVersion string | NegativeComponent string | AlreadyRegistered string

definition ParseSchemaVersion :: "string \<Rightarrow> schema_error + SchemaVersion" where
  "ParseSchemaVersion s = (case scan_version s of
     None \<Rightarrow> Inl (InvalidVersion s)
   | Some v \<Rightarrow> if Major v < 0 \<or> Minor v < 0 \<or> Patch v < 0 then Inl (NegativeComponent s) else Inr v)"

section \<open>Schemas and the registry\<close>

record PolicySchema =
  s_ID :: string
  s_Version :: SchemaVersion
  Description :: string
  PreviousVersion :: "SchemaVersion option"
  s_CreatedAt :: instant
  SchemaType :: string
  s_Hash :: string

type_synonym SchemaRegistry = "string \<rightharpoonup> PolicySchema"

definition NewSchemaRegistry :: SchemaRegistry where
  "NewSchemaRegistry = Map.empty"

definition schemaKey :: "string \<Rightarrow> SchemaVersion \<Rightarrow> string" where
  "schemaKey i v = i @ ''@'' @ Version_String v"

definition Register :: "PolicySchema \<Rightarrow> SchemaRegistry \<Rightarrow> schema_error option \<times> SchemaRegistry" where
  "Register s r = (let key = schemaKey (s_ID s) (s_Version s) in
     if r key \<noteq> None then (Some (AlreadyRegistered key), r) else (None, r(key \<mapsto> s)))"

definition schema_Get :: "SchemaRegistry \<Rightarrow> string \<Rightarrow> SchemaVersion \<Rightarrow> PolicySchema option" where
  "schema_Get r i v = r (schemaKey i v)"

text \<open>The loop of \<open>Latest\<close> over the schemas in visiting order; \<open>best\<close> is \<open>None\<close> while \<open>found\<close> is false.\<close>

fun latestLoop :: "string \<Rightarrow> PolicySchema option \<Rightarrow> PolicySchema list \<Rightarrow> PolicySchema option" where
  "latestLoop i best [] = best"
| "latestLoop i best (s # ss) =
     (if s_ID s \<noteq> i then latestLoop i best ss
      else case best of None \<Rightarrow> latestLoop i (Some s) ss
           | Some b \<Rightarrow> if versionGt (s_Version s) (s_Version b) then latestLoop i (Some s) ss
                      else latestLoop i best ss)"

definition visited :: "SchemaRegistry \<Rightarrow> string list \<Rightarrow> PolicySchema list" where
  "visited r order = List.map_filter r order"

definition schema_Latest :: "string list \<Rightarrow> SchemaRegistry \<Rightarrow> string \<Rightarrow> PolicySchema option" where
  "schema_Latest order r i = latestLoop i None (visited r order)"

text \<open>
  \<open>sortSchemas\<close>: the inner loop carries the element at position \<open>i\<close> over the rest and swaps it with
  every newer one; the outer loop continues behind position \<open>i\<close>.
\<close>

fun exchangePass :: "PolicySchema \<Rightarrow> PolicySchema list \<Rightarrow> PolicySchema \<times> PolicySchema list" where
  "exchangePass x [] = (x, [])"
| "exchangePass x (y # ys) =
     (if versionGt (s_Version y) (s_Version x)
      then let (m, zs) = exchangePass y ys in (m, x # zs)
      else let (m, zs) = exchangePass x ys in (m, y # zs))"

lemma exchangePass_length: "exchangePass x ys = (m, zs) \<Longrightarrow> length zs = length ys"
  by (induction x ys arbitrary: m zs rule: exchangePass.induct) (auto split: if_splits prod.splits)

function sortSchemas :: "PolicySchema list \<Rightarrow> PolicySchema list" where
  "sortSchemas [] = []"
| "sortSchemas (x # ys) = (let (m, zs) = exchangePass x ys in m # sortSchemas zs)"
  by pat_completeness auto
termination
  by (relation "measure length") (auto dest!: exchangePass_length [OF sym])

definition schema_List :: "string list \<Rightarrow> SchemaRegistry \<Rightarrow> string \<Rightarrow> PolicySchema list" where
  "schema_List order r i = sortSchemas (filter (\<lambda>s. \<not> (i \<noteq> [] \<and> s_ID s \<noteq> i)) (visited r order))"

text \<open>
  The loop of \<open>MigrationChain\<close> has no bound of its own: \<open>None\<close> is a run that has not ended within
  the fuel.
\<close>

fun chainLoop :: "nat \<Rightarrow> SchemaRegistry \<Rightarrow> string \<Rightarrow> PolicySchema \<Rightarrow> PolicySchema list option" where
  "chainLoop fuel r i current = (case PreviousVersion current of
     None \<Rightarrow> Some []
   | Some pv \<Rightarrow> (case schema_Get r i pv of
       None \<Rightarrow> Some []
     | Some prev \<Rightarrow> (case fuel of 0 \<Rightarrow> None
         | Suc fuel' \<Rightarrow> map_option (\<lambda>ps. prev # ps) (chainLoop fuel' r i prev))))"

declare chainLoop.simps [simp del]

definition MigrationChain :: "nat \<Rightarrow> SchemaRegistry \<Rightarrow> string \<Rightarrow> SchemaVersion \<Rightarrow> PolicySchema list option" where
  "MigrationChain fuel r i v = (case schema_Get r i v of
     None \<Rightarrow> Some []
   | Some current \<Rightarrow> map_option (\<lambda>ps. current # ps) (chainLoop fuel r i current))"

section \<open>Policy content\<close>

record PolicyContent =
  Raw :: "byte list"
  ContentType :: string
  SHA256 :: string

definition Fingerprint :: "PolicyContent \<Rightarrow> string" where
  "Fingerprint c = (if 12 \<le> length (SHA256 c) then take 12 (SHA256 c) else SHA256 c)"

definition ValidateContentType :: "string \<Rightarrow> bool" where
  "ValidateContentType ct \<longleftrightarrow> ct \<in> {''application/cel'', ''application/smtlib2'',
     ''application/composed-policy'', ''application/wasm''}"

section \<open>The order on versions\<close>

lemma versionGt_irrefl [simp]: "\<not> versionGt v v"
  by (simp add: versionGt_def)

lemma versionGt_trans: "versionGt a b \<Longrightarrow> versionGt b c \<Longrightarrow> versionGt a c"
  by (auto simp: versionGt_def split: if_splits)

lemma versionGt_total: "versionGt a b \<or> a = b \<or> versionGt b a"
  by (auto simp: versionGt_def)

lemma versionGt_asym: "versionGt a b \<Longrightarrow> \<not> versionGt b a"
  using versionGt_trans [of a b a] by auto

lemma not_versionGt_trans: "\<not> versionGt b a \<Longrightarrow> \<not> versionGt c b \<Longrightarrow> \<not> versionGt c a"
  using versionGt_trans versionGt_total by blast

text \<open>
  Both registries of the package look for the newest version of an identifier with the same loop over
  the values of a map. The contract of the loop, whatever the values are, and what it returns:
\<close>

locale newest_scan =
  fixes ident :: "'a \<Rightarrow> string"
    and version :: "'a \<Rightarrow> SchemaVersion"
    and loop :: "string \<Rightarrow> 'a option \<Rightarrow> 'a list \<Rightarrow> 'a option"
  assumes loop_Nil: "loop i best [] = best"
    and loop_skip: "ident s \<noteq> i \<Longrightarrow> loop i best (s # ss) = loop i best ss"
    and loop_first: "ident s = i \<Longrightarrow> loop i None (s # ss) = loop i (Some s) ss"
    and loop_newer: "ident s = i \<Longrightarrow> versionGt (version s) (version b) \<Longrightarrow> loop i (Some b) (s # ss) = loop i (Some s) ss"
    and loop_older: "ident s = i \<Longrightarrow> \<not> versionGt (version s) (version b) \<Longrightarrow> loop i (Some b) (s # ss) = loop i (Some b) ss"
begin

lemma loop_cases:
  obtains (skip) "ident s \<noteq> i" "loop i best (s # ss) = loop i best ss"
    | (first) "ident s = i" "best = None" "loop i best (s # ss) = loop i (Some s) ss"
    | (newer) b where "ident s = i" "best = Some b" "versionGt (version s) (version b)" "loop i best (s # ss) = loop i (Some s) ss"
    | (older) b where "ident s = i" "best = Some b" "\<not> versionGt (version s) (version b)" "loop i best (s # ss) = loop i best ss"
  by (metis loop_first loop_newer loop_older loop_skip not_Some_eq)

lemma loop_member: "loop i best ss = Some m \<Longrightarrow> (m \<in> set ss \<and> ident m = i) \<or> best = Some m"
proof (induction ss arbitrary: best)
  case (Cons s ss)
  show ?case
    by (cases rule: loop_cases [of s i best ss]) (use Cons in \<open>auto\<close>)
qed (simp add: loop_Nil)

lemma loop_max:
  "loop i best ss = Some m \<Longrightarrow>
     (\<forall>b. best = Some b \<longrightarrow> \<not> versionGt (version b) (version m)) \<and>
     (\<forall>s \<in> set ss. ident s = i \<longrightarrow> \<not> versionGt (version s) (version m))"
proof (induction ss arbitrary: best)
  case (Cons s ss)
  show ?case
  proof (cases rule: loop_cases [of s i best ss])
    case skip
    then show ?thesis using Cons by simp
  next
    case first
    then show ?thesis using Cons by simp
  next
    case newer
    then show ?thesis using Cons.IH [of "Some s"] Cons.prems versionGt_trans [OF newer(3)] by auto
  next
    case older
    then show ?thesis using Cons.IH [of best] Cons.prems not_versionGt_trans [OF _ older(3)] by auto
  qed
qed (simp add: loop_Nil)

lemma loop_None: "loop i best ss = None \<longleftrightarrow> best = None \<and> (\<forall>s \<in> set ss. ident s \<noteq> i)"
proof (induction ss arbitrary: best)
  case (Cons s ss)
  show ?case
    by (cases rule: loop_cases [of s i best ss]) (use Cons in \<open>auto\<close>)
qed (simp add: loop_Nil)

text \<open>With distinct versions per identifier the result is the one that no other item exceeds.\<close>

lemma loop_unique:
  assumes uniq: "\<And>s t. s \<in> set ss \<Longrightarrow> t \<in> set ss \<Longrightarrow> ident s = i \<Longrightarrow> ident t = i \<Longrightarrow> version s = version t \<Longrightarrow> s = t"
  shows "loop i None ss = Some m \<longleftrightarrow>
    m \<in> set ss \<and> ident m = i \<and> (\<forall>s \<in> set ss. ident s = i \<and> s \<noteq> m \<longrightarrow> versionGt (version m) (version s))" (is "_ \<longleftrightarrow> ?max m")
proof
  assume L: "loop i None ss = Some m"
  have "m \<in> set ss \<and> ident m = i" using loop_member [OF L] by simp
  with loop_max [OF L] show "?max m" using uniq versionGt_total by metis
next
  assume m: "?max m"
  then obtain m' where L: "loop i None ss = Some m'"
    using loop_None [of i None ss] by (cases "loop i None ss") auto
  with loop_member [OF L] loop_max [OF L] m have "m' = m" by fastforce
  with L show "loop i None ss = Some m" by simp
qed

end

section \<open>Printing and parsing versions\<close>

lemma digits_blank: "c \<in> set (digits n) \<Longrightarrow> \<not> is_blank c"
  using digits_chars [of c n] by (auto simp: is_blank_def)

lemma digits_digit: "c \<in> set (digits n) \<Longrightarrow> is_digit c"
  using digits_chars [of c n] by (simp add: is_digit_def)

lemma scan_d_digits:
  assumes "int n < 2 ^ 63" and "\<And>c. rest \<noteq> [] \<Longrightarrow> c = hd rest \<Longrightarrow> \<not> is_digit c"
  shows "scan_d (digits n @ rest) = Some (int n, rest)"
proof -
  obtain c ds where n: "digits n = c # ds"
    using digits_nonempty by (cases "digits n") auto
  have c: "\<not> is_blank c" "is_digit c"
    using digits_blank [of c n] digits_digit [of c n] n by simp_all
  then have sign: "c \<noteq> CHR ''-''" "c \<noteq> CHR ''+''" by (auto simp: is_digit_def)
  have dig: "takeWhile is_digit (digits n @ rest) = digits n \<and> dropWhile is_digit (digits n @ rest) = rest"
    using assms(2) digits_digit by (cases rest) (auto simp: takeWhile_append dropWhile_append)
  then have "takeWhile is_digit (c # ds @ rest) = digits n \<and> dropWhile is_digit (c # ds @ rest) = rest"
    using n by simp
  then show ?thesis
    using assms(1) c sign unfolding scan_d_def n append_Cons
    by (simp add: Let_def n [symmetric] undigits_digits digits_nonempty)
qed

lemma not_digit_dot [simp]: "\<not> is_digit CHR ''.''"
  by (simp add: is_digit_def)

lemma scan_d_Itoa:
  assumes "0 \<le> i" "i < 2 ^ 63"
  shows "scan_d (Itoa i @ CHR ''.'' # rest) = Some (i, CHR ''.'' # rest)" and "scan_d (Itoa i) = Some (i, [])"
  using assms scan_d_digits [of "nat i" "CHR ''.'' # rest"] scan_d_digits [of "nat i" "[]"]
  by (auto simp: Itoa_def)

definition printable :: "SchemaVersion \<Rightarrow> bool" where
  "printable v \<longleftrightarrow> 0 \<le> Major v \<and> Major v < 2 ^ 63 \<and> 0 \<le> Minor v \<and> Minor v < 2 ^ 63 \<and> 0 \<le> Patch v \<and> Patch v < 2 ^ 63"

text \<open>a version with non-negative components of a Go \<open>int\<close> is read back from its printed form.\<close>

theorem ParseSchemaVersion_String:
  assumes "printable v"
  shows "ParseSchemaVersion (Version_String v) = Inr v"
  using assms
  by (simp add: ParseSchemaVersion_def Version_String_def scan_version_def scan_d_Itoa scan_dot_def printable_def)

theorem ParseSchemaVersion_String_witness:
  "ParseSchemaVersion ''12.0.7'' = Inr \<lparr>Major = 12, Minor = 0, Patch = 7\<rparr>"
proof -
  have "Version_String \<lparr>Major = 12, Minor = 0, Patch = 7\<rparr> = ''12.0.7''" by code_simp
  then show ?thesis
    using ParseSchemaVersion_String [of "\<lparr>Major = 12, Minor = 0, Patch = 7\<rparr>"] by (simp add: printable_def)
qed

lemma Version_String_inj: "Version_String v = Version_String w \<longleftrightarrow> v = w"
proof
  assume eq: "Version_String v = Version_String w"
  have dot: "CHR ''.'' \<notin> set (Itoa i)" for i by (rule Itoa_no_char) simp_all
  have "(Itoa (Major v) @ CHR ''.'' # Itoa (Minor v)) @ CHR ''.'' # Itoa (Patch v) =
        (Itoa (Major w) @ CHR ''.'' # Itoa (Minor w)) @ CHR ''.'' # Itoa (Patch w)"
    using eq by (simp add: Version_String_def)
  from sep_unique [OF this dot dot]
  have *: "Itoa (Major v) @ CHR ''.'' # Itoa (Minor v) = Itoa (Major w) @ CHR ''.'' # Itoa (Minor w)"
    and "Patch v = Patch w"
    by (simp_all add: Itoa_inj)
  moreover from sep_unique [OF * dot dot] have "Major v = Major w" "Minor v = Minor w"
    by (simp_all add: Itoa_inj)
  ultimately show "v = w" by simp
qed simp

lemma schemaKey_inj: "schemaKey i v = schemaKey j w \<longleftrightarrow> i = j \<and> v = w"
proof
  assume "schemaKey i v = schemaKey j w"
  moreover have "CHR ''@'' \<notin> set (Version_String u)" for u
    using Itoa_no_char [of "CHR ''@''"] by (simp add: Version_String_def)
  ultimately show "i = j \<and> v = w"
    using sep_unique [of i "CHR ''@''" "Version_String v" j "Version_String w"]
    by (simp add: schemaKey_def Version_String_inj)
qed simp

section \<open>The registry\<close>

definition registry_inv :: "SchemaRegistry \<Rightarrow> bool" where
  "registry_inv r \<longleftrightarrow> finite (dom r) \<and> (\<forall>k s. r k = Some s \<longrightarrow> k = schemaKey (s_ID s) (s_Version s))"

interpretation registry: operation_system NewSchemaRegistry "\<lambda>s r. snd (Register s r)" registry_inv
  by unfold_locales (auto simp: registry_inv_def NewSchemaRegistry_def Register_def Let_def)

definition registered :: "PolicySchema list \<Rightarrow> SchemaRegistry" where
  "registered ss = fold (\<lambda>s r. snd (Register s r)) ss NewSchemaRegistry"

definition visit_order :: "SchemaRegistry \<Rightarrow> string list \<Rightarrow> bool" where
  "visit_order r order \<longleftrightarrow> distinct order \<and> set order = dom r"

lemma set_visited: "visit_order r order \<Longrightarrow> set (visited r order) = ran r"
  by (force simp: visit_order_def visited_def map_filter_def ran_def)

interpretation schema_scan: newest_scan s_ID s_Version latestLoop
  by unfold_locales simp_all

lemma registered_inv: "registry_inv (registered ss)"
  unfolding registered_def by (rule registry.invar_run)

lemma registered_key:
  assumes "registered ss k = Some s" shows "k = schemaKey (s_ID s) (s_Version s)"
  using assms registered_inv by (auto simp: registry_inv_def)

lemma registered_ran: "s \<in> ran (registered ss) \<longleftrightarrow> schema_Get (registered ss) (s_ID s) (s_Version s) = Some s"
  using registered_key by (fastforce simp: ran_def schema_Get_def)

text \<open>whatever order the map is visited in, \<open>Latest\<close> returns the registered schema of the identifier
  with the greatest version; it finds none exactly when no schema has the identifier.
\<close>

theorem Latest_is_newest:
  assumes "visit_order (registered ss) order"
  shows "(schema_Latest order (registered ss) i = None \<longleftrightarrow> (\<forall>v. schema_Get (registered ss) i v = None)) \<and>
         (\<forall>m. schema_Latest order (registered ss) i = Some m \<longleftrightarrow>
            schema_Get (registered ss) i (s_Version m) = Some m \<and>
            (\<forall>v s. schema_Get (registered ss) i v = Some s \<and> s \<noteq> m \<longrightarrow> versionGt (s_Version m) v))"
proof -
  let ?r = "registered ss"
  let ?L = "schema_Latest order ?r i"
  have get: "schema_Get ?r i v = Some s \<longleftrightarrow> s \<in> ran ?r \<and> s_ID s = i \<and> s_Version s = v" for v s
    using registered_key [of ss] registered_ran [of s ss]
    by (metis schemaKey_inj schema_Get_def)
  have "(\<forall>v. schema_Get ?r i v = None) \<longleftrightarrow> \<not> (\<exists>v s. schema_Get ?r i v = Some s)"
    by auto
  also have "\<dots> \<longleftrightarrow> (\<forall>s \<in> ran ?r. s_ID s \<noteq> i)"
    unfolding get by blast
  finally have none: "?L = None \<longleftrightarrow> (\<forall>v. schema_Get ?r i v = None)"
    by (simp add: schema_Latest_def schema_scan.loop_None set_visited [OF assms])
  have uniq: "s = t" if "s \<in> ran ?r" "t \<in> ran ?r" "s_ID s = i" "s_ID t = i" "s_Version s = s_Version t" for s t
    using that registered_ran by fastforce
  have "?L = Some m \<longleftrightarrow> m \<in> ran ?r \<and> s_ID m = i \<and>
      (\<forall>s \<in> ran ?r. s_ID s = i \<and> s \<noteq> m \<longrightarrow> versionGt (s_Version m) (s_Version s))" for m
    using schema_scan.loop_unique [of "visited ?r order" i m] uniq
    by (simp add: schema_Latest_def set_visited [OF assms])
  then have "?L = Some m \<longleftrightarrow> schema_Get ?r i (s_Version m) = Some m \<and>
      (\<forall>v s. schema_Get ?r i v = Some s \<and> s \<noteq> m \<longrightarrow> versionGt (s_Version m) v)" for m
    unfolding get by blast
  with none show ?thesis by blast
qed

definition mk_schema :: "string \<Rightarrow> int \<Rightarrow> int \<Rightarrow> SchemaVersion option \<Rightarrow> PolicySchema" where
  "mk_schema i a b prev = \<lparr>s_ID = i, s_Version = \<lparr>Major = a, Minor = b, Patch = 0\<rparr>, Description = [],
     PreviousVersion = prev, s_CreatedAt = 0, SchemaType = ''cel'', s_Hash = []\<rparr>"

abbreviation ver :: "int \<Rightarrow> int \<Rightarrow> SchemaVersion" where
  "ver a b \<equiv> \<lparr>Major = a, Minor = b, Patch = 0\<rparr>"

definition three_schemas :: "PolicySchema list" where
  "three_schemas = [mk_schema ''p'' 1 0 None, mk_schema ''p'' 1 10 (Some (ver 1 0)), mk_schema ''q'' 2 0 None]"

lemma three_keys:
  "schemaKey ''p'' (ver 1 0) = ''p@1.0.0''" "schemaKey ''p'' (ver 1 10) = ''p@1.10.0''"
  "schemaKey ''q'' (ver 2 0) = ''q@2.0.0''"
  by code_simp+

lemma three_registered:
  "registered three_schemas = [''p@1.0.0'' \<mapsto> mk_schema ''p'' 1 0 None,
     ''p@1.10.0'' \<mapsto> mk_schema ''p'' 1 10 (Some (ver 1 0)), ''q@2.0.0'' \<mapsto> mk_schema ''q'' 2 0 None]"
  by (simp add: registered_def three_schemas_def Register_def NewSchemaRegistry_def mk_schema_def three_keys)

lemma three_order: "visit_order (registered three_schemas) [''q@2.0.0'', ''p@1.10.0'', ''p@1.0.0'']"
  by (auto simp: visit_order_def three_registered)

theorem Latest_is_newest_witness:
  "schema_Get (registered three_schemas) ''p'' (ver 1 10) = Some (mk_schema ''p'' 1 10 (Some (ver 1 0))) \<and>
   \<not> (\<exists>v s. schema_Get (registered three_schemas) ''p'' v = Some s \<and> s \<noteq> mk_schema ''p'' 1 10 (Some (ver 1 0))
      \<and> \<not> versionGt (ver 1 10) v)"
proof -
  have "schema_Latest [''q@2.0.0'', ''p@1.10.0'', ''p@1.0.0''] (registered three_schemas) ''p'' =
        Some (mk_schema ''p'' 1 10 (Some (ver 1 0)))"
    by code_simp
  then show ?thesis
    using Latest_is_newest [OF three_order, of "''p''"] by (simp add: mk_schema_def) blast
qed

section \<open>Listing\<close>

lemma exchangePass_spec:
  "exchangePass x ys = (m, zs) \<Longrightarrow>
     mset (m # zs) = mset (x # ys) \<and> (\<forall>z \<in> set (x # ys). \<not> versionGt (s_Version z) (s_Version m))"
proof (induction x ys arbitrary: m zs rule: exchangePass.induct)
  case (2 x y ys)
  show ?case
  proof (cases "versionGt (s_Version y) (s_Version x)")
    case True
    with "2.prems" obtain zs' where zs: "exchangePass y ys = (m, zs')" "zs = x # zs'"
      by (auto split: prod.splits)
    from "2.IH"(1) [OF True zs(1)] show ?thesis
      using zs(2) versionGt_trans [OF True] by auto
  next
    case False
    with "2.prems" obtain zs' where zs: "exchangePass x ys = (m, zs')" "zs = y # zs'"
      by (auto split: prod.splits)
    from "2.IH"(2) [OF False zs(1)] show ?thesis
      using zs(2) not_versionGt_trans [OF _ False] by auto
  qed
qed auto

definition newest_first :: "PolicySchema list \<Rightarrow> bool" where
  "newest_first ss \<longleftrightarrow> sorted_wrt (\<lambda>a b. \<not> versionGt (s_Version b) (s_Version a)) ss"

lemma sortSchemas_spec: "mset (sortSchemas ss) = mset ss \<and> newest_first (sortSchemas ss)"
proof (induction ss rule: sortSchemas.induct)
  case (2 x ys)
  obtain m zs where p: "exchangePass x ys = (m, zs)" by fastforce
  note sp = exchangePass_spec [OF p]
  have IH: "mset (sortSchemas zs) = mset zs" "newest_first (sortSchemas zs)"
    using "2.IH" [OF p [symmetric] refl] by auto
  have "set (sortSchemas zs) = set zs" using IH(1) by (metis set_mset_mset)
  moreover have "set zs \<subseteq> set (x # ys)"
    using sp by (metis set_mset_mset set_subset_Cons)
  ultimately show ?case
    using p sp IH by (auto simp: newest_first_def)
qed (simp add: newest_first_def)

lemma distinct_visited:
  assumes "visit_order (registered ss) order" shows "distinct (visited (registered ss) order)"
proof -
  let ?ks = "filter (\<lambda>k. registered ss k \<noteq> None) order"
  have "inj_on (\<lambda>k. the (registered ss k)) (set ?ks)"
    by (rule inj_on_inverseI [where g = "\<lambda>s. schemaKey (s_ID s) (s_Version s)"]) (auto dest: registered_key)
  then show ?thesis
    using assms by (simp add: visited_def map_filter_def visit_order_def distinct_map o_def)
qed

text \<open>\<open>List\<close> returns each registered schema of the identifier (of every identifier for the empty one)
  exactly once and newest first, whatever order the map is visited in.
\<close>

theorem List_complete_sorted:
  assumes "visit_order (registered ss) order"
  shows "newest_first (schema_List order (registered ss) i) \<and> distinct (schema_List order (registered ss) i) \<and>
         set (schema_List order (registered ss) i) =
           {s. schema_Get (registered ss) (s_ID s) (s_Version s) = Some s \<and> (i = [] \<or> s_ID s = i)}"
proof -
  let ?xs = "filter (\<lambda>s. \<not> (i \<noteq> [] \<and> s_ID s \<noteq> i)) (visited (registered ss) order)"
  have m: "mset (sortSchemas ?xs) = mset ?xs" "newest_first (sortSchemas ?xs)"
    using sortSchemas_spec by auto
  have "set (sortSchemas ?xs) = set ?xs" using m(1) by (metis set_mset_mset)
  moreover have "distinct (sortSchemas ?xs)"
    using distinct_visited [OF assms] m(1) by (metis mset_eq_imp_distinct_iff distinct_filter)
  moreover have "set ?xs = {s \<in> ran (registered ss). i = [] \<or> s_ID s = i}"
    using set_visited [OF assms] by auto
  ultimately show ?thesis
    using m(2) unfolding schema_List_def registered_ran by auto
qed

theorem List_complete_sorted_witness:
  "newest_first (schema_List [''q@2.0.0'', ''p@1.10.0'', ''p@1.0.0''] (registered three_schemas) [])"
  using List_complete_sorted [OF three_order, of "[]"] by blast

section \<open>The migration chain\<close>

definition older_schemas :: "SchemaRegistry \<Rightarrow> string \<Rightarrow> SchemaVersion \<Rightarrow> PolicySchema set" where
  "older_schemas r i v = {s \<in> ran r. s_ID s = i \<and> versionGt v (s_Version s)}"

text \<open>What the doc comment of \<open>PreviousVersion\<close> says: the version a schema supersedes.\<close>

definition supersedes_older :: "SchemaRegistry \<Rightarrow> bool" where
  "supersedes_older r \<longleftrightarrow> (\<forall>s \<in> ran r. \<forall>pv. PreviousVersion s = Some pv \<longrightarrow> versionGt (s_Version s) pv)"

definition links_to :: "SchemaRegistry \<Rightarrow> string \<Rightarrow> PolicySchema \<Rightarrow> PolicySchema option" where
  "links_to r i s = Option.bind (PreviousVersion s) (schema_Get r i)"

lemma chainLoop_links:
  "chainLoop fuel r i current = (case links_to r i current of None \<Rightarrow> Some []
     | Some prev \<Rightarrow> (case fuel of 0 \<Rightarrow> None | Suc f \<Rightarrow> map_option (\<lambda>ps. prev # ps) (chainLoop f r i prev)))"
  by (subst chainLoop.simps) (simp add: links_to_def split: option.split)

lemma chainLoop_more_fuel: "chainLoop fuel r i s = Some ps \<Longrightarrow> fuel \<le> fuel' \<Longrightarrow> chainLoop fuel' r i s = Some ps"
proof (induction fuel arbitrary: s ps fuel')
  case 0
  then have "links_to r i s = None" "ps = []"
    by (auto simp: chainLoop_links [of 0] split: option.splits)
  then show ?case by (simp add: chainLoop_links [of fuel'])
next
  case (Suc fuel)
  show ?case
  proof (cases "links_to r i s")
    case None
    with Suc.prems(1) show ?thesis by (simp add: chainLoop_links [of "Suc fuel"] chainLoop_links [of fuel'])
  next
    case (Some prev)
    with Suc.prems(1) obtain qs where q: "chainLoop fuel r i prev = Some qs" "ps = prev # qs"
      by (auto simp: chainLoop_links [of "Suc fuel"])
    obtain f where f: "fuel' = Suc f" "fuel \<le> f" using Suc.prems(2) by (cases fuel') auto
    from Suc.IH [OF q(1) f(2)] show ?thesis using Some q f by (simp add: chainLoop_links [of "Suc f"])
  qed
qed

text \<open>A chain follows the links from \<open>current\<close> until there is none.\<close>

fun follows :: "SchemaRegistry \<Rightarrow> string \<Rightarrow> PolicySchema list \<Rightarrow> bool" where
  "follows r i [] \<longleftrightarrow> False"
| "follows r i [s] \<longleftrightarrow> links_to r i s = None"
| "follows r i (s # t # ss) \<longleftrightarrow> links_to r i s = Some t \<and> follows r i (t # ss)"

definition strictly_older :: "PolicySchema list \<Rightarrow> bool" where
  "strictly_older ss \<longleftrightarrow> sorted_wrt (\<lambda>a b. versionGt (s_Version a) (s_Version b)) ss"

lemma strictly_older_Cons2:
  "strictly_older (a # b # ss) \<longleftrightarrow> versionGt (s_Version a) (s_Version b) \<and> strictly_older (b # ss)"
  using versionGt_trans by (auto simp: strictly_older_def)

lemma registered_link:
  assumes "links_to (registered ss) i s = Some t"
  shows "t \<in> ran (registered ss) \<and> s_ID t = i \<and> PreviousVersion s = Some (s_Version t)"
proof -
  obtain pv where pv: "PreviousVersion s = Some pv" "registered ss (schemaKey i pv) = Some t"
    using assms by (cases "PreviousVersion s") (auto simp: links_to_def schema_Get_def)
  from registered_key [OF pv(2)] pv show ?thesis by (auto simp: schemaKey_inj ran_def)
qed

lemma chainLoop_terminates:
  assumes "supersedes_older (registered ss)"
  shows "s \<in> ran (registered ss) \<Longrightarrow> card (older_schemas (registered ss) i (s_Version s)) \<le> fuel \<Longrightarrow>
    \<exists>ps. chainLoop fuel (registered ss) i s = Some ps \<and> follows (registered ss) i (s # ps) \<and> strictly_older (s # ps)"
proof (induction fuel arbitrary: s)
  case (0 s)
  have fin: "finite (older_schemas (registered ss) i (s_Version s))"
    using registered_inv [of ss] by (auto simp: older_schemas_def registry_inv_def finite_ran)
  have "links_to (registered ss) i s = None"
  proof (rule ccontr)
    assume "links_to (registered ss) i s \<noteq> None"
    then obtain t where "links_to (registered ss) i s = Some t" by blast
    from registered_link [OF this] have "t \<in> older_schemas (registered ss) i (s_Version s)"
      using assms "0.prems"(1) by (auto simp: older_schemas_def supersedes_older_def)
    with fin 0 show False by auto
  qed
  then show ?case by (simp add: chainLoop_links [of 0] strictly_older_def)
next
  case (Suc fuel s)
  show ?case
  proof (cases "links_to (registered ss) i s")
    case None
    then show ?thesis by (simp add: chainLoop_links [of "Suc fuel"] strictly_older_def)
  next
    case (Some t)
    note t = registered_link [OF Some]
    then have gt: "versionGt (s_Version s) (s_Version t)"
      using assms Suc.prems(1) by (auto simp: supersedes_older_def)
    have fin: "finite (older_schemas (registered ss) i (s_Version s))"
      using registered_inv [of ss] by (auto simp: older_schemas_def registry_inv_def finite_ran)
    have "older_schemas (registered ss) i (s_Version t) \<subset> older_schemas (registered ss) i (s_Version s)"
    proof
      show "older_schemas (registered ss) i (s_Version t) \<subseteq> older_schemas (registered ss) i (s_Version s)"
        using versionGt_trans [OF gt] by (auto simp: older_schemas_def)
      have "t \<in> older_schemas (registered ss) i (s_Version s)" "t \<notin> older_schemas (registered ss) i (s_Version t)"
        using t gt by (auto simp: older_schemas_def)
      then show "older_schemas (registered ss) i (s_Version t) \<noteq> older_schemas (registered ss) i (s_Version s)"
        by auto
    qed
    from psubset_card_mono [OF fin this] have "card (older_schemas (registered ss) i (s_Version t)) \<le> fuel"
      using Suc.prems(2) by simp
    with Suc.IH t obtain ps where "chainLoop fuel (registered ss) i t = Some ps"
      "follows (registered ss) i (t # ps)" "strictly_older (t # ps)" by blast
    with Some gt show ?thesis
      by (simp add: chainLoop_links [of "Suc fuel"] strictly_older_Cons2)
  qed
qed

text \<open>C34: when every schema supersedes an older version, \<open>MigrationChain\<close> returns, after at most one turn per
  registered schema: the requested schema, then its registered predecessors, ever older, until there is none.
\<close>

theorem MigrationChain_returns:
  assumes "supersedes_older (registered ss)" and "schema_Get (registered ss) i v = Some s"
  shows "\<exists>ps. (\<forall>fuel \<ge> card (dom (registered ss)). MigrationChain fuel (registered ss) i v = Some (s # ps)) \<and>
           follows (registered ss) i (s # ps) \<and> strictly_older (s # ps)"
proof -
  let ?r = "registered ss"
  have s: "s \<in> ran ?r" using assms(2) by (auto simp: schema_Get_def ran_def)
  have fin: "finite (dom ?r)" using registered_inv [of ss] by (simp add: registry_inv_def)
  have "ran ?r = (\<lambda>k. the (?r k)) ` dom ?r" by (force simp: ran_def image_iff)
  then have "card (ran ?r) \<le> card (dom ?r)" using fin by (simp add: card_image_le)
  moreover have "card (older_schemas ?r i (s_Version s)) \<le> card (ran ?r)"
    using fin by (intro card_mono finite_ran) (auto simp: older_schemas_def)
  ultimately obtain ps where ps: "chainLoop (card (dom ?r)) ?r i s = Some ps"
    "follows ?r i (s # ps)" "strictly_older (s # ps)"
    using chainLoop_terminates [OF assms(1) s, of i "card (dom ?r)"] by auto
  then show ?thesis
    using assms(2) chainLoop_more_fuel [OF ps(1)] by (auto simp: MigrationChain_def)
qed

theorem MigrationChain_returns_witness:
  "\<exists>ps. (\<forall>fuel \<ge> 3. MigrationChain fuel (registered three_schemas) ''p'' (ver 1 10) =
           Some (mk_schema ''p'' 1 10 (Some (ver 1 0)) # ps)) \<and>
     strictly_older (mk_schema ''p'' 1 10 (Some (ver 1 0)) # ps)"
proof -
  have "supersedes_older (registered three_schemas)"
    by (auto simp: supersedes_older_def three_registered ran_def mk_schema_def versionGt_def split: if_splits)
  moreover have "schema_Get (registered three_schemas) ''p'' (ver 1 10) = Some (mk_schema ''p'' 1 10 (Some (ver 1 0)))"
    by code_simp
  moreover have "card (dom (registered three_schemas)) = 3" by (simp add: three_registered)
  ultimately show ?thesis
    using MigrationChain_returns [of three_schemas "''p''" "ver 1 10"] by fastforce
qed

definition cyclic_schemas :: "PolicySchema list" where
  "cyclic_schemas = [mk_schema ''p'' 1 0 (Some (ver 2 0)), mk_schema ''p'' 2 0 (Some (ver 1 0))]"

lemma cyclic_Get:
  "schema_Get (registered cyclic_schemas) ''p'' (ver 1 0) = Some (mk_schema ''p'' 1 0 (Some (ver 2 0)))"
  "schema_Get (registered cyclic_schemas) ''p'' (ver 2 0) = Some (mk_schema ''p'' 2 0 (Some (ver 1 0)))"
  by code_simp+

lemma cyclic_chainLoop:
  "chainLoop fuel (registered cyclic_schemas) ''p'' (mk_schema ''p'' 1 0 (Some (ver 2 0))) = None \<and>
   chainLoop fuel (registered cyclic_schemas) ''p'' (mk_schema ''p'' 2 0 (Some (ver 1 0))) = None"
proof (induction fuel)
  case (Suc fuel)
  then show ?case
    by (simp add: chainLoop.simps [of "Suc fuel"] cyclic_Get mk_schema_def [where prev = "Some _"])
qed (simp add: chainLoop.simps cyclic_Get mk_schema_def)

text \<open>the registry accepts two schemas that name each other as predecessor, and \<open>MigrationChain\<close> then
  never returns: no number of turns ends its loop.
\<close>

theorem MigrationChain_cyclic:
  "\<forall>fuel. MigrationChain fuel (registered cyclic_schemas) ''p'' (ver 2 0) = None"
  by (simp add: MigrationChain_def cyclic_Get cyclic_chainLoop)

end
