(* ===== verification/Lifecycle.thy ===== *)
theory Lifecycle
  imports Schema
begin

text \<open>
  The lifecycle of a policy version and the store of policies
  (\<open>src/internal/governance/lifecycle.go\<close>). A lifecycle state is a Go string type, so the model has
  strings with the seven declared constants; any other string is an unknown state. Policies are
  objects behind pointers that the store shares with its callers: \<open>heap\<close> maps a pointer to the policy,
  so that a transition made through a pointer is seen through the store.
\<close>

section \<open>States and transitions\<close>

type_synonym LifecycleState = string

definition StateDraft :: LifecycleState where "StateDraft = ''draft''"
definition StatePendingApproval :: LifecycleState where "StatePendingApproval = ''pending_approval''"
definition StateApproved :: LifecycleState where "StateApproved = ''approved''"
definition StateStaged :: LifecycleState where "StateStaged = ''staged''"
definition StateDeployed :: LifecycleState where "StateDeployed = ''deployed''"
definition StateDeprecated :: LifecycleState where "StateDeprecated = ''deprecated''"
definition StateRolledBack :: LifecycleState where "StateRolledBack = ''rolled_back''"

lemmas state_defs = StateDraft_def StatePendingApproval_def StateApproved_def StateStaged_def
  StateDeployed_def StateDeprecated_def StateRolledBack_def

definition ValidTransitions :: "LifecycleState \<rightharpoonup> LifecycleState list" where
  "ValidTransitions =
     [StateDraft \<mapsto> [StatePendingApproval],
      StatePendingApproval \<mapsto> [StateDraft, StateApproved],
      StateApproved \<mapsto> [StateStaged],
      StateStaged \<mapsto> [StateDeployed, StateDraft],
      StateDeployed \<mapsto> [StateDeprecated, StateRolledBack],
      StateDeprecated \<mapsto> [],
      StateRolledBack \<mapsto> [StateDraft]]"

datatype lifecycle_error = UnknownState LifecycleState | NotPermitted LifecycleState LifecycleState

record TransitionRecord =
  r_PolicyID :: string
  r_Version :: SchemaVersion
  r_From :: LifecycleState
  r_To :: LifecycleState
  r_Actor :: string
  r_Reason :: string
  r_Timestamp :: instant

record Policy =
  p_ID :: string
  p_Version :: SchemaVersion
  p_State :: LifecycleState
  p_Content :: PolicyContent
  SchemaID :: string
  p_Labels :: "string \<rightharpoonup> string"
  p_CreatedAt :: instant
  p_UpdatedAt :: instant

definition NewPolicy :: "string \<Rightarrow> SchemaVersion \<Rightarrow> PolicyContent \<Rightarrow> string \<Rightarrow> instant \<Rightarrow> Policy" where
  "NewPolicy i v content schema now = \<lparr>p_ID = i, p_Version = v, p_State = StateDraft, p_Content = content,
     SchemaID = schema, p_Labels = Map.empty, p_CreatedAt = now, p_UpdatedAt = now\<rparr>"

definition Transition :: "LifecycleState \<Rightarrow> string \<Rightarrow> string \<Rightarrow> instant \<Rightarrow> Policy \<Rightarrow>
    (lifecycle_error + TransitionRecord) \<times> Policy" where
  "Transition to actor reason now p = (case ValidTransitions (p_State p) of
     None \<Rightarrow> (Inl (UnknownState (p_State p)), p)
   | Some allowed \<Rightarrow>
       if find (\<lambda>a. a = to) allowed = None then (Inl (NotPermitted (p_State p) to), p)
       else (Inr \<lparr>r_PolicyID = p_ID p, r_Version = p_Version p, r_From = p_State p, r_To = to,
                  r_Actor = actor, r_Reason = reason, r_Timestamp = now\<rparr>,
             p\<lparr>p_State := to, p_UpdatedAt := now\<rparr>))"

definition canTransition :: "LifecycleState \<Rightarrow> LifecycleState \<Rightarrow> bool" where
  "canTransition frm to = (case ValidTransitions frm of None \<Rightarrow> False | Some allowed \<Rightarrow> to \<in> set allowed)"

definition CanTransition :: "Policy \<Rightarrow> LifecycleState \<Rightarrow> bool" where
  "CanTransition p to = canTransition (p_State p) to"

definition IsFinalState :: "LifecycleState \<Rightarrow> bool" where
  "IsFinalState s \<longleftrightarrow> (case ValidTransitions s of None \<Rightarrow> True | Some allowed \<Rightarrow> length allowed = 0)"

definition IsTerminal :: "Policy \<Rightarrow> bool" where
  "IsTerminal p \<longleftrightarrow> (case ValidTransitions (p_State p) of None \<Rightarrow> True | Some allowed \<Rightarrow> length allowed = 0)"

section \<open>The policy store\<close>

type_synonym ptr = nat

record PolicyStore =
  heap :: "ptr \<rightharpoonup> Policy"
  policies :: "string \<rightharpoonup> ptr"

definition NewPolicyStore :: PolicyStore where
  "NewPolicyStore = \<lparr>heap = Map.empty, policies = Map.empty\<rparr>"

definition policyStoreKey :: "string \<Rightarrow> SchemaVersion \<Rightarrow> string" where
  "policyStoreKey i v = i @ ''@'' @ Version_String v"

text \<open>\<open>None\<close> is the nil-pointer panic of a pointer with no policy behind it.\<close>

definition store_Add :: "ptr \<Rightarrow> PolicyStore \<Rightarrow> (string option \<times> PolicyStore) option" where
  "store_Add a st = (case heap st a of None \<Rightarrow> None
     | Some p \<Rightarrow> (let key = policyStoreKey (p_ID p) (p_Version p) in
         if policies st key \<noteq> None then Some (Some key, st)
         else Some (None, st\<lparr>policies := (policies st)(key \<mapsto> a)\<rparr>)))"

definition policy_Get :: "PolicyStore \<Rightarrow> string \<Rightarrow> SchemaVersion \<Rightarrow> ptr option" where
  "policy_Get st i v = policies st (policyStoreKey i v)"

fun policyLatestLoop :: "(ptr \<rightharpoonup> Policy) \<Rightarrow> string \<Rightarrow> ptr option \<Rightarrow> ptr list \<Rightarrow> ptr option" where
  "policyLatestLoop h i best [] = best"
| "policyLatestLoop h i best (a # as) =
     (if p_ID (the (h a)) \<noteq> i then policyLatestLoop h i best as
      else case best of None \<Rightarrow> policyLatestLoop h i (Some a) as
           | Some b \<Rightarrow> if versionGt (p_Version (the (h a))) (p_Version (the (h b))) then policyLatestLoop h i (Some a) as
                      else policyLatestLoop h i best as)"

definition policy_Latest :: "string list \<Rightarrow> PolicyStore \<Rightarrow> string \<Rightarrow> ptr option" where
  "policy_Latest order st i = policyLatestLoop (heap st) i None (List.map_filter (policies st) order)"

definition ListByState :: "string list \<Rightarrow> PolicyStore \<Rightarrow> LifecycleState \<Rightarrow> ptr list" where
  "ListByState order st s = filter (\<lambda>a. p_State (the (heap st a)) = s) (List.map_filter (policies st) order)"

text \<open>The calls a client can make, through the pointers it holds.\<close>

datatype store_op =
    OpNew ptr string SchemaVersion PolicyContent string instant
  | OpAdd ptr
  | OpTransition ptr LifecycleState string string instant

text \<open>An allocation takes a pointer that is not in use; the other calls need a policy behind theirs.\<close>

fun store_exec :: "store_op \<Rightarrow> PolicyStore \<Rightarrow> PolicyStore" where
  "store_exec (OpNew a i v c sc now) st =
     (if heap st a = None then st\<lparr>heap := (heap st)(a \<mapsto> NewPolicy i v c sc now)\<rparr> else st)"
| "store_exec (OpAdd a) st = (case store_Add a st of None \<Rightarrow> st | Some (_, st') \<Rightarrow> st')"
| "store_exec (OpTransition a to actor reason now) st = (case heap st a of None \<Rightarrow> st
     | Some p \<Rightarrow> st\<lparr>heap := (heap st)(a \<mapsto> snd (Transition to actor reason now p))\<rparr>)"

definition run_store :: "store_op list \<Rightarrow> PolicyStore" where
  "run_store ops = fold store_exec ops NewPolicyStore"

section \<open>Transitions follow the diagram\<close>

lemma ValidTransitions_simps [simp]:
  "ValidTransitions StateDraft = Some [StatePendingApproval]"
  "ValidTransitions StatePendingApproval = Some [StateDraft, StateApproved]"
  "ValidTransitions StateApproved = Some [StateStaged]"
  "ValidTransitions StateStaged = Some [StateDeployed, StateDraft]"
  "ValidTransitions StateDeployed = Some [StateDeprecated, StateRolledBack]"
  "ValidTransitions StateDeprecated = Some []"
  "ValidTransitions StateRolledBack = Some [StateDraft]"
  by (simp_all add: ValidTransitions_def state_defs)

lemma canTransition_iff:
  "canTransition a b \<longleftrightarrow> (a, b) \<in> {(StateDraft, StatePendingApproval), (StatePendingApproval, StateDraft),
     (StatePendingApproval, StateApproved), (StateApproved, StateStaged), (StateStaged, StateDeployed),
     (StateStaged, StateDraft), (StateDeployed, StateDeprecated), (StateDeployed, StateRolledBack),
     (StateRolledBack, StateDraft)}"
  unfolding canTransition_def ValidTransitions_def by (auto simp: state_defs)

lemma find_eq_None: "find (\<lambda>a. a = x) xs = None \<longleftrightarrow> x \<notin> set xs"
  by (auto simp: find_None_iff)

lemma Transition_cases:
  obtains (ok) "canTransition (p_State p) to"
      "Transition to actor reason now p = (Inr \<lparr>r_PolicyID = p_ID p, r_Version = p_Version p, r_From = p_State p,
         r_To = to, r_Actor = actor, r_Reason = reason, r_Timestamp = now\<rparr>, p\<lparr>p_State := to, p_UpdatedAt := now\<rparr>)"
    | (error) e where "\<not> canTransition (p_State p) to" "Transition to actor reason now p = (Inl e, p)"
  by (cases "ValidTransitions (p_State p)")
    (auto simp: Transition_def canTransition_def find_eq_None split: if_splits)

type_synonym transition_call = "LifecycleState \<times> string \<times> string \<times> instant"

fun run_transitions :: "transition_call list \<Rightarrow> Policy \<Rightarrow> TransitionRecord list \<times> Policy" where
  "run_transitions [] p = ([], p)"
| "run_transitions ((to, actor, reason, now) # cs) p = (case Transition to actor reason now p of
     (Inl _, p') \<Rightarrow> run_transitions cs p'
   | (Inr r, p') \<Rightarrow> (let (rs, q) = run_transitions cs p' in (r # rs, q)))"

text \<open>A list of records leads from one state to another along permitted transitions.\<close>

fun trail :: "LifecycleState \<Rightarrow> TransitionRecord list \<Rightarrow> LifecycleState \<Rightarrow> bool" where
  "trail s [] s' \<longleftrightarrow> s = s'"
| "trail s (r # rs) s' \<longleftrightarrow> r_From r = s \<and> canTransition s (r_To r) \<and> trail (r_To r) rs s'"

lemma trail_snoc: "trail s (rs @ [r]) s' \<longleftrightarrow> trail s rs (r_From r) \<and> canTransition (r_From r) (r_To r) \<and> r_To r = s'"
  by (induction rs arbitrary: s) auto

lemma run_transitions_trail: "run_transitions cs p = (rs, q) \<Longrightarrow> trail (p_State p) rs (p_State q)"
proof (induction cs p arbitrary: rs q rule: run_transitions.induct)
  case (2 to actor reason now cs p)
  show ?case
    by (cases rule: Transition_cases [of p to actor reason now]) (use 2 in \<open>auto split: prod.splits\<close>)
qed simp

text \<open>Each state of the approval path has one predecessor, and a draft is on none of them.\<close>

lemma trail_predecessor:
  assumes "trail s rs b" "s \<noteq> b" "\<And>x. canTransition x b \<Longrightarrow> x = a"
  obtains rs' r where "rs = rs' @ [r]" "r_From r = a" "r_To r = b" "trail s rs' a"
proof -
  from assms(1,2) have "rs \<noteq> []" by (cases rs) auto
  then have "rs = butlast rs @ [last rs]" by simp
  then obtain rs' r where rs: "rs = rs' @ [r]" by blast
  with assms(1) have "trail s rs' (r_From r)" "canTransition (r_From r) (r_To r)" "r_To r = b"
    by (auto simp: trail_snoc)
  moreover from this have "r_From r = a" using assms(3) by simp
  ultimately show thesis using that rs by simp
qed

lemma only_predecessor:
  "canTransition x StateDeployed \<Longrightarrow> x = StateStaged"
  "canTransition x StateStaged \<Longrightarrow> x = StateApproved"
  "canTransition x StateApproved \<Longrightarrow> x = StatePendingApproval"
  "canTransition x StatePendingApproval \<Longrightarrow> x = StateDraft"
  by (auto simp: canTransition_iff state_defs)

lemma path_distinct:
  "StateDraft \<noteq> StateDeployed" "StateDraft \<noteq> StateStaged" "StateDraft \<noteq> StateApproved" "StateDraft \<noteq> StatePendingApproval"
  by (simp_all add: state_defs)

lemma trail_to_deployed:
  assumes "trail StateDraft rs StateDeployed"
  shows "\<exists>pre r1 r2 r3 r4. rs = pre @ [r1, r2, r3, r4] \<and>
    map (\<lambda>r. (r_From r, r_To r)) [r1, r2, r3, r4] = [(StateDraft, StatePendingApproval),
      (StatePendingApproval, StateApproved), (StateApproved, StateStaged), (StateStaged, StateDeployed)]"
proof -
  obtain t4 r4 where 4: "rs = t4 @ [r4]" "r_From r4 = StateStaged" "r_To r4 = StateDeployed" "trail StateDraft t4 StateStaged"
    using trail_predecessor [OF assms path_distinct(1) only_predecessor(1)] by metis
  obtain t3 r3 where 3: "t4 = t3 @ [r3]" "r_From r3 = StateApproved" "r_To r3 = StateStaged" "trail StateDraft t3 StateApproved"
    using trail_predecessor [OF 4(4) path_distinct(2) only_predecessor(2)] by metis
  obtain t2 r2 where 2: "t3 = t2 @ [r2]" "r_From r2 = StatePendingApproval" "r_To r2 = StateApproved" "trail StateDraft t2 StatePendingApproval"
    using trail_predecessor [OF 3(4) path_distinct(3) only_predecessor(3)] by metis
  obtain t1 r1 where 1: "t2 = t1 @ [r1]" "r_From r1 = StateDraft" "r_To r1 = StatePendingApproval" "trail StateDraft t1 StateDraft"
    using trail_predecessor [OF 2(4) path_distinct(4) only_predecessor(4)] by metis
  show ?thesis
    using 1 2 3 4 by (intro exI [of _ t1] exI [of _ r1] exI [of _ r2] exI [of _ r3] exI [of _ r4]) simp
qed

text \<open>C24: whatever transitions are attempted on a new policy, the records returned lead from draft to the
  current state along permitted transitions, and a deployed policy has just been submitted, approved,
  staged and deployed, in that order and with no other change in between.\<close>

theorem deployed_was_approved:
  assumes "run_transitions cs (NewPolicy i v c sc now) = (rs, p)"
  shows "trail StateDraft rs (p_State p) \<and>
    (p_State p = StateDeployed \<longrightarrow> (\<exists>pre r1 r2 r3 r4. rs = pre @ [r1, r2, r3, r4] \<and>
       map (\<lambda>r. (r_From r, r_To r)) [r1, r2, r3, r4] = [(StateDraft, StatePendingApproval),
         (StatePendingApproval, StateApproved), (StateApproved, StateStaged), (StateStaged, StateDeployed)]))"
proof -
  have t: "trail StateDraft rs (p_State p)"
    using run_transitions_trail [OF assms] by (simp add: NewPolicy_def)
  show ?thesis
  proof (intro conjI impI t)
    assume "p_State p = StateDeployed"
    then have "trail StateDraft rs StateDeployed" using t by simp
    then show "\<exists>pre r1 r2 r3 r4. rs = pre @ [r1, r2, r3, r4] \<and>
       map (\<lambda>r. (r_From r, r_To r)) [r1, r2, r3, r4] = [(StateDraft, StatePendingApproval),
         (StatePendingApproval, StateApproved), (StateApproved, StateStaged), (StateStaged, StateDeployed)]"
      by (rule trail_to_deployed)
  qed
qed

definition no_content :: PolicyContent where
  "no_content = \<lparr>Raw = [], ContentType = ''application/cel'', SHA256 = []\<rparr>"

definition deploy_calls :: "transition_call list" where
  "deploy_calls = map (\<lambda>s. (s, ''alice'', [], 5)) [StateDeployed, StatePendingApproval, StateApproved, StateStaged, StateDeployed]"

theorem deployed_was_approved_witness:
  "p_State (snd (run_transitions deploy_calls (NewPolicy ''p'' (ver 1 0) no_content ''s'' 0))) = StateDeployed \<and>
   trail StateDraft (fst (run_transitions deploy_calls (NewPolicy ''p'' (ver 1 0) no_content ''s'' 0))) StateDeployed"
proof -
  have "p_State (snd (run_transitions deploy_calls (NewPolicy ''p'' (ver 1 0) no_content ''s'' 0))) = StateDeployed"
    by code_simp
  then show ?thesis
    using deployed_was_approved [of deploy_calls "''p''" "ver 1 0" no_content "''s''" 0, OF prod.collapse [symmetric]] by simp
qed

section \<open>The store\<close>

lemma Transition_keeps: "p_ID (snd (Transition to actor reason now p)) = p_ID p"
  "p_Version (snd (Transition to actor reason now p)) = p_Version p"
  by (cases rule: Transition_cases [of p to actor reason now]; simp)+

text \<open>Every entry is a pointer to a policy whose identifier and version are its key.\<close>

definition store_inv :: "PolicyStore \<Rightarrow> bool" where
  "store_inv st \<longleftrightarrow> (\<forall>k a. policies st k = Some a \<longrightarrow>
     (\<exists>p. heap st a = Some p \<and> k = policyStoreKey (p_ID p) (p_Version p)))"

lemma store_inv_exec: "store_inv st \<Longrightarrow> store_inv (store_exec op st)"
proof (cases op)
  case (OpNew a i v c sc now)
  assume "store_inv st"
  with OpNew show ?thesis by (fastforce simp: store_inv_def)
next
  case (OpAdd a)
  assume "store_inv st"
  with OpAdd show ?thesis by (auto simp: store_inv_def store_Add_def Let_def split: option.splits)
next
  case (OpTransition a to actor reason now)
  assume "store_inv st"
  with OpTransition show ?thesis by (fastforce simp: store_inv_def Transition_keeps split: option.splits)
qed

interpretation policy_store: operation_system NewPolicyStore store_exec store_inv
  by unfold_locales (simp add: store_inv_def NewPolicyStore_def, rule store_inv_exec)

interpretation policy_scan: newest_scan "\<lambda>a. p_ID (the (h a))" "\<lambda>a. p_Version (the (h a))" "policyLatestLoop h" for h
  by unfold_locales simp_all

lemma policyStoreKey_schemaKey: "policyStoreKey = schemaKey"
  by (simp add: fun_eq_iff policyStoreKey_def schemaKey_def)

lemma run_store_Get:
  assumes "distinct order" "set order = dom (policies (run_store ops))"
  shows "a \<in> set (List.map_filter (policies (run_store ops)) order) \<and> p_ID (the (heap (run_store ops) a)) = i \<and>
           p_Version (the (heap (run_store ops) a)) = v \<longleftrightarrow> policy_Get (run_store ops) i v = Some a" (is "?L \<longleftrightarrow> ?R")
proof -
  have inv: "policies (run_store ops) k = Some a \<Longrightarrow> k = schemaKey (p_ID (the (heap (run_store ops) a))) (p_Version (the (heap (run_store ops) a)))" for k
    using policy_store.invar_run [of ops] by (force simp: run_store_def store_inv_def policyStoreKey_schemaKey)
  have "a \<in> set (List.map_filter (policies (run_store ops)) order) \<longleftrightarrow> (\<exists>k. policies (run_store ops) k = Some a)"
    using assms(2) by (force simp: map_filter_def)
  then show ?thesis
    using inv by (metis policy_Get_def policyStoreKey_schemaKey schemaKey_inj)
qed

text \<open>after any calls and in every map order, \<open>Latest\<close> returns the pointer stored for the greatest
  version of the identifier: transitions made through shared pointers do not disturb the store.\<close>

theorem policy_Latest_newest:
  assumes "distinct order" "set order = dom (policies (run_store ops))"
  shows "policy_Latest order (run_store ops) i = Some a \<longleftrightarrow>
    (\<exists>v. policy_Get (run_store ops) i v = Some a \<and>
       (\<forall>w b. policy_Get (run_store ops) i w = Some b \<and> w \<noteq> v \<longrightarrow> versionGt v w))"
proof -
  let ?as = "List.map_filter (policies (run_store ops)) order" and ?h = "heap (run_store ops)"
  note get = run_store_Get [OF assms]
  have same: "s = t" if "s \<in> set ?as" "t \<in> set ?as" "p_ID (the (?h s)) = i" "p_ID (the (?h t)) = i"
    "p_Version (the (?h s)) = p_Version (the (?h t))" for s t
    using that get by (metis option.inject)
  have "policy_Latest order (run_store ops) i = Some a \<longleftrightarrow> a \<in> set ?as \<and> p_ID (the (?h a)) = i \<and>
      (\<forall>b \<in> set ?as. p_ID (the (?h b)) = i \<and> b \<noteq> a \<longrightarrow> versionGt (p_Version (the (?h a))) (p_Version (the (?h b))))"
    unfolding policy_Latest_def
    by (rule policy_scan.loop_unique) (rule same)
  also have "\<dots> \<longleftrightarrow> (\<exists>v. policy_Get (run_store ops) i v = Some a \<and>
      (\<forall>b \<in> set ?as. p_ID (the (?h b)) = i \<and> b \<noteq> a \<longrightarrow> versionGt v (p_Version (the (?h b)))))"
    unfolding get [symmetric] by blast
  also have "\<dots> \<longleftrightarrow> (\<exists>v. policy_Get (run_store ops) i v = Some a \<and>
       (\<forall>w b. policy_Get (run_store ops) i w = Some b \<and> b \<noteq> a \<longrightarrow> versionGt v w))"
    unfolding get [symmetric] by blast
  also have "\<dots> \<longleftrightarrow> (\<exists>v. policy_Get (run_store ops) i v = Some a \<and>
       (\<forall>w b. policy_Get (run_store ops) i w = Some b \<and> w \<noteq> v \<longrightarrow> versionGt v w))"
    unfolding get [symmetric] using same by blast
  finally show ?thesis .
qed

definition two_policies :: "store_op list" where
  "two_policies = [OpNew 1 ''p'' (ver 1 0) no_content ''s'' 0, OpAdd 1, OpNew 2 ''p'' (ver 1 1) no_content ''s'' 0,
     OpAdd 2, OpTransition 1 StatePendingApproval ''alice'' [] 5]"

lemma two_policies_keys: "policyStoreKey ''p'' (ver 1 0) = ''p@1.0.0''" "policyStoreKey ''p'' (ver 1 1) = ''p@1.1.0''"
  by code_simp+

lemma two_policies_store: "policies (run_store two_policies) = [''p@1.0.0'' \<mapsto> 1, ''p@1.1.0'' \<mapsto> 2]"
  by (simp add: run_store_def two_policies_def NewPolicyStore_def store_Add_def NewPolicy_def two_policies_keys)

theorem policy_Latest_newest_witness:
  "\<exists>v. policy_Get (run_store two_policies) ''p'' v = Some 2 \<and>
     (\<forall>w b. policy_Get (run_store two_policies) ''p'' w = Some b \<and> w \<noteq> v \<longrightarrow> versionGt v w)"
proof -
  have "policy_Latest [''p@1.1.0'', ''p@1.0.0''] (run_store two_policies) ''p'' = Some 2" by code_simp
  moreover have "set [''p@1.1.0'', ''p@1.0.0''] = dom (policies (run_store two_policies))"
    by (auto simp: two_policies_store)
  ultimately show ?thesis
    using policy_Latest_newest [of "[''p@1.1.0'', ''p@1.0.0'']" two_policies "''p''" 2] by simp
qed

end
