(* ===== verification/Deployment.thy ===== *)
theory Deployment
  imports Lifecycle
begin

text \<open>
  Promotion of a policy: the approval workflow (\<open>approval.go\<close>), the staging table (\<open>staging.go\<close>), the
  blue-green slots (\<open>bluegreen.go\<close>) and the rollback history (\<open>rollback.go\<close>), all under
  \<open>src/internal/governance/\<close>. Readings of the clock are arguments.
\<close>

section \<open>Approval\<close>

datatype ApprovalStatus = ApprovalPending | ApprovalGranted | ApprovalRejected

record ApprovalRecord =
  Approver :: string
  a_Status :: ApprovalStatus
  a_Comment :: string
  a_Timestamp :: instant

text \<open>Every key of \<open>Approvers\<close> is stored with the value \<open>true\<close>: the map is a set.\<close>

record ApprovalWorkflow =
  Required :: int
  Approvers :: "string set"
  Records :: "ApprovalRecord list"

datatype approval_error = NotAuthorized string | AlreadyVoted string

definition NewApprovalWorkflow :: "int \<Rightarrow> string list \<Rightarrow> ApprovalWorkflow" where
  "NewApprovalWorkflow required approvers = \<lparr>Required = required, Approvers = set approvers, Records = []\<rparr>"

definition vote :: "string \<Rightarrow> ApprovalStatus \<Rightarrow> string \<Rightarrow> instant \<Rightarrow> ApprovalWorkflow \<Rightarrow> approval_error option \<times> ApprovalWorkflow" where
  "vote actor status comment now w =
     (if Approvers w \<noteq> {} \<and> actor \<notin> Approvers w then (Some (NotAuthorized actor), w)
      else if \<exists>r \<in> set (Records w). Approver r = actor then (Some (AlreadyVoted actor), w)
      else (None, w\<lparr>Records := Records w @
              [\<lparr>Approver = actor, a_Status = status, a_Comment = comment, a_Timestamp = now\<rparr>]\<rparr>))"

definition Grant :: "string \<Rightarrow> string \<Rightarrow> instant \<Rightarrow> ApprovalWorkflow \<Rightarrow> approval_error option \<times> ApprovalWorkflow" where
  "Grant actor comment now w = vote actor ApprovalGranted comment now w"

definition Reject :: "string \<Rightarrow> string \<Rightarrow> instant \<Rightarrow> ApprovalWorkflow \<Rightarrow> approval_error option \<times> ApprovalWorkflow" where
  "Reject actor comment now w = vote actor ApprovalRejected comment now w"

definition Grants :: "ApprovalWorkflow \<Rightarrow> int" where
  "Grants w = fold (\<lambda>r n. if a_Status r = ApprovalGranted then n + 1 else n) (Records w) 0"

definition Rejections :: "ApprovalWorkflow \<Rightarrow> int" where
  "Rejections w = fold (\<lambda>r n. if a_Status r = ApprovalRejected then n + 1 else n) (Records w) 0"

definition IsQuorumMet :: "ApprovalWorkflow \<Rightarrow> bool" where
  "IsQuorumMet w \<longleftrightarrow> Grants w \<ge> Required w"

definition IsRejected :: "ApprovalWorkflow \<Rightarrow> bool" where
  "IsRejected w \<longleftrightarrow> Rejections w > 0"

definition Quorum :: "ApprovalWorkflow \<Rightarrow> int \<times> int" where
  "Quorum w = (Grants w, Required w)"

subsection \<open>What a met quorum means\<close>

text \<open>A ballot is a call of \<open>Grant\<close> (the flag is true) or of \<open>Reject\<close>.\<close>

type_synonym ballot = "bool \<times> string \<times> string \<times> instant"

fun cast :: "ballot \<Rightarrow> ApprovalWorkflow \<Rightarrow> ApprovalWorkflow" where
  "cast (True, actor, comment, now) w = snd (Grant actor comment now w)"
| "cast (False, actor, comment, now) w = snd (Reject actor comment now w)"



text \<open>
  Who counts, read off the ballots alone: an actor who may vote counts as what the first ballot of this actor says,
  whatever further ballots follow.
\<close>

definition may_vote :: "string list \<Rightarrow> string \<Rightarrow> bool" where
  "may_vote approvers actor \<longleftrightarrow> approvers = [] \<or> actor \<in> set approvers"

definition first_ballot :: "ballot list \<Rightarrow> string \<Rightarrow> bool option" where
  "first_ballot ballots actor = map_option fst (List.find (\<lambda>(grant, a, comment, now). a = actor) ballots)"

definition granters :: "string list \<Rightarrow> ballot list \<Rightarrow> string set" where
  "granters approvers ballots = {a. may_vote approvers a \<and> first_ballot ballots a = Some True}"

definition rejecters :: "string list \<Rightarrow> ballot list \<Rightarrow> string set" where
  "rejecters approvers ballots = {a. may_vote approvers a \<and> first_ballot ballots a = Some False}"

definition status_of :: "bool \<Rightarrow> ApprovalStatus" where
  "status_of grant = (if grant then ApprovalGranted else ApprovalRejected)"

text \<open>The records are the ballots that count, one per actor.\<close>

definition workflow_inv :: "int \<Rightarrow> string list \<Rightarrow> ballot list \<Rightarrow> ApprovalWorkflow \<Rightarrow> bool" where
  "workflow_inv required approvers ballots w \<longleftrightarrow> Required w = required \<and> Approvers w = set approvers \<and>
     distinct (map Approver (Records w)) \<and>
     (\<forall>actor s. (\<exists>r \<in> set (Records w). Approver r = actor \<and> a_Status r = s) \<longleftrightarrow>
        may_vote approvers actor \<and> map_option status_of (first_ballot ballots actor) = Some s)"

lemma first_ballot_snoc:
  "first_ballot (ballots @ [(grant, a, comment, now)]) actor =
     (case first_ballot ballots actor of None \<Rightarrow> if a = actor then Some grant else None | Some g \<Rightarrow> Some g)"
  by (induction ballots) (auto simp: first_ballot_def)

lemma cast_vote: "cast (grant, a, comment, now) w = snd (vote a (status_of grant) comment now w)"
  by (cases grant) (simp_all add: Grant_def Reject_def status_of_def)

lemma workflow_inv_cast:
  assumes "workflow_inv q as ballots w"
  shows "workflow_inv q as (ballots @ [(grant, a, comment, now)]) (cast (grant, a, comment, now) w)"
proof -
  have inv: "Required w = q" "Approvers w = set as" "distinct (map Approver (Records w))"
    and recs: "(\<exists>r \<in> set (Records w). Approver r = actor \<and> a_Status r = s) \<longleftrightarrow>
        may_vote as actor \<and> map_option status_of (first_ballot ballots actor) = Some s" for actor s
    using assms unfolding workflow_inv_def by blast+
  let ?w = "cast (grant, a, comment, now) w" and ?r = "\<lparr>Approver = a, a_Status = status_of grant, a_Comment = comment, a_Timestamp = now\<rparr>"
  have voted: "(\<exists>r \<in> set (Records w). Approver r = a) \<longleftrightarrow> may_vote as a \<and> first_ballot ballots a \<noteq> None"
    using recs [of a] by auto
  show ?thesis
  proof (cases "may_vote as a \<and> first_ballot ballots a = None")
    case True
    then have w: "?w = w\<lparr>Records := Records w @ [?r]\<rparr>"
      using voted inv(2) by (auto simp: cast_vote vote_def may_vote_def)
    have "Approver ?r \<notin> Approver ` set (Records w)" using voted True by auto
    then have d: "distinct (map Approver (Records ?w))" using inv(3) by (simp add: w)
    have "(\<exists>r \<in> set (Records ?w). Approver r = actor \<and> a_Status r = s) \<longleftrightarrow>
        may_vote as actor \<and> map_option status_of (first_ballot (ballots @ [(grant, a, comment, now)]) actor) = Some s" for actor s
      using recs [of actor s] True by (cases "actor = a") (auto simp: w first_ballot_snoc split: option.splits)
    then show ?thesis using d inv(1,2) by (simp add: workflow_inv_def w)
  next
    case False
    then have w: "?w = w"
      using voted inv(2) by (auto simp: cast_vote vote_def may_vote_def)
    have "may_vote as actor \<and> map_option status_of (first_ballot (ballots @ [(grant, a, comment, now)]) actor) = Some s \<longleftrightarrow>
        may_vote as actor \<and> map_option status_of (first_ballot ballots actor) = Some s" for actor s
      using False by (auto simp: first_ballot_snoc split: option.splits)
    with recs show ?thesis using inv by (simp add: workflow_inv_def w)
  qed
qed

text \<open>The history of an approval: a workflow with the ballots cast so far.\<close>

interpretation approval: operation_system "([], NewApprovalWorkflow q as)" "\<lambda>b (bs, w). (bs @ [b], cast b w)"
  "\<lambda>(bs, w). workflow_inv q as bs w" for q as
proof unfold_locales
  show "case ([], NewApprovalWorkflow q as) of (bs, w) \<Rightarrow> workflow_inv q as bs w"
    by (simp add: workflow_inv_def NewApprovalWorkflow_def first_ballot_def)
  show "case (case s of (bs, w) \<Rightarrow> (bs @ [b], cast b w)) of (bs, w) \<Rightarrow> workflow_inv q as bs w"
    if "case s of (bs, w) \<Rightarrow> workflow_inv q as bs w" for b s
    using that workflow_inv_cast by (cases b; cases s) simp
qed

lemma history_fold: "fold (\<lambda>b (bs, w). (bs @ [b], cast b w)) ballots (bs, w) = (bs @ ballots, fold cast ballots w)"
  by (induction ballots arbitrary: bs w) auto

lemma workflow_inv_run: "workflow_inv q as ballots (fold cast ballots (NewApprovalWorkflow q as))"
  using approval.invar_run [where q = q and as = as and ops = ballots] by (simp add: history_fold)

lemma count_fold: "fold (\<lambda>r n. if P r then n + 1 else n) rs (k :: int) = k + int (length (filter P rs))"
  by (induction rs arbitrary: k) auto

lemma records_card:
  assumes "workflow_inv q as ballots w"
  shows "length (filter (\<lambda>r. a_Status r = s) (Records w)) =
    card {a. may_vote as a \<and> map_option status_of (first_ballot ballots a) = Some s}"
proof -
  have "distinct (map Approver (filter (\<lambda>r. a_Status r = s) (Records w)))"
    using assms distinct_map_filter by (auto simp: workflow_inv_def)
  moreover have "set (map Approver (filter (\<lambda>r. a_Status r = s) (Records w))) =
      {a. \<exists>r \<in> set (Records w). Approver r = a \<and> a_Status r = s}" by auto
  then have "set (map Approver (filter (\<lambda>r. a_Status r = s) (Records w))) =
      {a. may_vote as a \<and> map_option status_of (first_ballot ballots a) = Some s}"
    using assms unfolding workflow_inv_def by simp
  ultimately show ?thesis by (metis distinct_card length_map)
qed

lemma status_of_eq: "map_option status_of v = Some ApprovalGranted \<longleftrightarrow> v = Some True"
  "map_option status_of v = Some ApprovalRejected \<longleftrightarrow> v = Some False"
  by (cases v; simp add: status_of_def)+

lemma Grants_card:
  assumes "workflow_inv q as ballots w"
  shows "Grants w = int (card (granters as ballots))" "Rejections w = int (card (rejecters as ballots))"
  using records_card [OF assms, of ApprovalGranted] records_card [OF assms, of ApprovalRejected]
  unfolding status_of_eq by (simp_all add: Grants_def Rejections_def count_fold granters_def rejecters_def)

lemma finite_rejecters: "finite (rejecters as ballots)"
proof (rule finite_subset)
  show "rejecters as ballots \<subseteq> (\<lambda>(grant, a, comment, now). a) ` set ballots"
  proof
    fix a assume "a \<in> rejecters as ballots"
    then obtain b where "List.find (\<lambda>(grant, x, comment, now). x = a) ballots = Some b"
      by (auto simp: rejecters_def first_ballot_def)
    then have "b \<in> set ballots" "(\<lambda>(grant, x, comment, now). x) b = a" by (auto simp: find_Some_iff intro: nth_mem)
    then show "a \<in> (\<lambda>(grant, a, comment, now). a) ` set ballots" by force
  qed
qed simp

text \<open>C25: what an approval counts, after any sequence of calls of \<open>Grant\<close> and \<open>Reject\<close>. The number of grants is
  the number of actors who may vote and whose first call was \<open>Grant\<close>; rejections likewise; later calls of an
  actor and calls of others change nothing. The quorum is met exactly when enough such actors granted, and the policy
  is rejected exactly when one of them rejected first.\<close>

theorem quorum_distinct_grants:
  "let w = fold cast ballots (NewApprovalWorkflow required approvers) in
    Grants w = int (card (granters approvers ballots)) \<and> Rejections w = int (card (rejecters approvers ballots)) \<and>
    (IsQuorumMet w \<longleftrightarrow> required \<le> int (card (granters approvers ballots))) \<and>
    (IsRejected w \<longleftrightarrow> rejecters approvers ballots \<noteq> {})"
proof -
  define w where "w = fold cast ballots (NewApprovalWorkflow required approvers)"
  have inv: "workflow_inv required approvers ballots w" unfolding w_def by (rule workflow_inv_run)
  then have "Required w = required" by (simp add: workflow_inv_def)
  with Grants_card [OF inv] show ?thesis
    unfolding w_def [symmetric] by (simp add: IsQuorumMet_def IsRejected_def card_gt_0_iff finite_rejecters)
qed

section \<open>Staging\<close>

type_synonym Environment = string

definition EnvDev :: Environment where "EnvDev = ''dev''"
definition EnvStaging :: Environment where "EnvStaging = ''staging''"
definition EnvProd :: Environment where "EnvProd = ''prod''"

definition EnvOrder :: "Environment list" where
  "EnvOrder = [EnvDev, EnvStaging, EnvProd]"

fun envIndexLoop :: "Environment \<Rightarrow> int \<Rightarrow> Environment list \<Rightarrow> int" where
  "envIndexLoop e i [] = - 1"
| "envIndexLoop e i (env # envs) = (if env = e then i else envIndexLoop e (i + 1) envs)"

definition envIndex :: "Environment \<Rightarrow> int" where
  "envIndex e = envIndexLoop e 0 EnvOrder"

definition CanPromoteTo :: "Environment \<Rightarrow> Environment \<Rightarrow> bool" where
  "CanPromoteTo frm to \<longleftrightarrow> (let fi = envIndex frm; ti = envIndex to in fi \<ge> 0 \<and> ti = fi + 1)"

record StagedPolicy =
  sp_PolicyID :: string
  sp_Version :: SchemaVersion
  sp_Env :: Environment
  PromotedBy :: string

type_synonym StagingTable = "string \<rightharpoonup> StagedPolicy"

definition NewStagingTable :: StagingTable where
  "NewStagingTable = Map.empty"

definition stagingKey :: "string \<Rightarrow> Environment \<Rightarrow> string" where
  "stagingKey policyID env = policyID @ '':'' @ env"

datatype staging_error = InvalidStep string Environment Environment

definition Stage :: "Policy \<Rightarrow> Environment \<Rightarrow> string \<Rightarrow> StagingTable \<Rightarrow> staging_error option \<times> StagingTable" where
  "Stage p env actor t = (let key = stagingKey (p_ID p) env;
       t' = t(key \<mapsto> \<lparr>sp_PolicyID = p_ID p, sp_Version = p_Version p, sp_Env = env, PromotedBy = actor\<rparr>)
     in case t key of
       None \<Rightarrow> (None, t')
     | Some current \<Rightarrow>
         if \<not> CanPromoteTo (sp_Env current) env then (Some (InvalidStep (p_ID p) (sp_Env current) env), t)
         else (None, t'))"

definition staging_Active :: "StagingTable \<Rightarrow> string \<Rightarrow> Environment \<Rightarrow> StagedPolicy option" where
  "staging_Active t policyID env = t (stagingKey policyID env)"

definition ActiveInEnv :: "string list \<Rightarrow> StagingTable \<Rightarrow> Environment \<Rightarrow> StagedPolicy list" where
  "ActiveInEnv order t env = filter (\<lambda>s. sp_Env s = env) (List.map_filter t order)"

definition staging_Remove :: "string \<Rightarrow> Environment \<Rightarrow> StagingTable \<Rightarrow> StagingTable" where
  "staging_Remove policyID env t = t(stagingKey policyID env := None)"

subsection \<open>What staging keeps\<close>

datatype staging_op = OpStage Policy Environment string | OpRemove string Environment

fun staging_exec :: "staging_op \<Rightarrow> StagingTable \<Rightarrow> StagingTable" where
  "staging_exec (OpStage p env actor) t = snd (Stage p env actor t)"
| "staging_exec (OpRemove policyID env) t = staging_Remove policyID env t"

text \<open>The calls name environments of \<open>EnvOrder\<close>.\<close>

fun known_env :: "staging_op \<Rightarrow> bool" where
  "known_env (OpStage p env actor) \<longleftrightarrow> env \<in> set EnvOrder"
| "known_env (OpRemove policyID env) \<longleftrightarrow> env \<in> set EnvOrder"

fun removes :: "string \<Rightarrow> Environment \<Rightarrow> staging_op \<Rightarrow> bool" where
  "removes i env (OpRemove j env') \<longleftrightarrow> i = j \<and> env = env'"
| "removes i env (OpStage p env' actor) \<longleftrightarrow> False"

lemma stagingKey_inj:
  assumes "env \<in> set EnvOrder" "env' \<in> set EnvOrder"
  shows "stagingKey i env = stagingKey j env' \<longleftrightarrow> i = j \<and> env = env'"
proof
  assume "stagingKey i env = stagingKey j env'"
  moreover have "CHR '':'' \<notin> set env" "CHR '':'' \<notin> set env'"
    using assms by (auto simp: EnvOrder_def EnvDev_def EnvStaging_def EnvProd_def)
  ultimately show "i = j \<and> env = env'"
    using sep_unique [of i "CHR '':''" env j env'] by (simp add: stagingKey_def)
qed simp

lemma CanPromoteTo_irrefl [simp]: "\<not> CanPromoteTo env env"
  by (simp add: CanPromoteTo_def Let_def)

text \<open>An entry for an environment was staged to that environment.\<close>

definition staging_inv :: "StagingTable \<Rightarrow> bool" where
  "staging_inv t \<longleftrightarrow> (\<forall>i s. \<forall>env \<in> set EnvOrder. t (stagingKey i env) = Some s \<longrightarrow> sp_Env s = env \<and> sp_PolicyID s = i)"

lemma staging_inv_exec:
  assumes "staging_inv t" "known_env op"
  shows "staging_inv (staging_exec op t)"
proof (cases op)
  case (OpStage p env actor)
  then show ?thesis
    using assms by (auto simp: staging_inv_def Stage_def Let_def stagingKey_inj split: option.splits)
next
  case (OpRemove i env)
  then show ?thesis
    using assms by (auto simp: staging_inv_def staging_Remove_def stagingKey_inj)
qed

lemma staging_inv_run: "staging_inv t \<Longrightarrow> list_all known_env ops \<Longrightarrow> staging_inv (fold staging_exec ops t)"
  by (induction ops arbitrary: t) (auto intro: staging_inv_exec)

lemma staging_keeps:
  assumes "staging_inv t" "known_env op" "env \<in> set EnvOrder" "t (stagingKey i env) = Some s" "\<not> removes i env op"
  shows "staging_exec op t (stagingKey i env) = Some s"
proof (cases op)
  case (OpStage p env' actor)
  then show ?thesis
    using assms by (auto simp: staging_inv_def Stage_def Let_def stagingKey_inj split: option.splits)
next
  case (OpRemove j env')
  then show ?thesis using assms by (auto simp: staging_Remove_def stagingKey_inj)
qed

text \<open>once a version of a policy is staged in an environment it stays: no later call of \<open>Stage\<close>,
  for whatever version, replaces it, until \<open>Remove\<close> is called for that policy and environment.\<close>

theorem staged_version_sticks:
  assumes "list_all known_env before" "list_all known_env after" "env \<in> set EnvOrder"
    and "staging_Active (fold staging_exec before NewStagingTable) i env = Some s"
    and "\<not> list_ex (removes i env) after"
  shows "staging_Active (fold staging_exec (before @ after) NewStagingTable) i env = Some s"
proof -
  have inv: "staging_inv (fold staging_exec before NewStagingTable)"
    using assms(1) by (intro staging_inv_run) (simp add: staging_inv_def NewStagingTable_def)
  have "staging_inv t \<Longrightarrow> t (stagingKey i env) = Some s \<Longrightarrow> fold staging_exec after t (stagingKey i env) = Some s" for t
    using assms(2,5)
  proof (induction "after" arbitrary: t)
    case (Cons op ops)
    then show ?case using staging_keeps [OF _ _ assms(3)] staging_inv_exec by simp
  qed simp
  from this [OF inv] assms(4) show ?thesis by (simp add: staging_Active_def)
qed

definition staged_policy :: "int \<Rightarrow> Policy" where
  "staged_policy n = NewPolicy ''p'' (ver n 0) no_content ''s'' 0"

theorem staged_version_sticks_witness:
  "map_option sp_Version (staging_Active (fold staging_exec ([OpStage (staged_policy 1) EnvProd ''alice''] @
     [OpStage (staged_policy 2) EnvProd ''alice'', OpRemove ''p'' EnvDev]) NewStagingTable) ''p'' EnvProd) = Some (ver 1 0)"
proof -
  define s where "s = \<lparr>sp_PolicyID = ''p'', sp_Version = ver 1 0, sp_Env = EnvProd, PromotedBy = ''alice''\<rparr>"
  have "staging_Active (fold staging_exec [OpStage (staged_policy 1) EnvProd ''alice''] NewStagingTable) ''p'' EnvProd = Some s"
    unfolding s_def by code_simp
  moreover have "\<not> removes ''p'' EnvProd (OpRemove ''p'' EnvDev)" by code_simp
  moreover have "EnvProd \<in> set EnvOrder" "EnvDev \<in> set EnvOrder" by (simp_all add: EnvOrder_def)
  ultimately have "staging_Active (fold staging_exec ([OpStage (staged_policy 1) EnvProd ''alice''] @
     [OpStage (staged_policy 2) EnvProd ''alice'', OpRemove ''p'' EnvDev]) NewStagingTable) ''p'' EnvProd = Some s"
    by (intro staged_version_sticks) auto
  then show ?thesis by (simp add: s_def)
qed

text \<open>a policy that is still a draft is accepted in production with no earlier environment.\<close>

theorem draft_staged_in_prod:
  "p_State (staged_policy 1) = StateDraft \<and> fst (Stage (staged_policy 1) EnvProd ''alice'' NewStagingTable) = None"
  by code_simp

section \<open>Blue-green slots\<close>

type_synonym DeploymentSlot = string

definition SlotBlue :: DeploymentSlot where "SlotBlue = ''blue''"
definition SlotGreen :: DeploymentSlot where "SlotGreen = ''green''"

record SlotState =
  Slot :: DeploymentSlot
  sl_PolicyID :: string
  sl_Version :: SchemaVersion
  DeployedAt :: instant
  DeployedBy :: string

record BlueGreen =
  bg_PolicyID :: string
  bg_Env :: Environment
  slots :: "DeploymentSlot \<rightharpoonup> SlotState"
  bg_active :: DeploymentSlot

datatype slot_error = InvalidSlot DeploymentSlot | NoDeployment DeploymentSlot

definition NewBlueGreen :: "string \<Rightarrow> Environment \<Rightarrow> BlueGreen" where
  "NewBlueGreen policyID env = \<lparr>bg_PolicyID = policyID, bg_Env = env, slots = Map.empty, bg_active = []\<rparr>"

definition DeployToSlot :: "DeploymentSlot \<Rightarrow> SchemaVersion \<Rightarrow> string \<Rightarrow> instant \<Rightarrow> BlueGreen \<Rightarrow> BlueGreen" where
  "DeployToSlot slot v actor now bg = bg\<lparr>slots := (slots bg)(slot \<mapsto>
     \<lparr>Slot = slot, sl_PolicyID = bg_PolicyID bg, sl_Version = v, DeployedAt = now, DeployedBy = actor\<rparr>)\<rparr>"

definition ActiveSlot :: "BlueGreen \<Rightarrow> DeploymentSlot" where
  "ActiveSlot bg = bg_active bg"

definition ActiveState :: "BlueGreen \<Rightarrow> SlotState option" where
  "ActiveState bg = slots bg (bg_active bg)"

definition InactiveSlot :: "BlueGreen \<Rightarrow> DeploymentSlot" where
  "InactiveSlot bg = (if bg_active bg = SlotBlue then SlotGreen else SlotBlue)"

definition SwitchTraffic :: "DeploymentSlot \<Rightarrow> string \<Rightarrow> BlueGreen \<Rightarrow> (slot_error + DeploymentSlot) \<times> BlueGreen" where
  "SwitchTraffic toSlot actor bg =
     (if toSlot \<noteq> SlotBlue \<and> toSlot \<noteq> SlotGreen then (Inl (InvalidSlot toSlot), bg)
      else if slots bg toSlot = None then (Inl (NoDeployment toSlot), bg)
      else (Inr (bg_active bg), bg\<lparr>bg_active := toSlot\<rparr>))"

definition GetSlot :: "BlueGreen \<Rightarrow> DeploymentSlot \<Rightarrow> SlotState option" where
  "GetSlot bg slot = slots bg slot"

definition BothDeployed :: "BlueGreen \<Rightarrow> bool" where
  "BothDeployed bg \<longleftrightarrow> slots bg SlotBlue \<noteq> None \<and> slots bg SlotGreen \<noteq> None"

datatype slot_op = OpDeploy DeploymentSlot SchemaVersion string instant | OpSwitch DeploymentSlot string

fun slot_exec :: "slot_op \<Rightarrow> BlueGreen \<Rightarrow> BlueGreen" where
  "slot_exec (OpDeploy slot v actor now) bg = DeployToSlot slot v actor now bg"
| "slot_exec (OpSwitch slot actor) bg = snd (SwitchTraffic slot actor bg)"

text \<open>Traffic goes nowhere yet, or to one of the two slots, which then has a deployment.\<close>

definition slots_inv :: "BlueGreen \<Rightarrow> bool" where
  "slots_inv bg \<longleftrightarrow> (\<forall>sl s. slots bg sl = Some s \<longrightarrow> Slot s = sl \<and> sl_PolicyID s = bg_PolicyID bg) \<and>
     (bg_active bg = [] \<or> bg_active bg \<in> {SlotBlue, SlotGreen} \<and> slots bg (bg_active bg) \<noteq> None)"

interpretation blue_green: operation_system "NewBlueGreen i env" slot_exec slots_inv for i env
proof unfold_locales
  show "slots_inv (NewBlueGreen i env)" by (simp add: slots_inv_def NewBlueGreen_def)
  show "slots_inv (slot_exec op bg)" if "slots_inv bg" for op bg
    using that by (cases op) (auto simp: slots_inv_def DeployToSlot_def SwitchTraffic_def)
qed

text \<open>after any calls that left traffic on a slot, the other slot can be deployed to without touching
  what serves traffic; switching to it serves the new version, and a single switch back restores
  exactly the deployment that was active before.\<close>

theorem blue_green_switch_back:
  assumes "bg = fold slot_exec ops (NewBlueGreen i env)" and "ActiveSlot bg \<noteq> []"
    and "bg1 = DeployToSlot (InactiveSlot bg) v actor now bg"
    and "SwitchTraffic (InactiveSlot bg) actor bg1 = (r2, bg2)"
    and "SwitchTraffic (ActiveSlot bg) actor bg2 = (r3, bg3)"
  shows "ActiveState bg \<noteq> None \<and> ActiveState bg1 = ActiveState bg \<and>
    r2 = Inr (ActiveSlot bg) \<and> map_option sl_Version (ActiveState bg2) = Some v \<and>
    r3 = Inr (InactiveSlot bg) \<and> ActiveState bg3 = ActiveState bg \<and> BothDeployed bg3"
proof -
  have "slots_inv bg" unfolding assms(1) by (rule blue_green.invar_run)
  with assms(2) have a: "bg_active bg = SlotBlue \<or> bg_active bg = SlotGreen" "slots bg (bg_active bg) \<noteq> None"
    by (auto simp: slots_inv_def ActiveSlot_def)
  have ne: "SlotBlue \<noteq> SlotGreen" by (simp add: SlotBlue_def SlotGreen_def)
  have bg2: "r2 = Inr (bg_active bg)" "bg2 = bg1\<lparr>bg_active := InactiveSlot bg\<rparr>"
    using assms(3,4) by (auto simp: SwitchTraffic_def DeployToSlot_def InactiveSlot_def split: if_splits)
  have bg3: "r3 = Inr (InactiveSlot bg)" "bg3 = bg2\<lparr>bg_active := bg_active bg\<rparr>"
    using assms(3,5) bg2 a ne by (auto simp: SwitchTraffic_def DeployToSlot_def ActiveSlot_def split: if_splits)
  show ?thesis
    using a ne bg2 bg3 assms(3)
    by (auto simp: ActiveState_def ActiveSlot_def DeployToSlot_def InactiveSlot_def BothDeployed_def)
qed

definition blue_live :: BlueGreen where
  "blue_live = fold slot_exec [OpDeploy SlotBlue (ver 1 0) ''alice'' 1, OpSwitch SlotBlue ''alice''] (NewBlueGreen ''p'' EnvProd)"

theorem blue_green_switch_back_witness:
  "map_option sl_Version (ActiveState (snd (SwitchTraffic SlotBlue ''bob'' (snd (SwitchTraffic SlotGreen ''bob''
     (DeployToSlot SlotGreen (ver 2 0) ''bob'' 2 blue_live)))))) = Some (ver 1 0)"
proof -
  have a: "ActiveSlot blue_live = SlotBlue" "InactiveSlot blue_live = SlotGreen" "map_option sl_Version (ActiveState blue_live) = Some (ver 1 0)"
    by code_simp+
  have "ActiveSlot blue_live \<noteq> []" by code_simp
  from blue_green_switch_back [OF blue_live_def this refl prod.collapse [symmetric] prod.collapse [symmetric], of "ver 2 0" "''bob''" 2] a
  show ?thesis by simp
qed

section \<open>Rollback\<close>

record RollbackRecord =
  rb_PolicyID :: string
  FromVersion :: SchemaVersion
  ToVersion :: SchemaVersion
  rb_Actor :: string
  rb_Reason :: string
  rb_Timestamp :: instant

record DeploymentRecord =
  d_PolicyID :: string
  d_Version :: SchemaVersion
  d_Actor :: string
  Action :: string
  d_Env :: Environment
  d_Timestamp :: instant

text \<open>\<open>history\<close>: the lookup of a key that is not in the map gives the empty slice.\<close>

type_synonym RollbackManager = "string \<Rightarrow> DeploymentRecord list"

definition NewRollbackManager :: RollbackManager where
  "NewRollbackManager = (\<lambda>_. [])"

definition RecordDeploy :: "string \<Rightarrow> SchemaVersion \<Rightarrow> string \<Rightarrow> Environment \<Rightarrow> instant \<Rightarrow> RollbackManager \<Rightarrow> RollbackManager" where
  "RecordDeploy policyID v actor env now m = m(policyID := m policyID @
     [\<lparr>d_PolicyID = policyID, d_Version = v, d_Actor = actor, Action = ''deploy'', d_Env = env, d_Timestamp = now\<rparr>])"

definition RecordRollback :: "string \<Rightarrow> SchemaVersion \<Rightarrow> SchemaVersion \<Rightarrow> string \<Rightarrow> string \<Rightarrow> Environment \<Rightarrow> instant \<Rightarrow>
    RollbackManager \<Rightarrow> RollbackRecord \<times> RollbackManager" where
  "RecordRollback policyID frm to actor reason env now m =
     (\<lparr>rb_PolicyID = policyID, FromVersion = frm, ToVersion = to, rb_Actor = actor, rb_Reason = reason, rb_Timestamp = now\<rparr>,
      m(policyID := m policyID @
        [\<lparr>d_PolicyID = policyID, d_Version = to, d_Actor = actor, Action = ''rollback'', d_Env = env, d_Timestamp = now\<rparr>]))"

definition rm_PreviousVersion :: "RollbackManager \<Rightarrow> string \<Rightarrow> SchemaVersion option" where
  "rm_PreviousVersion m policyID = (let hist = m policyID in
     if length hist < 2 then None else Some (d_Version (hist ! (length hist - 2))))"

definition History :: "RollbackManager \<Rightarrow> string \<Rightarrow> DeploymentRecord list" where
  "History m policyID = m policyID"

definition CanRollback :: "RollbackManager \<Rightarrow> string \<Rightarrow> bool" where
  "CanRollback m policyID \<longleftrightarrow> length (m policyID) \<ge> 2"

datatype rollback_error = NoPreviousVersion string | TransitionFailed lifecycle_error

text \<open>The clock is read by \<open>Transition\<close> and again by \<open>RecordRollback\<close>.\<close>

definition Rollback :: "Policy \<Rightarrow> string \<Rightarrow> string \<Rightarrow> Environment \<Rightarrow> instant \<Rightarrow> instant \<Rightarrow> RollbackManager \<Rightarrow>
    (rollback_error + RollbackRecord) \<times> Policy \<times> RollbackManager" where
  "Rollback p actor reason env now1 now2 m = (case rm_PreviousVersion m (p_ID p) of
     None \<Rightarrow> (Inl (NoPreviousVersion (p_ID p)), p, m)
   | Some prev \<Rightarrow> (let frm = p_Version p in case Transition StateRolledBack actor reason now1 p of
       (Inl e, p') \<Rightarrow> (Inl (TransitionFailed e), p', m)
     | (Inr _, p') \<Rightarrow> (let (rb, m') = RecordRollback (p_ID p') frm prev actor reason env now2 m in (Inr rb, p', m'))))"

lemma only_deployed_rolls_back: "canTransition s StateRolledBack \<longleftrightarrow> s = StateDeployed"
  by (auto simp: canTransition_iff state_defs)

text \<open>a rollback succeeds exactly for a deployed policy with two deployment records; it then names the
  version of the record before the last, marks the policy as rolled back and appends one rollback record of
  that version, which the next rollback would take back. A failed rollback changes neither the policy nor
  the history.\<close>

theorem Rollback_behaviour:
  assumes "Rollback p actor reason env now1 now2 m = (r, p', m')"
  shows "(isl r \<longleftrightarrow> \<not> (CanRollback m (p_ID p) \<and> p_State p = StateDeployed)) \<and>
    (isl r \<longrightarrow> p' = p \<and> m' = m) \<and>
    (\<forall>rb. r = Inr rb \<longrightarrow> FromVersion rb = p_Version p \<and> Some (ToVersion rb) = rm_PreviousVersion m (p_ID p) \<and>
       p' = p\<lparr>p_State := StateRolledBack, p_UpdatedAt := now1\<rparr> \<and>
       History m' (p_ID p) = History m (p_ID p) @ [\<lparr>d_PolicyID = p_ID p, d_Version = ToVersion rb, d_Actor = actor,
         Action = ''rollback'', d_Env = env, d_Timestamp = now2\<rparr>] \<and>
       (\<forall>i. i \<noteq> p_ID p \<longrightarrow> History m' i = History m i) \<and>
       rm_PreviousVersion m' (p_ID p) = Some (d_Version (last (m (p_ID p)))))"
proof (cases "rm_PreviousVersion m (p_ID p)")
  case None
  with assms show ?thesis
    by (auto simp: Rollback_def rm_PreviousVersion_def CanRollback_def Let_def split: if_splits)
next
  case (Some prev)
  then have can: "CanRollback m (p_ID p)"
    by (auto simp: rm_PreviousVersion_def CanRollback_def Let_def split: if_splits)
  show ?thesis
  proof (cases rule: Transition_cases [of p StateRolledBack actor reason now1])
    case ok
    have "m (p_ID p) \<noteq> []" "2 \<le> length (m (p_ID p))" using can by (auto simp: CanRollback_def)
    then show ?thesis
      using ok Some can assms
      by (auto simp: Rollback_def only_deployed_rolls_back RecordRollback_def History_def Let_def
          rm_PreviousVersion_def nth_append last_conv_nth)
  next
    case (error e)
    then show ?thesis using Some can assms by (auto simp: Rollback_def only_deployed_rolls_back Let_def)
  qed
qed

definition live_policy :: Policy where
  "live_policy = (staged_policy 2)\<lparr>p_State := StateDeployed\<rparr>"

definition two_deploys :: RollbackManager where
  "two_deploys = RecordDeploy ''p'' (ver 2 0) ''alice'' EnvProd 2 (RecordDeploy ''p'' (ver 1 0) ''alice'' EnvProd 1 NewRollbackManager)"

theorem Rollback_behaviour_witness:
  "\<exists>rb. fst (Rollback live_policy ''bob'' [] EnvProd 3 4 two_deploys) = Inr rb \<and> ToVersion rb = ver 1 0 \<and>
     rm_PreviousVersion (snd (snd (Rollback live_policy ''bob'' [] EnvProd 3 4 two_deploys))) ''p'' = Some (ver 2 0)"
proof -
  let ?R = "Rollback live_policy ''bob'' [] EnvProd 3 4 two_deploys"
  have e: "p_ID live_policy = ''p''" "p_State live_policy = StateDeployed" "CanRollback two_deploys ''p''"
    "rm_PreviousVersion two_deploys ''p'' = Some (ver 1 0)" "d_Version (last (two_deploys ''p'')) = ver 2 0"
    by code_simp+
  have "?R = (fst ?R, fst (snd ?R), snd (snd ?R))" by simp
  from Rollback_behaviour [OF this] e show ?thesis by (cases "fst ?R") auto
qed

definition promoted :: "int \<Rightarrow> RollbackManager \<Rightarrow> RollbackManager" where
  "promoted n m = fold (\<lambda>env. RecordDeploy ''p'' (ver n 0) ''alice'' env 1) EnvOrder m"

text \<open>the history of a policy is not kept per environment. A version promoted through development, staging
  and production is recorded three times, and a rollback in production then goes back to the same version.\<close>

theorem rollback_to_same_version:
  "map_sum id ToVersion (fst (Rollback live_policy ''bob'' [] EnvProd 3 4 (promoted 2 (promoted 1 NewRollbackManager)))) =
   Inr (p_Version live_policy)"
  by code_simp

end
