(* ===== verification/WasmBinary.thy ===== *)
theory WasmBinary
  imports Prelude
begin

text \<open>
  The decoder of WebAssembly binaries of the symbolic executor (the parsing functions of
  \<open>src/internal/verify/symbolic.go\<close>): LEB128 integers, the sections the executor needs, and function
  bodies as instruction trees. A slice is the list of its bytes and a position is a natural number.
\<close>

unbundle bit_operations_syntax

datatype wasm_error =
    TruncatedInteger | InvalidInteger | InvalidSignedInteger
  | TooManyInstructions | NestingTooDeep | TruncatedIf | InvalidIf | Unterminated
  | TooManyLocalGroups | InvalidLocals | InvalidBody
  | TooManyImports | InvalidImport | TruncatedImport | InvalidImportKind | InvalidImportSection | UnsupportedLimits
  | TooManyTypes | InvalidFunctionType | TruncatedParams | TruncatedResults
  | TooManyItems | TooManyExports | InvalidExport | TruncatedExport | TooManyCodes | InvalidCode
  | InvalidModule | TruncatedSection | NotExported string | ImportedEntrypoint string | InvalidEntrypointType

definition maxWasmVectorItems :: int where "maxWasmVectorItems = 4096"
definition maxWasmParams :: int where "maxWasmParams = 64"
definition maxWasmLocals :: int where "maxWasmLocals = 4096"
definition maxWasmInstructions :: int where "maxWasmInstructions = 16384"
definition maxWasmControlDepth :: int where "maxWasmControlDepth = 256"

section \<open>LEB128 integers\<close>

function readU32Loop :: "byte list \<Rightarrow> nat \<Rightarrow> u32 \<Rightarrow> nat \<Rightarrow> wasm_error + u32 \<times> nat" where
  "readU32Loop b p v i =
     (if i < 5 then
        (if p \<ge> length b then Inl TruncatedInteger
         else (let x = b ! p; v' = v OR push_bit (7 * i) (ucast (x AND 127)) in
           if x AND 128 = 0 then Inr (v', p + 1) else readU32Loop b (p + 1) v' (i + 1)))
      else Inl InvalidInteger)"
  by pat_completeness auto
termination
  by (relation "measure (\<lambda>(b, p, v, i). 5 - i)") auto

declare readU32Loop.simps [simp del]

definition readU32 :: "byte list \<Rightarrow> nat \<Rightarrow> wasm_error + u32 \<times> nat" where
  "readU32 b p = readU32Loop b p 0 0"

text \<open>\<open>int64\<close> values are 64-bit words; \<open>NOT 0\<close> is the word of all ones.\<close>

function readS64Loop :: "byte list \<Rightarrow> nat \<Rightarrow> u64 \<Rightarrow> nat \<Rightarrow> wasm_error + u64 \<times> nat" where
  "readS64Loop b p v shift =
     (if p \<ge> length b \<or> shift \<ge> 64 then Inl InvalidSignedInteger
      else (let x = b ! p; v' = v OR push_bit shift (ucast (x AND 127)); shift' = shift + 7 in
        if x AND 128 = 0
        then Inr (if shift' < 64 \<and> x AND 64 \<noteq> 0 then v' OR push_bit shift' (NOT 0) else v', p + 1)
        else readS64Loop b (p + 1) v' shift'))"
  by pat_completeness auto
termination
  by (relation "measure (\<lambda>(b, p, v, shift). 64 - shift)") auto

declare readS64Loop.simps [simp del]

definition readS64 :: "byte list \<Rightarrow> nat \<Rightarrow> wasm_error + u64 \<times> nat" where
  "readS64 b p = readS64Loop b p 0 0"

lemma readU32Loop_pos: "readU32Loop b p v i = Inr (r, p') \<Longrightarrow> p < p' \<and> p' \<le> length b"
proof (induction b p v i rule: readU32Loop.induct)
  case (1 b p v i)
  show ?case
  proof (cases "i < 5 \<and> p < length b \<and> (b ! p) AND 128 \<noteq> 0")
    case True
    then have "readU32Loop b (p + 1) (v OR push_bit (7 * i) (ucast ((b ! p) AND 127))) (i + 1) = Inr (r, p')"
      using "1.prems" by (simp add: readU32Loop.simps [of b p v i] Let_def)
    from "1.IH" [OF _ _ refl refl _ this] True show ?thesis by auto
  next
    case False
    then show ?thesis using "1.prems" by (auto simp: readU32Loop.simps [of b p v i] Let_def split: if_splits)
  qed
qed

lemma readU32_pos: "readU32 b p = Inr (v, p') \<Longrightarrow> p < p' \<and> p' \<le> length b"
  unfolding readU32_def by (rule readU32Loop_pos)

lemma readS64Loop_pos: "readS64Loop b p v s = Inr (r, p') \<Longrightarrow> p < p' \<and> p' \<le> length b"
proof (induction b p v s rule: readS64Loop.induct)
  case (1 b p v s)
  show ?case
  proof (cases "p < length b \<and> s < 64 \<and> (b ! p) AND 128 \<noteq> 0")
    case True
    then have "readS64Loop b (p + 1) (v OR push_bit s (ucast ((b ! p) AND 127))) (s + 7) = Inr (r, p')"
      using "1.prems" by (simp add: readS64Loop.simps [of b p v s] Let_def)
    from "1.IH" [OF _ refl refl refl _ this] True show ?thesis by auto
  next
    case False
    then show ?thesis using "1.prems" by (auto simp: readS64Loop.simps [of b p v s] Let_def split: if_splits)
  qed
qed

lemma readS64_pos: "readS64 b p = Inr (v, p') \<Longrightarrow> p < p' \<and> p' \<le> length b"
  unfolding readS64_def by (rule readS64Loop_pos)

section \<open>Instruction trees\<close>

datatype instruction = Instr (opcode: byte) (index: u32) (ivalue: u64) (thenB: "instruction list") (otherwiseB: "instruction list")

text \<open>
  \<open>parseInstructionsWithBudget\<close>: the counter that the Go code shares through a pointer is threaded
  through the calls. The result is the sequence, the position behind its terminator, the terminator
  (\<open>end\<close> or \<open>else\<close>) and the counter.
\<close>

type_synonym parsed = "wasm_error + instruction list \<times> nat \<times> byte \<times> int"

text \<open>The immediates of an opcode other than \<open>if\<close>.\<close>

definition parseImmediate :: "byte list \<Rightarrow> nat \<Rightarrow> byte \<Rightarrow> wasm_error + instruction \<times> nat" where
  "parseImmediate b p op =
     (if op = 0x20 \<or> op = 0x21 \<or> op = 0x22 then
        (case readU32 b p of Inl e \<Rightarrow> Inl e | Inr (i, p') \<Rightarrow> Inr (Instr op i 0 [] [], p'))
      else if op = 0x41 \<or> op = 0x42 then
        (case readS64 b p of Inl e \<Rightarrow> Inl e | Inr (v, p') \<Rightarrow> Inr (Instr op 0 v [] [], p'))
      else Inr (Instr op 0 0 [] [], p))"

function parseInstrs :: "byte list \<Rightarrow> nat \<Rightarrow> int \<Rightarrow> int \<Rightarrow> parsed" where
  "parseInstrs b p cnt depth =
     (if p \<ge> length b then Inl Unterminated
      else if b ! p = 0x0b \<or> b ! p = 0x05 then Inr ([], Suc p, b ! p, cnt)
      else if cnt + 1 > maxWasmInstructions then Inl TooManyInstructions
      else if b ! p = 0x04 then
        (if depth \<ge> maxWasmControlDepth then Inl NestingTooDeep
         else if Suc p \<ge> length b then Inl TruncatedIf
         else (case parseInstrs b (Suc (Suc p)) (cnt + 1) (depth + 1) of
             Inl e \<Rightarrow> Inl e
           | Inr (t, p1, stop, cnt1) \<Rightarrow>
               if stop = 0x05 then
                 (case parseInstrs b p1 cnt1 (depth + 1) of
                    Inl e \<Rightarrow> Inl e
                  | Inr (f, p2, stop2, cnt2) \<Rightarrow>
                      if stop2 \<noteq> 0x0b then Inl InvalidIf
                      else (case parseInstrs b p2 cnt2 depth of
                          Inl e \<Rightarrow> Inl e
                        | Inr (rest, p3, stop3, cnt3) \<Rightarrow> Inr (Instr 0x04 0 0 t f # rest, p3, stop3, cnt3)))
               else (case parseInstrs b p1 cnt1 depth of
                          Inl e \<Rightarrow> Inl e
                        | Inr (rest, p3, stop3, cnt3) \<Rightarrow> Inr (Instr 0x04 0 0 t [] # rest, p3, stop3, cnt3))))
      else (case parseImmediate b (Suc p) (b ! p) of
          Inl e \<Rightarrow> Inl e
        | Inr (ins, p1) \<Rightarrow> (case parseInstrs b p1 (cnt + 1) depth of
            Inl e \<Rightarrow> Inl e
          | Inr (rest, p3, stop3, cnt3) \<Rightarrow> Inr (ins # rest, p3, stop3, cnt3))))"
  by pat_completeness auto

lemma parseImmediate_pos: "parseImmediate b p op = Inr (ins, p') \<Longrightarrow> p \<le> length b \<Longrightarrow> p \<le> p' \<and> p' \<le> length b"
  by (auto simp: parseImmediate_def split: if_splits sum.splits dest!: readU32_pos readS64_pos)

lemma parseInstrs_elim:
  assumes "parseInstrs_dom (b, p, cnt, depth)" "parseInstrs b p cnt depth = Inr (is, p', stop, cnt')"
  obtains (stop) "p < length b" "is = []" "p' = Suc p" "cnt' = cnt" "stop = b ! p" "b ! p = 0x0b \<or> b ! p = 0x05"
    | (if_else) t p1 c1 f p2 c2 rest where "Suc p < length b" "b ! p = 0x04" "cnt + 1 \<le> maxWasmInstructions" "depth < maxWasmControlDepth"
        "parseInstrs b (Suc (Suc p)) (cnt + 1) (depth + 1) = Inr (t, p1, 0x05, c1)"
        "parseInstrs b p1 c1 (depth + 1) = Inr (f, p2, 0x0b, c2)"
        "parseInstrs b p2 c2 depth = Inr (rest, p', stop, cnt')" "is = Instr 0x04 0 0 t f # rest"
    | (if_only) t p1 s1 c1 rest where "Suc p < length b" "b ! p = 0x04" "cnt + 1 \<le> maxWasmInstructions" "depth < maxWasmControlDepth"
        "parseInstrs b (Suc (Suc p)) (cnt + 1) (depth + 1) = Inr (t, p1, s1, c1)" "s1 \<noteq> 0x05"
        "parseInstrs b p1 c1 depth = Inr (rest, p', stop, cnt')" "is = Instr 0x04 0 0 t [] # rest"
    | (plain) ins p1 rest where "p < length b" "b ! p \<noteq> 0x04" "b ! p \<noteq> 0x05" "b ! p \<noteq> 0x0b" "cnt + 1 \<le> maxWasmInstructions"
        "parseImmediate b (Suc p) (b ! p) = Inr (ins, p1)"
        "parseInstrs b p1 (cnt + 1) depth = Inr (rest, p', stop, cnt')" "is = ins # rest"
proof (cases "p < length b \<and> b ! p \<noteq> 0x0b \<and> b ! p \<noteq> 0x05 \<and> cnt + 1 \<le> maxWasmInstructions")
  case False
  then show thesis using assms by (intro stop) (auto simp: parseInstrs.psimps split: if_splits)
next
  case ok: True
  note eq = assms(2) [unfolded parseInstrs.psimps [OF assms(1)]]
  show thesis
  proof (cases "b ! p = 0x04")
    case False
    then obtain ins p1 rest where "parseImmediate b (Suc p) (b ! p) = Inr (ins, p1)"
      "parseInstrs b p1 (cnt + 1) depth = Inr (rest, p', stop, cnt')" "is = ins # rest"
      using ok eq by (auto split: sum.splits)
    with False ok show thesis by (intro plain) auto
  next
    case True
    then obtain t p1 s1 c1 where first: "Suc p < length b" "depth < maxWasmControlDepth"
      "parseInstrs b (Suc (Suc p)) (cnt + 1) (depth + 1) = Inr (t, p1, s1, c1)"
      using ok eq by (auto split: sum.splits if_splits)
    show thesis
    proof (cases "s1 = 0x05")
      case False
      then obtain rest where "parseInstrs b p1 c1 depth = Inr (rest, p', stop, cnt')" "is = Instr 0x04 0 0 t [] # rest"
        using True ok eq first by (auto split: sum.splits)
      with False True ok first show thesis by (intro if_only) auto
    next
      case else_branch: True
      then obtain f p2 c2 rest where "parseInstrs b p1 c1 (depth + 1) = Inr (f, p2, 0x0b, c2)"
        "parseInstrs b p2 c2 depth = Inr (rest, p', stop, cnt')" "is = Instr 0x04 0 0 t f # rest"
        using True ok eq first by (auto split: sum.splits if_splits)
      with True ok first else_branch show thesis by (intro if_else) auto
    qed
  qed
qed

lemma parseInstrs_pos:
  "parseInstrs_dom (b, p, cnt, depth) \<Longrightarrow> parseInstrs b p cnt depth = Inr (is, p', stop, cnt') \<Longrightarrow> p < p' \<and> p' \<le> length b"
proof (induction b p cnt depth arbitrary: "is" p' stop cnt' rule: parseInstrs.pinduct)
  case (1 b p cnt depth)
  from "1.hyps" "1.prems" show ?case
  proof (cases rule: parseInstrs_elim)
    case (if_else t p1 c1 f p2 c2 rest)
    have "Suc (Suc p) < p1" using "1.IH"(1) [of t p1 "0x05" c1] if_else by simp
    moreover have "p1 < p2" using "1.IH"(2) [OF _ _ _ _ _ _ if_else(5) refl refl refl refl if_else(6)] if_else by simp
    moreover have "p2 < p' \<and> p' \<le> length b"
      using "1.IH"(3) [OF _ _ _ _ _ _ if_else(5) refl refl refl refl if_else(6) refl refl refl _ if_else(7)] if_else by simp
    ultimately show ?thesis by simp
  next
    case (if_only t p1 s1 c1 rest)
    have "Suc (Suc p) < p1" using "1.IH"(1) [of t p1 s1 c1] if_only by simp
    moreover have "p1 < p' \<and> p' \<le> length b"
      using "1.IH"(4) [OF _ _ _ _ _ _ if_only(5) refl refl refl if_only(6) if_only(7)] if_only by simp
    ultimately show ?thesis by simp
  next
    case (plain ins p1 rest)
    have "p1 < p' \<and> p' \<le> length b"
      using "1.IH"(5) [OF _ _ _ _ plain(6) refl plain(7)] plain by simp
    with parseImmediate_pos [OF plain(6)] plain(1) show ?thesis by simp
  qed simp
qed

termination parseInstrs
proof (relation "measure (\<lambda>(b, p, cnt, depth). length b - p)")
qed (auto dest!: parseInstrs_pos parseImmediate_pos)

declare parseInstrs.simps [simp del]



definition parseInstructions :: "byte list \<Rightarrow> nat \<Rightarrow> parsed" where
  "parseInstructions b p = parseInstrs b p 0 0"

fun parseLocalGroups :: "nat \<Rightarrow> byte list \<Rightarrow> nat \<Rightarrow> byte list \<Rightarrow> wasm_error + byte list \<times> nat" where
  "parseLocalGroups 0 b p locals = Inr (locals, p)"
| "parseLocalGroups (Suc groups) b p locals = (case readU32 b p of
     Inl e \<Rightarrow> Inl InvalidLocals
   | Inr (n, q) \<Rightarrow>
       if q \<ge> length b \<or> uint n > maxWasmLocals \<or> int (length locals) + uint n > maxWasmLocals then Inl InvalidLocals
       else parseLocalGroups groups b (q + 1) (locals @ replicate (unat n) (b ! q)))"

definition parseCode :: "byte list \<Rightarrow> wasm_error + byte list \<times> instruction list" where
  "parseCode b = (case readU32 b 0 of
     Inl e \<Rightarrow> Inl e
   | Inr (groups, p) \<Rightarrow>
       if uint groups > maxWasmVectorItems \<or> unat groups > length b - p then Inl TooManyLocalGroups
       else (case parseLocalGroups (unat groups) b p [] of
         Inl e \<Rightarrow> Inl e
       | Inr (locals, p) \<Rightarrow> (case parseInstructions b p of
           Inl e \<Rightarrow> Inl e
         | Inr (body, p, stop, _) \<Rightarrow>
             if stop \<noteq> 0x0b \<or> p \<noteq> length b then Inl InvalidBody else Inr (locals, body))))"

section \<open>Sections\<close>

definition skipWasmLimits :: "byte list \<Rightarrow> nat \<Rightarrow> wasm_error + nat" where
  "skipWasmLimits b p = (case readU32 b p of
     Inl e \<Rightarrow> Inl e
   | Inr (flags, p) \<Rightarrow>
       if flags > 1 then Inl UnsupportedLimits
       else (case readU32 b p of
         Inl e \<Rightarrow> Inl e
       | Inr (_, p) \<Rightarrow> if flags = 0 then Inr p
           else (case readU32 b p of Inl e \<Rightarrow> Inl e | Inr (_, p) \<Rightarrow> Inr p)))"

text \<open>A name: its length, then that many bytes.\<close>

definition skipName :: "wasm_error \<Rightarrow> byte list \<Rightarrow> nat \<Rightarrow> wasm_error + nat" where
  "skipName err b p = (case readU32 b p of Inl e \<Rightarrow> Inl err
     | Inr (n, q) \<Rightarrow> if unat n > length b - q then Inl err else Inr (q + unat n))"

definition parseImportDesc :: "byte list \<Rightarrow> nat \<Rightarrow> wasm_error + bool \<times> nat" where
  "parseImportDesc b p =
     (if p \<ge> length b then Inl TruncatedImport
      else if b ! p = 0 then (case readU32 b (p + 1) of Inl e \<Rightarrow> Inl e | Inr (_, p) \<Rightarrow> Inr (True, p))
      else if b ! p = 1 then
        (if p + 1 \<ge> length b then Inl TruncatedImport
         else case skipWasmLimits b (p + 2) of Inl e \<Rightarrow> Inl e | Inr p \<Rightarrow> Inr (False, p))
      else if b ! p = 2 then (case skipWasmLimits b (p + 1) of Inl e \<Rightarrow> Inl e | Inr p \<Rightarrow> Inr (False, p))
      else if b ! p = 3 then (if p + 2 \<ge> length b then Inl TruncatedImport else Inr (False, p + 3))
      else Inl InvalidImportKind)"

fun parseImportLoop :: "nat \<Rightarrow> byte list \<Rightarrow> nat \<Rightarrow> u32 \<Rightarrow> wasm_error + u32 \<times> nat" where
  "parseImportLoop 0 b p functions = Inr (functions, p)"
| "parseImportLoop (Suc n) b p functions = (case skipName InvalidImport b p of
     Inl e \<Rightarrow> Inl e
   | Inr p \<Rightarrow> (case skipName InvalidImport b p of
       Inl e \<Rightarrow> Inl e
     | Inr p \<Rightarrow> (case parseImportDesc b p of
         Inl e \<Rightarrow> Inl e
       | Inr (isFunction, p) \<Rightarrow> parseImportLoop n b p (if isFunction then functions + 1 else functions))))"

definition parseImportedFunctionCount :: "byte list \<Rightarrow> wasm_error + u32" where
  "parseImportedFunctionCount b = (case readU32 b 0 of
     Inl e \<Rightarrow> Inl e
   | Inr (cnt, p) \<Rightarrow>
       if uint cnt > maxWasmVectorItems \<or> unat cnt > length b - p then Inl TooManyImports
       else (case parseImportLoop (unat cnt) b p 0 of
         Inl e \<Rightarrow> Inl e
       | Inr (functions, p) \<Rightarrow> if p \<noteq> length b then Inl InvalidImportSection else Inr functions))"

text \<open>A slice expression \<open>b[p : p+n]\<close>, in range.\<close>

definition slice :: "byte list \<Rightarrow> nat \<Rightarrow> nat \<Rightarrow> byte list" where
  "slice b p n = take n (drop p b)"

fun parseTypeLoop :: "nat \<Rightarrow> byte list \<Rightarrow> nat \<Rightarrow> wasm_error + byte list list" where
  "parseTypeLoop 0 b p = Inr []"
| "parseTypeLoop (Suc k) b p =
     (if p \<ge> length b \<or> b ! p \<noteq> 0x60 then Inl InvalidFunctionType
      else case readU32 b (p + 1) of
        Inl e \<Rightarrow> Inl e
      | Inr (pc, p) \<Rightarrow>
          if uint pc > maxWasmParams \<or> unat pc > length b - p then Inl TruncatedParams
          else (case readU32 b (p + unat pc) of
            Inl e \<Rightarrow> Inl e
          | Inr (rc, p') \<Rightarrow>
              if uint rc > maxWasmParams \<or> unat rc > length b - p' then Inl TruncatedResults
              else (case parseTypeLoop k b (p' + unat rc) of
                Inl e \<Rightarrow> Inl e
              | Inr out \<Rightarrow> Inr (([ucast pc] @ slice b p (unat pc) @ [ucast rc] @ slice b p' (unat rc)) # out))))"

definition parseTypes :: "byte list \<Rightarrow> wasm_error + byte list list" where
  "parseTypes b = (case readU32 b 0 of
     Inl e \<Rightarrow> Inl e
   | Inr (cnt, p) \<Rightarrow>
       if uint cnt > maxWasmVectorItems \<or> unat cnt > length b then Inl TooManyTypes
       else parseTypeLoop (unat cnt) b p)"

fun parseU32Loop :: "nat \<Rightarrow> byte list \<Rightarrow> nat \<Rightarrow> wasm_error + u32 list" where
  "parseU32Loop 0 b p = Inr []"
| "parseU32Loop (Suc k) b p = (case readU32 b p of
     Inl e \<Rightarrow> Inl e
   | Inr (v, p) \<Rightarrow> (case parseU32Loop k b p of Inl e \<Rightarrow> Inl e | Inr out \<Rightarrow> Inr (v # out)))"

definition parseU32Vector :: "byte list \<Rightarrow> wasm_error + u32 list" where
  "parseU32Vector b = (case readU32 b 0 of
     Inl e \<Rightarrow> Inl e
   | Inr (cnt, p) \<Rightarrow>
       if uint cnt > maxWasmVectorItems \<or> unat cnt > length b - p then Inl TooManyItems
       else parseU32Loop (unat cnt) b p)"

text \<open>The map of exports is filled in the order of the section: a later entry of a name wins.\<close>

type_synonym exports = "byte list \<rightharpoonup> u32"

fun parseExportLoop :: "nat \<Rightarrow> byte list \<Rightarrow> nat \<Rightarrow> exports \<Rightarrow> wasm_error + exports" where
  "parseExportLoop 0 b p out = Inr out"
| "parseExportLoop (Suc k) b p out = (case readU32 b p of
     Inl e \<Rightarrow> Inl InvalidExport
   | Inr (n, q) \<Rightarrow>
       if unat n > length b - q then Inl InvalidExport
       else (let name = slice b q (unat n); p = q + unat n in
         if p \<ge> length b then Inl TruncatedExport
         else (let kind = b ! p in case readU32 b (p + 1) of
             Inl e \<Rightarrow> Inl e
           | Inr (idx, p) \<Rightarrow> parseExportLoop k b p (if kind = 0 then out(name \<mapsto> idx) else out))))"

definition parseExports :: "byte list \<Rightarrow> wasm_error + exports" where
  "parseExports b = (case readU32 b 0 of
     Inl e \<Rightarrow> Inl e
   | Inr (cnt, p) \<Rightarrow>
       if uint cnt > maxWasmVectorItems \<or> unat cnt > length b - p then Inl TooManyExports
       else parseExportLoop (unat cnt) b p Map.empty)"

fun parseCodeLoop :: "nat \<Rightarrow> byte list \<Rightarrow> nat \<Rightarrow> wasm_error + byte list list" where
  "parseCodeLoop 0 b p = Inr []"
| "parseCodeLoop (Suc k) b p = (case readU32 b p of
     Inl e \<Rightarrow> Inl InvalidCode
   | Inr (n, q) \<Rightarrow>
       if unat n > length b - q then Inl InvalidCode
       else (case parseCodeLoop k b (q + unat n) of
         Inl e \<Rightarrow> Inl e | Inr out \<Rightarrow> Inr (slice b q (unat n) # out)))"

definition parseCodes :: "byte list \<Rightarrow> wasm_error + byte list list" where
  "parseCodes b = (case readU32 b 0 of
     Inl e \<Rightarrow> Inl e
   | Inr (cnt, p) \<Rightarrow>
       if uint cnt > maxWasmVectorItems \<or> unat cnt > length b - p then Inl TooManyCodes
       else parseCodeLoop (unat cnt) b p)"

section \<open>Modules\<close>

record wasmFunction =
  params :: "byte list"
  results :: "byte list"
  locals :: "byte list"
  body :: "instruction list"

record wasm_sections =
  types :: "byte list list"
  funcs :: "u32 list"
  codes :: "byte list list"
  exports :: exports
  imported :: u32

definition parseSection :: "byte \<Rightarrow> byte list \<Rightarrow> wasm_sections \<Rightarrow> wasm_error + wasm_sections" where
  "parseSection sid sec st =
     (if sid = 1 then (case parseTypes sec of Inl e \<Rightarrow> Inl e | Inr t \<Rightarrow> Inr (st\<lparr>types := t\<rparr>))
      else if sid = 2 then (case parseImportedFunctionCount sec of Inl e \<Rightarrow> Inl e | Inr n \<Rightarrow> Inr (st\<lparr>imported := n\<rparr>))
      else if sid = 3 then (case parseU32Vector sec of Inl e \<Rightarrow> Inl e | Inr f \<Rightarrow> Inr (st\<lparr>funcs := f\<rparr>))
      else if sid = 7 then (case parseExports sec of Inl e \<Rightarrow> Inl e | Inr x \<Rightarrow> Inr (st\<lparr>exports := x\<rparr>))
      else if sid = 10 then (case parseCodes sec of Inl e \<Rightarrow> Inl e | Inr c \<Rightarrow> Inr (st\<lparr>codes := c\<rparr>))
      else Inr st)"

function sectionLoop :: "byte list \<Rightarrow> nat \<Rightarrow> wasm_sections \<Rightarrow> wasm_error + wasm_sections" where
  "sectionLoop wasm p st =
     (if p < length wasm then
        (case readU32 wasm (p + 1) of
           Inl e \<Rightarrow> Inl e
         | Inr (n, q) \<Rightarrow>
             if unat n > length wasm - q then Inl TruncatedSection
             else (case parseSection (wasm ! p) (slice wasm q (unat n)) st of
                 Inl e \<Rightarrow> Inl e
               | Inr st' \<Rightarrow> sectionLoop wasm (q + unat n) st'))
      else Inr st)"
  by pat_completeness auto
termination
  by (relation "measure (\<lambda>(wasm, p, st). length wasm - p)") (auto dest!: readU32_pos)

declare sectionLoop.simps [simp del]

definition parseExportedFunction :: "byte list \<Rightarrow> byte list \<Rightarrow> wasm_error + wasmFunction" where
  "parseExportedFunction wasm entrypoint =
     (if length wasm < 8 \<or> slice wasm 0 4 \<noteq> [0x00, 0x61, 0x73, 0x6d] \<or> slice wasm 4 4 \<noteq> [0x01, 0x00, 0x00, 0x00]
      then Inl InvalidModule
      else (case sectionLoop wasm 8 \<lparr>types = [], funcs = [], codes = [], exports = Map.empty, imported = 0\<rparr> of
        Inl e \<Rightarrow> Inl e
      | Inr st \<Rightarrow> (case exports st entrypoint of
          None \<Rightarrow> Inl (NotExported (map (\<lambda>x. char_of (unat x)) entrypoint))
        | Some idx \<Rightarrow>
            (let i = unat (idx - imported st) in
             if idx < imported st \<or> i \<ge> length (funcs st) \<or> i \<ge> length (codes st)
             then Inl (ImportedEntrypoint (map (\<lambda>x. char_of (unat x)) entrypoint))
             else (let typeIndex = unat (funcs st ! i) in
               if typeIndex \<ge> length (types st) then Inl InvalidEntrypointType
               else (let typeSig = types st ! typeIndex; paramsCount = unat (typeSig ! 0); resultsOffset = 1 + paramsCount in
                 case parseCode (codes st ! i) of
                   Inl e \<Rightarrow> Inl e
                 | Inr (ls, bd) \<Rightarrow> Inr \<lparr>params = slice typeSig 1 paramsCount, results = drop (resultsOffset + 1) typeSig,
                     locals = ls, body = bd\<rparr>))))))"

text \<open>A module with one exported function \<open>f\<close>: two \<open>i32\<close> parameters, returning the larger one.\<close>

definition max_module :: "byte list" where
  "max_module = [0x00, 0x61, 0x73, 0x6d, 0x01, 0x00, 0x00, 0x00,
     0x01, 0x07, 0x01, 0x60, 0x02, 0x7f, 0x7f, 0x01, 0x7f,
     0x03, 0x02, 0x01, 0x00,
     0x07, 0x05, 0x01, 0x01, 0x66, 0x00, 0x00,
     0x0a, 0x11, 0x01, 0x0f, 0x00, 0x20, 0x00, 0x20, 0x01, 0x4a, 0x04, 0x7f, 0x20, 0x00, 0x05, 0x20, 0x01, 0x0b, 0x0b]"

lemma max_module_parses: "parseExportedFunction max_module [0x66] = Inr \<lparr>params = [0x7f, 0x7f], results = [0x7f], locals = [],
  body = [Instr 0x20 0 0 [] [], Instr 0x20 1 0 [] [], Instr 0x4a 0 0 [] [], Instr 0x04 0 0 [Instr 0x20 0 0 [] []] [Instr 0x20 1 0 [] []]]\<rparr>"
  by code_simp

end
