(* ===== verification/WasmRoundtrip.thy ===== *)
theory WasmRoundtrip
  imports WasmBinary
begin

text \<open>
  The decoder reads back what the binary format of WebAssembly 1.0 writes: its grammar of unsigned and signed LEB128
  integers, padded ones included, and its function bodies with local declarations, the immediates that the decoder knows
  and conditionals of every one-byte block type. Instructions whose immediates the decoder does not read (branches, calls,
  \<open>block\<close> and \<open>loop\<close>, memory accesses, floating-point constants) and block types of two bytes are left out:
  \<open>block_type_misread\<close> shows what becomes of the latter.
\<close>

unbundle bit_operations_syntax

section \<open>The grammar of integers\<close>

text \<open>
  The values of the format's \<open>uN\<close> and \<open>sN\<close>: a byte below 128 is the last one and holds at most the
  remaining bits; a byte from 128 on holds seven bits and needs more than seven of them to remain. An encoding may be
  longer than necessary.
\<close>

fun leb_u :: "nat \<Rightarrow> byte list \<Rightarrow> nat option" where
  "leb_u N [] = None"
| "leb_u N (x # xs) =
     (if unat x < 128 then (if xs = [] \<and> unat x < 2 ^ N then Some (unat x) else None)
      else if N > 7 then map_option (\<lambda>m. 128 * m + (unat x - 128)) (leb_u (N - 7) xs) else None)"

fun leb_s :: "nat \<Rightarrow> byte list \<Rightarrow> int option" where
  "leb_s N [] = None"
| "leb_s N (x # xs) =
     (if uint x < 64 then (if xs = [] \<and> uint x < 2 ^ (N - 1) then Some (uint x) else None)
      else if uint x < 128 then (if xs = [] \<and> uint x \<ge> 128 - 2 ^ (N - 1) then Some (uint x - 128) else None)
      else if N > 7 then map_option (\<lambda>m. 128 * m + (uint x - 128)) (leb_s (N - 7) xs) else None)"

section \<open>Integers\<close>

lemma byte_low:
  assumes "a < 128"
  shows "(of_nat a :: byte) AND 127 = of_nat a" "(of_nat a :: byte) AND 128 = 0"
    "(of_nat (a + 128) :: byte) AND 127 = of_nat a" "(of_nat (a + 128) :: byte) AND 128 \<noteq> 0"
proof -
  have m: "x AND 127 = take_bit 7 x" for x :: byte
    using mask_eq_exp_minus_1 [of 7, where 'a = byte] by (simp add: take_bit_eq_mask)
  show "(of_nat a :: byte) AND 127 = of_nat a"
    unfolding m using assms by (simp add: take_bit_of_nat take_bit_nat_eq_self)
  show "(of_nat (a + 128) :: byte) AND 127 = of_nat a"
    unfolding m by (subst take_bit_of_nat) (use assms in \<open>simp add: take_bit_eq_mod\<close>)
  have b: "x AND 128 = 0 \<longleftrightarrow> \<not> bit x 7" for x :: byte
    using and_exp_eq_0_iff_not_bit [of x 7] by simp
  have "bit (of_nat n :: byte) 7 \<longleftrightarrow> bit n 7" for n by (simp add: bit_simps)
  then have c: "bit (of_nat n :: byte) 7 \<longleftrightarrow> odd (n div 128)" for n by (simp add: bit_iff_odd)
  show "(of_nat a :: byte) AND 128 = 0" "(of_nat (a + 128) :: byte) AND 128 \<noteq> 0"
    unfolding b c using assms div_add_self2 [of 128 a] by auto
qed

lemma of_nat_split: "(of_nat n :: 'a :: len word) = of_nat (n mod 128) OR push_bit 7 (of_nat (n div 128))"
proof (rule bit_word_eqI)
  fix j assume "j < LENGTH('a)"
  moreover have "bit (n mod 128) j \<longleftrightarrow> j < 7 \<and> bit n j"
    using bit_take_bit_iff [of 7 n j] by (simp add: take_bit_eq_mod)
  moreover have "7 \<le> j \<Longrightarrow> bit (n div 128) (j - 7) \<longleftrightarrow> bit n j"
    using bit_drop_bit_eq [of 7 n] by (simp add: drop_bit_eq_div fun_eq_iff)
  ultimately show "bit (of_nat n :: 'a word) j \<longleftrightarrow> bit (of_nat (n mod 128) OR push_bit 7 (of_nat (n div 128)) :: 'a word) j"
    by (auto simp: bit_simps)
qed

lemma ucast_low: "a < 128 \<Longrightarrow> (ucast (of_nat a :: byte) :: 'a :: len word) = of_nat a"
  by (simp add: unsigned_of_nat take_bit_nat_eq_self)

lemma nth_at: "(pre @ x # rest) ! length pre = x" "length pre < length (pre @ x # rest)"
  by simp_all

lemma byte_cases:
  obtains (final) a where "a < 128" "x = (of_nat a :: byte)" "unat x = a" "uint x = int a"
    | (more) a where "a < 128" "x = (of_nat (a + 128) :: byte)" "unat x = a + 128" "uint x = int a + 128"
proof (cases "unat x < 128")
  case True
  then show thesis by (intro final [of "unat x"]) simp_all
next
  case False
  moreover have "unat x < 256" using unsigned_less [of x] by simp
  ultimately have a: "unat x = (unat x - 128) + 128" "unat x - 128 < 128" by simp_all
  have "x = of_nat (unat x)" by simp
  also have "of_nat (unat x) = (of_nat ((unat x - 128) + 128) :: byte)" using a(1) by (rule arg_cong)
  finally have "x = of_nat ((unat x - 128) + 128)" .
  moreover have "int (unat x) = uint x" by simp
  then have "uint x = int (unat x - 128) + 128" using a(1) by linarith
  ultimately show thesis by (rule more [OF a(2) _ a(1)])
qed

lemma readU32Loop_leb:
  assumes "leb_u N xs = Some n" "N + 7 * i \<le> 32" "i < 5"
  shows "readU32Loop (pre @ xs @ rest) (length pre) v i = Inr (v OR push_bit (7 * i) (of_nat n), length pre + length xs)"
  using assms
proof (induction xs arbitrary: N n pre v i)
  case (Cons x xs)
  show ?case
  proof (cases rule: byte_cases [of x])
    case (final a)
    then have "xs = []" "n = a" using Cons.prems(1) by (auto split: if_splits)
    then show ?thesis
      using Cons.prems(3) final(2) byte_low [OF final(1)] by (simp add: readU32Loop.simps [of _ _ v i] ucast_low [OF final(1)])
  next
    case (more a)
    then obtain m where m: "leb_u (N - 7) xs = Some m" "n = 128 * m + a" "7 < N"
      using Cons.prems(1) by (auto split: if_splits)
    have "n mod 128 = a" "n div 128 = m" using m(2) more(1) by simp_all
    then have split: "push_bit (7 * i) (of_nat n :: u32) = push_bit (7 * i) (of_nat a) OR push_bit (7 * (i + 1)) (of_nat m)"
      by (subst of_nat_split) (simp add: push_bit_or push_bit_push_bit add.commute)
    have "readU32Loop ((pre @ [x]) @ xs @ rest) (length (pre @ [x])) (v OR push_bit (7 * i) (of_nat a)) (i + 1) =
        Inr ((v OR push_bit (7 * i) (of_nat a)) OR push_bit (7 * (i + 1)) (of_nat m), length (pre @ [x]) + length xs)"
      using m(1,3) Cons.prems(2,3) by (intro Cons.IH) auto
    then show ?thesis
      using byte_low(3,4) [OF more(1)] Cons.prems(3) split more(2)
      by (subst readU32Loop.simps) (simp add: Let_def ucast_low [OF more(1)] or.assoc)
  qed
qed simp

lemma readU32_leb:
  assumes "leb_u 32 xs = Some n"
  shows "readU32 (pre @ xs @ rest) (length pre) = Inr (of_nat n, length pre + length xs)"
  using readU32Loop_leb [OF assms, of 0 pre rest 0] by (simp add: readU32_def)

text \<open>A signed integer splits into its low seven bits and the rest; a short one is its sign-extended byte.\<close>

lemma of_int_split: "(of_int k :: 'a :: len word) = of_int (k mod 128) OR push_bit 7 (of_int (k div 128))"
proof (rule bit_word_eqI)
  fix j assume "j < LENGTH('a)"
  moreover have "bit (k mod 128) j \<longleftrightarrow> j < 7 \<and> bit k j"
    using bit_take_bit_iff [of 7 k j] by (simp add: take_bit_eq_mod)
  moreover have "7 \<le> j \<Longrightarrow> bit (k div 128) (j - 7) \<longleftrightarrow> bit k j"
    using bit_drop_bit_eq [of 7 k] by (simp add: drop_bit_eq_div fun_eq_iff)
  ultimately show "bit (of_int k :: 'a word) j \<longleftrightarrow> bit (of_int (k mod 128) OR push_bit 7 (of_int (k div 128)) :: 'a word) j"
    by (auto simp: bit_simps)
qed

lemma low_byte:
  defines "a k \<equiv> nat (k mod 128)"
  shows "(of_int (k mod 128) :: byte) = of_nat (a k)" "(of_int (k mod 128 + 128) :: byte) = of_nat (a k + 128)" "a k < 128"
    "(of_int (k mod 128) :: 'a :: len word) = of_nat (a k)"
  by (simp_all add: a_def nat_less_iff)

lemma sign_bit: "a < 128 \<Longrightarrow> (of_nat a :: byte) AND 64 \<noteq> 0 \<longleftrightarrow> 64 \<le> a"
proof -
  assume a: "a < 128"
  have "(of_nat a :: byte) AND 64 = 0 \<longleftrightarrow> \<not> bit (of_nat a :: byte) 6"
    using and_exp_eq_0_iff_not_bit [of "of_nat a :: byte" 6] by simp
  moreover have "bit (of_nat a :: byte) 6 \<longleftrightarrow> bit a 6" by (simp add: bit_simps)
  moreover have "bit a 6 \<longleftrightarrow> odd (a div 64)" by (simp add: bit_iff_odd)
  moreover have "a div 64 = (if 64 \<le> a then 1 else 0)" using a by (auto simp: div_nat_eqI)
  ultimately show ?thesis by auto
qed

lemma shift_out: "\<not> n < 64 \<Longrightarrow> push_bit n (x :: u64) = 0"
  by (rule bit_word_eqI) (simp add: bit_simps)

lemma readS64Loop_last:
  assumes "a < 128" "s < 64"
  shows "readS64Loop (pre @ of_nat a # rest) (length pre) v s =
    Inr (v OR push_bit s (of_nat a) OR (if s + 7 < 64 \<and> 64 \<le> a then push_bit (s + 7) (NOT 0) else 0), length pre + 1)"
proof -
  have "readS64Loop (pre @ of_nat a # rest) (length pre) v s =
    Inr (if s + 7 < 64 \<and> (of_nat a :: byte) AND 64 \<noteq> 0 then (v OR push_bit s (of_nat a)) OR push_bit (s + 7) (NOT 0)
         else v OR push_bit s (of_nat a), length pre + 1)"
    using assms byte_low(1,2) [OF assms(1)] by (subst readS64Loop.simps) (simp add: Let_def ucast_low)
  then show ?thesis unfolding sign_bit [OF assms(1)] by (simp only: or.assoc or.right_neutral if_distrib split: if_split)
qed

lemma readS64Loop_more:
  assumes "a < 128" "s < 64"
  shows "readS64Loop (pre @ of_nat (a + 128) # rest) (length pre) v s =
    readS64Loop (pre @ of_nat (a + 128) # rest) (length pre + 1) (v OR push_bit s (of_nat a)) (s + 7)"
  using assms byte_low(3,4) [OF assms(1)] by (subst readS64Loop.simps) (simp add: Let_def ucast_low)

lemma short_signed:
  assumes "- 64 \<le> k" "k < 64"
  shows "push_bit s (of_int k :: u64) =
    push_bit s (of_nat (nat (k mod 128))) OR (if s + 7 < 64 \<and> 64 \<le> nat (k mod 128) then push_bit (s + 7) (NOT 0) else 0)"
proof -
  have "64 \<le> k mod 128 \<longleftrightarrow> k < 0" "k div 128 = (if 0 \<le> k then 0 else - 1)" using assms by presburger+
  then have d: "k div 128 = (if 0 \<le> k then 0 else - 1)" "64 \<le> nat (k mod 128) \<longleftrightarrow> k < 0" by linarith+
  have "push_bit s (of_int k :: u64) = push_bit s (of_int (k mod 128)) OR push_bit (s + 7) (of_int (k div 128))"
    by (subst of_int_split) (simp add: push_bit_or push_bit_push_bit)
  moreover have "push_bit (s + 7) (of_int (k div 128) :: u64) = (if s + 7 < 64 \<and> k < 0 then push_bit (s + 7) (NOT 0) else 0)"
    using d(1) shift_out [of "s + 7" "NOT 0"] by simp
  ultimately show ?thesis by (simp only: d(2) low_byte(4))
qed

lemma readS64Loop_leb:
  assumes "leb_s N xs = Some k" "N + s \<le> 64" "s < 64"
  shows "readS64Loop (pre @ xs @ rest) (length pre) v s = Inr (v OR push_bit s (of_int k), length pre + length xs)"
  using assms
proof (induction xs arbitrary: N k pre v s)
  case (Cons x xs)
  show ?case
  proof (cases rule: byte_cases [of x])
    case (final a)
    then have k: "xs = []" "k = (if a < 64 then int a else int a - 128)" using Cons.prems(1) by (auto split: if_splits)
    then have "nat (k mod 128) = a" "- 64 \<le> k" "k < 64" using final(1) by auto
    then have "push_bit s (of_int k :: u64) = push_bit s (of_nat a) OR (if s + 7 < 64 \<and> 64 \<le> a then push_bit (s + 7) (NOT 0) else 0)"
      using short_signed [of k s] by simp
    then show ?thesis using readS64Loop_last [OF final(1) Cons.prems(3), of pre rest v] k(1) final(2) by simp
  next
    case (more a)
    then obtain m where m: "leb_s (N - 7) xs = Some m" "k = 128 * m + int a" "7 < N"
      using Cons.prems(1) by (auto split: if_splits)
    have "k mod 128 = int a" "k div 128 = m" using m(2) more(1) by simp_all
    then have split: "push_bit s (of_int k :: u64) = push_bit s (of_nat a) OR push_bit (s + 7) (of_int m)"
      by (subst of_int_split) (simp add: push_bit_or push_bit_push_bit)
    have "readS64Loop ((pre @ [x]) @ xs @ rest) (length (pre @ [x])) (v OR push_bit s (of_nat a)) (s + 7) =
        Inr ((v OR push_bit s (of_nat a)) OR push_bit (s + 7) (of_int m), length (pre @ [x]) + length xs)"
      using m(1,3) Cons.prems(2) by (intro Cons.IH) auto
    then show ?thesis
      using readS64Loop_more [OF more(1) Cons.prems(3), of pre "xs @ rest" v] split more(2) by (simp add: or.assoc)
  qed
qed simp

lemma readS64_leb:
  assumes "leb_s N xs = Some k" "N \<le> 64"
  shows "readS64 (pre @ xs @ rest) (length pre) = Inr (of_int k, length pre + length xs)"
  using readS64Loop_leb [OF assms(1), of 0 pre rest 0] assms(2) by (simp add: readS64_def)

section \<open>The grammar of instructions\<close>

text \<open>The opcodes without immediates: unreachable, nop, return, drop, select and the numeric instructions.\<close>

definition plain_op :: "byte \<Rightarrow> bool" where
  "plain_op op \<longleftrightarrow> op \<in> {0x00, 0x01, 0x0f, 0x1a, 0x1b} \<or> 0x45 \<le> op \<and> op \<le> 0xc4"

text \<open>The block types of one byte: none, a value type, or the index of one of the first 64 types of the module.\<close>

definition block_type :: "byte \<Rightarrow> bool" where
  "block_type bt \<longleftrightarrow> bt \<in> {0x40, 0x7f, 0x7e, 0x7d, 0x7c, 0x7b, 0x70, 0x6f} \<or> bt < 0x40"

text \<open>\<open>encodes bs is\<close>: the bytes are a sequence of instructions of the format, of which \<open>is\<close> is the tree.\<close>

inductive encodes :: "byte list \<Rightarrow> instruction list \<Rightarrow> bool" where
  empty: "encodes [] []"
| plain: "encodes (op # bs) (Instr op 0 0 [] [] # is)" if "plain_op op" "encodes bs is"
| local_var: "encodes (op # xs @ bs) (Instr op (of_nat n) 0 [] [] # is)"
    if "op \<in> {0x20, 0x21, 0x22}" "leb_u 32 xs = Some n" "encodes bs is"
| i32_const: "encodes (0x41 # xs @ bs) (Instr 0x41 0 (of_int k) [] [] # is)" if "leb_s 32 xs = Some k" "encodes bs is"
| i64_const: "encodes (0x42 # xs @ bs) (Instr 0x42 0 (of_int k) [] [] # is)" if "leb_s 64 xs = Some k" "encodes bs is"
| if_only: "encodes (0x04 # bt # ts @ 0x0b # bs) (Instr 0x04 0 0 t [] # is)" if "block_type bt" "encodes ts t" "encodes bs is"
| if_else: "encodes (0x04 # bt # ts @ 0x05 # fs @ 0x0b # bs) (Instr 0x04 0 0 t f # is)"
    if "block_type bt" "encodes ts t" "encodes fs f" "encodes bs is"

fun icount :: "instruction \<Rightarrow> nat" where
  "icount (Instr op i v t f) = Suc (sum_list (map icount t) + sum_list (map icount f))"

fun inesting :: "instruction \<Rightarrow> nat" where
  "inesting (Instr op i v t f) = (if op = 0x04 then Suc (Max (set (0 # map inesting t @ map inesting f))) else 0)"

abbreviation icounts :: "instruction list \<Rightarrow> nat" where
  "icounts is \<equiv> sum_list (map icount is)"

definition nested :: "nat \<Rightarrow> instruction list \<Rightarrow> bool" where
  "nested d is \<longleftrightarrow> (\<forall>i \<in> set is. inesting i \<le> d)"

lemma nested_if: "nested d (Instr 0x04 i v t f # is) \<longleftrightarrow> nested d is \<and> 0 < d \<and> nested (d - 1) t \<and> nested (d - 1) f"
  by (cases d) (auto simp: nested_def)

lemma nested_tl: "nested d (i # is) \<Longrightarrow> nested d is"
  by (simp add: nested_def)

lemma plain_op_neq: "plain_op op \<Longrightarrow> op \<notin> {0x04, 0x05, 0x0b, 0x20, 0x21, 0x22, 0x41, 0x42}"
  by (auto simp: plain_op_def)

text \<open>One step of the decoder behind an opcode that is not a control instruction.\<close>

lemma parseInstrs_step:
  assumes "op \<notin> {0x04, 0x05, 0x0b}" "cnt + 1 \<le> maxWasmInstructions"
    and "parseImmediate ((pre @ [op]) @ xs @ tail) (length (pre @ [op])) op = Inr (ins, length (pre @ [op]) + length xs)"
    and "parseInstrs ((pre @ op # xs) @ tail) (length (pre @ op # xs)) (cnt + 1) depth = Inr (is, p, stop, c)"
  shows "parseInstrs (pre @ op # xs @ tail) (length pre) cnt depth = Inr (ins # is, p, stop, c)"
  using assms by (subst parseInstrs.simps) (simp add: nth_append)

lemma parseImmediate_reads:
  "plain_op op \<Longrightarrow> parseImmediate b p op = Inr (Instr op 0 0 [] [], p)"
  "op \<in> {0x20, 0x21, 0x22} \<Longrightarrow> leb_u 32 xs = Some n \<Longrightarrow>
     parseImmediate (pre @ xs @ tail) (length pre) op = Inr (Instr op (of_nat n) 0 [] [], length pre + length xs)"
  "op \<in> {0x41, 0x42} \<Longrightarrow> leb_s N xs = Some k \<Longrightarrow> N \<le> 64 \<Longrightarrow>
     parseImmediate (pre @ xs @ tail) (length pre) op = Inr (Instr op 0 (of_int k) [] [], length pre + length xs)"
proof -
  show "plain_op op \<Longrightarrow> parseImmediate b p op = Inr (Instr op 0 0 [] [], p)"
    using plain_op_neq [of op] by (auto simp: parseImmediate_def)
qed (auto simp: parseImmediate_def readU32_leb readS64_leb)

lemma parseInstrs_encodes:
  assumes "encodes bs is" "stop = 0x0b \<or> stop = 0x05"
    and "cnt + int (icounts is) \<le> maxWasmInstructions" "nested d is" "depth + int d = maxWasmControlDepth"
  shows "parseInstrs (pre @ bs @ stop # rest) (length pre) cnt depth =
    Inr (is, length pre + length bs + 1, stop, cnt + int (icounts is))"
  using assms
proof (induction arbitrary: pre rest stop cnt d depth rule: encodes.induct)
  case empty
  then show ?case by (subst parseInstrs.simps) auto
next
  case (plain op bs "is")
  have "parseInstrs ((pre @ [op]) @ bs @ stop # rest) (length (pre @ [op])) (cnt + 1) depth =
      Inr (is, length (pre @ [op]) + length bs + 1, stop, (cnt + 1) + int (icounts is))"
    using plain.prems by (intro plain.IH) (auto dest: nested_tl)
  with plain_op_neq [OF plain.hyps(1)] plain.prems(2) parseImmediate_reads(1) [OF plain.hyps(1)] show ?case
    using parseInstrs_step [of op cnt pre "[]" "bs @ stop # rest"] by simp
next
  case (local_var op xs n bs "is")
  have "parseInstrs ((pre @ op # xs) @ bs @ stop # rest) (length (pre @ op # xs)) (cnt + 1) depth =
      Inr (is, length (pre @ op # xs) + length bs + 1, stop, (cnt + 1) + int (icounts is))"
    using local_var.prems by (intro local_var.IH) (auto dest: nested_tl)
  with local_var.prems(2) parseImmediate_reads(2) [OF local_var.hyps(1,2), of "pre @ [op]" "bs @ stop # rest"] show ?case
    using parseInstrs_step [of op cnt pre xs "bs @ stop # rest"] local_var.hyps(1) by auto
next
  case (i32_const xs k bs "is")
  have "parseInstrs ((pre @ 0x41 # xs) @ bs @ stop # rest) (length (pre @ 0x41 # xs)) (cnt + 1) depth =
      Inr (is, length (pre @ 0x41 # xs) + length bs + 1, stop, (cnt + 1) + int (icounts is))"
    using i32_const.prems by (intro i32_const.IH) (auto dest: nested_tl)
  with i32_const.prems(2) parseImmediate_reads(3) [OF _ i32_const.hyps(1), of "0x41" "pre @ [0x41]" "bs @ stop # rest"] show ?case
    using parseInstrs_step [of "0x41" cnt pre xs "bs @ stop # rest"] by auto
next
  case (i64_const xs k bs "is")
  have "parseInstrs ((pre @ 0x42 # xs) @ bs @ stop # rest) (length (pre @ 0x42 # xs)) (cnt + 1) depth =
      Inr (is, length (pre @ 0x42 # xs) + length bs + 1, stop, (cnt + 1) + int (icounts is))"
    using i64_const.prems by (intro i64_const.IH) (auto dest: nested_tl)
  with i64_const.prems(2) parseImmediate_reads(3) [OF _ i64_const.hyps(1), of "0x42" "pre @ [0x42]" "bs @ stop # rest"] show ?case
    using parseInstrs_step [of "0x42" cnt pre xs "bs @ stop # rest"] by auto
next
  case (if_only bt ts t bs "is")
  let ?pre = "pre @ [0x04, bt]" and ?pre1 = "pre @ 0x04 # bt # ts @ [0x0b]"
  have n: "nested d is" "0 < d" "nested (d - 1) t" using if_only.prems(3) by (auto simp: nested_if)
  have depth: "depth < maxWasmControlDepth" "(depth + 1) + int (d - 1) = maxWasmControlDepth" using if_only.prems(4) n(2) by auto
  have "parseInstrs (?pre @ ts @ 0x0b # bs @ stop # rest) (length ?pre) (cnt + 1) (depth + 1) =
      Inr (t, length ?pre + length ts + 1, 0x0b, (cnt + 1) + int (icounts t))"
    using if_only.prems(2) by (intro if_only.IH(1) [OF _ _ n(3) depth(2)]) auto
  moreover have "parseInstrs (?pre1 @ bs @ stop # rest) (length ?pre1) ((cnt + 1) + int (icounts t)) depth =
      Inr (is, length ?pre1 + length bs + 1, stop, ((cnt + 1) + int (icounts t)) + int (icounts is))"
    using if_only.prems by (intro if_only.IH(2) [OF _ _ n(1)]) auto
  ultimately show ?case using if_only.prems(2) depth(1) by (subst parseInstrs.simps) (simp add: nth_append)
next
  case (if_else bt ts t fs f bs "is")
  let ?pre = "pre @ [0x04, bt]" and ?pre1 = "pre @ 0x04 # bt # ts @ [0x05]" and ?pre2 = "pre @ 0x04 # bt # ts @ 0x05 # fs @ [0x0b]"
  have n: "nested d is" "0 < d" "nested (d - 1) t" "nested (d - 1) f" using if_else.prems(3) by (auto simp: nested_if)
  have depth: "depth < maxWasmControlDepth" "(depth + 1) + int (d - 1) = maxWasmControlDepth" using if_else.prems(4) n(2) by auto
  have "parseInstrs (?pre @ ts @ 0x05 # fs @ 0x0b # bs @ stop # rest) (length ?pre) (cnt + 1) (depth + 1) =
      Inr (t, length ?pre + length ts + 1, 0x05, (cnt + 1) + int (icounts t))"
    using if_else.prems(2) by (intro if_else.IH(1) [OF _ _ n(3) depth(2)]) auto
  moreover have "parseInstrs (?pre1 @ fs @ 0x0b # bs @ stop # rest) (length ?pre1) ((cnt + 1) + int (icounts t)) (depth + 1) =
      Inr (f, length ?pre1 + length fs + 1, 0x0b, ((cnt + 1) + int (icounts t)) + int (icounts f))"
    using if_else.prems(2) by (intro if_else.IH(2) [OF _ _ n(4) depth(2)]) auto
  moreover have "parseInstrs (?pre2 @ bs @ stop # rest) (length ?pre2) (((cnt + 1) + int (icounts t)) + int (icounts f)) depth =
      Inr (is, length ?pre2 + length bs + 1, stop, (((cnt + 1) + int (icounts t)) + int (icounts f)) + int (icounts is))"
    using if_else.prems by (intro if_else.IH(3) [OF _ _ n(1)]) auto
  ultimately show ?case using if_else.prems(2) depth(1) by (subst parseInstrs.simps) (simp add: nth_append add.assoc)
qed

section \<open>Function bodies\<close>

text \<open>The local declarations: groups of a count and a type.\<close>

inductive encodes_locals :: "byte list \<Rightarrow> (nat \<times> byte) list \<Rightarrow> bool" where
  no_locals: "encodes_locals [] []"
| more_locals: "encodes_locals (xs @ ty # bs) ((n, ty) # gs)" if "leb_u 32 xs = Some n" "encodes_locals bs gs"

definition encodes_code :: "byte list \<Rightarrow> (nat \<times> byte) list \<Rightarrow> instruction list \<Rightarrow> bool" where
  "encodes_code b groups is \<longleftrightarrow> (\<exists>xs ls bs. b = xs @ ls @ bs @ [0x0b] \<and> leb_u 32 xs = Some (length groups) \<and>
     encodes_locals ls groups \<and> encodes bs is)"

definition local_types :: "(nat \<times> byte) list \<Rightarrow> byte list" where
  "local_types groups = concat (map (\<lambda>(n, ty). replicate n ty) groups)"

lemma u32_of_nat: "n < 2 ^ 32 \<Longrightarrow> uint (of_nat n :: u32) = int n" "n < 2 ^ 32 \<Longrightarrow> unat (of_nat n :: u32) = n"
  by (simp_all add: unsigned_of_nat take_bit_nat_eq_self take_bit_int_eq_self)

lemma parseLocalGroups_encodes:
  assumes "encodes_locals ls groups" "int (length acc + length (local_types groups)) \<le> maxWasmLocals"
  shows "parseLocalGroups (length groups) (pre @ ls @ rest) (length pre) acc = Inr (acc @ local_types groups, length pre + length ls)"
  using assms
proof (induction arbitrary: pre acc rule: encodes_locals.induct)
  case (more_locals xs n bs gs ty)
  have n: "int (length acc) + int n + int (length (local_types gs)) \<le> 4096"
    using more_locals.prems by (simp add: local_types_def maxWasmLocals_def)
  then have u: "uint (of_nat n :: u32) = int n" "unat (of_nat n :: u32) = n" using u32_of_nat [of n] by simp_all
  let ?pre = "pre @ xs @ [ty]"
  have "parseLocalGroups (length gs) (?pre @ bs @ rest) (length ?pre) (acc @ replicate n ty) =
      Inr ((acc @ replicate n ty) @ local_types gs, length ?pre + length bs)"
    using n by (intro more_locals.IH) (simp add: maxWasmLocals_def)
  moreover have "readU32 (pre @ xs @ ty # bs @ rest) (length pre) = Inr (of_nat n, length pre + length xs)"
    by (rule readU32_leb [OF more_locals.hyps(1)])
  ultimately show ?case using n u by (simp add: nth_append maxWasmLocals_def local_types_def add.assoc)
qed (simp add: local_types_def)

lemma length_groups: "encodes_locals ls groups \<Longrightarrow> length groups \<le> length ls"
  by (induction rule: encodes_locals.induct) auto

text \<open>C8: the decoder reads back every function body that the binary format writes with the instructions it knows and that
  keeps to its limits, whatever the length of the LEB128 integers, the block types (of one byte) and the empty \<open>else\<close>
  branches: the types of the declared locals, and the tree of instructions with nested conditionals and immediates.\<close>

theorem parseCode_roundtrip:
  assumes "encodes_code b groups is" and "icounts is \<le> 16384" and "nested 256 is"
    and "length groups \<le> 4096" and "length (local_types groups) \<le> 4096"
  shows "parseCode b = Inr (local_types groups, is)"
proof -
  obtain xs ls bs where b: "b = xs @ ls @ bs @ [0x0b]" "leb_u 32 xs = Some (length groups)" "encodes_locals ls groups" "encodes bs is"
    using assms(1) unfolding encodes_code_def by blast
  let ?n = "length groups"
  have u: "uint (of_nat ?n :: u32) = int ?n" "unat (of_nat ?n :: u32) = ?n" using u32_of_nat [of ?n] assms(4) by simp_all
  have 1: "readU32 b 0 = Inr (of_nat ?n, length xs)" using readU32_leb [OF b(2), of "[]" "ls @ bs @ [0x0b]"] b(1) by simp
  have 2: "parseLocalGroups ?n b (length xs) [] = Inr (local_types groups, length (xs @ ls))"
    using parseLocalGroups_encodes [OF b(3), of "[]" xs "bs @ [0x0b]"] assms(5) b(1) by (simp add: maxWasmLocals_def)
  have 3: "parseInstructions b (length (xs @ ls)) = Inr (is, length b, 0x0b, int (icounts is))"
    using parseInstrs_encodes [OF b(4) _ _ assms(3), of "0x0b" 0 0 "xs @ ls" "[]"] assms(2) b(1)
    by (simp add: parseInstructions_def maxWasmInstructions_def maxWasmControlDepth_def)
  show ?thesis using 1 2 3 u assms(4) length_groups [OF b(3)] b(1) by (simp add: parseCode_def maxWasmVectorItems_def)
qed

text \<open>A function that compares its first local with the constant -300, padded to three bytes, with a typed conditional and an empty
  \<open>else\<close>.\<close>

definition max_body :: "instruction list" where
  "max_body = [Instr 0x20 0 0 [] [], Instr 0x41 0 (- 300) [] [], Instr 0x4a 0 0 [] [],
     Instr 0x04 0 0 [Instr 0x20 0 0 [] []] [Instr 0x20 1 0 [] []], Instr 0x04 0 0 [] []]"

definition max_bytes :: "byte list" where
  "max_bytes = [0x20, 0x00, 0x41, 0xd4, 0xfd, 0x7f, 0x4a, 0x04, 0x7f, 0x20, 0x00, 0x05, 0x20, 0x81, 0x00, 0x0b, 0x04, 0x40, 0x05, 0x0b]"

lemma max_bytes_encode: "encodes max_bytes max_body"
proof -
  have e: "encodes [0x04, 0x40, 0x05, 0x0b] [Instr 0x04 0 0 [] []]"
    using if_else [of "0x40" "[]" "[]" "[]" "[]" "[]" "[]"] by (simp add: block_type_def encodes.empty)
  have t: "encodes [0x20, 0x00] [Instr 0x20 0 0 [] []]" using local_var [of "0x20" "[0x00]" 0 "[]" "[]"] by (simp add: encodes.empty)
  have f: "encodes [0x20, 0x81, 0x00] [Instr 0x20 1 0 [] []]" using local_var [of "0x20" "[0x81, 0x00]" 1 "[]" "[]"] by (simp add: encodes.empty)
  have c: "leb_s 32 [0xd4, 0xfd, 0x7f] = Some (- 300)" by code_simp
  show ?thesis
    using local_var [of "0x20" "[0x00]" 0, OF _ _ i32_const [OF c plain [of "0x4a", OF _ if_else [OF _ t f e, of "0x7f"]]]]
    by (simp add: max_bytes_def max_body_def block_type_def plain_op_def)
qed

theorem parseCode_roundtrip_witness: "parseCode ([0x01, 0x82, 0x00, 0x7f] @ max_bytes @ [0x0b]) = Inr ([0x7f, 0x7f], max_body)"
proof -
  have "encodes_locals [0x82, 0x00, 0x7f] [(2, 0x7f)]"
    using more_locals [of "[0x82, 0x00]" 2 "[]" "[]" "0x7f"] by (simp add: no_locals)
  then have "encodes_code ([0x01, 0x82, 0x00, 0x7f] @ max_bytes @ [0x0b]) [(2, 0x7f)] max_body"
    unfolding encodes_code_def using max_bytes_encode by (intro exI [of _ "[0x01]"] exI [of _ "[0x82, 0x00, 0x7f]"] exI [of _ max_bytes]) simp
  moreover have "icounts max_body \<le> 16384" "nested 256 max_body" by (simp_all add: max_body_def nested_def)
  moreover have "local_types [(2, 0x7f)] = [0x7f, 0x7f]" by code_simp
  ultimately show ?thesis using parseCode_roundtrip [of _ "[(2, 0x7f)]" max_body] by simp
qed

text \<open>
  A conditional whose block type is the index 64, of two bytes: the decoder skips only the first of them and takes the second
  for an \<open>unreachable\<close> instruction of the branch.
\<close>

lemma block_type_misread:
  "leb_s 33 [0xc0, 0x00] = Some 64"
  "parseCode [0x00, 0x20, 0x00, 0x04, 0xc0, 0x00, 0x0b, 0x0b] = Inr ([], [Instr 0x20 0 0 [] [], Instr 0x04 0 0 [Instr 0x00 0 0 [] []] []])"
  by code_simp+

end
