(* ===== verification/FedRegion.thy ===== *)
theory FedRegion
  imports Prelude "HOL-Library.Char_ord" "HOL-Library.List_Lexorder" "HOL-Library.Product_Lexorder"
begin

text \<open>
  The region registry and the region-aware router of the federation
  (\<open>src/internal/federation/region.go\<close>). \<open>visit\<close> is the order in which Go visits the map of regions.
\<close>

datatype fed_error = PolicyNotFound | RegionNotFound | EmptyPolicyID | NilPolicy

record Region =
  rg_ID :: string
  rg_Endpoint :: string
  rg_Priority :: int
  rg_Latency :: duration
  rg_Healthy :: bool

record RegionRegistry =
  rr_self :: string
  rr_regions :: "string \<rightharpoonup> Region"

definition NewRegionRegistry :: "string \<Rightarrow> RegionRegistry" where
  "NewRegionRegistry self = (let r = \<lparr>rr_self = self, rr_regions = Map.empty\<rparr> in
     if self \<noteq> [] then r\<lparr>rr_regions := (rr_regions r)(self \<mapsto>
       \<lparr>rg_ID = self, rg_Endpoint = [], rg_Priority = 0, rg_Latency = 0, rg_Healthy = True\<rparr>)\<rparr> else r)"

definition Register :: "Region \<Rightarrow> RegionRegistry \<Rightarrow> RegionRegistry" where
  "Register reg r = r\<lparr>rr_regions := (rr_regions r)(rg_ID reg \<mapsto> reg)\<rparr>"

definition Unregister :: "string \<Rightarrow> RegionRegistry \<Rightarrow> RegionRegistry" where
  "Unregister i r = (if i = rr_self r then r else r\<lparr>rr_regions := (rr_regions r)(i := None)\<rparr>)"

definition SetHealth :: "string \<Rightarrow> bool \<Rightarrow> RegionRegistry \<Rightarrow> fed_error option \<times> RegionRegistry" where
  "SetHealth i healthy r = (case rr_regions r i of None \<Rightarrow> (Some RegionNotFound, r)
     | Some reg \<Rightarrow> (None, r\<lparr>rr_regions := (rr_regions r)(i \<mapsto> reg\<lparr>rg_Healthy := healthy\<rparr>)\<rparr>))"

definition SetLatency :: "string \<Rightarrow> duration \<Rightarrow> RegionRegistry \<Rightarrow> fed_error option \<times> RegionRegistry" where
  "SetLatency i d r = (case rr_regions r i of None \<Rightarrow> (Some RegionNotFound, r)
     | Some reg \<Rightarrow> (None, r\<lparr>rr_regions := (rr_regions r)(i \<mapsto> reg\<lparr>rg_Latency := d\<rparr>)\<rparr>))"

definition registry_Get :: "string \<Rightarrow> RegionRegistry \<Rightarrow> Region option" where
  "registry_Get i r = rr_regions r i"

definition regionsOf :: "(string set \<Rightarrow> string list) \<Rightarrow> RegionRegistry \<Rightarrow> Region list" where
  "regionsOf visit r = map (\<lambda>i. the (rr_regions r i)) (visit (dom (rr_regions r)))"

definition registry_List :: "(string set \<Rightarrow> string list) \<Rightarrow> RegionRegistry \<Rightarrow> Region list" where
  "registry_List visit r = sortSlice (\<lambda>a b. rg_ID a < rg_ID b) (regionsOf visit r)"

definition rankLess :: "Region \<Rightarrow> Region \<Rightarrow> bool" where
  "rankLess a b = (let ak = rg_Latency a > 0; bk = rg_Latency b > 0 in
     if ak \<noteq> bk then ak
     else if rg_Latency a \<noteq> rg_Latency b then rg_Latency a < rg_Latency b
     else if rg_Priority a \<noteq> rg_Priority b then rg_Priority a < rg_Priority b
     else rg_ID a < rg_ID b)"

definition rankRegions :: "Region list \<Rightarrow> Region list" where
  "rankRegions rs = sortSlice rankLess rs"

definition HealthyRegions :: "(string set \<Rightarrow> string list) \<Rightarrow> RegionRegistry \<Rightarrow> Region list" where
  "HealthyRegions visit r = rankRegions (filter rg_Healthy (regionsOf visit r))"

definition region_Route :: "(string set \<Rightarrow> string list) \<Rightarrow> RegionRegistry \<Rightarrow> fed_error + Region" where
  "region_Route visit r = (let healthy = HealthyRegions visit r in
     if length healthy = 0 then Inl RegionNotFound else Inr (healthy ! 0))"

definition RouteFailover :: "(string set \<Rightarrow> string list) \<Rightarrow> string \<Rightarrow> RegionRegistry \<Rightarrow> fed_error + Region" where
  "RouteFailover visit preferred r = (let healthy = HealthyRegions visit r in
     if length healthy = 0 then Inl RegionNotFound
     else case (if preferred \<noteq> [] then find (\<lambda>reg. rg_ID reg = preferred) healthy else None) of
       Some reg \<Rightarrow> Inr reg
     | None \<Rightarrow> Inr (healthy ! 0))"

section \<open>The ranking\<close>

text \<open>The routing key: known latency first, then latency, priority and identifier.\<close>

definition routing_key :: "Region \<Rightarrow> bool \<times> int \<times> int \<times> string" where
  "routing_key a = (\<not> rg_Latency a > 0, rg_Latency a, rg_Priority a, rg_ID a)"

lemma rankLess_key: "rankLess a b \<longleftrightarrow> routing_key a < routing_key b"
  by (auto simp: rankLess_def routing_key_def Let_def less_prod_def)

lemma rankRegions_sort: "rankRegions rs = sort_key routing_key rs"
  unfolding rankRegions_def by (rule sortSlice_sort_key) (rule rankLess_key)

interpretation ranking: ranked_list "rankRegions rs" routing_key for rs
  by unfold_locales (simp add: rankRegions_sort)

section \<open>The invariant\<close>

definition registry_inv :: "RegionRegistry \<Rightarrow> bool" where
  "registry_inv r \<longleftrightarrow> finite (dom (rr_regions r)) \<and> (\<forall>i reg. rr_regions r i = Some reg \<longrightarrow> rg_ID reg = i) \<and>
     (rr_self r \<noteq> [] \<longrightarrow> rr_self r \<in> dom (rr_regions r))"

datatype registry_op = Op_Register Region | Op_Unregister string | Op_Health string bool | Op_Latency string duration

fun exec_registry :: "registry_op \<Rightarrow> RegionRegistry \<Rightarrow> RegionRegistry" where
  "exec_registry (Op_Register reg) r = Register reg r"
| "exec_registry (Op_Unregister i) r = Unregister i r"
| "exec_registry (Op_Health i h) r = snd (SetHealth i h r)"
| "exec_registry (Op_Latency i d) r = snd (SetLatency i d r)"

lemma registry_inv_exec: "registry_inv r \<Longrightarrow> registry_inv (exec_registry opr r)"
  by (cases opr) (auto simp: registry_inv_def Register_def Unregister_def SetHealth_def SetLatency_def split: option.splits)

lemma registry_inv_New: "registry_inv (NewRegionRegistry self)"
  by (auto simp: NewRegionRegistry_def registry_inv_def Let_def)

interpretation registry: operation_system "NewRegionRegistry self" exec_registry registry_inv for self
  by unfold_locales (rule registry_inv_New, rule registry_inv_exec)

definition registry_after :: "string \<Rightarrow> registry_op list \<Rightarrow> RegionRegistry" where
  "registry_after self ops = fold exec_registry ops (NewRegionRegistry self)"

lemma healthy_iff:
  assumes "registry_inv r" and "visits visit"
  shows "reg \<in> set (HealthyRegions visit r) \<longleftrightarrow> rr_regions r (rg_ID reg) = Some reg \<and> rg_Healthy reg"
proof -
  have "set (visit (dom (rr_regions r))) = dom (rr_regions r)"
    using assms by (simp add: visits_def registry_inv_def)
  then have "reg \<in> set (regionsOf visit r) \<longleftrightarrow> (\<exists>i. rr_regions r i = Some reg)"
    by (force simp: regionsOf_def)
  also have "\<dots> \<longleftrightarrow> rr_regions r (rg_ID reg) = Some reg"
    using assms(1) unfolding registry_inv_def by blast
  finally show ?thesis by (auto simp: HealthyRegions_def rankRegions_sort)
qed

lemma Route_head:
  assumes "region_Route visit r = Inr reg" and "other \<in> set (HealthyRegions visit r)"
  shows "routing_key reg \<le> routing_key other"
  using assms ranking.head_is_best [of "filter rg_Healthy (regionsOf visit r)" other]
  by (auto simp: region_Route_def HealthyRegions_def Let_def hd_conv_nth split: if_splits)

text \<open>Region-aware routing. After any registrations, removals, health and latency updates:
  \<open>Route\<close> fails exactly when no registered region is healthy, and otherwise returns a healthy region
  that no healthy region beats on (known latency, latency, priority, identifier); \<open>RouteFailover\<close> returns
  the preferred region when it is healthy and otherwise what \<open>Route\<close> returns.\<close>

theorem region_routing:
  assumes "visits visit" and "r = registry_after self ops"
  shows "(region_Route visit r = Inl RegionNotFound \<longleftrightarrow> \<not> (\<exists>i reg. rr_regions r i = Some reg \<and> rg_Healthy reg)) \<and>
    (\<forall>reg. region_Route visit r = Inr reg \<longrightarrow> rr_regions r (rg_ID reg) = Some reg \<and> rg_Healthy reg \<and>
       (\<forall>i other. rr_regions r i = Some other \<and> rg_Healthy other \<longrightarrow> routing_key reg \<le> routing_key other)) \<and>
    RouteFailover visit preferred r =
      (case rr_regions r preferred of
         Some reg \<Rightarrow> if rg_Healthy reg \<and> preferred \<noteq> [] then Inr reg else region_Route visit r
       | None \<Rightarrow> region_Route visit r)"
proof (intro conjI allI impI)
  have inv: "registry_inv r" unfolding assms(2) registry_after_def by (rule registry.invar_run)
  have ids: "rg_ID reg = i" if "rr_regions r i = Some reg" for i reg
    using inv that by (simp add: registry_inv_def)
  note H = healthy_iff [OF inv assms(1)]
  have none: "HealthyRegions visit r = [] \<longleftrightarrow> \<not> (\<exists>i reg. rr_regions r i = Some reg \<and> rg_Healthy reg)"
  proof
    assume "\<not> (\<exists>i reg. rr_regions r i = Some reg \<and> rg_Healthy reg)"
    then have "reg \<notin> set (HealthyRegions visit r)" for reg using H [of reg] by blast
    then show "HealthyRegions visit r = []" using list.set_sel(1) by blast
  next
    assume "HealthyRegions visit r = []"
    then have "\<not> (rr_regions r (rg_ID reg) = Some reg \<and> rg_Healthy reg)" for reg
      using H [of reg] by simp
    with ids show "\<not> (\<exists>i reg. rr_regions r i = Some reg \<and> rg_Healthy reg)" by blast
  qed
  show "region_Route visit r = Inl RegionNotFound \<longleftrightarrow> \<not> (\<exists>i reg. rr_regions r i = Some reg \<and> rg_Healthy reg)"
    unfolding none [symmetric] by (simp add: region_Route_def Let_def)
  { fix reg assume reg: "region_Route visit r = Inr reg"
    then have "reg \<in> set (HealthyRegions visit r)"
      by (auto simp: region_Route_def Let_def split: if_splits)
    then show "rr_regions r (rg_ID reg) = Some reg" "rg_Healthy reg" using H by blast+
    fix i other assume other: "rr_regions r i = Some other \<and> rg_Healthy other"
    then have "other \<in> set (HealthyRegions visit r)" using H ids by blast
    with reg show "routing_key reg \<le> routing_key other" by (rule Route_head) }
  have "find (\<lambda>reg. rg_ID reg = preferred) (HealthyRegions visit r) =
    (case rr_regions r preferred of Some reg \<Rightarrow> if rg_Healthy reg then Some reg else None | None \<Rightarrow> None)"
  proof (cases "find (\<lambda>reg. rg_ID reg = preferred) (HealthyRegions visit r)")
    case None
    then have "\<not> (reg \<in> set (HealthyRegions visit r) \<and> rg_ID reg = preferred)" for reg
      by (auto simp: find_None_iff)
    then have "\<not> (rr_regions r preferred = Some reg \<and> rg_Healthy reg)" for reg
      using H [of reg] ids [of preferred reg] by blast
    with None show ?thesis by (auto split: option.splits)
  next
    case (Some reg)
    then have "reg \<in> set (HealthyRegions visit r)" "rg_ID reg = preferred"
      by (auto simp: find_Some_iff)
    with Some H [of reg] show ?thesis by auto
  qed
  moreover have "HealthyRegions visit r \<noteq> []" if "rr_regions r preferred = Some reg" "rg_Healthy reg" for reg
    using that none by blast
  ultimately show "RouteFailover visit preferred r =
      (case rr_regions r preferred of
         Some reg \<Rightarrow> if rg_Healthy reg \<and> preferred \<noteq> [] then Inr reg else region_Route visit r
       | None \<Rightarrow> region_Route visit r)"
    by (auto simp: RouteFailover_def region_Route_def Let_def split: option.splits)
qed

theorem region_routing_witness:
  "\<exists>reg. region_Route (\<lambda>S. SOME xs. distinct xs \<and> set xs = S)
      (registry_after ''us'' [Op_Register \<lparr>rg_ID = ''eu'', rg_Endpoint = [], rg_Priority = 1, rg_Latency = 20, rg_Healthy = True\<rparr>])
    = Inr reg \<and> rg_ID reg = ''eu''"
proof -
  let ?v = "\<lambda>S. SOME xs. distinct xs \<and> set xs = S"
  let ?eu = "\<lparr>rg_ID = ''eu'', rg_Endpoint = [], rg_Priority = 1, rg_Latency = 20, rg_Healthy = True\<rparr>"
  let ?r = "registry_after ''us'' [Op_Register ?eu]"
  have eu: "rr_regions ?r ''eu'' = Some ?eu"
    and only: "rr_regions ?r i = Some reg \<Longrightarrow> i = ''eu'' \<or> rg_Latency reg = 0" for i reg
    by (auto simp: registry_after_def NewRegionRegistry_def Register_def Let_def split: if_splits)
  note R = region_routing [OF visits_some refl, of "''us''" "[Op_Register ?eu]"]
  have "region_Route ?v ?r \<noteq> Inl RegionNotFound" using conjunct1 [OF R] eu by force
  then obtain reg where reg: "region_Route ?v ?r = Inr reg"
    by (auto simp: region_Route_def Let_def split: if_splits)
  have "rr_regions ?r (rg_ID reg) = Some reg \<and> rg_Healthy reg \<and>
      (\<forall>i other. rr_regions ?r i = Some other \<and> rg_Healthy other \<longrightarrow> routing_key reg \<le> routing_key other)"
    using conjunct1 [OF conjunct2 [OF R]] reg by blast
  moreover have "routing_key reg \<le> routing_key ?eu" using calculation eu by force
  ultimately have "rr_regions ?r (rg_ID reg) = Some reg" "rg_Latency reg \<noteq> 0"
    by (auto simp: routing_key_def less_eq_prod_def)
  with only \<open>rr_regions ?r (rg_ID reg) = Some reg\<close> have "rg_ID reg = ''eu''" by blast
  with reg show ?thesis by blast
qed

end
