(* ===== verification/Federation.thy ===== *)
theory Federation
  imports FedRegion
begin

text \<open>
  Multi-region policy replication: the policy store (\<open>src/internal/federation/policy.go\<close>) and the
  transport, the anti-entropy replicator and the facade (\<open>src/internal/federation/replicator.go\<close>).
  Stores are objects that the local region and the transport of the peers share, so they live in an
  explicit heap: \<open>w_heap\<close> holds the stores and \<open>w_mounts\<close> is the map of \<open>LocalTransport\<close>. The registry that
  a federation and its replicator point to is the field of the replicator. Contexts only carry
  cancellation, which the in-process stores do not look at. A joined error is the list of its parts.
\<close>

section \<open>Policies and the store\<close>

record FedPolicy =
  fp_ID :: string
  fp_Version :: u64
  fp_Body :: "byte list"
  fp_OriginRegion :: string
  fp_UpdatedAt :: instant

record MemoryStore =
  ms_policies :: "string \<rightharpoonup> FedPolicy"

definition clonePolicy :: "FedPolicy \<Rightarrow> FedPolicy" where
  "clonePolicy p = \<lparr>fp_ID = fp_ID p, fp_Version = fp_Version p, fp_Body = [] @ fp_Body p,
     fp_OriginRegion = fp_OriginRegion p, fp_UpdatedAt = fp_UpdatedAt p\<rparr>"

definition NewMemoryStore :: MemoryStore where
  "NewMemoryStore = \<lparr>ms_policies = Map.empty\<rparr>"

definition store_Get :: "string \<Rightarrow> MemoryStore \<Rightarrow> fed_error + FedPolicy" where
  "store_Get i s = (case ms_policies s i of None \<Rightarrow> Inl PolicyNotFound | Some p \<Rightarrow> Inr (clonePolicy p))"

definition store_Put :: "FedPolicy option \<Rightarrow> MemoryStore \<Rightarrow> fed_error option \<times> MemoryStore" where
  "store_Put p s = (case p of None \<Rightarrow> (Some NilPolicy, s)
     | Some p \<Rightarrow> (None, s\<lparr>ms_policies := (ms_policies s)(fp_ID p \<mapsto> clonePolicy p)\<rparr>))"

definition store_Delete :: "string \<Rightarrow> MemoryStore \<Rightarrow> MemoryStore" where
  "store_Delete i s = s\<lparr>ms_policies := (ms_policies s)(i := None)\<rparr>"

definition store_List :: "(string set \<Rightarrow> string list) \<Rightarrow> MemoryStore \<Rightarrow> FedPolicy list" where
  "store_List visit s = sortSlice (\<lambda>a b. fp_ID a < fp_ID b)
     (map (\<lambda>i. clonePolicy (the (ms_policies s i))) (visit (dom (ms_policies s))))"

datatype ReplicationMode = ReplicationAsync | ReplicationSync

record ReplicationConfig =
  cfg_Mode :: ReplicationMode
  cfg_Interval :: duration
  cfg_Regions :: "string list"

definition modeString :: "ReplicationMode \<Rightarrow> string" where
  "modeString m = (case m of ReplicationSync \<Rightarrow> ''sync'' | ReplicationAsync \<Rightarrow> ''async'')"

section \<open>The transport\<close>

record World =
  w_heap :: "nat \<Rightarrow> MemoryStore"
  w_mounts :: "string \<rightharpoonup> nat"

definition Mount :: "string \<Rightarrow> nat \<Rightarrow> World \<Rightarrow> World" where
  "Mount region store w = w\<lparr>w_mounts := (w_mounts w)(region \<mapsto> store)\<rparr>"

definition Unmount :: "string \<Rightarrow> World \<Rightarrow> World" where
  "Unmount region w = w\<lparr>w_mounts := (w_mounts w)(region := None)\<rparr>"

definition storeFor :: "string \<Rightarrow> World \<Rightarrow> fed_error + nat" where
  "storeFor region w = (case w_mounts w region of None \<Rightarrow> Inl RegionNotFound | Some s \<Rightarrow> Inr s)"

text \<open>A write through a pointer to a store.\<close>

definition putAt :: "nat \<Rightarrow> FedPolicy \<Rightarrow> World \<Rightarrow> fed_error option \<times> World" where
  "putAt s p w = (let (err, st) = store_Put (Some p) (w_heap w s) in (err, w\<lparr>w_heap := (w_heap w)(s := st)\<rparr>))"

definition GetPolicy :: "string \<Rightarrow> string \<Rightarrow> World \<Rightarrow> fed_error + FedPolicy" where
  "GetPolicy region i w = (case storeFor region w of Inl err \<Rightarrow> Inl err | Inr s \<Rightarrow> store_Get i (w_heap w s))"

definition PutPolicy :: "string \<Rightarrow> FedPolicy \<Rightarrow> World \<Rightarrow> fed_error option \<times> World" where
  "PutPolicy region p w = (case storeFor region w of Inl err \<Rightarrow> (Some err, w) | Inr s \<Rightarrow> putAt s p w)"

definition ListPolicies :: "(string set \<Rightarrow> string list) \<Rightarrow> string \<Rightarrow> World \<Rightarrow> fed_error + FedPolicy list" where
  "ListPolicies visit region w = (case storeFor region w of Inl err \<Rightarrow> Inl err | Inr s \<Rightarrow> Inr (store_List visit (w_heap w s)))"

definition Ping :: "string \<Rightarrow> World \<Rightarrow> fed_error option" where
  "Ping region w = (if w_mounts w region = None then Some RegionNotFound else None)"

section \<open>The replicator\<close>

definition defaultReplicationInterval :: duration where
  "defaultReplicationInterval = 30 * second"

record Replicator =
  rep_self :: string
  rep_store :: nat
  rep_registry :: RegionRegistry
  rep_cfg :: ReplicationConfig
  scans :: u64
  pushed :: u64
  pulled :: u64
  skipped :: u64
  rep_errors :: u64

definition NewReplicator :: "string \<Rightarrow> nat \<Rightarrow> RegionRegistry \<Rightarrow> ReplicationConfig \<Rightarrow> Replicator" where
  "NewReplicator self store registry cfg =
     (let cfg = (if cfg_Interval cfg \<le> 0 then cfg\<lparr>cfg_Interval := defaultReplicationInterval\<rparr> else cfg) in
      \<lparr>rep_self = self, rep_store = store, rep_registry = registry, rep_cfg = cfg,
       scans = 0, pushed = 0, pulled = 0, skipped = 0, rep_errors = 0\<rparr>)"

text \<open>The loop over the allowlist with its set \<open>seen\<close>.\<close>

fun allowed :: "string \<Rightarrow> string set \<Rightarrow> string list \<Rightarrow> string list" where
  "allowed self seen [] = []"
| "allowed self seen (i # is) =
     (if i = self \<or> i \<in> seen then allowed self seen is else i # allowed self (insert i seen) is)"

definition Targets :: "(string set \<Rightarrow> string list) \<Rightarrow> Replicator \<Rightarrow> string list" where
  "Targets visit rep =
     (if length (cfg_Regions (rep_cfg rep)) > 0 then allowed (rep_self rep) {} (cfg_Regions (rep_cfg rep))
      else map rg_ID (filter (\<lambda>reg. rg_ID reg \<noteq> rep_self rep) (HealthyRegions visit (rep_registry rep))))"

definition compareRevision :: "FedPolicy \<Rightarrow> FedPolicy \<Rightarrow> int" where
  "compareRevision a b =
     (if fp_Version a \<noteq> fp_Version b then (if fp_Version a > fp_Version b then 1 else - 1)
      else if fp_UpdatedAt a < fp_UpdatedAt b then - 1
      else if fp_UpdatedAt a > fp_UpdatedAt b then 1 else 0)"

definition pull :: "FedPolicy \<Rightarrow> Replicator \<times> World \<Rightarrow> fed_error option \<times> Replicator \<times> World" where
  "pull p s = (case s of (rep, w) \<Rightarrow> (case putAt (rep_store rep) p w of
     (Some err, w) \<Rightarrow> (Some err, rep\<lparr>rep_errors := rep_errors rep + 1\<rparr>, w)
   | (None, w) \<Rightarrow> (None, rep\<lparr>pulled := pulled rep + 1\<rparr>, w)))"

definition push :: "string \<Rightarrow> FedPolicy \<Rightarrow> Replicator \<times> World \<Rightarrow> fed_error option \<times> Replicator \<times> World" where
  "push region p s = (case s of (rep, w) \<Rightarrow> (case PutPolicy region p w of
     (Some err, w) \<Rightarrow> (Some err, rep\<lparr>rep_errors := rep_errors rep + 1\<rparr>, w)
   | (None, w) \<Rightarrow> (None, rep\<lparr>pushed := pushed rep + 1\<rparr>, w)))"

definition reconcilePolicy :: "string \<Rightarrow> FedPolicy option \<Rightarrow> FedPolicy option \<Rightarrow> Replicator \<times> World \<Rightarrow> fed_error option \<times> Replicator \<times> World" where
  "reconcilePolicy region local remote s = (case (local, remote) of
     (None, None) \<Rightarrow> (None, s)
   | (None, Some rp) \<Rightarrow> pull rp s
   | (Some lp, None) \<Rightarrow> push region lp s
   | (Some lp, Some rp) \<Rightarrow>
       (if compareRevision lp rp = 1 then push region lp s
        else if compareRevision lp rp = - 1 then pull rp s
        else (case s of (rep, w) \<Rightarrow> (None, rep\<lparr>skipped := skipped rep + 1\<rparr>, w))))"

definition addErr :: "fed_error option \<Rightarrow> fed_error list \<Rightarrow> fed_error list" where
  "addErr err errs = (case err of None \<Rightarrow> errs | Some e \<Rightarrow> errs @ [e])"

fun reconcileLocals :: "string \<Rightarrow> FedPolicy list \<Rightarrow> (string \<rightharpoonup> FedPolicy) \<Rightarrow> fed_error list \<Rightarrow> Replicator \<times> World \<Rightarrow>
    (string \<rightharpoonup> FedPolicy) \<times> fed_error list \<times> Replicator \<times> World" where
  "reconcileLocals region [] remoteByID errs s = (remoteByID, errs, s)"
| "reconcileLocals region (lp # lps) remoteByID errs s =
     (let rp = remoteByID (fp_ID lp); remoteByID = remoteByID(fp_ID lp := None);
          (err, s) = reconcilePolicy region (Some lp) rp s
      in reconcileLocals region lps remoteByID (addErr err errs) s)"

fun reconcileRemotes :: "string \<Rightarrow> (string \<rightharpoonup> FedPolicy) \<Rightarrow> string list \<Rightarrow> fed_error list \<Rightarrow> Replicator \<times> World \<Rightarrow>
    fed_error list \<times> Replicator \<times> World" where
  "reconcileRemotes region remoteByID [] errs s = (errs, s)"
| "reconcileRemotes region remoteByID (i # is) errs s =
     (let (err, s) = reconcilePolicy region None (remoteByID i) s
      in reconcileRemotes region remoteByID is (addErr err errs) s)"

definition reconcileRegion :: "(string set \<Rightarrow> string list) \<Rightarrow> string \<Rightarrow> Replicator \<times> World \<Rightarrow> fed_error list \<times> Replicator \<times> World" where
  "reconcileRegion visit region s = (case s of (rep, w) \<Rightarrow>
     let local = store_List visit (w_heap w (rep_store rep)) in
     case ListPolicies visit region w of
       Inl err \<Rightarrow> ([err], rep\<lparr>rep_errors := rep_errors rep + 1\<rparr>, w)
     | Inr remote \<Rightarrow>
         (let remoteByID = fold (\<lambda>p m. m(fp_ID p \<mapsto> p)) remote Map.empty;
              (rest, errs, s) = reconcileLocals region local remoteByID [] s
          in reconcileRemotes region rest (visit (dom rest)) errs s))"

fun reconcileAll :: "(string set \<Rightarrow> string list) \<Rightarrow> string list \<Rightarrow> (string \<times> fed_error list) list \<Rightarrow> Replicator \<times> World \<Rightarrow>
    (string \<times> fed_error list) list \<times> Replicator \<times> World" where
  "reconcileAll visit [] errs s = (errs, s)"
| "reconcileAll visit (region # regions) errs s =
     (let (err, s) = reconcileRegion visit region s
      in reconcileAll visit regions (if err \<noteq> [] then errs @ [(region, err)] else errs) s)"

definition Reconcile :: "(string set \<Rightarrow> string list) \<Rightarrow> Replicator \<times> World \<Rightarrow> (string \<times> fed_error list) list \<times> Replicator \<times> World" where
  "Reconcile visit s = (case s of (rep, w) \<Rightarrow>
     let rep = rep\<lparr>scans := scans rep + 1\<rparr> in reconcileAll visit (Targets visit rep) [] (rep, w))"

section \<open>The facade\<close>

record Federation =
  f_self :: string
  f_store :: nat
  f_replicator :: Replicator
  f_cfg :: ReplicationConfig
  authored :: u64
  syncPushes :: u64

text \<open>\<open>New\<close>: \<open>fresh\<close> is the address of the store allocated when none is given.\<close>

definition NewFederation :: "string \<Rightarrow> nat option \<Rightarrow> RegionRegistry option \<Rightarrow> ReplicationConfig \<Rightarrow> nat \<Rightarrow> World \<Rightarrow> Federation \<times> World" where
  "NewFederation self store registry cfg fresh w =
     (let (store, w) = (case store of Some s \<Rightarrow> (s, w) | None \<Rightarrow> (fresh, w\<lparr>w_heap := (w_heap w)(fresh := NewMemoryStore)\<rparr>));
          registry = (case registry of Some r \<Rightarrow> r | None \<Rightarrow> NewRegionRegistry self);
          cfg = (if cfg_Interval cfg \<le> 0 then cfg\<lparr>cfg_Interval := defaultReplicationInterval\<rparr> else cfg)
      in (\<lparr>f_self = self, f_store = store, f_replicator = NewReplicator self store registry cfg, f_cfg = cfg,
           authored = 0, syncPushes = 0\<rparr>, w))"

fun pushAll :: "FedPolicy \<Rightarrow> string list \<Rightarrow> (string \<times> fed_error) list \<Rightarrow> Federation \<times> World \<Rightarrow> (string \<times> fed_error) list \<times> Federation \<times> World" where
  "pushAll p [] errs s = (errs, s)"
| "pushAll p (region # regions) errs (f, w) = (case PutPolicy region p w of
     (Some err, w) \<Rightarrow> pushAll p regions (errs @ [(region, err)]) (f, w)
   | (None, w) \<Rightarrow> pushAll p regions errs (f\<lparr>syncPushes := syncPushes f + 1\<rparr>, w))"

definition pushNow :: "(string set \<Rightarrow> string list) \<Rightarrow> FedPolicy \<Rightarrow> Federation \<times> World \<Rightarrow> (string \<times> fed_error) list \<times> Federation \<times> World" where
  "pushNow visit p s = pushAll p (Targets visit (f_replicator (fst s))) [] s"

text \<open>\<open>Put\<close>: \<open>Inl\<close> for a write that was not made; otherwise the authored revision and the regions that the
  immediate push of the synchronous mode did not reach.\<close>

definition fed_Put :: "(string set \<Rightarrow> string list) \<Rightarrow> instant \<Rightarrow> string \<Rightarrow> byte list \<Rightarrow> Federation \<times> World \<Rightarrow>
    (fed_error + FedPolicy \<times> (string \<times> fed_error) list) \<times> Federation \<times> World" where
  "fed_Put visit now i body s = (case s of (f, w) \<Rightarrow>
     if i = [] then (Inl EmptyPolicyID, s)
     else let cur = store_Get i (w_heap w (f_store f));
              p = \<lparr>fp_ID = i, fp_Version = 1, fp_Body = body, fp_OriginRegion = f_self f, fp_UpdatedAt = now\<rparr>;
              p = (case cur of Inl _ \<Rightarrow> p | Inr c \<Rightarrow> p\<lparr>fp_Version := fp_Version c + 1\<rparr>)
          in case putAt (f_store f) p w of
            (Some err, w) \<Rightarrow> (Inl err, f, w)
          | (None, w) \<Rightarrow>
              (let f = f\<lparr>authored := authored f + 1\<rparr> in
               if cfg_Mode (f_cfg f) = ReplicationSync
               then (let (errs, s) = pushNow visit p (f, w) in (Inr (p, errs), s))
               else (Inr (p, []), f, w)))"

definition fed_Get :: "string \<Rightarrow> Federation \<times> World \<Rightarrow> fed_error + FedPolicy" where
  "fed_Get i s = (case s of (f, w) \<Rightarrow> store_Get i (w_heap w (f_store f)))"

definition fed_Delete :: "string \<Rightarrow> Federation \<times> World \<Rightarrow> Federation \<times> World" where
  "fed_Delete i s = (case s of (f, w) \<Rightarrow> (f, w\<lparr>w_heap := (w_heap w)(f_store f := store_Delete i (w_heap w (f_store f)))\<rparr>))"

definition fed_Reconcile :: "(string set \<Rightarrow> string list) \<Rightarrow> Federation \<times> World \<Rightarrow> (string \<times> fed_error list) list \<times> Federation \<times> World" where
  "fed_Reconcile visit s = (case s of (f, w) \<Rightarrow>
     let (errs, rep, w) = Reconcile visit (f_replicator f, w) in (errs, f\<lparr>f_replicator := rep\<rparr>, w))"

definition SetRegionHealth :: "string \<Rightarrow> bool \<Rightarrow> Federation \<Rightarrow> fed_error option \<times> Federation" where
  "SetRegionHealth i healthy f = (let rep = f_replicator f; (err, r) = SetHealth i healthy (rep_registry rep)
     in (err, f\<lparr>f_replicator := rep\<lparr>rep_registry := r\<rparr>\<rparr>))"

definition SetRegionLatency :: "string \<Rightarrow> duration \<Rightarrow> Federation \<Rightarrow> fed_error option \<times> Federation" where
  "SetRegionLatency i d f = (let rep = f_replicator f; (err, r) = SetLatency i d (rep_registry rep)
     in (err, f\<lparr>f_replicator := rep\<lparr>rep_registry := r\<rparr>\<rparr>))"

record FederationStats =
  fs_Self :: string
  fs_Mode :: string
  fs_Interval :: duration
  fs_Regions :: nat
  fs_HealthyRegions :: nat
  fs_Targets :: nat
  fs_Policies :: nat
  fs_Authored :: u64
  fs_SyncPushes :: u64
  fs_Scans :: u64
  fs_Pushed :: u64
  fs_Pulled :: u64
  fs_Skipped :: u64
  fs_ReplicationErrors :: u64

definition fed_Stats :: "(string set \<Rightarrow> string list) \<Rightarrow> Federation \<times> World \<Rightarrow> FederationStats" where
  "fed_Stats visit s = (case s of (f, w) \<Rightarrow> let rep = f_replicator f; regions = registry_List visit (rep_registry rep) in
     \<lparr>fs_Self = f_self f, fs_Mode = modeString (cfg_Mode (f_cfg f)), fs_Interval = cfg_Interval (f_cfg f),
      fs_Regions = length regions, fs_HealthyRegions = length (filter rg_Healthy regions),
      fs_Targets = length (Targets visit rep), fs_Policies = length (store_List visit (w_heap w (f_store f))),
      fs_Authored = authored f, fs_SyncPushes = syncPushes f, fs_Scans = scans rep, fs_Pushed = pushed rep,
      fs_Pulled = pulled rep, fs_Skipped = skipped rep, fs_ReplicationErrors = rep_errors rep\<rparr>)"

section \<open>The contract of a policy store\<close>

locale policy_store =
  fixes look :: "'s \<Rightarrow> string \<rightharpoonup> FedPolicy"
    and get :: "string \<Rightarrow> 's \<Rightarrow> fed_error + FedPolicy"
    and put :: "FedPolicy option \<Rightarrow> 's \<Rightarrow> fed_error option \<times> 's"
    and del :: "string \<Rightarrow> 's \<Rightarrow> 's"
    and lst :: "'s \<Rightarrow> FedPolicy list"
    and sinv :: "'s \<Rightarrow> bool"
  assumes get_look: "get i s = (case look s i of None \<Rightarrow> Inl PolicyNotFound | Some p \<Rightarrow> Inr p)"
    and put_total: "fst (put (Some p) s) = None"
    and put_look: "look (snd (put (Some p) s)) = (look s)(fp_ID p \<mapsto> p)"
    and del_look: "look (del i s) = (look s)(i := None)"
    and lst_distinct: "sinv s \<Longrightarrow> distinct (map fp_ID (lst s))"
    and lst_complete: "sinv s \<Longrightarrow> p \<in> set (lst s) \<longleftrightarrow> look s (fp_ID p) = Some p"
    and look_ID: "sinv s \<Longrightarrow> look s i = Some p \<Longrightarrow> fp_ID p = i"
begin

lemma get_put: "get i (snd (put (Some p) s)) = (if i = fp_ID p then Inr p else get i s)"
  by (simp add: get_look put_look)

lemma get_del: "get i (del j s) = (if i = j then Inl PolicyNotFound else get i s)"
  by (simp add: get_look del_look)

lemma fold_ids:
  "distinct (map fp_ID ps) \<Longrightarrow>
   fold (\<lambda>p m. m(fp_ID p \<mapsto> p)) ps m i = (case find (\<lambda>p. fp_ID p = i) ps of Some p \<Rightarrow> Some p | None \<Rightarrow> m i)"
proof (induction ps arbitrary: m)
  case (Cons a ps)
  have "fp_ID p \<noteq> fp_ID a" if "p \<in> set ps" for p
    using Cons.prems imageI [OF that, of fp_ID] by auto
  then have "find (\<lambda>p. fp_ID p = fp_ID a) ps = None"
    unfolding find_None_iff by blast
  then show ?case
    using Cons.IH Cons.prems by (cases "fp_ID a = i") (auto split: option.splits)
qed simp

text \<open>The index by identifier that the replicator builds from a listing is the content of the store.\<close>

lemma by_ID:
  assumes "sinv s"
  shows "fold (\<lambda>p m. m(fp_ID p \<mapsto> p)) (lst s) Map.empty = look s"
proof
  fix i
  show "fold (\<lambda>p m. m(fp_ID p \<mapsto> p)) (lst s) Map.empty i = look s i"
  proof (cases "find (\<lambda>p. fp_ID p = i) (lst s)")
    case None
    then have "\<not> (p \<in> set (lst s) \<and> fp_ID p = i)" for p by (auto simp: find_None_iff)
    then have "look s i = None"
      using lst_complete [OF assms] look_ID [OF assms] by (metis not_Some_eq)
    with None show ?thesis using fold_ids [OF lst_distinct [OF assms]] by simp
  next
    case (Some p)
    then have "p \<in> set (lst s)" "fp_ID p = i" by (auto simp: find_Some_iff)
    with lst_complete [OF assms, of p] Some show ?thesis
      using fold_ids [OF lst_distinct [OF assms]] by simp
  qed
qed

lemma lst_IDs:
  assumes "sinv s" shows "set (map fp_ID (lst s)) = dom (look s)"
proof -
  have "i \<in> dom (look s)" if "p \<in> set (lst s)" "i = fp_ID p" for i p
    using lst_complete [OF assms, of p] that by blast
  moreover have "p \<in> set (lst s) \<and> fp_ID p = i" if "look s i = Some p" for i p
    using lst_complete [OF assms, of p] look_ID [OF assms that] that by simp
  ultimately show ?thesis unfolding set_map by (intro equalityI subsetI) (fastforce simp: image_iff, metis domD image_eqI)
qed

end

definition store_inv :: "MemoryStore \<Rightarrow> bool" where
  "store_inv s \<longleftrightarrow> finite (dom (ms_policies s)) \<and> (\<forall>i p. ms_policies s i = Some p \<longrightarrow> fp_ID p = i)"

lemma clonePolicy_id [simp]: "clonePolicy p = p"
  by (simp add: clonePolicy_def)

lemma store_List_set:
  assumes "visits visit" and "store_inv s"
  shows "distinct (map fp_ID (store_List visit s))" "p \<in> set (store_List visit s) \<longleftrightarrow> ms_policies s (fp_ID p) = Some p"
proof -
  have v: "set (visit (dom (ms_policies s))) = dom (ms_policies s)" "distinct (visit (dom (ms_policies s)))"
    using assms by (simp_all add: visits_def store_inv_def)
  have ids: "fp_ID (the (ms_policies s i)) = i" if "i \<in> dom (ms_policies s)" for i
    using assms(2) that by (auto simp: store_inv_def)
  have sorted: "store_List visit s = sort_key fp_ID (map (\<lambda>i. the (ms_policies s i)) (visit (dom (ms_policies s))))"
    unfolding store_List_def clonePolicy_id by (rule sortSlice_sort_key) simp
  have "map fp_ID (map (\<lambda>i. the (ms_policies s i)) (visit (dom (ms_policies s)))) = visit (dom (ms_policies s))"
    unfolding map_map o_def by (rule map_idI) (use v(1) ids in auto)
  then show "distinct (map fp_ID (store_List visit s))"
    unfolding sorted using v(2) by (metis mset_map mset_sort mset_eq_imp_distinct_iff)
  show "p \<in> set (store_List visit s) \<longleftrightarrow> ms_policies s (fp_ID p) = Some p"
    unfolding sorted using v(1) ids by (force simp: image_iff)
qed

interpretation memory: policy_store ms_policies store_Get store_Put store_Delete "store_List visit"
    "\<lambda>s. visits visit \<and> store_inv s" for visit
  by unfold_locales
     (auto simp: store_Get_def store_Put_def store_Delete_def store_List_set store_inv_def split: option.splits)

section \<open>Revisions\<close>

text \<open>The order of revisions; an absent policy is older than every revision.\<close>

definition revision :: "FedPolicy option \<Rightarrow> bool \<times> u64 \<times> instant" where
  "revision p = (case p of None \<Rightarrow> (False, 0, 0) | Some p \<Rightarrow> (True, fp_Version p, fp_UpdatedAt p))"

definition newer :: "FedPolicy option \<Rightarrow> FedPolicy option \<Rightarrow> FedPolicy option" where
  "newer x y = (if revision x < revision y then y else x)"

lemma compareRevision_revision:
  "compareRevision p q = 1 \<longleftrightarrow> revision (Some q) < revision (Some p)"
  "compareRevision p q = - 1 \<longleftrightarrow> revision (Some p) < revision (Some q)"
  by (auto simp: compareRevision_def revision_def less_prod_def)

lemma revision_None [simp]: "revision None < revision (Some p)" "revision None \<le> revision x" "\<not> revision x < revision None"
  by (auto simp: revision_def less_prod_def less_eq_prod_def split: option.splits)

lemma newer_None [simp]: "newer None x = x" "newer x None = x"
  by (cases x; simp add: newer_def)+

lemma revision_newer: "revision (newer x y) = max (revision x) (revision y)"
  by (auto simp: newer_def max_def)

section \<open>One pass over a region\<close>

text \<open>Writing the contents of two stores at one identifier.\<close>

definition setAt :: "nat \<Rightarrow> nat \<Rightarrow> string \<Rightarrow> FedPolicy option \<Rightarrow> FedPolicy option \<Rightarrow> World \<Rightarrow> World" where
  "setAt a b i x y w = w\<lparr>w_heap := (w_heap w)
     (a := (w_heap w a)\<lparr>ms_policies := (ms_policies (w_heap w a))(i := x)\<rparr>,
      b := (w_heap w b)\<lparr>ms_policies := (ms_policies (w_heap w b))(i := y)\<rparr>)\<rparr>"

definition same_rep :: "Replicator \<Rightarrow> Replicator \<Rightarrow> bool" where
  "same_rep r r' \<longleftrightarrow> rep_self r' = rep_self r \<and> rep_store r' = rep_store r \<and> rep_registry r' = rep_registry r \<and> rep_cfg r' = rep_cfg r"

lemma same_rep_refl [simp]: "same_rep r r"
  by (simp add: same_rep_def)

lemma same_rep_trans: "same_rep a b \<Longrightarrow> same_rep b c \<Longrightarrow> same_rep a c"
  by (simp add: same_rep_def)

lemma policies_at:
  assumes "a \<noteq> b"
  shows "ms_policies (w_heap (setAt a b i x y w) s) j =
    (if j = i \<and> s = a then x else if j = i \<and> s = b then y else ms_policies (w_heap w s) j)"
    "w_mounts (setAt a b i x y w) = w_mounts w"
  using assms by (auto simp: setAt_def)

lemma store_upd_same: "ms_policies s i = x \<Longrightarrow> s\<lparr>ms_policies := (ms_policies s)(i := x)\<rparr> = s"
  by (cases s) (simp add: fun_upd_idem)

lemma setAt_same:
  "ms_policies (w_heap w a) i = x \<Longrightarrow> ms_policies (w_heap w b) i = y \<Longrightarrow> setAt a b i x y w = w"
  by (simp add: setAt_def store_upd_same)

lemma putAt_local:
  "a \<noteq> b \<Longrightarrow> ms_policies (w_heap w b) (fp_ID p) = y \<Longrightarrow> putAt a p w = (None, setAt a b (fp_ID p) (Some p) y w)"
  by (simp add: putAt_def store_Put_def setAt_def store_upd_same fun_upd_idem)

lemma putAt_remote:
  "a \<noteq> b \<Longrightarrow> ms_policies (w_heap w a) (fp_ID p) = x \<Longrightarrow> putAt b p w = (None, setAt a b (fp_ID p) x (Some p) w)"
  by (simp add: putAt_def store_Put_def setAt_def store_upd_same)

definition has_ID :: "string \<Rightarrow> FedPolicy option \<Rightarrow> bool" where
  "has_ID i x \<longleftrightarrow> (\<forall>p. x = Some p \<longrightarrow> fp_ID p = i)"

text \<open>Reconciling one policy leaves the newer revision on both sides, and each side its own on a tie.\<close>

lemma reconcilePolicy_effect:
  assumes "a \<noteq> b" "rep_store rep = a" "w_mounts w region = Some b"
    and "ms_policies (w_heap w a) i = l" "ms_policies (w_heap w b) i = r" "has_ID i l" "has_ID i r"
  shows "\<exists>rep'. reconcilePolicy region l r (rep, w) = (None, rep', setAt a b i (newer l r) (newer r l) w) \<and> same_rep rep rep'"
proof -
  have pull: "\<exists>rep'. pull p (rep, w) = (None, rep', setAt a b i r r w) \<and> same_rep rep rep'" if "r = Some p" for p
    using putAt_local [OF assms(1), of w p r] that assms(2,5,7) by (auto simp: pull_def has_ID_def same_rep_def)
  have push: "\<exists>rep'. push region p (rep, w) = (None, rep', setAt a b i l l w) \<and> same_rep rep rep'" if "l = Some p" for p
    using putAt_remote [OF assms(1), of w p l] that assms(3,4,6)
    by (auto simp: push_def PutPolicy_def storeFor_def has_ID_def same_rep_def)
  have skip: "setAt a b i l r w = w" using assms(4,5) by (rule setAt_same)
  show ?thesis
  proof (cases l)
    case None
    then show ?thesis using pull skip by (cases r) (auto simp: reconcilePolicy_def)
  next
    case (Some p)
    show ?thesis
    proof (cases r)
      case None
      then show ?thesis using push Some by (auto simp: reconcilePolicy_def)
    next
      case r: (Some q)
      consider "revision r < revision l" | "revision l < revision r" | "\<not> revision r < revision l" "\<not> revision l < revision r"
        by blast
      then show ?thesis
      proof cases
        case 1
        then show ?thesis
          using push [OF Some] Some r by (auto simp: reconcilePolicy_def compareRevision_revision newer_def)
      next
        case 2
        then show ?thesis
          using pull [OF r] Some r by (auto simp: reconcilePolicy_def compareRevision_revision newer_def)
      next
        case 3
        then have "newer l r = l" "newer r l = r" by (simp_all add: newer_def)
        then show ?thesis
          using 3 skip Some r by (auto simp: reconcilePolicy_def compareRevision_revision same_rep_def)
      qed
    qed
  qed
qed

text \<open>The two loops of \<open>reconcileRegion\<close> over the contents \<open>L\<close> and \<open>R\<close> of the two stores.\<close>

definition settle :: "nat \<Rightarrow> nat \<Rightarrow> (string \<rightharpoonup> FedPolicy) \<Rightarrow> (string \<rightharpoonup> FedPolicy) \<Rightarrow> string list \<Rightarrow> World \<Rightarrow> World" where
  "settle a b L R is w = fold (\<lambda>i. setAt a b i (newer (L i) (R i)) (newer (R i) (L i))) is w"

lemma settle_view:
  assumes "a \<noteq> b"
  shows "ms_policies (w_heap (settle a b L R is w) s) j =
    (if j \<in> set is \<and> s = a then newer (L j) (R j) else if j \<in> set is \<and> s = b then newer (R j) (L j)
     else ms_policies (w_heap w s) j)"
    "w_mounts (settle a b L R is w) = w_mounts w"
proof -
  show "w_mounts (settle a b L R is w) = w_mounts w"
    unfolding settle_def by (induction "is" arbitrary: w) (auto simp: policies_at(2) [OF assms])
  show "ms_policies (w_heap (settle a b L R is w) s) j =
    (if j \<in> set is \<and> s = a then newer (L j) (R j) else if j \<in> set is \<and> s = b then newer (R j) (L j)
     else ms_policies (w_heap w s) j)"
    unfolding settle_def using assms by (induction "is" arbitrary: w) (auto simp: policies_at(1))
qed

definition holds_at :: "nat \<Rightarrow> nat \<Rightarrow> (string \<rightharpoonup> FedPolicy) \<Rightarrow> (string \<rightharpoonup> FedPolicy) \<Rightarrow> string set \<Rightarrow> World \<Rightarrow> bool" where
  "holds_at a b L R I w \<longleftrightarrow> (\<forall>i \<in> I. ms_policies (w_heap w a) i = L i \<and> ms_policies (w_heap w b) i = R i)"

lemma holds_step:
  "a \<noteq> b \<Longrightarrow> holds_at a b L R (insert i I) w \<Longrightarrow> i \<notin> I \<Longrightarrow> holds_at a b L R I (setAt a b i x y w)"
  by (auto simp: holds_at_def policies_at(1))

lemma locals_effect:
  assumes "a \<noteq> b" "\<And>i. has_ID i (L i)" "\<And>i. has_ID i (R i)"
    and "rep_store rep = a" "w_mounts w region = Some b" "distinct (map fp_ID lps)" "\<forall>lp \<in> set lps. L (fp_ID lp) = Some lp"
    and "\<forall>lp \<in> set lps. m (fp_ID lp) = R (fp_ID lp)" "holds_at a b L R (fp_ID ` set lps) w"
  shows "\<exists>rep'. reconcileLocals region lps m errs (rep, w) = (m |` (- fp_ID ` set lps), errs, rep', settle a b L R (map fp_ID lps) w)
    \<and> same_rep rep rep'"
  using assms(4-)
proof (induction lps arbitrary: m rep w)
  case (Cons lp lps)
  let ?i = "fp_ID lp" and ?w = "setAt a b (fp_ID lp) (newer (L (fp_ID lp)) (R (fp_ID lp))) (newer (R (fp_ID lp)) (L (fp_ID lp))) w"
  have L: "L ?i = Some lp" "m ?i = R ?i" using Cons.prems(4,5) by simp_all
  obtain rep1 where 1: "reconcilePolicy region (Some lp) (R ?i) (rep, w) = (None, rep1, ?w)" "same_rep rep rep1"
    using reconcilePolicy_effect [OF assms(1) Cons.prems(1,2), of ?i "L ?i" "R ?i"] assms(2) [of ?i] assms(3) [of ?i] Cons.prems(6)
    by (auto simp: holds_at_def L)
  have fresh: "?i \<notin> fp_ID ` set lps" "distinct (map fp_ID lps)" using Cons.prems(3) by auto
  have other: "fp_ID x \<noteq> ?i" if "x \<in> set lps" for x using fresh(1) that by (metis image_eqI)
  have hold: "holds_at a b L R (fp_ID ` set lps) ?w"
    using Cons.prems(6) fresh(1) by (intro holds_step [OF assms(1)]) simp_all
  have store: "rep_store rep1 = a" using Cons.prems(1) 1(2) by (simp add: same_rep_def)
  have keep: "\<forall>x \<in> set lps. (m(?i := None)) (fp_ID x) = R (fp_ID x)" "\<forall>x \<in> set lps. L (fp_ID x) = Some x"
    using other Cons.prems(4,5) by simp_all
  have mounted: "w_mounts ?w region = Some b" using Cons.prems(2) policies_at(2) [OF assms(1)] by simp
  obtain rep2 where 2: "reconcileLocals region lps (m(?i := None)) errs (rep1, ?w) =
      ((m(?i := None)) |` (- fp_ID ` set lps), errs, rep2, settle a b L R (map fp_ID lps) ?w)" "same_rep rep1 rep2"
    using Cons.IH [OF store mounted fresh(2) keep(2,1) hold] by blast
  have "(m(?i := None)) |` (- fp_ID ` set lps) = m |` (- fp_ID ` set (lp # lps))"
    by (auto simp: restrict_map_def)
  then show ?case
    using 1 2 L(2) same_rep_trans [OF 1(2) 2(2)] by (auto simp: addErr_def settle_def)
qed (simp add: settle_def restrict_map_def)

lemma remotes_effect:
  assumes "a \<noteq> b" "\<And>i. has_ID i (R i)"
    and "rep_store rep = a" "w_mounts w region = Some b" "distinct is" "\<forall>i \<in> set is. L i = None \<and> m i = R i"
    and "holds_at a b L R (set is) w"
  shows "\<exists>rep'. reconcileRemotes region m is errs (rep, w) = (errs, rep', settle a b L R is w) \<and> same_rep rep rep'"
  using assms(3-)
proof (induction "is" arbitrary: rep w)
  case (Cons i "is")
  let ?w = "setAt a b i (newer (L i) (R i)) (newer (R i) (L i)) w"
  have i: "L i = None" "m i = R i" using Cons.prems(4) by simp_all
  obtain rep1 where 1: "reconcilePolicy region None (R i) (rep, w) = (None, rep1, ?w)" "same_rep rep rep1"
    using reconcilePolicy_effect [OF assms(1) Cons.prems(1,2), of i "L i" "R i"] assms(2) Cons.prems(5) i
    by (auto simp: holds_at_def has_ID_def)
  have "holds_at a b L R (set is) ?w"
    using Cons.prems(3,5) by (intro holds_step [OF assms(1)]) simp_all
  moreover have "rep_store rep1 = a" using Cons.prems(1) 1(2) by (simp add: same_rep_def)
  moreover have "w_mounts ?w region = Some b" using Cons.prems(2) policies_at(2) [OF assms(1)] by simp
  ultimately obtain rep2 where 2: "reconcileRemotes region m is errs (rep1, ?w) = (errs, rep2, settle a b L R is ?w)" "same_rep rep1 rep2"
    using Cons.IH [of rep1 ?w] Cons.prems(3,4) by auto
  then show ?case
    using 1 i same_rep_trans [OF 1(2) 2(2)] by (auto simp: addErr_def settle_def)
qed (simp add: settle_def)

lemma reconcileRegion_effect:
  assumes "visits visit" "a \<noteq> b" "rep_store rep = a" "w_mounts w region = Some b"
    and "store_inv (w_heap w a)" "store_inv (w_heap w b)"
  shows "\<exists>rep' w'. reconcileRegion visit region (rep, w) = ([], rep', w') \<and> same_rep rep rep' \<and> w_mounts w' = w_mounts w \<and>
    (\<forall>s i. ms_policies (w_heap w' s) i =
       (if s = a then newer (ms_policies (w_heap w a) i) (ms_policies (w_heap w b) i)
        else if s = b then newer (ms_policies (w_heap w b) i) (ms_policies (w_heap w a) i)
        else ms_policies (w_heap w s) i))"
proof -
  define L where "L = ms_policies (w_heap w a)"
  define R where "R = ms_policies (w_heap w b)"
  have IDs: "has_ID i (L i)" "has_ID i (R i)" for i
    using assms(5,6) by (auto simp: L_def R_def has_ID_def store_inv_def)
  let ?local = "store_List visit (w_heap w a)"
  have loc: "distinct (map fp_ID ?local)" "\<forall>lp \<in> set ?local. L (fp_ID lp) = Some lp" "fp_ID ` set ?local = dom L"
    using memory.lst_distinct memory.lst_complete memory.lst_IDs assms(1,5) unfolding L_def by auto
  have rem: "fold (\<lambda>p m. m(fp_ID p \<mapsto> p)) (store_List visit (w_heap w b)) Map.empty = R"
    unfolding R_def by (rule memory.by_ID) (use assms(1,6) in simp)
  have h: "holds_at a b L R I w" for I by (simp add: holds_at_def L_def R_def)
  obtain rep1 where 1: "reconcileLocals region ?local R [] (rep, w) =
      (R |` (- dom L), [], rep1, settle a b L R (map fp_ID ?local) w)" "same_rep rep rep1"
    using locals_effect [OF assms(2) IDs assms(3,4) loc(1,2) _ h, of R "[]"] loc(3) by auto
  let ?w = "settle a b L R (map fp_ID ?local) w" and ?is = "visit (dom (R |` (- dom L)))"
  have fin: "finite (dom (R |` (- dom L)))"
    using assms(6) by (auto simp: R_def store_inv_def intro: finite_subset)
  then have v: "distinct ?is" "set ?is = dom R - dom L"
    using assms(1) by (auto simp: visits_def)
  have h2: "holds_at a b L R (set ?is) ?w"
    unfolding holds_at_def settle_view(1) [OF assms(2)] using v(2) loc(3) by (auto simp: L_def R_def)
  have m2: "\<forall>i \<in> set ?is. L i = None \<and> (R |` (- dom L)) i = R i" using v(2) by (auto simp: restrict_map_def)
  have "rep_store rep1 = a" using 1(2) assms(3) by (simp add: same_rep_def)
  moreover have "w_mounts ?w region = Some b" using assms(4) settle_view(2) [OF assms(2)] by simp
  ultimately obtain rep2 where 2: "reconcileRemotes region (R |` (- dom L)) ?is [] (rep1, ?w) =
      ([], rep2, settle a b L R ?is ?w)" "same_rep rep1 rep2"
    using remotes_effect [OF assms(2) IDs(2) _ _ v(1) m2 h2, of rep1 region "[]"] by auto
  have "reconcileRegion visit region (rep, w) = ([], rep2, settle a b L R ?is ?w)"
    using 1(1) 2(1) assms(3,4) by (simp add: reconcileRegion_def ListPolicies_def storeFor_def rem)
  moreover have "ms_policies (w_heap (settle a b L R ?is ?w) s) i =
       (if s = a then newer (L i) (R i) else if s = b then newer (R i) (L i) else ms_policies (w_heap w s) i)" for s i
  proof (cases "i \<in> dom L \<union> dom R")
    case True
    then show ?thesis
      using v(2) loc(3) assms(2) by (auto simp: settle_view(1) [OF assms(2)])
  next
    case False
    then have "L i = None" "R i = None" by auto
    with False show ?thesis
      using v(2) loc(3) by (auto simp: settle_view(1) [OF assms(2)] L_def R_def)
  qed
  ultimately show ?thesis
    using same_rep_trans [OF 1(2) 2(2)] by (auto simp: settle_view(2) [OF assms(2)] L_def R_def)
qed

section \<open>Convergence\<close>

text \<open>
  The abstract pass for one identifier: \<open>h\<close> gives the revision in each store, and the exchange with
  a peer leaves the newer revision on both sides.
\<close>

definition exchange :: "nat \<Rightarrow> nat \<Rightarrow> (nat \<Rightarrow> FedPolicy option) \<Rightarrow> nat \<Rightarrow> FedPolicy option" where
  "exchange a b h = h(a := newer (h a) (h b), b := newer (h b) (h a))"

lemma exchange_revision:
  assumes "a \<noteq> b"
  shows "revision (exchange a b h s) = (if s = a \<or> s = b then max (revision (h a)) (revision (h b)) else revision (h s))"
  using assms by (auto simp: exchange_def revision_newer max.commute)

lemma newer_cases: "newer x y = x \<or> newer x y = y"
  by (simp add: newer_def)

lemma exchange_origin: "exchange a b h s = h s \<or> exchange a b h s = h a \<or> exchange a b h s = h b"
  using newer_cases [of "h a" "h b"] newer_cases [of "h b" "h a"] by (auto simp: exchange_def)

lemma pass_other: "s \<noteq> a \<Longrightarrow> s \<notin> set bs \<Longrightarrow> fold (exchange a) bs h s = h s"
  by (induction bs arbitrary: h) (auto simp: exchange_def)

lemma pass_grows: "a \<notin> set bs \<Longrightarrow> revision (h s) \<le> revision (fold (exchange a) bs h s)"
proof (induction bs arbitrary: h)
  case (Cons b bs)
  have "revision (h s) \<le> revision (exchange a b h s)"
    using Cons.prems by (auto simp: exchange_revision)
  also have "\<dots> \<le> revision (fold (exchange a) (b # bs) h s)"
    using Cons.IH [of "exchange a b h"] Cons.prems by simp
  finally show ?case .
qed simp

text \<open>After a pass the member that made it is ahead of every peer.\<close>

lemma pass_leads:
  "distinct (a # bs) \<Longrightarrow> b \<in> set bs \<Longrightarrow> revision (fold (exchange a) bs h b) \<le> revision (fold (exchange a) bs h a)"
proof (induction bs arbitrary: h)
  case (Cons c bs)
  show ?case
  proof (cases "b \<in> set bs")
    case True
    then show ?thesis using Cons by simp
  next
    case False
    then have bc: "b = c" "b \<noteq> a" using Cons.prems by auto
    then have "fold (exchange a) (c # bs) h b = exchange a c h b"
      using False by (simp add: pass_other)
    also have "revision \<dots> = revision (exchange a c h a)"
      using bc by (simp add: exchange_revision)
    also have "\<dots> \<le> revision (fold (exchange a) bs (exchange a c h) a)"
      using Cons.prems by (intro pass_grows) auto
    finally show ?thesis by simp
  qed
qed simp

text \<open>A pass by a member that is ahead of all its peers brings them to its revision.\<close>

lemma pass_settles:
  "distinct (a # bs) \<Longrightarrow> \<forall>b \<in> set bs. revision (h b) \<le> revision (h a) \<Longrightarrow>
   fold (exchange a) bs h a = h a \<and> (\<forall>b \<in> set bs. revision (fold (exchange a) bs h b) = revision (h a))"
proof (induction bs arbitrary: h)
  case (Cons c bs)
  have c: "c \<noteq> a" "revision (h c) \<le> revision (h a)" "c \<notin> set bs" using Cons.prems by auto
  then have stay: "exchange a c h a = h a" by (simp add: exchange_def newer_def leD)
  have "\<forall>b \<in> set bs. revision (exchange a c h b) \<le> revision (exchange a c h a)"
    using Cons.prems c by (auto simp: stay exchange_revision)
  then have IH: "fold (exchange a) bs (exchange a c h) a = h a"
    "\<forall>b \<in> set bs. revision (fold (exchange a) bs (exchange a c h) b) = revision (h a)"
    using Cons.IH [of "exchange a c h"] Cons.prems(1) stay by auto
  moreover have "revision (fold (exchange a) bs (exchange a c h) c) = revision (h a)"
    using c by (simp add: pass_other exchange_revision max.absorb1)
  ultimately show ?case by auto
qed simp

lemma pass_origin:
  "s \<in> insert a (set bs) \<Longrightarrow> fold (exchange a) bs h s \<in> h ` insert a (set bs)"
proof (induction bs arbitrary: s rule: rev_induct)
  case (snoc b bs)
  let ?g = "fold (exchange a) bs h"
  have in_g: "?g t \<in> h ` insert a (set (bs @ [b]))" if "t \<in> insert a (set (bs @ [b]))" for t
  proof (cases "t \<in> insert a (set bs)")
    case True
    then show ?thesis using snoc.IH [of t] by auto
  next
    case False
    then have "?g t = h t" by (simp add: pass_other)
    with that show ?thesis by auto
  qed
  have "exchange a b ?g s = ?g s \<or> exchange a b ?g s = ?g a \<or> exchange a b ?g s = ?g b"
    by (rule exchange_origin)
  then show ?case using in_g [of s] in_g [of a] in_g [of b] snoc.prems by auto
qed simp

lemma two_passes:
  assumes "distinct (a # bs)" and "inj_on revision (h ` insert a (set bs))" and "s \<in> insert a (set bs)"
  shows "fold (exchange a) bs (fold (exchange a) bs h) s = fold (exchange a) bs h a"
proof -
  let ?g = "fold (exchange a) bs h"
  let ?k = "fold (exchange a) bs ?g"
  have "?k a = ?g a" "\<forall>b \<in> set bs. revision (?k b) = revision (?g a)"
    using pass_settles [OF assms(1), of ?g] pass_leads [OF assms(1), of _ h] by blast+
  then have rev: "revision (?k s) = revision (?g a)" using assms(3) by auto
  have "?g ` insert a (set bs) \<subseteq> h ` insert a (set bs)" using pass_origin [of _ a bs h] by blast
  then have "?k s \<in> h ` insert a (set bs)" "?g a \<in> h ` insert a (set bs)"
    using pass_origin [OF assms(3), of ?g] by blast+
  with inj_onD [OF assms(2) rev] show ?thesis by blast
qed

section \<open>The replicator implements the exchange\<close>

text \<open>The stores of the reachable regions, in the order of the targets.\<close>

definition reached :: "World \<Rightarrow> string list \<Rightarrow> nat list" where
  "reached w ts = map (\<lambda>t. the (w_mounts w t)) (filter (\<lambda>t. w_mounts w t \<noteq> None) ts)"

definition unreached :: "World \<Rightarrow> string list \<Rightarrow> (string \<times> fed_error list) list" where
  "unreached w ts = map (\<lambda>t. (t, [RegionNotFound])) (filter (\<lambda>t. w_mounts w t = None) ts)"

definition contents :: "World \<Rightarrow> string \<Rightarrow> nat \<Rightarrow> FedPolicy option" where
  "contents w i s = ms_policies (w_heap w s) i"

lemma store_inv_exchange:
  assumes "store_inv (w_heap w a)" "store_inv (w_heap w b)" "store_inv (w_heap w s)"
    and "\<And>i. contents w' i s = exchange a b (contents w i) s"
  shows "store_inv (w_heap w' s)"
proof -
  have o: "contents w' i s = contents w i s \<or> contents w' i s = contents w i a \<or> contents w' i s = contents w i b" for i
    using exchange_origin [of a b "contents w i" s] by (simp add: assms(4))
  then have "dom (ms_policies (w_heap w' s)) \<subseteq> dom (ms_policies (w_heap w s)) \<union> dom (ms_policies (w_heap w a)) \<union> dom (ms_policies (w_heap w b))"
    unfolding contents_def by (auto simp: dom_def) (metis option.distinct(1) not_Some_eq)+
  then have "finite (dom (ms_policies (w_heap w' s)))"
    using assms(1-3) by (elim finite_subset) (simp add: store_inv_def)
  moreover have "fp_ID p = i" if "ms_policies (w_heap w' s) i = Some p" for i p
    using o [of i] that assms(1-3) by (auto simp: contents_def store_inv_def)
  ultimately show ?thesis by (simp add: store_inv_def)
qed

lemma reconcileAll_pass:
  assumes "visits visit"
  shows "rep_store rep = a \<Longrightarrow> distinct (a # reached w ts) \<Longrightarrow> (\<forall>s \<in> insert a (set (reached w ts)). store_inv (w_heap w s)) \<Longrightarrow>
    \<exists>rep' w'. reconcileAll visit ts errs (rep, w) = (errs @ unreached w ts, rep', w') \<and> same_rep rep rep' \<and>
      w_mounts w' = w_mounts w \<and> (\<forall>i. contents w' i = fold (exchange a) (reached w ts) (contents w i))"
proof (induction ts arbitrary: rep w errs)
  case Nil
  then show ?case by (auto simp: reached_def unreached_def)
next
  case (Cons t ts)
  show ?case
  proof (cases "w_mounts w t")
    case None
    let ?rep = "rep\<lparr>rep_errors := rep_errors rep + 1\<rparr>"
    have "reconcileRegion visit t (rep, w) = ([RegionNotFound], ?rep, w)"
      using None by (simp add: reconcileRegion_def ListPolicies_def storeFor_def)
    moreover have "reached w (t # ts) = reached w ts" "unreached w (t # ts) = (t, [RegionNotFound]) # unreached w ts"
      using None by (simp_all add: reached_def unreached_def)
    moreover have "same_rep rep ?rep" by (simp add: same_rep_def)
    ultimately show ?thesis
      using Cons.IH [of ?rep w "errs @ [(t, [RegionNotFound])]"] Cons.prems same_rep_trans [of rep ?rep] by fastforce
  next
    case (Some b)
    then have r: "reached w (t # ts) = b # reached w ts" "unreached w (t # ts) = unreached w ts"
      by (simp_all add: reached_def unreached_def)
    then have ab: "a \<noteq> b" "store_inv (w_heap w a)" "store_inv (w_heap w b)" using Cons.prems by auto
    obtain rep1 w1 where 1: "reconcileRegion visit t (rep, w) = ([], rep1, w1)" "same_rep rep rep1" "w_mounts w1 = w_mounts w"
      "\<forall>s i. ms_policies (w_heap w1 s) i =
       (if s = a then newer (ms_policies (w_heap w a) i) (ms_policies (w_heap w b) i)
        else if s = b then newer (ms_policies (w_heap w b) i) (ms_policies (w_heap w a) i)
        else ms_policies (w_heap w s) i)"
      using reconcileRegion_effect [OF assms ab(1) Cons.prems(1) Some ab(2,3)] by blast
    have c1: "contents w1 i = exchange a b (contents w i)" for i
      using 1(4) ab(1) by (auto simp: contents_def exchange_def fun_eq_iff)
    have same: "reached w1 ts = reached w ts" "unreached w1 ts = unreached w ts"
      by (simp_all add: reached_def unreached_def 1(3))
    have "store_inv (w_heap w1 s)" if s: "s \<in> insert a (set (reached w ts))" for s
    proof (rule store_inv_exchange [OF ab(2,3)])
      show "store_inv (w_heap w s)" using Cons.prems(3) s unfolding r(1) by auto
      show "contents w1 i s = exchange a b (contents w i) s" for i by (simp only: c1)
    qed
    then have "\<forall>s \<in> insert a (set (reached w1 ts)). store_inv (w_heap w1 s)" unfolding same by blast
    moreover have "distinct (a # reached w1 ts)" using Cons.prems(2) unfolding same r(1) by simp
    moreover have "rep_store rep1 = a" using Cons.prems(1) 1(2) by (simp add: same_rep_def)
    ultimately obtain rep2 w2 where 2: "reconcileAll visit ts errs (rep1, w1) = (errs @ unreached w1 ts, rep2, w2)"
      "same_rep rep1 rep2" "w_mounts w2 = w_mounts w1" "\<forall>i. contents w2 i = fold (exchange a) (reached w1 ts) (contents w1 i)"
      using Cons.IH [of rep1 w1 errs] by blast
    then show ?thesis
      using 1(1,3) c1 same_rep_trans [OF 1(2) 2(2)] unfolding same r by auto
  qed
qed

lemma Targets_same: "same_rep rep rep' \<Longrightarrow> Targets visit rep' = Targets visit rep"
  by (simp add: Targets_def same_rep_def)

lemma Reconcile_pass:
  assumes "visits visit" "rep_store rep = a" "ts = Targets visit rep" "distinct (a # reached w ts)"
    and "\<forall>s \<in> insert a (set (reached w ts)). store_inv (w_heap w s)"
  shows "\<exists>rep' w'. Reconcile visit (rep, w) = (unreached w ts, rep', w') \<and> same_rep rep rep' \<and>
      w_mounts w' = w_mounts w \<and> (\<forall>i. contents w' i = fold (exchange a) (reached w ts) (contents w i))"
proof -
  let ?rep = "rep\<lparr>scans := scans rep + 1\<rparr>"
  have s: "same_rep rep ?rep" by (simp add: same_rep_def)
  have "rep_store ?rep = a" using assms(2) by simp
  from reconcileAll_pass [OF assms(1) this assms(4,5), of "[]"] obtain rep' w' where
    "reconcileAll visit ts [] (?rep, w) = ([] @ unreached w ts, rep', w')" "same_rep ?rep rep'"
    "w_mounts w' = w_mounts w" "\<forall>i. contents w' i = fold (exchange a) (reached w ts) (contents w i)"
    by blast
  then show ?thesis
    using assms(3) same_rep_trans [OF s] by (simp add: Reconcile_def Targets_same [OF s])
qed

lemma revision_inj:
  assumes "\<And>p q. x = Some p \<Longrightarrow> y = Some q \<Longrightarrow> compareRevision p q = 0 \<Longrightarrow> p = q" and "revision x = revision y"
  shows "x = y"
proof (cases x)
  case None
  then show ?thesis using assms(2) by (cases y) (auto simp: revision_def)
next
  case (Some p)
  then obtain q where q: "y = Some q" using assms(2) by (cases y) (auto simp: revision_def)
  then have "compareRevision p q = 0" using assms(2) Some by (simp add: compareRevision_def revision_def)
  with assms(1) Some q show ?thesis by blast
qed

lemma store_inv_origin:
  assumes "finite S" "\<forall>s \<in> S. store_inv (w_heap w s)" "\<And>i. \<exists>s' \<in> S. contents w1 i s = contents w i s'"
  shows "store_inv (w_heap w1 s)"
  unfolding store_inv_def
proof (intro conjI allI impI)
  have "dom (ms_policies (w_heap w1 s)) \<subseteq> (\<Union>s' \<in> S. dom (ms_policies (w_heap w s')))"
    using assms(3) unfolding contents_def dom_def by (auto, metis)
  moreover have "finite (\<Union>s' \<in> S. dom (ms_policies (w_heap w s')))"
    using assms(1,2) by (auto simp: store_inv_def)
  ultimately show "finite (dom (ms_policies (w_heap w1 s)))" by (rule finite_subset)
  show "fp_ID p = i" if "ms_policies (w_heap w1 s) i = Some p" for i p
    using assms(3) [of i] that assms(2) unfolding contents_def store_inv_def by metis
qed

definition no_conflict :: "World \<Rightarrow> nat set \<Rightarrow> bool" where
  "no_conflict w S \<longleftrightarrow> (\<forall>s \<in> S. \<forall>s' \<in> S. \<forall>i p q. ms_policies (w_heap w s) i = Some p \<and> ms_policies (w_heap w s') i = Some q \<and>
     compareRevision p q = 0 \<longrightarrow> p = q)"

lemma no_conflict_inj:
  assumes "no_conflict w S" shows "inj_on revision (contents w i ` S)"
proof (rule inj_onI)
  fix x y assume "x \<in> contents w i ` S" "y \<in> contents w i ` S" and r: "revision x = revision y"
  then obtain s s' where "s \<in> S" "s' \<in> S" "x = contents w i s" "y = contents w i s'" by blast
  then have "compareRevision p q = 0 \<Longrightarrow> p = q" if "x = Some p" "y = Some q" for p q
    using assms that unfolding no_conflict_def contents_def by metis
  then show "x = y" using r by (rule revision_inj)
qed

lemma revision_kept:
  assumes "revision (contents w i s) \<le> revision (contents w2 i s)" "ms_policies (w_heap w s) i = Some p"
  shows "\<exists>q. ms_policies (w_heap w2 s) i = Some q \<and> compareRevision p q \<le> 0"
proof -
  have "revision (Some p) \<le> revision (contents w2 i s)" using assms by (simp add: contents_def)
  then obtain q where "contents w2 i s = Some q" "revision (Some p) \<le> revision (Some q)"
    by (cases "contents w2 i s") (auto simp: revision_def less_eq_prod_def)
  then show ?thesis
    by (auto simp: contents_def compareRevision_def revision_def less_eq_prod_def)
qed

text \<open>C4: The fleet converges. Two anti-entropy passes of one member bring its own store and the stores
  of all regions it reaches to the same content, if equal revision numbers mean equal revisions. Every
  identifier ends with a revision that one of the stores held, no store goes back to an older
  revision or loses a policy, and a region that is not reachable is reported and skipped.\<close>

theorem two_passes_converge:
  assumes "visits visit" and "bs = reached w (Targets visit rep)" and "S = insert (rep_store rep) (set bs)"
    and "distinct (rep_store rep # bs)" and "\<forall>s \<in> S. store_inv (w_heap w s)" and "no_conflict w S"
  shows "\<exists>rep1 w1 rep2 w2. Reconcile visit (rep, w) = (unreached w (Targets visit rep), rep1, w1) \<and>
    Reconcile visit (rep1, w1) = (unreached w (Targets visit rep), rep2, w2) \<and>
    (\<forall>s \<in> S. ms_policies (w_heap w2 s) = ms_policies (w_heap w2 (rep_store rep))) \<and>
    (\<forall>i. \<exists>s \<in> S. ms_policies (w_heap w2 (rep_store rep)) i = ms_policies (w_heap w s) i) \<and>
    (\<forall>s \<in> S. \<forall>i p. ms_policies (w_heap w s) i = Some p \<longrightarrow>
       (\<exists>q. ms_policies (w_heap w2 s) i = Some q \<and> compareRevision p q \<le> 0))"
proof -
  let ?a = "rep_store rep" and ?ts = "Targets visit rep"
  let ?P = "\<lambda>i. fold (exchange ?a) bs (contents w i)"
  have a: "?a \<in> S" "?a \<notin> set bs" "finite S" using assms(3,4) by auto
  obtain rep1 w1 where 1: "Reconcile visit (rep, w) = (unreached w ?ts, rep1, w1)" "same_rep rep rep1" "w_mounts w1 = w_mounts w"
    "\<forall>i. contents w1 i = ?P i"
    using Reconcile_pass [OF assms(1) refl refl, of rep w] assms(2-5) by auto
  have ts: "Targets visit rep1 = ?ts" by (rule Targets_same [OF 1(2)])
  have same: "reached w1 ?ts = bs" "unreached w1 ?ts = unreached w ?ts" "rep_store rep1 = ?a"
    using 1(2,3) assms(2) by (simp_all add: reached_def unreached_def same_rep_def)
  have origin: "\<exists>s' \<in> S. contents w1 i s = contents w i s'" if "s \<in> S" for s i
    using pass_origin [of s ?a bs "contents w i"] that 1(4) assms(3) by auto
  have "store_inv (w_heap w1 s)" if "s \<in> S" for s
    using store_inv_origin [OF a(3) assms(5)] origin [OF that] by blast
  then have d1: "distinct (rep_store rep1 # reached w1 (Targets visit rep1))"
    "\<forall>s \<in> insert (rep_store rep1) (set (reached w1 (Targets visit rep1))). store_inv (w_heap w1 s)"
    using assms(3,4) by (simp_all add: ts same)
  obtain rep2 w2 where 2: "Reconcile visit (rep1, w1) = (unreached w ?ts, rep2, w2)"
    "\<forall>i. contents w2 i = fold (exchange ?a) bs (?P i)"
    using Reconcile_pass [OF assms(1) refl refl d1] 1(4) by (auto simp: ts same)
  have fin: "contents w2 i s = ?P i ?a" if "s \<in> S" for s i
    using two_passes [OF assms(4), of "contents w i" s] no_conflict_inj [OF assms(6), of i] that 2(2) assms(3) by simp
  have "revision (contents w i s) \<le> revision (contents w2 i s)" for i s
    using pass_grows [OF a(2), of "contents w i" s] pass_grows [OF a(2), of "?P i" s] 2(2) by simp
  then have "\<exists>q. ms_policies (w_heap w2 s) i = Some q \<and> compareRevision p q \<le> 0"
    if "ms_policies (w_heap w s) i = Some p" for s i p
    using that by (intro revision_kept)
  moreover have "ms_policies (w_heap w2 s) = ms_policies (w_heap w2 ?a)" if "s \<in> S" for s
    using fin [OF that] fin [OF a(1)] by (auto simp: contents_def fun_eq_iff)
  moreover have "\<exists>s \<in> S. ms_policies (w_heap w2 ?a) i = ms_policies (w_heap w s) i" for i
    using origin [OF a(1), of i] fin [OF a(1), of i] 1(4) by (simp add: contents_def)
  ultimately show ?thesis using 1(1) 2(1) by blast
qed

definition pol :: "u64 \<Rightarrow> instant \<Rightarrow> FedPolicy" where
  "pol v t = \<lparr>fp_ID = ''p'', fp_Version = v, fp_Body = [], fp_OriginRegion = ''eu'', fp_UpdatedAt = t\<rparr>"

definition us_cfg :: "ReplicationMode \<Rightarrow> ReplicationConfig" where
  "us_cfg mode = \<lparr>cfg_Mode = mode, cfg_Interval = 0, cfg_Regions = [''eu'', ''ap'']\<rparr>"

text \<open>The local store 0 holds version 1, the store 1 of the region \<open>eu\<close> version 7; \<open>ap\<close> is not mounted.\<close>

definition two_stores :: World where
  "two_stores = \<lparr>w_heap = (\<lambda>_. NewMemoryStore)(0 := \<lparr>ms_policies = [''p'' \<mapsto> pol 1 10]\<rparr>, 1 := \<lparr>ms_policies = [''p'' \<mapsto> pol 7 20]\<rparr>),
     w_mounts = [''eu'' \<mapsto> 1]\<rparr>"

definition us_rep :: Replicator where
  "us_rep = NewReplicator ''us'' 0 (NewRegionRegistry ''us'') (us_cfg ReplicationAsync)"

lemma us_targets: "Targets visit us_rep = [''eu'', ''ap'']"
  by (simp add: Targets_def us_rep_def NewReplicator_def us_cfg_def Let_def)

lemma us_store: "rep_store us_rep = 0"
  by (simp add: us_rep_def NewReplicator_def Let_def)

theorem two_passes_converge_witness:
  "\<exists>rep1 w1 rep2 w2. Reconcile (\<lambda>S. SOME xs. distinct xs \<and> set xs = S) (us_rep, two_stores) = ([(''ap'', [RegionNotFound])], rep1, w1) \<and>
     Reconcile (\<lambda>S. SOME xs. distinct xs \<and> set xs = S) (rep1, w1) = ([(''ap'', [RegionNotFound])], rep2, w2) \<and>
     ms_policies (w_heap w2 1) = ms_policies (w_heap w2 0)"
proof -
  let ?v = "\<lambda>S. SOME xs. distinct xs \<and> set xs = S"
  have r: "reached two_stores (Targets ?v us_rep) = [1]" "unreached two_stores (Targets ?v us_rep) = [(''ap'', [RegionNotFound])]"
    "rep_store us_rep = 0"
    by (simp_all add: us_targets us_store reached_def unreached_def two_stores_def)
  have "\<forall>s \<in> {0, 1}. store_inv (w_heap two_stores s)"
    by (auto simp: store_inv_def two_stores_def pol_def)
  moreover have "no_conflict two_stores {0, 1}"
    by (auto simp: no_conflict_def two_stores_def pol_def compareRevision_def split: if_splits)
  ultimately show ?thesis
    using two_passes_converge [OF visits_some refl refl, of us_rep two_stores] unfolding r by auto
qed

section \<open>Authoring\<close>

lemma putAt_contents: "contents (snd (putAt s p w)) i t = (if t = s \<and> i = fp_ID p then Some p else contents w i t)"
  by (auto simp: putAt_def store_Put_def contents_def)

lemma putAt_fields: "fst (putAt s p w) = None" "w_mounts (snd (putAt s p w)) = w_mounts w"
  by (simp_all add: putAt_def store_Put_def)

text \<open>The immediate push writes to every reachable target, whatever is there.\<close>

lemma pushAll_contents:
  "\<exists>errs' f' w'. pushAll p ts errs (f, w) = (errs', f', w') \<and> w_mounts w' = w_mounts w \<and>
     (\<forall>s. contents w' (fp_ID p) s = (if s \<in> set (reached w ts) then Some p else contents w (fp_ID p) s))"
proof (induction ts arbitrary: errs f w)
  case (Cons t ts)
  show ?case
  proof (cases "w_mounts w t")
    case None
    then show ?thesis
      using Cons.IH [of "errs @ [(t, RegionNotFound)]" f w] by (simp add: PutPolicy_def storeFor_def reached_def)
  next
    case (Some b)
    let ?w = "snd (putAt b p w)" and ?f = "f\<lparr>syncPushes := syncPushes f + 1\<rparr>"
    have put: "PutPolicy t p w = (None, ?w)"
      using Some putAt_fields(1) [of b p w] by (simp add: PutPolicy_def storeFor_def prod_eq_iff)
    have "reached ?w ts = reached w ts" by (simp add: reached_def putAt_fields)
    then show ?thesis
      using Cons.IH [of errs ?f ?w] Some by (auto simp: put putAt_fields putAt_contents reached_def)
  qed
qed (simp add: reached_def)

text \<open>C38: A synchronous write can undo a newer revision. Authoring takes the next version of the local
  copy and, in sync mode, overwrites the policy in every reachable target region without comparing
  revisions: a peer that holds a higher version than the local one plus one loses it, although
  replication promises that the newer revision wins.\<close>

theorem sync_put_discards_newer:
  assumes "i \<noteq> []" and "cfg_Mode (f_cfg f) = ReplicationSync" and "s \<in> set (reached w (Targets visit (f_replicator f)))"
    and "ms_policies (w_heap w (f_store f)) i = Some c" and "fp_Version c + 1 < fp_Version q"
    and "ms_policies (w_heap w s) i = Some q"
  shows "\<exists>p errs f' w'. fed_Put visit now i body (f, w) = (Inr (p, errs), f', w') \<and>
    ms_policies (w_heap w' s) i = Some p \<and> compareRevision q p = 1"
proof -
  define p where "p = \<lparr>fp_ID = i, fp_Version = fp_Version c + 1, fp_Body = body, fp_OriginRegion = f_self f, fp_UpdatedAt = now\<rparr>"
  let ?f = "f\<lparr>authored := authored f + 1\<rparr>"
  obtain w1 where put: "putAt (f_store f) p w = (None, w1)" and m1: "w_mounts w1 = w_mounts w"
    using putAt_fields [of "f_store f" p w] by (cases "putAt (f_store f) p w") simp
  obtain errs f' w' where push: "pushAll p (Targets visit (f_replicator f)) [] (?f, w1) = (errs, f', w')"
    "\<forall>t. contents w' i t = (if t \<in> set (reached w1 (Targets visit (f_replicator f))) then Some p else contents w1 i t)"
    using pushAll_contents [of p "Targets visit (f_replicator f)" "[]" ?f w1] by (auto simp: p_def)
  have "fed_Put visit now i body (f, w) = (Inr (p, errs), f', w')"
    using assms(1,2,4) put push(1) unfolding p_def
    by (simp add: fed_Put_def store_Get_def pushNow_def Let_def)
  moreover have "contents w' i s = Some p"
    using push(2) assms(3) by (simp add: reached_def m1)
  moreover have "compareRevision q p = 1"
    using assms(5) by (auto simp: compareRevision_def p_def)
  ultimately show ?thesis unfolding contents_def by blast
qed

theorem sync_put_discards_newer_witness:
  "\<exists>p errs f' w'. fed_Put (\<lambda>_. []) 30 ''p'' [] (fst (NewFederation ''us'' (Some 0) None (us_cfg ReplicationSync) 5 two_stores), two_stores)
     = (Inr (p, errs), f', w') \<and> ms_policies (w_heap w' 1) ''p'' = Some p \<and> compareRevision (pol 7 20) p = 1"
  by (rule sync_put_discards_newer [where c = "pol 1 10"])
     (simp_all add: NewFederation_def NewReplicator_def us_cfg_def two_stores_def Targets_def reached_def pol_def Let_def)

end
