(* ===== verification/EvalCache.thy ===== *)
theory EvalCache
  imports Prelude "HOL-Library.Char_ord" "HOL-Library.List_Lexorder"
begin

text \<open>
  The cache of CEL evaluation results (\<open>src/internal/cache/cache.go\<close>): an LRU cache with expiry and an
  index of tags. The slice \<open>accessOrder\<close> is the list of its elements; the one place where the code can
  see its backing array under an older slice header, the \<open>range\<close> loop of \<open>evictLocked\<close>, carries that
  array explicitly. \<open>time.Now()\<close> is an argument per call. A run-time panic is the outcome
  \<open>Panicked\<close> with the state it leaves behind: the deferred unlock runs, and \<open>net/http\<close> goes on
  serving with that state. SHA-256 and the JSON encoder are arguments of the hashing functions.
\<close>

section \<open>State\<close>

record cacheKey =
  ExprHash :: string
  ContextHash :: string

record 'v cacheEntry =
  ce_Value :: 'v
  ce_Tags :: "string list"
  ce_ExpiresAt :: instant
  ce_LastAccess :: instant

record 'v Cache =
  ec_entries :: "cacheKey \<rightharpoonup> 'v cacheEntry"
  accessOrder :: "cacheKey list"
  tagIndex :: "string \<rightharpoonup> cacheKey set"
  capacity :: int
  ec_ttl :: duration
  ec_hits :: u64
  ec_misses :: u64
  evicts :: u64

datatype 'v outcome = Returned (state: "'v Cache") | Panicked (state: "'v Cache")

definition defaultCapacity :: int where
  "defaultCapacity = 10000"

definition defaultTTL :: duration where
  "defaultTTL = 300 * second"

datatype cache_option = WithCapacity int | WithTTL duration

fun applyOption :: "cache_option \<Rightarrow> 'v Cache \<Rightarrow> 'v Cache" where
  "applyOption (WithCapacity n) c = (if n > 0 then c\<lparr>capacity := n\<rparr> else c)"
| "applyOption (WithTTL d) c = (if d > 0 then c\<lparr>ec_ttl := d\<rparr> else c)"

definition NewCache :: "cache_option list \<Rightarrow> 'v Cache" where
  "NewCache opts = fold applyOption opts
     \<lparr>ec_entries = Map.empty, accessOrder = [], tagIndex = Map.empty, capacity = defaultCapacity,
      ec_ttl = defaultTTL, ec_hits = 0, ec_misses = 0, evicts = 0\<rparr>"

section \<open>Helpers that run under the lock\<close>

definition promoteLocked :: "cacheKey \<Rightarrow> 'v Cache \<Rightarrow> 'v Cache" where
  "promoteLocked key c = c\<lparr>accessOrder := remove1 key (accessOrder c) @ [key]\<rparr>"

text \<open>\<open>delete\<close> on an absent inner map is a no-op; an inner map that becomes empty is dropped.\<close>

definition untag :: "cacheKey \<Rightarrow> string \<Rightarrow> (string \<rightharpoonup> cacheKey set) \<Rightarrow> (string \<rightharpoonup> cacheKey set)" where
  "untag key tag ti = (case ti tag of None \<Rightarrow> ti
     | Some S \<Rightarrow> if S - {key} = {} then ti(tag := None) else ti(tag \<mapsto> S - {key}))"

definition addTag :: "cacheKey \<Rightarrow> string \<Rightarrow> (string \<rightharpoonup> cacheKey set) \<Rightarrow> (string \<rightharpoonup> cacheKey set)" where
  "addTag key tag ti = ti(tag \<mapsto> insert key (case ti tag of None \<Rightarrow> {} | Some S \<Rightarrow> S))"

definition removeEntryLocked :: "cacheKey \<Rightarrow> 'v Cache \<Rightarrow> 'v Cache" where
  "removeEntryLocked key c = (case ec_entries c key of None \<Rightarrow> c
     | Some entry \<Rightarrow> c\<lparr>tagIndex := fold (untag key) (ce_Tags entry) (tagIndex c),
         ec_entries := (ec_entries c)(key := None), accessOrder := remove1 key (accessOrder c)\<rparr>)"

text \<open>
  The first pass of \<open>evictLocked\<close>. The \<open>range\<close> clause fixes the array \<open>arr\<close> and its length; a removal
  shifts the live prefix of that array to the left in place, so later iterations read shifted
  elements. The result is the state and \<open>fresh\<close>, or \<open>None\<close> when \<open>entry\<close> is nil and its expiry is read.
\<close>

fun evictScan :: "nat \<Rightarrow> instant \<Rightarrow> cacheKey list \<Rightarrow> nat \<Rightarrow> 'v Cache \<Rightarrow> cacheKey list \<Rightarrow> 'v Cache \<times> cacheKey list option" where
  "evictScan 0 now arr i c fresh = (c, Some fresh)"
| "evictScan (Suc todo) now arr i c fresh = (case ec_entries c (arr ! i) of
     None \<Rightarrow> (c, None)
   | Some entry \<Rightarrow>
       if now > ce_ExpiresAt entry
       then (let c = removeEntryLocked (arr ! i) c; live = accessOrder c
             in evictScan todo now (live @ drop (length live) arr) (i + 1) (c\<lparr>evicts := evicts c + 1\<rparr>) fresh)
       else evictScan todo now arr (i + 1) c (fresh @ [arr ! i]))"

text \<open>The second pass. Slicing an empty slice from 1 panics.\<close>

function evictLoop :: "'v Cache \<Rightarrow> 'v outcome" where
  "evictLoop c =
     (if int (card (dom (ec_entries c))) > capacity c \<and> length (accessOrder c) > 0
      then (let c1 = removeEntryLocked (accessOrder c ! 0) c in
            if accessOrder c1 = [] then Panicked c1
            else evictLoop (c1\<lparr>accessOrder := drop 1 (accessOrder c1), evicts := evicts c1 + 1\<rparr>))
      else Returned c)"
  by pat_completeness auto
termination
  by (relation "measure (\<lambda>c. length (accessOrder c))")
     (auto simp: removeEntryLocked_def length_remove1 split: option.splits)

declare evictLoop.simps [simp del]

definition evictLocked :: "instant \<Rightarrow> 'v Cache \<Rightarrow> 'v outcome" where
  "evictLocked now c = (case evictScan (length (accessOrder c)) now (accessOrder c) 0 c [] of
     (c, None) \<Rightarrow> Panicked c
   | (c, Some fresh) \<Rightarrow> evictLoop (c\<lparr>accessOrder := fresh\<rparr>))"

section \<open>Hashing\<close>

definition HashExpr :: "(string \<Rightarrow> string) \<Rightarrow> string \<Rightarrow> string" where
  "HashExpr sha expr = sha expr"

text \<open>The inner loop of the insertion sort moves the element \<open>k\<close> down over the larger ones before it.\<close>

fun sinkKey :: "string list \<Rightarrow> string \<Rightarrow> string list \<Rightarrow> string list" where
  "sinkKey [] k after = k # after"
| "sinkKey (p # before) k after = (if k < p then sinkKey before k (p # after) else rev (p # before) @ k # after)"

fun sortKeys :: "string list \<Rightarrow> string list \<Rightarrow> string list" where
  "sortKeys done [] = done"
| "sortKeys done (k # ks) = sortKeys (sinkKey (rev done) k []) ks"

definition HashContext :: "(string \<Rightarrow> string) \<Rightarrow> ((string \<rightharpoonup> 'j) \<Rightarrow> string option) \<Rightarrow> string list \<Rightarrow> (string \<rightharpoonup> 'j) \<Rightarrow> string option" where
  "HashContext sha marshal order ctx = (let keys = sortKeys [] order;
     m = fold (\<lambda>k m. m(k := ctx k)) keys Map.empty
   in map_option sha (marshal m))"

section \<open>Operations\<close>

definition GetByKey :: "instant \<Rightarrow> instant \<Rightarrow> cacheKey \<Rightarrow> 'v Cache \<Rightarrow> 'v option \<times> 'v Cache" where
  "GetByKey now later key c = (case ec_entries c key of
     None \<Rightarrow> (None, c\<lparr>ec_misses := ec_misses c + 1\<rparr>)
   | Some entry \<Rightarrow>
       if now > ce_ExpiresAt entry
       then (let c = removeEntryLocked key c in (None, c\<lparr>ec_misses := ec_misses c + 1\<rparr>))
       else (let c = c\<lparr>ec_entries := (ec_entries c)(key \<mapsto> entry\<lparr>ce_LastAccess := later\<rparr>)\<rparr>;
                 c = promoteLocked key c
             in (Some (ce_Value entry), c\<lparr>ec_hits := ec_hits c + 1\<rparr>)))"

text \<open>\<open>Get\<close>: \<open>Inl\<close> stands for the error of an unserialisable context.\<close>

definition cache_Get :: "(string \<Rightarrow> string) \<Rightarrow> ((string \<rightharpoonup> 'j) \<Rightarrow> string option) \<Rightarrow> instant \<Rightarrow> instant \<Rightarrow> string list \<Rightarrow>
    string \<Rightarrow> (string \<rightharpoonup> 'j) \<Rightarrow> 'v Cache \<Rightarrow> (unit + 'v option) \<times> 'v Cache" where
  "cache_Get sha marshal now later order expr ctx c = (case HashContext sha marshal order ctx of
     None \<Rightarrow> (Inl (), c)
   | Some ctxHash \<Rightarrow> (let (v, c) = GetByKey now later \<lparr>ExprHash = HashExpr sha expr, ContextHash = ctxHash\<rparr> c in (Inr v, c)))"

definition storeEntry :: "instant \<Rightarrow> instant \<Rightarrow> cacheKey \<Rightarrow> 'v \<Rightarrow> string list \<Rightarrow> duration list \<Rightarrow> 'v Cache \<Rightarrow> 'v Cache" where
  "storeEntry now later key v tags ttlOverride c = (let
     ttl = (case ttlOverride of t # _ \<Rightarrow> if t > 0 then t else ec_ttl c | [] \<Rightarrow> ec_ttl c);
     c = (if ec_entries c key \<noteq> None then removeEntryLocked key c else c);
     entry = \<lparr>ce_Value = v, ce_Tags = tags, ce_ExpiresAt = now + ttl, ce_LastAccess = later\<rparr>
   in c\<lparr>ec_entries := (ec_entries c)(key \<mapsto> entry), accessOrder := accessOrder c @ [key],
        tagIndex := fold (addTag key) tags (tagIndex c)\<rparr>)"

definition cache_Set :: "instant \<Rightarrow> instant \<Rightarrow> instant \<Rightarrow> cacheKey \<Rightarrow> 'v \<Rightarrow> string list \<Rightarrow> duration list \<Rightarrow> 'v Cache \<Rightarrow> 'v outcome" where
  "cache_Set now later latest key v tags ttlOverride c =
     evictLocked latest (storeEntry now later key v tags ttlOverride c)"

text \<open>The loop over the inner map visits its keys in some order and removes each from it.\<close>

definition InvalidateByTag :: "cacheKey list \<Rightarrow> string \<Rightarrow> 'v Cache \<Rightarrow> nat \<times> 'v Cache" where
  "InvalidateByTag order tag c = (case tagIndex c tag of None \<Rightarrow> (0, c)
     | Some keys \<Rightarrow> fold (\<lambda>key (n, c). (n + 1, removeEntryLocked key c)) order (0, c))"

definition InvalidateAll :: "'v Cache \<Rightarrow> nat \<times> 'v Cache" where
  "InvalidateAll c = (card (dom (ec_entries c)),
     c\<lparr>ec_entries := Map.empty, accessOrder := take 0 (accessOrder c), tagIndex := Map.empty\<rparr>)"

record CacheStats =
  cs_Size :: nat
  cs_Capacity :: int
  cs_Hits :: u64
  cs_Misses :: u64
  cs_Evictions :: u64
  cs_Tags :: nat
  cs_DefaultTTL :: duration
  cs_TagCount :: "string \<rightharpoonup> nat"

definition tagCounts :: "'v Cache \<Rightarrow> string \<rightharpoonup> nat" where
  "tagCounts c tag = map_option card (tagIndex c tag)"

definition cache_Stats :: "'v Cache \<Rightarrow> CacheStats" where
  "cache_Stats c = \<lparr>cs_Size = card (dom (ec_entries c)), cs_Capacity = capacity c, cs_Hits = ec_hits c,
     cs_Misses = ec_misses c, cs_Evictions = evicts c, cs_Tags = card (dom (tagIndex c)),
     cs_DefaultTTL = ec_ttl c, cs_TagCount = tagCounts c\<rparr>"

text \<open>\<open>invalidateHandler\<close>: the body is \<open>None\<close> when it does not decode. \<open>Inl\<close> is the status 400.\<close>

record invalidateRequest =
  ir_Tag :: string
  ir_Tags :: "string list"
  ir_All :: bool

fun invalidateTags :: "(cacheKey set \<Rightarrow> cacheKey list) \<Rightarrow> string list \<Rightarrow> nat \<Rightarrow> 'v Cache \<Rightarrow> nat \<times> 'v Cache" where
  "invalidateTags visit [] n c = (n, c)"
| "invalidateTags visit (tag # tags) n c =
     (let (k, c) = InvalidateByTag (visit (case tagIndex c tag of None \<Rightarrow> {} | Some S \<Rightarrow> S)) tag c
      in invalidateTags visit tags (n + k) c)"

definition invalidateHandler :: "(cacheKey set \<Rightarrow> cacheKey list) \<Rightarrow> invalidateRequest option \<Rightarrow> 'v Cache \<Rightarrow> (unit + nat) \<times> 'v Cache" where
  "invalidateHandler visit body c =
     (let req = (case body of None \<Rightarrow> \<lparr>ir_Tag = [], ir_Tags = [], ir_All = True\<rparr> | Some r \<Rightarrow> r) in
      if ir_All req then (let (n, c) = InvalidateAll c in (Inr n, c))
      else if length (ir_Tags req) > 0 then (let (n, c) = invalidateTags visit (ir_Tags req) 0 c in (Inr n, c))
      else if ir_Tag req \<noteq> []
      then (let (n, c) = invalidateTags visit [ir_Tag req] 0 c in (Inr n, c))
      else (Inl (), c))"

section \<open>The invariant\<close>

definition tagged :: "'v Cache \<Rightarrow> string \<Rightarrow> cacheKey set" where
  "tagged c tag = {k. \<exists>e. ec_entries c k = Some e \<and> tag \<in> set (ce_Tags e)}"

definition some_set :: "'a set \<Rightarrow> 'a set option" where
  "some_set S = (if S = {} then None else Some S)"

text \<open>The tag index lists, for each tag, exactly the keys whose entry carries it.\<close>

definition ec_inv :: "'v Cache \<Rightarrow> bool" where
  "ec_inv c \<longleftrightarrow> finite (dom (ec_entries c)) \<and> 0 < capacity c \<and> (\<forall>tag. tagIndex c tag = some_set (tagged c tag))"

lemma untag_some_set: "ti tag = some_set S \<Longrightarrow> untag key tag ti tag = some_set (S - {key})"
  by (auto simp: untag_def some_set_def)

lemma untag_other: "tag \<noteq> t \<Longrightarrow> untag key t ti tag = ti tag"
  by (auto simp: untag_def split: option.splits)

lemma fold_untag:
  "ti tag = some_set S \<Longrightarrow> fold (untag key) tags ti tag = some_set (if tag \<in> set tags then S - {key} else S)"
proof (induction tags arbitrary: ti S)
  case (Cons t tags)
  show ?case
  proof (cases "t = tag")
    case True
    then show ?thesis
      using Cons.IH [of "untag key tag ti" "S - {key}"] untag_some_set [of ti tag S key] Cons.prems by simp
  next
    case False
    then show ?thesis
      using Cons.IH [of "untag key t ti" S] Cons.prems untag_other [of tag t key ti] by auto
  qed
qed simp

lemma fold_addTag:
  "ti tag = some_set S \<Longrightarrow> fold (addTag key) tags ti tag = some_set (if tag \<in> set tags then insert key S else S)"
proof (induction tags arbitrary: ti S)
  case (Cons t tags)
  show ?case
  proof (cases "t = tag")
    case True
    have "addTag key t ti tag = some_set (insert key S)"
      using Cons.prems True by (auto simp: addTag_def some_set_def)
    then show ?thesis using Cons.IH [of "addTag key t ti" "insert key S"] True by auto
  next
    case False
    then show ?thesis
      using Cons.IH [of "addTag key t ti" S] Cons.prems by (auto simp: addTag_def)
  qed
qed simp

lemma removeEntry_fields [simp]:
  "ec_entries (removeEntryLocked k c) = (ec_entries c)(k := None)"
  "capacity (removeEntryLocked k c) = capacity c" "ec_ttl (removeEntryLocked k c) = ec_ttl c"
  by (auto simp: removeEntryLocked_def split: option.splits)

lemma ec_inv_fields [simp]:
  "ec_inv (c\<lparr>accessOrder := ao\<rparr>) = ec_inv c" "ec_inv (c\<lparr>evicts := n\<rparr>) = ec_inv c"
  "ec_inv (c\<lparr>ec_hits := n\<rparr>) = ec_inv c" "ec_inv (c\<lparr>ec_misses := n\<rparr>) = ec_inv c"
  by (simp_all add: ec_inv_def tagged_def)

lemma ec_inv_removeEntry: "ec_inv c \<Longrightarrow> ec_inv (removeEntryLocked k c)"
proof -
  assume inv: "ec_inv c"
  show ?thesis
  proof (cases "ec_entries c k")
    case None
    then show ?thesis using inv by (simp add: removeEntryLocked_def)
  next
    case (Some e)
    have "tagIndex (removeEntryLocked k c) tag = some_set (tagged (removeEntryLocked k c) tag)" for tag
    proof -
      have "tagged (removeEntryLocked k c) tag = (if tag \<in> set (ce_Tags e) then tagged c tag - {k} else tagged c tag)"
        using Some by (auto simp: tagged_def)
      moreover have "tagIndex c tag = some_set (tagged c tag)" using inv by (simp add: ec_inv_def)
      ultimately show ?thesis
        using fold_untag [of "tagIndex c" tag "tagged c tag" k "ce_Tags e"] Some by (simp add: removeEntryLocked_def)
    qed
    then show ?thesis using inv by (auto simp: ec_inv_def)
  qed
qed

lemma ec_inv_store: "ec_inv c \<Longrightarrow> ec_inv (storeEntry now later k v tags ov c)"
proof -
  assume inv: "ec_inv c"
  define c1 where "c1 = (if ec_entries c k \<noteq> None then removeEntryLocked k c else c)"
  have c1: "ec_inv c1" "ec_entries c1 = (ec_entries c)(k := None)"
    using inv ec_inv_removeEntry by (auto simp: c1_def)
  let ?s = "storeEntry now later k v tags ov c"
  have "tagged ?s tag = (if tag \<in> set tags then insert k (tagged c1 tag) else tagged c1 tag)" for tag
    unfolding storeEntry_def c1_def [symmetric] by (auto simp: tagged_def c1 Let_def)
  moreover have "tagIndex ?s tag = fold (addTag k) tags (tagIndex c1) tag" for tag
    unfolding storeEntry_def c1_def [symmetric] by (simp add: Let_def)
  moreover have "tagIndex c1 tag = some_set (tagged c1 tag)" for tag
    using c1(1) by (simp add: ec_inv_def)
  ultimately have "tagIndex ?s tag = some_set (tagged ?s tag)" for tag
    using fold_addTag [of "tagIndex c1" tag "tagged c1 tag" k tags] by simp
  then show ?thesis
    using inv by (auto simp: ec_inv_def storeEntry_def Let_def c1_def)
qed

text \<open>What an eviction may do: drop entries, keep the configuration and the invariant.\<close>

definition shrinks :: "'v Cache \<Rightarrow> 'v Cache \<Rightarrow> bool" where
  "shrinks c c' \<longleftrightarrow> ec_entries c' \<subseteq>\<^sub>m ec_entries c \<and> capacity c' = capacity c \<and> ec_ttl c' = ec_ttl c \<and> (ec_inv c \<longrightarrow> ec_inv c')"

lemma shrinks_trans: "shrinks a b \<Longrightarrow> shrinks b c \<Longrightarrow> shrinks a c"
  by (auto simp: shrinks_def intro: map_le_trans)

lemma shrinks_remove: "shrinks c (removeEntryLocked k c)"
  by (simp add: shrinks_def ec_inv_removeEntry)

lemma shrinks_order [simp]: "shrinks c (c'\<lparr>accessOrder := ao\<rparr>) = shrinks c c'" "shrinks c (c'\<lparr>evicts := n\<rparr>) = shrinks c c'"
  by (simp_all add: shrinks_def)

lemma shrinks_refl [simp]: "shrinks c c"
  by (simp add: shrinks_def)

lemma evictScan_shrinks: "shrinks c (fst (evictScan todo now arr i c fresh))"
proof (induction todo now arr i c fresh rule: evictScan.induct)
  case (2 todo now arr i c fresh)
  show ?case
  proof (cases "ec_entries c (arr ! i)")
    case (Some e)
    show ?thesis
    proof (cases "now > ce_ExpiresAt e")
      case True
      let ?c = "removeEntryLocked (arr ! i) c"
      have "shrinks (?c\<lparr>evicts := evicts ?c + 1\<rparr>) (fst (evictScan (Suc todo) now arr i c fresh))"
        using "2.IH"(1) [OF Some True refl refl] Some True by (simp add: Let_def)
      moreover have "shrinks c (?c\<lparr>evicts := evicts ?c + 1\<rparr>)" by (simp add: shrinks_remove)
      ultimately show ?thesis by (rule shrinks_trans [rotated])
    qed (use Some "2.IH"(2) in simp)
  qed simp
qed simp

lemma evictLoop_shrinks: "shrinks c (state (evictLoop c))"
proof (induction c rule: evictLoop.induct)
  case (1 c)
  let ?c = "removeEntryLocked (accessOrder c ! 0) c"
  show ?case
  proof (cases "int (card (dom (ec_entries c))) > capacity c \<and> length (accessOrder c) > 0 \<and> accessOrder ?c \<noteq> []")
    case True
    let ?d = "?c\<lparr>accessOrder := drop 1 (accessOrder ?c), evicts := evicts ?c + 1\<rparr>"
    have "shrinks c ?d" by (simp add: shrinks_remove)
    moreover have "shrinks ?d (state (evictLoop ?d))" by (rule "1.IH") (use True in auto)
    ultimately have "shrinks c (state (evictLoop ?d))" by (rule shrinks_trans)
    moreover have "evictLoop c = evictLoop ?d" using True by (subst evictLoop.simps) (simp add: Let_def)
    ultimately show ?thesis by (simp only:)
  next
    case False
    then show ?thesis by (subst evictLoop.simps) (auto simp: Let_def shrinks_remove)
  qed
qed

lemma evictLocked_shrinks: "shrinks c (state (evictLocked now c))"
proof -
  obtain d r where scan: "evictScan (length (accessOrder c)) now (accessOrder c) 0 c [] = (d, r)"
    by fastforce
  then have "shrinks c d" using evictScan_shrinks by (metis fst_conv)
  then have "shrinks c (state (evictLoop (d\<lparr>accessOrder := fresh\<rparr>)))" for fresh
    by (intro shrinks_trans [OF _ evictLoop_shrinks]) simp
  with \<open>shrinks c d\<close> show ?thesis
    using scan by (cases r) (auto simp: evictLocked_def)
qed

section \<open>Invalidation by tag\<close>

lemma fold_remove:
  "fold (\<lambda>key (n, c). (Suc n, removeEntryLocked key c)) order (n, c) = (n + length order, fold removeEntryLocked order c)"
  by (induction order arbitrary: n c) auto

lemma fold_remove_entries: "ec_entries (fold removeEntryLocked order c) = ec_entries c |` (- set order)"
  by (induction order arbitrary: c) (auto simp: restrict_map_def fun_eq_iff)

lemma fold_remove_shrinks: "shrinks c (fold removeEntryLocked order c)"
  by (induction order rule: rev_induct) (auto intro: shrinks_trans shrinks_remove)

lemma InvalidateByTag_entries:
  assumes "ec_inv c" and "distinct order" and "set order = tagged c tag"
  shows "InvalidateByTag order tag c = (card (tagged c tag), fold removeEntryLocked order c)"
proof -
  have "card (tagged c tag) = length order"
    using assms(2) distinct_card unfolding assms(3) [symmetric] by blast
  moreover have "tagIndex c tag = some_set (tagged c tag)" using assms(1) by (simp add: ec_inv_def)
  moreover have "order = []" if "tagged c tag = {}" using that assms(3) by simp
  ultimately show ?thesis
    by (auto simp: InvalidateByTag_def some_set_def fold_remove)
qed

section \<open>Runs\<close>

text \<open>
  A run of the cache: lookups, stores (at three readings of the clock), invalidations. \<open>visit\<close> is the
  order in which Go visits a set of keys. A store that panics leaves its state behind.
\<close>

datatype 'v cache_op =
    Op_Get instant instant cacheKey
  | Op_Set instant instant instant cacheKey 'v "string list" "duration list"
  | Op_Tag string
  | Op_All

fun exec_op :: "(cacheKey set \<Rightarrow> cacheKey list) \<Rightarrow> 'v cache_op \<Rightarrow> 'v Cache \<Rightarrow> 'v Cache" where
  "exec_op visit (Op_Get now later key) c = snd (GetByKey now later key c)"
| "exec_op visit (Op_Set now later latest key v tags ov) c = state (cache_Set now later latest key v tags ov c)"
| "exec_op visit (Op_Tag tag) c = snd (InvalidateByTag (visit (case tagIndex c tag of None \<Rightarrow> {} | Some S \<Rightarrow> S)) tag c)"
| "exec_op visit Op_All c = snd (InvalidateAll c)"

text \<open>
  The abstract cache: a map from keys to the value, the tags and the expiry of the last store, with
  nothing ever evicted. \<open>d\<close> is the default time to live.
\<close>

type_synonym 'v written = "cacheKey \<rightharpoonup> 'v \<times> string list \<times> instant"

fun spec_op :: "duration \<Rightarrow> 'v cache_op \<Rightarrow> 'v written \<Rightarrow> 'v written" where
  "spec_op d (Op_Get now later key) m = m"
| "spec_op d (Op_Set now later latest key v tags ov) m =
     m(key \<mapsto> (v, tags, now + (if ov \<noteq> [] \<and> hd ov > 0 then hd ov else d)))"
| "spec_op d (Op_Tag tag) m = (\<lambda>k. case m k of Some (v, tags, x) \<Rightarrow> if tag \<in> set tags then None else m k | None \<Rightarrow> None)"
| "spec_op d Op_All m = Map.empty"

definition entry_view :: "'v cacheEntry \<Rightarrow> 'v \<times> string list \<times> instant" where
  "entry_view e = (ce_Value e, ce_Tags e, ce_ExpiresAt e)"

definition coherent :: "duration \<Rightarrow> 'v Cache \<Rightarrow> 'v written \<Rightarrow> bool" where
  "coherent d c m \<longleftrightarrow> ec_inv c \<and> ec_ttl c = d \<and> (\<forall>k e. ec_entries c k = Some e \<longrightarrow> m k = Some (entry_view e))"

lemma coherent_shrinks: "coherent d c m \<Longrightarrow> shrinks c c' \<Longrightarrow> coherent d c' m"
  unfolding coherent_def shrinks_def map_le_def by (metis domI)

lemma coherent_counters [simp]:
  "coherent d (c\<lparr>ec_hits := n\<rparr>) m = coherent d c m" "coherent d (c\<lparr>ec_misses := n\<rparr>) m = coherent d c m"
  "coherent d (c\<lparr>accessOrder := ao\<rparr>) m = coherent d c m"
  by (simp_all add: coherent_def)

lemma coherent_touch:
  assumes "coherent d c m" and "ec_entries c k = Some e"
  shows "coherent d (c\<lparr>ec_entries := (ec_entries c)(k \<mapsto> e\<lparr>ce_LastAccess := t\<rparr>)\<rparr>) m"
proof -
  let ?c = "c\<lparr>ec_entries := (ec_entries c)(k \<mapsto> e\<lparr>ce_LastAccess := t\<rparr>)\<rparr>"
  have "tagged ?c tag = tagged c tag" for tag
    using assms(2) by (auto simp: tagged_def)
  then have "ec_inv ?c" using assms(1) by (simp add: coherent_def ec_inv_def)
  with assms show ?thesis by (auto simp: coherent_def entry_view_def)
qed

lemma coherent_Get: "coherent d c m \<Longrightarrow> coherent d (snd (GetByKey now later k c)) m"
  using coherent_shrinks [OF _ shrinks_remove] coherent_touch [of d c m k _ later]
  by (auto simp: GetByKey_def promoteLocked_def Let_def split: option.splits)

lemma coherent_Set:
  assumes "coherent d c m"
  shows "coherent d (exec_op visit (Op_Set now later latest k v tags ov) c) (spec_op d (Op_Set now later latest k v tags ov) m)"
proof -
  let ?s = "storeEntry now later k v tags ov c"
  have "coherent d ?s (spec_op d (Op_Set now later latest k v tags ov) m)"
    using assms ec_inv_store [of c now later k v tags ov]
    by (auto simp: coherent_def storeEntry_def Let_def entry_view_def neq_Nil_conv split: list.splits)
  then show ?thesis
    unfolding exec_op.simps cache_Set_def by (rule coherent_shrinks) (rule evictLocked_shrinks)
qed

lemma coherent_Tag:
  assumes "coherent d c m" and "visits visit"
  shows "coherent d (exec_op visit (Op_Tag tag) c) (spec_op d (Op_Tag tag) m)"
proof -
  let ?S = "case tagIndex c tag of None \<Rightarrow> {} | Some S \<Rightarrow> S"
  have inv: "ec_inv c" using assms(1) by (simp add: coherent_def)
  then have S: "?S = tagged c tag" by (simp add: ec_inv_def some_set_def)
  have "finite (tagged c tag)"
    using inv by (auto simp: ec_inv_def tagged_def elim!: rev_finite_subset)
  then have v: "distinct (visit ?S)" "set (visit ?S) = tagged c tag"
    using assms(2) S by (simp_all add: visits_def)
  then have eq: "exec_op visit (Op_Tag tag) c = fold removeEntryLocked (visit ?S) c"
    using InvalidateByTag_entries [OF inv v] by simp
  have "coherent d (fold removeEntryLocked (visit ?S) c) m"
    using assms(1) fold_remove_shrinks by (rule coherent_shrinks)
  moreover have "tag \<notin> set (ce_Tags e)" if "ec_entries (fold removeEntryLocked (visit ?S) c) k = Some e" for k e
    using that v(2) by (auto simp: fold_remove_entries restrict_map_def tagged_def split: if_splits)
  ultimately show ?thesis
    unfolding eq by (fastforce simp: coherent_def entry_view_def)
qed

lemma coherent_All: "coherent d c m \<Longrightarrow> coherent d (exec_op visit Op_All c) (spec_op d Op_All m)"
  by (simp add: coherent_def InvalidateAll_def ec_inv_def tagged_def some_set_def)

lemma coherent_op: "visits visit \<Longrightarrow> coherent d c m \<Longrightarrow> coherent d (exec_op visit op c) (spec_op d op m)"
  by (cases op) (auto simp only: coherent_Set coherent_Tag coherent_All exec_op.simps(1) spec_op.simps(1) intro: coherent_Get)

lemma applyOptions_inv: "ec_inv c \<Longrightarrow> ec_inv (fold applyOption opts c)"
proof (induction opts arbitrary: c)
  case (Cons opt opts)
  have "ec_inv (applyOption opt c)"
    using Cons.prems by (cases opt) (auto simp: ec_inv_def tagged_def)
  then show ?case using Cons.IH by simp
qed simp

lemma applyOptions_entries: "ec_entries (fold applyOption opts c) = ec_entries c"
proof (induction opts arbitrary: c)
  case (Cons opt opts)
  then show ?case by (cases opt) simp_all
qed simp

text \<open>The time to live that the options leave configured.\<close>

fun configured_ttl :: "duration \<Rightarrow> cache_option list \<Rightarrow> duration" where
  "configured_ttl d [] = d"
| "configured_ttl d (WithTTL t # opts) = configured_ttl (if t > 0 then t else d) opts"
| "configured_ttl d (WithCapacity n # opts) = configured_ttl d opts"

lemma applyOptions_ttl: "ec_ttl (fold applyOption opts c) = configured_ttl (ec_ttl c) opts"
  by (induction "ec_ttl c" opts arbitrary: c rule: configured_ttl.induct) auto

lemma NewCache_inv: "ec_inv (NewCache opts)"
  unfolding NewCache_def by (rule applyOptions_inv) (simp add: ec_inv_def tagged_def some_set_def defaultCapacity_def)

lemma NewCache_entries: "ec_entries (NewCache opts) = Map.empty"
  by (simp add: NewCache_def applyOptions_entries)

lemma coherent_New: "coherent (configured_ttl defaultTTL opts) (NewCache opts) Map.empty"
  by (simp add: coherent_def NewCache_inv NewCache_entries) (simp add: NewCache_def applyOptions_ttl)

lemma coherent_run:
  assumes "visits visit"
  shows "coherent (configured_ttl defaultTTL opts) (fold (exec_op visit) ops (NewCache opts))
    (fold (spec_op (configured_ttl defaultTTL opts)) ops Map.empty)"
  by (induction ops rule: rev_induct) (auto simp: coherent_New intro: coherent_op [OF assms])

text \<open>C9: A hit of the evaluation cache is never stale. After any sequence of lookups, stores and
  invalidations (also when a store panicked on the way), a lookup that hits returns the value of the
  last store under that key; that store has not expired, and since then neither the whole cache nor
  one of its tags was invalidated. In the abstract cache \<open>spec_op\<close> nothing is ever evicted.\<close>

theorem hit_is_last_write:
  assumes "visits visit"
    and "fst (GetByKey now later k (fold (exec_op visit) ops (NewCache opts))) = Some v"
  shows "\<exists>tags expires. fold (spec_op (configured_ttl defaultTTL opts)) ops Map.empty k = Some (v, tags, expires) \<and> now \<le> expires"
proof -
  let ?c = "fold (exec_op visit) ops (NewCache opts)"
  obtain e where e: "ec_entries ?c k = Some e" "now \<le> ce_ExpiresAt e" "v = ce_Value e"
    using assms(2) by (auto simp: GetByKey_def Let_def split: option.splits if_splits)
  then show ?thesis
    using coherent_run [OF assms(1), of opts ops] by (auto simp: coherent_def entry_view_def)
qed

text \<open>Invalidation by tag is exact. In any reachable state it removes the entries that carry the
  tag and no other, and returns their number, whatever the order in which Go visits them.\<close>

theorem InvalidateByTag_exact:
  assumes "visits visit" and "c = fold (exec_op visit) ops (NewCache opts)"
    and "distinct order" and "set order = (case tagIndex c tag of None \<Rightarrow> {} | Some S \<Rightarrow> S)"
  shows "fst (InvalidateByTag order tag c) = card {k. \<exists>e. ec_entries c k = Some e \<and> tag \<in> set (ce_Tags e)} \<and>
    ec_entries (snd (InvalidateByTag order tag c)) k =
      (case ec_entries c k of Some e \<Rightarrow> if tag \<in> set (ce_Tags e) then None else Some e | None \<Rightarrow> None)"
proof -
  have inv: "ec_inv c" using coherent_run [OF assms(1)] unfolding assms(2) coherent_def by blast
  then have S: "set order = tagged c tag" using assms(4) by (simp add: ec_inv_def some_set_def)
  show ?thesis
    using InvalidateByTag_entries [OF inv assms(3) S] S
    by (auto simp: fold_remove_entries restrict_map_def tagged_def split: option.splits)
qed

definition key_of :: "string \<Rightarrow> cacheKey" where
  "key_of s = \<lparr>ExprHash = s, ContextHash = []\<rparr>"

lemma one_stored:
  "ec_entries (fold (exec_op visit) [Op_Set 0 0 0 (key_of ''k'') (7 :: nat) [''t''] []] (NewCache [WithTTL 10])) (key_of ''k'') =
     Some \<lparr>ce_Value = 7, ce_Tags = [''t''], ce_ExpiresAt = 10, ce_LastAccess = 0\<rparr>"
  "tagIndex (fold (exec_op visit) [Op_Set 0 0 0 (key_of ''k'') (7 :: nat) [''t''] []] (NewCache [WithTTL 10])) ''t'' =
     Some {key_of ''k''}"
  by (simp_all add: cache_Set_def storeEntry_def NewCache_def evictLocked_def evictLoop.simps defaultCapacity_def addTag_def)

theorem hit_is_last_write_witness:
  "\<exists>tags expires. fold (spec_op (configured_ttl defaultTTL [WithTTL 10]))
     [Op_Set 0 0 0 (key_of ''k'') (7 :: nat) [''t''] []] Map.empty (key_of ''k'') = Some (7, tags, expires) \<and> 5 \<le> expires"
  by (rule hit_is_last_write [OF visits_some, where later = 5])
     (simp only: GetByKey_def one_stored, simp add: promoteLocked_def)

theorem InvalidateByTag_exact_witness:
  "ec_entries (snd (InvalidateByTag [key_of ''k''] ''t''
     (fold (exec_op (\<lambda>S. SOME xs. distinct xs \<and> set xs = S)) [Op_Set 0 0 0 (key_of ''k'') (7 :: nat) [''t''] []] (NewCache [WithTTL 10]))))
     (key_of ''k'') = None"
  using InvalidateByTag_exact [OF visits_some refl, of "[key_of ''k'']"
      "[Op_Set 0 0 0 (key_of ''k'') (7 :: nat) [''t''] []]" "[WithTTL 10]" "''t''" "key_of ''k''"]
  unfolding one_stored by simp

section \<open>The size of the cache\<close>

lemma shifted_last:
  assumes "take (length ao) arr = ao" and "ao' = ao \<or> length ao' < length ao"
  shows "length (ao' @ drop (length ao') arr) = length arr" "last (ao' @ drop (length ao') arr) = last arr"
proof -
  have "length ao \<le> length arr"
    using arg_cong [OF assms(1), of length] by simp
  moreover have "ao @ drop (length ao) arr = arr"
    using assms(1) append_take_drop_id [of "length ao" arr] by simp
  ultimately show "length (ao' @ drop (length ao') arr) = length arr" "last (ao' @ drop (length ao') arr) = last arr"
    using assms(2) by (auto simp: last_append)
qed

lemma removeEntry_order:
  "accessOrder (removeEntryLocked k c) = accessOrder c \<or> length (accessOrder (removeEntryLocked k c)) < length (accessOrder c)"
proof (cases "ec_entries c k \<noteq> None \<and> k \<in> set (accessOrder c)")
  case True
  then have "0 < length (accessOrder c)" by auto
  with True show ?thesis by (auto simp: removeEntryLocked_def length_remove1)
next
  case False
  then show ?thesis by (auto simp: removeEntryLocked_def remove1_idem split: option.splits)
qed

text \<open>
  Everything the scan keeps has a live entry, and the key in the last slot, the one just stored, is
  either kept or gone.
\<close>

definition live_at :: "instant \<Rightarrow> 'v Cache \<Rightarrow> cacheKey \<Rightarrow> bool" where
  "live_at now c k \<longleftrightarrow> (\<exists>e. ec_entries c k = Some e \<and> now \<le> ce_ExpiresAt e)"

lemma evictScan_keeps:
  assumes "evictScan todo now arr i c fresh = (c', Some fresh')" and "i + todo = length arr"
    and "take (length (accessOrder c)) arr = accessOrder c" and "\<forall>k \<in> set fresh. live_at now c k"
  shows "(\<forall>k \<in> set fresh'. live_at now c' k) \<and> set fresh \<subseteq> set fresh' \<and>
    (todo > 0 \<longrightarrow> last arr \<in> set fresh' \<or> ec_entries c' (last arr) = None)"
  using assms
proof (induction todo now arr i c fresh rule: evictScan.induct)
  case (2 todo now arr i c fresh)
  have last: "arr ! i = last arr" if "todo = 0"
    using "2.prems"(2) that by (metis One_nat_def add_diff_cancel_right' last_conv_nth length_0_conv add_is_0 zero_neq_one)
  obtain e where e: "ec_entries c (arr ! i) = Some e"
    using "2.prems"(1) by (auto split: option.splits)
  show ?case
  proof (cases "now > ce_ExpiresAt e")
    case False
    then have run: "evictScan todo now arr (i + 1) c (fresh @ [arr ! i]) = (c', Some fresh')"
      using "2.prems"(1) e by simp
    have "live_at now c (arr ! i)" using e False by (simp add: live_at_def)
    with "2.prems"(4) have "\<forall>k \<in> set (fresh @ [arr ! i]). live_at now c k" by auto
    from "2.IH"(2) [OF e False run _ "2.prems"(3) this] "2.prems"(2) last show ?thesis
      by (cases "todo = 0") auto
  next
    case True
    let ?c = "removeEntryLocked (arr ! i) c"
    let ?arr = "accessOrder ?c @ drop (length (accessOrder ?c)) arr"
    have run: "evictScan todo now ?arr (i + 1) (?c\<lparr>evicts := evicts ?c + 1\<rparr>) fresh = (c', Some fresh')"
      using "2.prems"(1) e True by (simp add: Let_def)
    have arr: "length ?arr = length arr" "last ?arr = last arr"
      using shifted_last [OF "2.prems"(3) removeEntry_order] by blast+
    have "live_at now (?c\<lparr>evicts := evicts ?c + 1\<rparr>) k" if "k \<in> set fresh" for k
      using "2.prems"(4) that e True by (auto simp: live_at_def)
    then have IH: "(\<forall>k \<in> set fresh'. live_at now c' k) \<and> set fresh \<subseteq> set fresh' \<and>
      (todo > 0 \<longrightarrow> last arr \<in> set fresh' \<or> ec_entries c' (last arr) = None)"
      using "2.IH"(1) [OF e True refl refl run] "2.prems"(2) arr by simp
    moreover have "ec_entries c' (last arr) = None" if "todo = 0"
      using run that last by auto
    ultimately show ?thesis by (cases "todo = 0") simp_all
  qed
qed simp

lemma evictLoop_bounded:
  assumes "evictLoop c = Returned c'" and "finite (dom (ec_entries c))" and "set (accessOrder c) \<subseteq> dom (ec_entries c)"
    and "int (card (dom (ec_entries c))) \<le> capacity c + (if accessOrder c = [] then 0 else 1)"
  shows "int (card (dom (ec_entries c'))) \<le> capacity c'"
proof (cases "int (card (dom (ec_entries c))) > capacity c \<and> length (accessOrder c) > 0")
  case False
  then have "evictLoop c = Returned c" by (subst evictLoop.simps) (rule if_not_P)
  with False assms show ?thesis by (auto split: if_splits)
next
  case True
  let ?k = "accessOrder c ! 0" and ?c = "removeEntryLocked (accessOrder c ! 0) c"
  let ?d = "?c\<lparr>accessOrder := drop 1 (accessOrder ?c), evicts := evicts ?c + 1\<rparr>"
  have "?k \<in> dom (ec_entries c)" using True assms(3) by (meson nth_mem subsetD)
  moreover from this have "0 < card (dom (ec_entries c))" using assms(2) card_gt_0_iff by blast
  ultimately have small: "int (card (dom (ec_entries ?d))) \<le> capacity ?d"
    using assms(2,4) True by (auto simp: of_nat_diff split: if_splits)
  then have "evictLoop ?d = Returned ?d" by (subst evictLoop.simps) simp
  moreover have "evictLoop c = evictLoop ?d"
    using True assms(1) by (subst evictLoop.simps, subst (asm) evictLoop.simps) (auto simp: Let_def split: if_splits)
  ultimately show ?thesis using assms(1) small by simp
qed

lemma shrinks_dom: "shrinks c c' \<Longrightarrow> dom (ec_entries c') \<subseteq> dom (ec_entries c)"
  by (simp add: shrinks_def map_le_implies_dom_le)

definition bounded :: "'v Cache \<Rightarrow> bool" where
  "bounded c \<longleftrightarrow> ec_inv c \<and> int (card (dom (ec_entries c))) \<le> capacity c"

lemma bounded_fewer:
  assumes "bounded c" and "shrinks c c'" shows "bounded c'"
proof -
  have "dom (ec_entries c') \<subseteq> dom (ec_entries c)" by (rule shrinks_dom [OF assms(2)])
  then have "card (dom (ec_entries c')) \<le> card (dom (ec_entries c))"
    using assms(1) by (intro card_mono) (auto simp: bounded_def ec_inv_def)
  with assms show ?thesis by (auto simp: bounded_def shrinks_def)
qed

lemma storeEntry_parts:
  "dom (ec_entries (storeEntry now later k v tags ov c)) = insert k (dom (ec_entries c))"
  "capacity (storeEntry now later k v tags ov c) = capacity c"
  "\<exists>ao. accessOrder (storeEntry now later k v tags ov c) = ao @ [k]"
  by (auto simp: storeEntry_def Let_def)

lemma bounded_Set:
  assumes "bounded c" and "cache_Set now later latest k v tags ov c = Returned c'"
  shows "bounded c'"
proof -
  let ?s = "storeEntry now later k v tags ov c"
  have inv: "ec_inv ?s" using assms(1) by (simp add: bounded_def ec_inv_store)
  obtain ao where ao: "accessOrder ?s = ao @ [k]" using storeEntry_parts(3) [of now later k v tags ov c] by (rule exE)
  obtain d fresh where scan: "evictScan (length (accessOrder ?s)) latest (accessOrder ?s) 0 ?s [] = (d, Some fresh)"
    and loop: "evictLoop (d\<lparr>accessOrder := fresh\<rparr>) = Returned c'"
    using assms(2) by (auto simp: cache_Set_def evictLocked_def split: prod.splits option.splits)
  have sh: "shrinks ?s d" using evictScan_shrinks [of ?s] scan by (metis fst_conv)
  have keeps: "\<forall>k \<in> set fresh. live_at latest d k" "k \<in> set fresh \<or> ec_entries d k = None"
    using evictScan_keeps [OF scan] ao by auto
  have domd: "dom (ec_entries d) \<subseteq> insert k (dom (ec_entries c))"
    using shrinks_dom [OF sh] unfolding storeEntry_parts(1) .
  have fin: "finite (dom (ec_entries c))" using assms(1) by (simp add: bounded_def ec_inv_def)
  have "card (dom (ec_entries d)) \<le> (if fresh = [] then card (dom (ec_entries c)) else card (dom (ec_entries c)) + 1)"
  proof (cases "k \<in> set fresh")
    case True
    have "card (dom (ec_entries d)) \<le> card (insert k (dom (ec_entries c)))"
      using domd fin by (intro card_mono) auto
    also have "\<dots> \<le> card (dom (ec_entries c)) + 1"
      using fin by (simp add: card_insert_if)
    finally show ?thesis using True by auto
  next
    case False
    then have "dom (ec_entries d) \<subseteq> dom (ec_entries c)" using keeps(2) domd by auto
    then have "card (dom (ec_entries d)) \<le> card (dom (ec_entries c))" using fin by (intro card_mono)
    then show ?thesis by simp
  qed
  moreover have "int (card (dom (ec_entries c))) \<le> capacity d"
    using assms(1) sh by (simp add: bounded_def shrinks_def storeEntry_parts(2))
  ultimately have "int (card (dom (ec_entries c'))) \<le> capacity c'"
    using fin domd keeps(1) by (intro evictLoop_bounded [OF loop]) (auto simp: live_at_def split: if_splits intro: rev_finite_subset)
  moreover have "shrinks ?s c'"
    using sh evictLoop_shrinks [of "d\<lparr>accessOrder := fresh\<rparr>"] loop shrinks_trans [of ?s "d\<lparr>accessOrder := fresh\<rparr>" c'] by simp
  ultimately show ?thesis using inv by (simp add: bounded_def shrinks_def)
qed

fun run_ok :: "(cacheKey set \<Rightarrow> cacheKey list) \<Rightarrow> 'v cache_op list \<Rightarrow> 'v Cache \<Rightarrow> 'v Cache option" where
  "run_ok visit [] c = Some c"
| "run_ok visit (Op_Set now later latest key v tags ov # ops) c =
     (case cache_Set now later latest key v tags ov c of Returned c \<Rightarrow> run_ok visit ops c | Panicked _ \<Rightarrow> None)"
| "run_ok visit (op # ops) c = run_ok visit ops (exec_op visit op c)"

lemma bounded_other:
  assumes "bounded c" and "\<not> (\<exists>now later latest k v tags ov. op = Op_Set now later latest k v tags ov)"
  shows "bounded (exec_op visit op c)"
proof (cases op)
  case (Op_Get now later k)
  show ?thesis
  proof (cases "ec_entries c k")
    case (Some e)
    then have "coherent (ec_ttl c) c (\<lambda>j. map_option entry_view (ec_entries c j))"
      using assms(1) by (simp add: coherent_def bounded_def)
    from coherent_touch [OF this Some]
    have "bounded (c\<lparr>ec_entries := (ec_entries c)(k \<mapsto> e\<lparr>ce_LastAccess := later\<rparr>)\<rparr>)"
      using assms(1) Some by (auto simp: bounded_def coherent_def insert_absorb domI)
    moreover have "bounded (removeEntryLocked k c)" using assms(1) shrinks_remove by (rule bounded_fewer)
    ultimately show ?thesis using Some Op_Get by (simp add: GetByKey_def promoteLocked_def Let_def bounded_def)
  qed (use assms(1) Op_Get in \<open>simp add: GetByKey_def bounded_def\<close>)
next
  case (Op_Tag tag)
  have "bounded (fold removeEntryLocked order c)" for order
    using assms(1) fold_remove_shrinks by (rule bounded_fewer)
  then show ?thesis
    using assms(1) Op_Tag by (auto simp: InvalidateByTag_def fold_remove split: option.splits)
next
  case Op_All
  then show ?thesis
    using assms(1) by (simp add: bounded_def InvalidateAll_def ec_inv_def tagged_def some_set_def)
qed (use assms(2) in blast)

lemma bounded_run: "bounded c \<Longrightarrow> run_ok visit ops c = Some c' \<Longrightarrow> bounded c'"
proof (induction visit ops c rule: run_ok.induct)
  case (2 visit now later latest key v tags ov ops c)
  then show ?case by (auto dest: bounded_Set split: outcome.splits)
qed (auto intro: bounded_other simp del: exec_op.simps)

lemma NewCache_capacity: "0 < capacity (NewCache opts)"
  by (rule NewCache_inv [unfolded ec_inv_def, THEN conjunct2, THEN conjunct1])

lemma bounded_New: "bounded (NewCache opts)"
  by (simp add: bounded_def NewCache_inv NewCache_entries less_imp_le [OF NewCache_capacity])

text \<open>The cache never outgrows its capacity: as long as no store panics, the number of entries
  is at most the configured capacity after every operation.\<close>

theorem cache_size_bounded:
  assumes "run_ok visit ops (NewCache opts) = Some c"
  shows "int (cs_Size (cache_Stats c)) \<le> cs_Capacity (cache_Stats c)"
proof -
  from bounded_run [OF bounded_New assms] show ?thesis by (simp add: bounded_def cache_Stats_def)
qed

theorem cache_size_bounded_witness:
  "int (cs_Size (cache_Stats (state (cache_Set 0 0 0 (key_of ''k'') (7 :: nat) [] [] (NewCache []))))) \<le>
   cs_Capacity (cache_Stats (state (cache_Set 0 0 0 (key_of ''k'') (7 :: nat) [] [] (NewCache []))))"
proof -
  let ?c = "state (cache_Set 0 0 0 (key_of ''k'') (7 :: nat) [] [] (NewCache []))"
  have "run_ok (\<lambda>_. []) [Op_Set 0 0 0 (key_of ''k'') (7 :: nat) [] []] (NewCache []) = Some ?c"
    by (simp add: cache_Set_def storeEntry_def NewCache_def evictLocked_def evictLoop.simps defaultCapacity_def defaultTTL_def)
  then show ?thesis by (rule cache_size_bounded)
qed

section \<open>The second pass of the eviction\<close>

text \<open>
  The state of a cache that has only seen stores under new keys, none of them expired at \<open>T\<close>:
  \<open>n\<close> entries, \<open>m\<close> of which are still listed in \<open>accessOrder\<close>.
\<close>

definition filled :: "duration \<Rightarrow> instant \<Rightarrow> nat \<Rightarrow> nat \<Rightarrow> 'v Cache \<Rightarrow> bool" where
  "filled d T n m c \<longleftrightarrow> ec_ttl c = d \<and> finite (dom (ec_entries c)) \<and> card (dom (ec_entries c)) = n \<and>
     length (accessOrder c) = m \<and> distinct (accessOrder c) \<and> set (accessOrder c) \<subseteq> dom (ec_entries c) \<and>
     (\<forall>k e. ec_entries c k = Some e \<longrightarrow> T \<le> ce_ExpiresAt e)"

lemma scan_nothing_expired:
  assumes "\<forall>j < length arr. live_at now c (arr ! j)" and "i + todo = length arr"
  shows "evictScan todo now arr i c fresh = (c, Some (fresh @ drop i arr))"
  using assms(2)
proof (induction todo arbitrary: i fresh)
  case (Suc todo)
  then have i: "i < length arr" by simp
  then obtain e where "ec_entries c (arr ! i) = Some e" "now \<le> ce_ExpiresAt e"
    using assms(1) by (auto simp: live_at_def)
  moreover have "drop i arr = arr ! i # drop (i + 1) arr" using i by (simp add: Cons_nth_drop_Suc)
  ultimately show ?case using Suc.IH [of "i + 1"] Suc.prems by simp
qed simp

lemma filled_store:
  assumes "filled d T n m c" and "k \<notin> dom (ec_entries c)" and "T \<le> now + d"
  shows "filled d T (n + 1) (m + 1) (storeEntry now later k v tags [] c)"
  using assms by (auto simp: filled_def storeEntry_def Let_def domIff)

lemma filled_evict:
  assumes "filled d T n m c" and "latest \<le> T"
  shows "evictLocked latest c = evictLoop c"
proof -
  have "live_at latest c (accessOrder c ! j)" if "j < length (accessOrder c)" for j
  proof -
    have "accessOrder c ! j \<in> dom (ec_entries c)"
      using assms(1) that unfolding filled_def by (meson nth_mem subsetD)
    then show ?thesis using assms unfolding filled_def live_at_def by (force simp: dom_def)
  qed
  then show ?thesis by (simp add: evictLocked_def scan_nothing_expired)
qed

text \<open>One store under a new key, in the three situations.\<close>

lemma Set_room:
  assumes "filled d T n m c" "k \<notin> dom (ec_entries c)" "T \<le> now + d" "latest \<le> T" "int n < capacity c"
  shows "\<exists>c'. cache_Set now later latest k v tags [] c = Returned c' \<and> filled d T (n + 1) (m + 1) c' \<and>
    capacity c' = capacity c \<and> dom (ec_entries c') \<subseteq> insert k (dom (ec_entries c))"
proof -
  let ?s = "storeEntry now later k v tags [] c"
  have f: "filled d T (n + 1) (m + 1) ?s" using assms(1-3) by (rule filled_store)
  then have "\<not> int (card (dom (ec_entries ?s))) > capacity ?s"
    using assms(5) by (simp add: filled_def storeEntry_parts(2))
  then have "evictLoop ?s = Returned ?s" by (subst evictLoop.simps) (meson if_not_P)
  with f show ?thesis
    by (intro exI [of _ ?s]) (simp add: cache_Set_def filled_evict [OF f assms(4)] storeEntry_parts)
qed

lemma Set_drops_two:
  assumes "filled d T n (Suc m) c" "k \<notin> dom (ec_entries c)" "T \<le> now + d" "latest \<le> T" "int n = capacity c"
  shows "\<exists>c'. cache_Set now later latest k v tags [] c = Returned c' \<and> filled d T n m c' \<and>
    capacity c' = capacity c \<and> dom (ec_entries c') \<subseteq> insert k (dom (ec_entries c))"
proof -
  let ?s = "storeEntry now later k v tags [] c"
  have f: "filled d T (n + 1) (Suc m + 1) ?s" using assms(1-3) by (rule filled_store)
  have over: "int (card (dom (ec_entries ?s))) > capacity ?s" "length (accessOrder ?s) = m + 2"
    using f assms(5) by (simp_all add: filled_def storeEntry_parts(2))
  then obtain h1 h2 rest where ao: "accessOrder ?s = h1 # h2 # rest" "length rest = m"
    by (metis length_Suc_conv numeral_2_eq_2 add_Suc_right add.right_neutral)
  have h1: "h1 \<in> dom (ec_entries ?s)" using f ao(1) unfolding filled_def by (metis list.set_intros(1) subsetD)
  let ?r = "removeEntryLocked h1 ?s"
  have r: "accessOrder ?r = h2 # rest" using h1 ao(1) by (auto simp: removeEntryLocked_def)
  let ?d = "?r\<lparr>accessOrder := drop 1 (accessOrder ?r), evicts := evicts ?r + 1\<rparr>"
  have fd: "filled d T n m ?d"
    using f ao h1 r by (auto simp: filled_def)
  then have "\<not> int (card (dom (ec_entries ?d))) > capacity ?d"
    using assms(5) by (simp add: filled_def storeEntry_parts(2))
  then have stop: "evictLoop ?d = Returned ?d" by (subst evictLoop.simps) (meson if_not_P)
  have "evictLoop ?s = evictLoop ?d"
    by (subst evictLoop.simps) (use over ao(1) r in \<open>simp add: Let_def\<close>)
  with stop fd show ?thesis
    by (intro exI [of _ ?d]) (auto simp: cache_Set_def filled_evict [OF f assms(4)] storeEntry_parts)
qed

lemma Set_panics:
  assumes "filled d T n 0 c" "k \<notin> dom (ec_entries c)" "T \<le> now + d" "latest \<le> T" "int n = capacity c"
  shows "\<exists>c'. cache_Set now later latest k v tags [] c = Panicked c'"
proof -
  let ?s = "storeEntry now later k v tags [] c"
  have f: "filled d T (n + 1) (0 + 1) ?s" using assms(1-3) by (rule filled_store)
  have over: "int (card (dom (ec_entries ?s))) > capacity ?s" "accessOrder ?s = [k]"
    using f assms(1,2,5) by (auto simp: filled_def storeEntry_parts(2) storeEntry_def Let_def)
  have "accessOrder (removeEntryLocked k ?s) = []"
    using over(2) by (auto simp: removeEntryLocked_def storeEntry_def Let_def)
  then have "evictLoop ?s = Panicked (removeEntryLocked k ?s)"
    by (subst evictLoop.simps) (use over in \<open>simp add: Let_def\<close>)
  then show ?thesis by (simp add: cache_Set_def filled_evict [OF f assms(4)])
qed

text \<open>A series of stores, each under its own key; it ends at the first panic.\<close>

type_synonym 'v store = "instant \<times> instant \<times> instant \<times> cacheKey \<times> 'v \<times> string list"

fun runStores :: "'v store list \<Rightarrow> 'v Cache \<Rightarrow> 'v outcome" where
  "runStores [] c = Returned c"
| "runStores ((now, later, latest, key, v, tags) # ss) c = (case cache_Set now later latest key v tags [] c of
     Returned c \<Rightarrow> runStores ss c | Panicked c \<Rightarrow> Panicked c)"

definition within :: "instant \<Rightarrow> duration \<Rightarrow> 'v store list \<Rightarrow> bool" where
  "within T d ss \<longleftrightarrow> (\<forall>(now, later, latest, key, v, tags) \<in> set ss. T \<le> now + d \<and> latest \<le> T)"

definition store_keys :: "'v store list \<Rightarrow> cacheKey list" where
  "store_keys = map (\<lambda>(now, later, latest, key, v, tags). key)"

lemma runStores_fill:
  assumes "within T d ss" "distinct (store_keys ss)" "set (store_keys ss) \<inter> dom (ec_entries c) = {}"
    and "filled d T n m c" "int (n + length ss) \<le> capacity c"
  shows "\<exists>c'. runStores ss c = Returned c' \<and> filled d T (n + length ss) (m + length ss) c' \<and> capacity c' = capacity c
    \<and> dom (ec_entries c') \<subseteq> set (store_keys ss) \<union> dom (ec_entries c)"
  using assms
proof (induction ss arbitrary: c n m)
  case (Cons s ss)
  obtain now later latest k v tags where s: "s = (now, later, latest, k, v, tags)" by (cases s)
  have ks: "store_keys (s # ss) = k # store_keys ss" by (simp add: store_keys_def s)
  have t: "T \<le> now + d" "latest \<le> T" and w: "within T d ss" using Cons.prems(1) by (auto simp: within_def s)
  have k: "k \<notin> dom (ec_entries c)" using Cons.prems(3) unfolding ks by auto
  obtain c1 where c1: "cache_Set now later latest k v tags [] c = Returned c1" "filled d T (n + 1) (m + 1) c1"
    "capacity c1 = capacity c" "dom (ec_entries c1) \<subseteq> insert k (dom (ec_entries c))"
    using Set_room [OF Cons.prems(4) k t, of later v tags] Cons.prems(5) by auto
  have "set (store_keys ss) \<inter> dom (ec_entries c1) = {}" using c1(4) Cons.prems(2,3) ks by auto
  from Cons.IH [OF w _ this c1(2)] Cons.prems(2,5) c1 ks s show ?case by fastforce
qed auto

lemma runStores_leak:
  assumes "within T d ss" "distinct (store_keys ss)" "set (store_keys ss) \<inter> dom (ec_entries c) = {}"
    and "filled d T n (m + length ss) c" "int n = capacity c"
  shows "\<exists>c'. runStores ss c = Returned c' \<and> filled d T n m c' \<and> capacity c' = capacity c
    \<and> dom (ec_entries c') \<subseteq> set (store_keys ss) \<union> dom (ec_entries c)"
  using assms
proof (induction ss arbitrary: c)
  case (Cons s ss)
  obtain now later latest k v tags where s: "s = (now, later, latest, k, v, tags)" by (cases s)
  have ks: "store_keys (s # ss) = k # store_keys ss" by (simp add: store_keys_def s)
  have t: "T \<le> now + d" "latest \<le> T" and w: "within T d ss" using Cons.prems(1) by (auto simp: within_def s)
  have k: "k \<notin> dom (ec_entries c)" using Cons.prems(3) unfolding ks by auto
  obtain c1 where c1: "cache_Set now later latest k v tags [] c = Returned c1" "filled d T n (m + length ss) c1"
    "capacity c1 = capacity c" "dom (ec_entries c1) \<subseteq> insert k (dom (ec_entries c))"
    using Set_drops_two [OF _ k t] Cons.prems(4,5) by fastforce
  have "set (store_keys ss) \<inter> dom (ec_entries c1) = {}" using c1(4) Cons.prems(2,3) ks by auto
  from Cons.IH [OF w _ this c1(2)] Cons.prems(2,5) c1 ks s show ?case by fastforce
qed auto

lemma runStores_append:
  "runStores (xs @ ys) c = (case runStores xs c of Returned c \<Rightarrow> runStores ys c | Panicked c \<Rightarrow> Panicked c)"
  by (induction xs c rule: runStores.induct) (auto split: outcome.splits)

lemma within_append: "within T d (xs @ ys) \<longleftrightarrow> within T d xs \<and> within T d ys"
  by (simp add: within_def ball_Un)

text \<open>C32: The second pass of the eviction removes one key too many from \<open>accessOrder\<close>: the removal of
  the entry already takes its key out, and \<open>accessOrder[1:]\<close> then drops the next key while its entry
  stays. A cache of capacity \<open>n\<close> therefore stores \<open>2 * n\<close> entries under different keys, and the store
  after that panics on the empty slice, although nothing has expired.\<close>

theorem store_panics_past_twice_capacity:
  assumes "0 < n" and "length ss = 2 * nat n" and "distinct (store_keys (ss @ [s]))"
    and "within T (configured_ttl defaultTTL opts) (ss @ [s])" and "opts = [WithCapacity n]"
  shows "(\<exists>c. runStores ss (NewCache opts) = Returned c) \<and> (\<exists>c. runStores (ss @ [s]) (NewCache opts) = Panicked c)"
proof -
  let ?d = "configured_ttl defaultTTL opts" and ?N = "nat n"
  obtain a b where ab: "ss = a @ b" "length a = ?N" "length b = ?N"
    using assms(2) by (metis append_take_drop_id length_take length_drop min.absorb2 mult_2 add_diff_cancel_left' le_add1)
  have keys: "store_keys (xs @ ys) = store_keys xs @ store_keys ys" for xs ys :: "'a store list"
    by (simp add: store_keys_def)
  have w: "within T ?d a" "within T ?d b" "within T ?d [s]" using assms(4) by (simp_all add: ab within_append)
  have dist: "distinct (store_keys a)" "distinct (store_keys b)" "set (store_keys a) \<inter> set (store_keys b) = {}"
    "set (store_keys [s]) \<inter> (set (store_keys a) \<union> set (store_keys b)) = {}"
    using assms(3) by (auto simp: ab keys)
  have new: "filled ?d T 0 0 (NewCache opts)" "capacity (NewCache opts) = n"
    using assms(1,5) by (simp_all add: NewCache_def filled_def)
  obtain c1 where c1: "runStores a (NewCache opts) = Returned c1" "filled ?d T ?N (0 + length b) c1" "capacity c1 = n"
    "dom (ec_entries c1) \<subseteq> set (store_keys a)"
    using runStores_fill [OF w(1) dist(1) _ new(1)] new(2) assms(1) ab by (auto simp: NewCache_entries)
  have "set (store_keys b) \<inter> dom (ec_entries c1) = {}" using dist(3) c1(4) by auto
  from runStores_leak [OF w(2) dist(2) this c1(2)] c1(3) assms(1)
  obtain c2 where c2: "runStores b c1 = Returned c2" "filled ?d T ?N 0 c2" "capacity c2 = n"
    "dom (ec_entries c2) \<subseteq> set (store_keys b) \<union> dom (ec_entries c1)" by auto
  obtain now later latest k v tags where s: "s = (now, later, latest, k, v, tags)" by (cases s)
  have "k \<notin> dom (ec_entries c2)" using dist(4) subsetD [OF c1(4)] subsetD [OF c2(4)]
    by (simp add: s store_keys_def) blast
  moreover have "T \<le> now + ?d" "latest \<le> T" using w(3) by (auto simp: within_def s)
  ultimately obtain c3 where "cache_Set now later latest k v tags [] c2 = Panicked c3"
    using Set_panics [OF c2(2)] c2(3) assms(1) by fastforce
  then show ?thesis using c1(1) c2(1) by (simp add: ab runStores_append s)
qed

theorem store_panics_past_twice_capacity_witness:
  "\<exists>c. runStores [(0, 0, 0, key_of ''a'', 1 :: nat, []), (1, 1, 1, key_of ''b'', 2, []), (2, 2, 2, key_of ''c'', 3, [])]
     (NewCache [WithCapacity 1]) = Panicked c"
  using store_panics_past_twice_capacity [of 1 "[(0, 0, 0, key_of ''a'', 1 :: nat, []), (1, 1, 1, key_of ''b'', 2, [])]"
      "(2, 2, 2, key_of ''c'', 3, [])" 5 "[WithCapacity 1]"]
  by (simp add: store_keys_def within_def key_of_def defaultTTL_def)

section \<open>The first pass of the eviction\<close>

definition expired_pair :: "nat store list" where
  "expired_pair = [(0, 0, 0, key_of ''a'', 1, []), (0, 0, 0, key_of ''b'', 2, []), (20, 20, 20, key_of ''c'', 3, [])]"

lemma expired_pair_state:
  "runStores expired_pair (NewCache [WithTTL 10]) = Returned
     \<lparr>ec_entries = [key_of ''b'' \<mapsto> \<lparr>ce_Value = 2, ce_Tags = [], ce_ExpiresAt = 10, ce_LastAccess = 0\<rparr>,
                    key_of ''c'' \<mapsto> \<lparr>ce_Value = 3, ce_Tags = [], ce_ExpiresAt = 30, ce_LastAccess = 20\<rparr>],
      accessOrder = [key_of ''c'', key_of ''c''], tagIndex = Map.empty, capacity = 10000, ec_ttl = 10,
      ec_hits = 0, ec_misses = 0, evicts = 1\<rparr>"
  by (simp add: expired_pair_def NewCache_def cache_Set_def storeEntry_def evictLocked_def evictLoop.simps
      removeEntryLocked_def key_of_def defaultCapacity_def Let_def fun_upd_twist)

text \<open>Two entries that expire together break the bookkeeping of \<open>evictLocked\<close>: the loop ranges over
  the slice that the removals shift. With \<open>a\<close> and \<open>b\<close> expired, a store of \<open>c\<close> removes \<open>a\<close>, skips \<open>b\<close>
  (which keeps its entry and leaves \<open>accessOrder\<close>) and lists \<open>c\<close> twice. Once \<open>c\<close> itself has expired and
  was looked up, the next store reads the expiry of a missing entry and panics.\<close>

theorem expired_pair_panics:
  "\<exists>c. runStores expired_pair (NewCache [WithTTL 10]) = Returned c \<and>
     ec_entries c (key_of ''b'') \<noteq> None \<and> accessOrder c = [key_of ''c'', key_of ''c''] \<and>
     fst (GetByKey 40 40 (key_of ''c'') c) = None \<and>
     (\<exists>c'. cache_Set 40 40 40 (key_of ''d'') 4 [] [] (snd (GetByKey 40 40 (key_of ''c'') c)) = Panicked c')"
  unfolding expired_pair_state outcome.inject ex_simps
  by (simp add: GetByKey_def cache_Set_def storeEntry_def evictLocked_def removeEntryLocked_def key_of_def Let_def)

section \<open>Keys\<close>

lemma sinkKey_mset: "mset (sinkKey before k after) = mset before + {#k#} + mset after"
  by (induction before k after rule: sinkKey.induct) auto

lemma sortKeys_mset: "mset (sortKeys done ks) = mset done + mset ks"
proof (induction "done" ks rule: sortKeys.induct)
  case (2 "done" k ks)
  then show ?case by (simp add: sinkKey_mset)
qed simp

lemma sinkKey_sorted:
  "sorted (rev before) \<Longrightarrow> sorted after \<Longrightarrow> \<forall>x \<in> set before. \<forall>y \<in> set after. x \<le> y \<Longrightarrow> \<forall>y \<in> set after. k \<le> y \<Longrightarrow>
   sorted (sinkKey before k after)"
  by (induction before k after rule: sinkKey.induct) (auto simp: sorted_append)

lemma sortKeys_sorted: "sorted done \<Longrightarrow> sorted (sortKeys done ks)"
  by (induction "done" ks rule: sortKeys.induct) (auto simp: sinkKey_sorted)

text \<open>The insertion sort sorts, and the hash does not depend on the order in which Go visits the map.\<close>

lemma sortKeys_sort: "sortKeys [] ks = sort ks"
  by (rule properties_for_sort [symmetric]) (simp_all add: sortKeys_mset sortKeys_sorted)

lemma HashContext_order:
  assumes "set order = dom ctx"
  shows "HashContext sha marshal order ctx = map_option sha (marshal ctx)"
proof -
  have "fold (\<lambda>k m. m(k := ctx k)) ks m j = (if j \<in> set ks then ctx j else m j)" for ks m j
    by (induction ks arbitrary: m) auto
  then have "fold (\<lambda>k m. m(k := ctx k)) (sort order) Map.empty = ctx"
    using assms by (auto simp: fun_eq_iff)
  then show ?thesis by (simp add: HashContext_def sortKeys_sort)
qed

end
