(* ===== verification/DecisionCache.thy ===== *)
theory DecisionCache
  imports Prelude
begin

text \<open>
  The bounded LRU cache of solver decisions (\<open>src/internal/symbolic/cache/cache.go\<close>). The elements of
  \<open>container/list\<close> are objects with an identity: \<open>lru\<close> lists them from front to back, \<open>elems\<close> holds
  their values and \<open>entries\<close> points into the list. SHA-256 is the parameter \<open>hash\<close>.
\<close>

section \<open>Decisions and the cache\<close>

text \<open>A model is an association list with distinct names; the nil model is \<open>None\<close>.\<close>

record Decision =
  d_Sat :: string
  d_Model :: "(string \<times> string) list option"
  d_UnsatCore :: "string list"

record cache_entry =
  e_hash :: string
  e_decision :: Decision

type_synonym elem = nat

record DCache =
  maxEntries :: int
  entries :: "string \<rightharpoonup> elem"
  lru :: "elem list"
  elems :: "elem \<rightharpoonup> cache_entry"
  next_elem :: elem
  hits :: u64
  misses :: u64
  evictions :: u64

definition DefaultMaxEntries :: int where
  "DefaultMaxEntries = 1000"

definition NewDCache :: "int \<Rightarrow> DCache" where
  "NewDCache n = \<lparr>maxEntries = (if n < 0 then DefaultMaxEntries else n), entries = Map.empty, lru = [],
     elems = Map.empty, next_elem = 0, hits = 0, misses = 0, evictions = 0\<rparr>"

text \<open>\<open>strconv.Atoi\<close>: an optional sign, then digits only, in the range of a 64-bit \<open>int\<close>.\<close>

definition Atoi :: "string \<Rightarrow> int option" where
  "Atoi s = (let (neg, ds) = (case s of c # r \<Rightarrow> if c = CHR ''-'' then (True, r) else if c = CHR ''+'' then (False, r) else (False, s)
                              | [] \<Rightarrow> (False, []));
       n = int (undigits ds); v = (if neg then - n else n)
     in if ds = [] \<or> (\<exists>c \<in> set ds. \<not> (48 \<le> (of_char c :: nat) \<and> (of_char c :: nat) \<le> 57)) \<or> v < - (2 ^ 63) \<or> 2 ^ 63 \<le> v
        then None else Some v)"

definition NewFromEnv :: "string option \<Rightarrow> DCache" where
  "NewFromEnv raw = NewDCache (case raw of None \<Rightarrow> DefaultMaxEntries
     | Some s \<Rightarrow> (case Atoi s of Some n \<Rightarrow> if n \<ge> 0 then n else DefaultMaxEntries | None \<Rightarrow> DefaultMaxEntries))"

text \<open>A fresh copy of the slice and of the map: the same value.\<close>

definition cloneDecision :: "Decision \<Rightarrow> Decision" where
  "cloneDecision d = \<lparr>d_Sat = d_Sat d, d_Model = map_option (map (\<lambda>(key, value). (key, value))) (d_Model d), d_UnsatCore = [] @ d_UnsatCore d\<rparr>"

text \<open>\<open>container/list\<close>: the operations the cache uses.\<close>

definition MoveToFront :: "elem \<Rightarrow> DCache \<Rightarrow> DCache" where
  "MoveToFront e c = c\<lparr>lru := e # remove1 e (lru c)\<rparr>"

definition PushFront :: "cache_entry \<Rightarrow> DCache \<Rightarrow> elem \<times> DCache" where
  "PushFront v c = (let e = next_elem c in
     (e, c\<lparr>lru := e # lru c, elems := (elems c)(e \<mapsto> v), next_elem := e + 1\<rparr>))"

definition list_Remove :: "elem \<Rightarrow> DCache \<Rightarrow> DCache" where
  "list_Remove e c = c\<lparr>lru := remove1 e (lru c), elems := (elems c)(e := None)\<rparr>"

definition GetByHash :: "string \<Rightarrow> DCache \<Rightarrow> Decision option \<times> DCache" where
  "GetByHash h c = (case entries c h of
     None \<Rightarrow> (None, c\<lparr>misses := misses c + 1\<rparr>)
   | Some e \<Rightarrow> (let c = MoveToFront e c; c = c\<lparr>hits := hits c + 1\<rparr> in
       (Some (cloneDecision (e_decision (the (elems c e)))), c)))"

definition SetByHash :: "string \<Rightarrow> Decision \<Rightarrow> DCache \<Rightarrow> DCache" where
  "SetByHash h d c =
     (if maxEntries c = 0 then c
      else case entries c h of
        Some e \<Rightarrow> MoveToFront e (c\<lparr>elems := (elems c)(e \<mapsto> \<lparr>e_hash = h, e_decision = cloneDecision d\<rparr>)\<rparr>)
      | None \<Rightarrow> (let (e, c) = PushFront \<lparr>e_hash = h, e_decision = cloneDecision d\<rparr> c;
                    c = c\<lparr>entries := (entries c)(h \<mapsto> e)\<rparr>
          in if int (length (lru c)) \<le> maxEntries c then c
             else let oldest = last (lru c); oldEntry = the (elems c oldest);
                      c = c\<lparr>entries := (entries c)(e_hash oldEntry := None)\<rparr>;
                      c = list_Remove oldest c
                  in c\<lparr>evictions := evictions c + 1\<rparr>))"

definition dcache_Get :: "(string \<Rightarrow> string) \<Rightarrow> string \<Rightarrow> DCache \<Rightarrow> Decision option \<times> DCache" where
  "dcache_Get hash assertions c = GetByHash (hash assertions) c"

definition dcache_Set :: "(string \<Rightarrow> string) \<Rightarrow> string \<Rightarrow> Decision \<Rightarrow> DCache \<Rightarrow> DCache" where
  "dcache_Set hash assertions d c = SetByHash (hash assertions) d c"

record DStats =
  st_Entries :: nat
  st_MaxEntries :: int
  st_Hits :: u64
  st_Misses :: u64
  st_Evictions :: u64

definition dcache_Stats :: "DCache \<Rightarrow> DStats" where
  "dcache_Stats c = \<lparr>st_Entries = card (dom (entries c)), st_MaxEntries = maxEntries c, st_Hits = hits c,
     st_Misses = misses c, st_Evictions = evictions c\<rparr>"

section \<open>The invariant\<close>

text \<open>
  The map and the list hold the same elements: a hash points to the one element of the list that has
  it. An element that is not in the list is not live, and there are at most \<open>maxEntries\<close>.
\<close>

definition dcache_inv :: "DCache \<Rightarrow> bool" where
  "dcache_inv c \<longleftrightarrow> distinct (lru c) \<and> (\<forall>e \<in> set (lru c). e < next_elem c) \<and> 0 \<le> maxEntries c \<and>
     int (length (lru c)) \<le> maxEntries c \<and>
     (\<forall>e \<in> set (lru c). \<exists>v. elems c e = Some v \<and> entries c (e_hash v) = Some e) \<and>
     (\<forall>h e. entries c h = Some e \<longrightarrow> e \<in> set (lru c) \<and> (\<exists>d. elems c e = Some \<lparr>e_hash = h, e_decision = d\<rparr>))"

lemma cloneDecision_id [simp]: "cloneDecision d = d"
  by (simp add: cloneDecision_def option.map_id)

lemma dcache_inv_New: "dcache_inv (NewDCache n)"
  by (simp add: dcache_inv_def NewDCache_def DefaultMaxEntries_def)

lemma dcache_elem:
  assumes "dcache_inv c" "e \<in> set (lru c)"
  shows "entries c h = Some e \<longleftrightarrow> e_hash (the (elems c e)) = h"
  using assms by (force simp: dcache_inv_def)

lemma dcache_entry:
  assumes "dcache_inv c" "entries c h = Some e"
  shows "e \<in> set (lru c)" "elems c e = Some \<lparr>e_hash = h, e_decision = e_decision (the (elems c e))\<rparr>"
  using assms by (force simp: dcache_inv_def)+

lemma dcache_inv_MoveToFront:
  assumes "dcache_inv c" "e \<in> set (lru c)" shows "dcache_inv (MoveToFront e c)"
proof -
  have "length (remove1 e (lru c)) = length (lru c) - 1" "length (lru c) > 0"
    using assms(2) by (auto simp: length_remove1)
  then have "length (e # remove1 e (lru c)) = length (lru c)" by simp
  moreover have "set (e # remove1 e (lru c)) = set (lru c)" "distinct (e # remove1 e (lru c))"
    using assms by (auto simp: dcache_inv_def)
  ultimately show ?thesis
    using assms(1) unfolding dcache_inv_def MoveToFront_def by (simp del: set_remove1_eq)
qed

lemma dcache_inv_GetByHash: "dcache_inv c \<Longrightarrow> dcache_inv (snd (GetByHash h c))"
proof -
  assume inv: "dcache_inv c"
  have irrelevant: "dcache_inv (c'\<lparr>hits := a\<rparr>) = dcache_inv c'" "dcache_inv (c'\<lparr>misses := b\<rparr>) = dcache_inv c'" for c' a b
    by (simp_all add: dcache_inv_def)
  show ?thesis
  proof (cases "entries c h")
    case None
    then show ?thesis using inv by (simp add: GetByHash_def irrelevant)
  next
    case (Some e)
    then show ?thesis
      using dcache_inv_MoveToFront [OF inv dcache_entry(1) [OF inv Some]] by (simp add: GetByHash_def Let_def irrelevant)
  qed
qed

lemma dcache_inv_update:
  assumes "dcache_inv c" "entries c h = Some e"
  shows "dcache_inv (c\<lparr>elems := (elems c)(e \<mapsto> \<lparr>e_hash = h, e_decision = d\<rparr>)\<rparr>)"
proof -
  have "entries c h' = Some e \<longleftrightarrow> h' = h" for h'
    using dcache_entry [OF assms(1)] assms(2) by (metis cache_entry.ext_inject option.inject)
  with assms show ?thesis by (auto simp: dcache_inv_def)
qed

text \<open>Insertion of a new hash, before the check of the capacity.\<close>

definition insert_new :: "string \<Rightarrow> Decision \<Rightarrow> DCache \<Rightarrow> DCache" where
  "insert_new h d c = c\<lparr>lru := next_elem c # lru c, elems := (elems c)(next_elem c \<mapsto> \<lparr>e_hash = h, e_decision = d\<rparr>),
     next_elem := next_elem c + 1, entries := (entries c)(h \<mapsto> next_elem c)\<rparr>"

definition drop_oldest :: "DCache \<Rightarrow> DCache" where
  "drop_oldest c = c\<lparr>lru := remove1 (last (lru c)) (lru c), elems := (elems c)(last (lru c) := None),
     entries := (entries c)(e_hash (the (elems c (last (lru c)))) := None), evictions := evictions c + 1\<rparr>"

lemma SetByHash_cases:
  "SetByHash h d c =
     (if maxEntries c = 0 then c else case entries c h of
        Some e \<Rightarrow> MoveToFront e (c\<lparr>elems := (elems c)(e \<mapsto> \<lparr>e_hash = h, e_decision = d\<rparr>)\<rparr>)
      | None \<Rightarrow> if int (length (lru c)) + 1 \<le> maxEntries c then insert_new h d c else drop_oldest (insert_new h d c))"
  by (simp add: SetByHash_def PushFront_def insert_new_def drop_oldest_def list_Remove_def Let_def add.commute split: option.split)

definition loose_inv :: "DCache \<Rightarrow> bool" where
  "loose_inv c \<longleftrightarrow> dcache_inv (c\<lparr>maxEntries := int (length (lru c))\<rparr>)"

lemma loose_inv_insert_new:
  assumes "dcache_inv c" "entries c h = None" shows "loose_inv (insert_new h d c)"
proof -
  let ?n = "next_elem c" and ?v = "\<lparr>e_hash = h, e_decision = d\<rparr>"
  have L: "distinct (lru c)" "\<forall>e \<in> set (lru c). e < next_elem c"
    "\<forall>e \<in> set (lru c). \<exists>v. elems c e = Some v \<and> entries c (e_hash v) = Some e"
    "\<forall>h e. entries c h = Some e \<longrightarrow> e \<in> set (lru c) \<and> (\<exists>d. elems c e = Some \<lparr>e_hash = h, e_decision = d\<rparr>)"
    using assms(1) by (simp_all add: dcache_inv_def)
  have fresh: "?n \<notin> set (lru c)" using L(2) by auto
  have 1: "\<exists>v. ((elems c)(?n \<mapsto> ?v)) e = Some v \<and> ((entries c)(h \<mapsto> ?n)) (e_hash v) = Some e"
    if e: "e \<in> set (?n # lru c)" for e
  proof (cases "e = ?n")
    case False
    then obtain v where "elems c e = Some v" "entries c (e_hash v) = Some e" using L(3) e by auto
    moreover from this(2) assms(2) have "e_hash v \<noteq> h" by auto
    ultimately show ?thesis using False by simp
  qed simp
  have 2: "e \<in> set (?n # lru c) \<and> (\<exists>d. ((elems c)(?n \<mapsto> ?v)) e = Some \<lparr>e_hash = h', e_decision = d\<rparr>)"
    if "((entries c)(h \<mapsto> ?n)) h' = Some e" for h' e
  proof (cases "h' = h")
    case False
    then have "e \<in> set (lru c) \<and> (\<exists>d. elems c e = Some \<lparr>e_hash = h', e_decision = d\<rparr>)"
      using L(4) that by simp
    moreover from this fresh have "e \<noteq> ?n" by auto
    ultimately show ?thesis by simp
  qed (use that in simp)
  have 3: "distinct (?n # lru c)" "\<forall>e \<in> set (?n # lru c). e < Suc ?n"
    using L(1,2) fresh by (auto simp: less_Suc_eq)
  show ?thesis
    unfolding loose_inv_def dcache_inv_def insert_new_def using 1 2 3 by simp
qed

lemma loose_inv_drop_oldest:
  assumes "loose_inv c" "lru c \<noteq> []" shows "loose_inv (drop_oldest c)"
proof -
  let ?o = "last (lru c)"
  have o: "?o \<in> set (lru c)" using assms(2) by simp
  have uniq: "entries c h = Some e \<longleftrightarrow> e_hash (the (elems c e)) = h" if "e \<in> set (lru c)" for h e
    using dcache_elem [of "c\<lparr>maxEntries := int (length (lru c))\<rparr>" e h] assms(1) that by (simp add: loose_inv_def)
  have keep: "e_hash (the (elems c e)) \<noteq> e_hash (the (elems c ?o))" if "e \<in> set (lru c)" "e \<noteq> ?o" for e
    using uniq [OF that(1), of "e_hash (the (elems c ?o))"] uniq [OF o, of "e_hash (the (elems c ?o))"] that(2) by simp
  have pts: "e \<noteq> ?o" if "entries c h = Some e" "h \<noteq> e_hash (the (elems c ?o))" for h e
    using that uniq [OF o, of h] by auto
  have L: "distinct (lru c)" "\<forall>e \<in> set (lru c). e < next_elem c"
    "\<forall>e \<in> set (lru c). \<exists>v. elems c e = Some v \<and> entries c (e_hash v) = Some e"
    "\<forall>h e. entries c h = Some e \<longrightarrow> e \<in> set (lru c) \<and> (\<exists>d. elems c e = Some \<lparr>e_hash = h, e_decision = d\<rparr>)"
    using assms(1) by (simp_all add: loose_inv_def dcache_inv_def)
  have 1: "\<exists>v. ((elems c)(?o := None)) e = Some v \<and> ((entries c)(e_hash (the (elems c ?o)) := None)) (e_hash v) = Some e"
    if e: "e \<in> set (lru c) - {?o}" for e
  proof -
    obtain v where "elems c e = Some v" "entries c (e_hash v) = Some e" using L(3) e by auto
    then show ?thesis using keep [of e] e by simp
  qed
  have 2: "e \<in> set (lru c) - {?o} \<and> (\<exists>d. ((elems c)(?o := None)) e = Some \<lparr>e_hash = h, e_decision = d\<rparr>)"
    if "((entries c)(e_hash (the (elems c ?o)) := None)) h = Some e" for h e
    using that L(4) pts [of h e] by (auto split: if_splits)
  show ?thesis
    unfolding loose_inv_def dcache_inv_def drop_oldest_def using 1 2 L(1,2,4) by simp
qed

lemma dcache_inv_capacity:
  "loose_inv c \<Longrightarrow> int (length (lru c)) \<le> maxEntries c \<Longrightarrow> dcache_inv c"
  by (simp add: loose_inv_def dcache_inv_def)

lemma dcache_inv_SetByHash:
  assumes "dcache_inv c" shows "dcache_inv (SetByHash h d c)"
proof (cases "maxEntries c = 0")
  case True
  with assms show ?thesis by (simp add: SetByHash_cases)
next
  case False
  show ?thesis
  proof (cases "entries c h")
    case (Some e)
    have "e \<in> set (lru (c\<lparr>elems := (elems c)(e \<mapsto> \<lparr>e_hash = h, e_decision = d\<rparr>)\<rparr>))"
      using dcache_entry(1) [OF assms Some] by simp
    from dcache_inv_MoveToFront [OF dcache_inv_update [OF assms Some] this]
    show ?thesis using False Some by (simp add: SetByHash_cases)
  next
    case None
    note ins = loose_inv_insert_new [OF assms None, of d]
    have len: "int (length (lru c)) \<le> maxEntries c" using assms by (simp add: dcache_inv_def)
    have ne: "lru (insert_new h d c) \<noteq> []" by (simp add: insert_new_def)
    have len_drop: "length (lru (drop_oldest (insert_new h d c))) = length (lru c)"
      using ne by (simp add: drop_oldest_def length_remove1 insert_new_def)
    have "maxEntries (drop_oldest (insert_new h d c)) = maxEntries c" "maxEntries (insert_new h d c) = maxEntries c"
      by (simp_all add: drop_oldest_def insert_new_def)
    then have "dcache_inv (drop_oldest (insert_new h d c))"
      and "int (length (lru c)) + 1 \<le> maxEntries c \<Longrightarrow> dcache_inv (insert_new h d c)"
      using dcache_inv_capacity [OF loose_inv_drop_oldest [OF ins ne]] dcache_inv_capacity [OF ins] len len_drop
      by (simp_all add: insert_new_def)
    then show ?thesis using False None by (simp add: SetByHash_cases)
  qed
qed

section \<open>Refinement to an abstract LRU list\<close>

text \<open>The specification: the pairs of a hash and its decision, the most recently used first.\<close>

type_synonym lru_spec = "(string \<times> Decision) list"

definition spec_touch :: "string \<Rightarrow> lru_spec \<Rightarrow> lru_spec" where
  "spec_touch h xs = (case map_of xs h of None \<Rightarrow> xs | Some d \<Rightarrow> (h, d) # filter (\<lambda>p. fst p \<noteq> h) xs)"

definition spec_put :: "nat \<Rightarrow> string \<Rightarrow> Decision \<Rightarrow> lru_spec \<Rightarrow> lru_spec" where
  "spec_put n h d xs = take n ((h, d) # filter (\<lambda>p. fst p \<noteq> h) xs)"

definition absl :: "DCache \<Rightarrow> lru_spec" where
  "absl c = map (\<lambda>e. (e_hash (the (elems c e)), e_decision (the (elems c e)))) (lru c)"

lemma absl_filter:
  assumes "dcache_inv c"
  shows "filter (\<lambda>p. fst p \<noteq> h) (absl c) =
    map (\<lambda>e. (e_hash (the (elems c e)), e_decision (the (elems c e)))) (filter (\<lambda>e. entries c h \<noteq> Some e) (lru c))"
  using dcache_elem [OF assms] by (auto simp: absl_def filter_map o_def intro!: arg_cong2 [of _ _ _ _ map] filter_cong)

lemma absl_distinct: "dcache_inv c \<Longrightarrow> distinct (map fst (absl c))"
proof -
  assume inv: "dcache_inv c"
  have "inj_on (\<lambda>e. e_hash (the (elems c e))) (set (lru c))"
    by (rule inj_onI) (metis dcache_elem [OF inv] option.inject)
  then show ?thesis using inv by (simp add: absl_def o_def distinct_map dcache_inv_def)
qed

lemma absl_member:
  assumes "dcache_inv c" "entries c h = Some e"
  shows "(h, e_decision (the (elems c e))) \<in> set (absl c)"
proof -
  have e: "e \<in> set (lru c)" by (rule dcache_entry(1) [OF assms])
  then have "e_hash (the (elems c e)) = h" using dcache_elem [OF assms(1)] assms(2) by blast
  with e show ?thesis by (force simp: absl_def)
qed

lemma absl_lookup:
  assumes "dcache_inv c"
  shows "map_of (absl c) h = map_option (\<lambda>e. e_decision (the (elems c e))) (entries c h)"
proof (cases "entries c h")
  case None
  have "h \<notin> fst ` set (absl c)"
  proof
    assume "h \<in> fst ` set (absl c)"
    then obtain e where "e \<in> set (lru c)" "h = e_hash (the (elems c e))" by (auto simp: absl_def)
    with dcache_elem [OF assms, of e h] None show False by simp
  qed
  then show ?thesis using None by (simp add: map_of_eq_None_iff)
next
  case (Some e)
  from map_of_is_SomeI [OF absl_distinct [OF assms] absl_member [OF assms Some]] show ?thesis using Some by simp
qed

lemma absl_MoveToFront:
  assumes "dcache_inv c" "entries c h = Some e"
  shows "absl (MoveToFront e c) = (h, e_decision (the (elems c e))) # filter (\<lambda>p. fst p \<noteq> h) (absl c)"
proof -
  have "remove1 e (lru c) = filter (\<lambda>e'. entries c h \<noteq> Some e') (lru c)"
    using assms by (auto simp: dcache_inv_def distinct_remove1_removeAll removeAll_filter_not_eq intro!: filter_cong)
  moreover have "e_hash (the (elems c e)) = h"
    using dcache_elem [OF assms(1) dcache_entry(1) [OF assms], of h] assms(2) by simp
  ultimately show ?thesis
    unfolding absl_filter [OF assms(1)] by (simp add: absl_def MoveToFront_def)
qed

lemma GetByHash_refines:
  assumes "dcache_inv c"
  shows "fst (GetByHash h c) = map_of (absl c) h" and "absl (snd (GetByHash h c)) = spec_touch h (absl c)"
proof -
  have irrelevant: "absl (c'\<lparr>hits := a\<rparr>) = absl c'" "absl (c'\<lparr>misses := b\<rparr>) = absl c'" for c' a b
    by (simp_all add: absl_def)
  show "fst (GetByHash h c) = map_of (absl c) h"
    by (auto simp: absl_lookup [OF assms] GetByHash_def Let_def MoveToFront_def split: option.split)
  show "absl (snd (GetByHash h c)) = spec_touch h (absl c)"
    using absl_MoveToFront [OF assms, of h]
    by (auto simp: spec_touch_def absl_lookup [OF assms] GetByHash_def Let_def irrelevant split: option.split)
qed

lemma absl_insert_new:
  assumes "dcache_inv c" "entries c h = None"
  shows "absl (insert_new h d c) = (h, d) # absl c"
  using assms by (auto simp: absl_def insert_new_def dcache_inv_def)

lemma absl_drop_oldest:
  assumes "distinct (lru c)" "lru c \<noteq> []"
  shows "absl (drop_oldest c) = butlast (absl c)"
proof -
  have "remove1 (last (lru c)) (lru c) = butlast (lru c)" "last (lru c) \<notin> set (butlast (lru c))"
  proof -
    obtain xs x where "lru c = xs @ [x]" using assms(2) by (metis rev_exhaust)
    then show "remove1 (last (lru c)) (lru c) = butlast (lru c)" "last (lru c) \<notin> set (butlast (lru c))"
      using assms(1) by (simp_all add: remove1_append)
  qed
  then show ?thesis by (auto simp: absl_def drop_oldest_def map_butlast [symmetric])
qed

lemma SetByHash_refines:
  assumes "dcache_inv c"
  shows "absl (SetByHash h d c) = spec_put (nat (maxEntries c)) h d (absl c)"
proof (cases "maxEntries c = 0")
  case True
  then have "lru c = []" using assms by (simp add: dcache_inv_def)
  with True show ?thesis by (simp add: SetByHash_cases spec_put_def absl_def)
next
  case False
  have len: "length (absl c) \<le> nat (maxEntries c)" "length (lru c) = length (absl c)"
    using assms by (auto simp: dcache_inv_def absl_def)
  show ?thesis
  proof (cases "entries c h")
    case (Some e)
    let ?c = "c\<lparr>elems := (elems c)(e \<mapsto> \<lparr>e_hash = h, e_decision = d\<rparr>)\<rparr>"
    have inv: "dcache_inv ?c" by (rule dcache_inv_update [OF assms Some])
    have "filter (\<lambda>p. fst p \<noteq> h) (absl ?c) = filter (\<lambda>p. fst p \<noteq> h) (absl c)"
      unfolding absl_filter [OF inv] absl_filter [OF assms] using Some by (auto intro!: map_cong)
    then have eq: "absl (SetByHash h d c) = (h, d) # filter (\<lambda>p. fst p \<noteq> h) (absl c)"
      using absl_MoveToFront [OF inv, of h e] False Some by (simp add: SetByHash_cases)
    have "length (filter (\<lambda>p. fst p \<noteq> h) (absl c)) < length (absl c)"
      by (rule length_filter_less [of "(h, e_decision (the (elems c e)))"])
        (simp_all add: absl_member [OF assms Some])
    with eq len show ?thesis by (simp add: spec_put_def)
  next
    case None
    have "filter (\<lambda>p. fst p \<noteq> h) (absl c) = absl c"
      using None unfolding absl_filter [OF assms] by (simp add: absl_def)
    moreover have "absl (drop_oldest (insert_new h d c)) = butlast ((h, d) # absl c)"
      using loose_inv_insert_new [OF assms None, of d] absl_insert_new [OF assms None, of d]
      by (subst absl_drop_oldest) (auto simp: loose_inv_def dcache_inv_def insert_new_def)
    moreover have "take (nat (maxEntries c)) ((h, d) # absl c) =
      (if int (length (lru c)) + 1 \<le> maxEntries c then (h, d) # absl c else butlast ((h, d) # absl c))"
    proof (cases "int (length (lru c)) + 1 \<le> maxEntries c")
      case True
      then have "length ((h, d) # absl c) \<le> nat (maxEntries c)" using len(2) by simp
      with True show ?thesis by simp
    next
      case full: False
      then have "nat (maxEntries c) = length (absl c)" using len by linarith
      with full show ?thesis by (simp only: butlast_conv_take) simp
    qed
    ultimately show ?thesis
      using False None absl_insert_new [OF assms None] by (simp add: SetByHash_cases spec_put_def)
  qed
qed

datatype dcache_op = OpGet string | OpSet string Decision

fun dcache_exec :: "dcache_op \<Rightarrow> DCache \<Rightarrow> DCache" where
  "dcache_exec (OpGet h) c = snd (GetByHash h c)"
| "dcache_exec (OpSet h d) c = SetByHash h d c"

fun spec_exec :: "nat \<Rightarrow> dcache_op \<Rightarrow> lru_spec \<Rightarrow> lru_spec" where
  "spec_exec n (OpGet h) xs = spec_touch h xs"
| "spec_exec n (OpSet h d) xs = spec_put n h d xs"

interpretation decision_cache: operation_system "NewDCache n" dcache_exec dcache_inv for n
proof unfold_locales
  show "dcache_inv (NewDCache n)" by (rule dcache_inv_New)
  show "dcache_inv (dcache_exec op c)" if "dcache_inv c" for op c
    by (cases op) (use that in \<open>auto intro: dcache_inv_GetByHash dcache_inv_SetByHash\<close>)
qed

lemma dcache_maxEntries: "maxEntries (dcache_exec op c) = maxEntries c"
  by (cases op)
    (auto simp: SetByHash_cases GetByHash_def Let_def MoveToFront_def insert_new_def drop_oldest_def split: option.split)

lemma run_dcache_maxEntries: "maxEntries (fold dcache_exec ops c) = maxEntries c"
  by (induction ops arbitrary: c) (simp_all add: dcache_maxEntries)

lemma dcache_exec_refines:
  assumes "dcache_inv c" shows "absl (dcache_exec op c) = spec_exec (nat (maxEntries c)) op (absl c)"
  by (cases op) (simp_all add: GetByHash_refines(2) [OF assms] SetByHash_refines [OF assms])

lemma run_dcache_refines:
  "dcache_inv c \<Longrightarrow> absl (fold dcache_exec ops c) = fold (spec_exec (nat (maxEntries c))) ops (absl c)"
proof (induction ops arbitrary: c)
  case (Cons op ops)
  from Cons.IH [OF decision_cache.invar_exec [OF Cons.prems]] show ?case
    by (simp add: dcache_exec_refines [OF Cons.prems] dcache_maxEntries)
qed simp

text \<open>C40: a cache created for \<open>n\<close> entries implements the list specification under every sequence of calls:
  the next lookup returns what the most-recently-used list holds, and there are never more than \<open>n\<close> entries.\<close>

theorem dcache_refines_lru:
  assumes "0 \<le> n" and "c = fold dcache_exec ops (NewDCache n)"
  shows "absl c = fold (spec_exec (nat n)) ops [] \<and>
    fst (GetByHash h c) = map_of (fold (spec_exec (nat n)) ops []) h \<and>
    int (st_Entries (dcache_Stats c)) \<le> n"
proof -
  have inv: "dcache_inv c" unfolding assms(2) by (rule decision_cache.invar_run)
  have start: "maxEntries (NewDCache n) = n" "absl (NewDCache n) = []"
    using assms(1) by (simp_all add: NewDCache_def absl_def)
  have abs: "absl c = fold (spec_exec (nat n)) ops []"
    using run_dcache_refines [OF dcache_inv_New, of ops n] assms(2) start by simp
  have "dom (entries c) \<subseteq> set (map (\<lambda>e. e_hash (the (elems c e))) (lru c))"
  proof
    fix k assume "k \<in> dom (entries c)"
    then obtain e where e: "entries c k = Some e" by blast
    from dcache_entry(1) [OF inv e] this dcache_elem [OF inv] show "k \<in> set (map (\<lambda>e. e_hash (the (elems c e))) (lru c))"
      by force
  qed
  from card_mono [OF _ this] card_length [of "map (\<lambda>e. e_hash (the (elems c e))) (lru c)"]
  have "card (dom (entries c)) \<le> length (lru c)" by simp
  moreover have "int (length (lru c)) \<le> n"
    using inv run_dcache_maxEntries [of ops "NewDCache n"] assms(2) start by (simp add: dcache_inv_def)
  ultimately show ?thesis
    using abs GetByHash_refines(1) [OF inv, of h] by (simp add: dcache_Stats_def)
qed

definition sat_decision :: Decision where
  "sat_decision = \<lparr>d_Sat = ''sat'', d_Model = None, d_UnsatCore = []\<rparr>"

definition evicting_ops :: "dcache_op list" where
  "evicting_ops = [OpSet ''a'' sat_decision, OpSet ''b'' sat_decision, OpGet ''a'', OpSet ''c'' sat_decision]"

theorem dcache_refines_lru_witness:
  "map fst (absl (fold dcache_exec evicting_ops (NewDCache 2))) = [''c'', ''a''] \<and>
   fst (GetByHash ''b'' (fold dcache_exec evicting_ops (NewDCache 2))) = None"
proof -
  have "map fst (fold (spec_exec (nat 2)) evicting_ops []) = [''c'', ''a'']"
    "map_of (fold (spec_exec (nat 2)) evicting_ops []) ''b'' = None"
    by (simp_all add: evicting_ops_def spec_put_def spec_touch_def)
  then show ?thesis
    using dcache_refines_lru [of 2 "fold dcache_exec evicting_ops (NewDCache 2)" evicting_ops "''b''"] by simp
qed

section \<open>The interface of a decision store\<close>

text \<open>
  What the solver front end relies on: a lookup returns what is stored and changes nothing stored; an
  insertion stores the decision under its key or nothing, and at most forgets others.
\<close>

locale decision_store =
  fixes good :: "'c \<Rightarrow> bool"
    and contents :: "'c \<Rightarrow> string \<Rightarrow> Decision option"
    and get :: "string \<Rightarrow> 'c \<Rightarrow> Decision option \<times> 'c"
    and put :: "string \<Rightarrow> Decision \<Rightarrow> 'c \<Rightarrow> 'c"
  assumes get_good: "good c \<Longrightarrow> good (snd (get k c))"
    and put_good: "good c \<Longrightarrow> good (put k d c)"
    and get_result: "good c \<Longrightarrow> fst (get k c) = contents c k"
    and get_contents: "good c \<Longrightarrow> contents (snd (get k c)) = contents c"
    and put_same: "good c \<Longrightarrow> contents (put k d c) k = Some d \<or> contents (put k d c) k = None"
    and put_other: "good c \<Longrightarrow> j \<noteq> k \<Longrightarrow> contents (put k d c) j = contents c j \<or> contents (put k d c) j = None"
begin

text \<open>Whatever holds of every decision that is stored holds of every decision that is returned.\<close>

lemma get_provenance:
  assumes "good c" "\<forall>k d. contents c k = Some d \<longrightarrow> P k d"
  shows "fst (get k c) = Some d \<Longrightarrow> P k d" and "\<forall>j d. contents (snd (get k c)) j = Some d \<longrightarrow> P j d"
  using assms by (simp_all add: get_result get_contents)

lemma put_provenance:
  assumes "good c" "\<forall>k d. contents c k = Some d \<longrightarrow> P k d" "P k d"
  shows "\<forall>j d'. contents (put k d c) j = Some d' \<longrightarrow> P j d'"
proof (intro allI impI)
  fix j d' assume c: "contents (put k d c) j = Some d'"
  show "P j d'"
  proof (cases "j = k")
    case True
    with c put_same [OF assms(1), of k d] assms(3) show ?thesis by auto
  next
    case False
    with c put_other [OF assms(1), of j k d] assms(2) show ?thesis by auto
  qed
qed

end

lemma map_of_filter_key: "map_of (filter (\<lambda>p. fst p \<noteq> h) xs) j = (if j = h then None else map_of xs j)"
  by (induction xs) auto

lemma map_of_take: "map_of (take n xs) j = None \<or> map_of (take n xs) j = map_of xs j"
  by (metis append_take_drop_id map_add_Some_iff map_of_append not_None_eq)

lemma spec_touch_lookup: "map_of (spec_touch h xs) = map_of xs"
  by (auto simp: spec_touch_def fun_eq_iff map_of_filter_key split: option.split)

interpretation solver_cache: decision_store dcache_inv "\<lambda>c. map_of (absl c)" GetByHash SetByHash
proof unfold_locales
  fix c k j d assume inv: "dcache_inv c"
  show "dcache_inv (snd (GetByHash k c))" by (rule dcache_inv_GetByHash [OF inv])
  show "dcache_inv (SetByHash k d c)" by (rule dcache_inv_SetByHash [OF inv])
  show "fst (GetByHash k c) = map_of (absl c) k" by (rule GetByHash_refines(1) [OF inv])
  show "map_of (absl (snd (GetByHash k c))) = map_of (absl c)"
    by (simp add: GetByHash_refines(2) [OF inv] spec_touch_lookup)
  note put = SetByHash_refines [OF inv, of k d] spec_put_def map_of_take [of "nat (maxEntries c)" "(k, d) # filter (\<lambda>p. fst p \<noteq> k) (absl c)"]
  show "map_of (absl (SetByHash k d c)) k = Some d \<or> map_of (absl (SetByHash k d c)) k = None"
    using put(3) [of k] by (auto simp: put(1,2))
  show "map_of (absl (SetByHash k d c)) j = map_of (absl c) j \<or> map_of (absl (SetByHash k d c)) j = None" if "j \<noteq> k"
    using put(3) [of j] that by (auto simp: put(1,2) map_of_filter_key)
qed

end
