(* ===== verification/Resp.thy ===== *)
theory Resp
  imports DecisionCache
begin

text \<open>
  The Redis backend of the distributed cache (\<open>src/internal/cache/distributed/redis.go\<close>): the RESP codec
  and the client on its single connection. A connection is the text its server will still send
  (\<open>r_conn\<close>); all the text of the connection (\<open>r_served\<close>) and the commands written on it (\<open>r_sent\<close>)
  are ghost state. Reading a reply is recursive for arrays; the recursion
  takes fuel, and \<open>readReply_fuel\<close> shows that the length of the input is enough.
\<close>

section \<open>The codec\<close>

definition CRLF :: string where
  "CRLF = [CHR 0x0D, CHR 0x0A]"

definition encodeCommand :: "string list \<Rightarrow> string" where
  "encodeCommand args = ''*'' @ Itoa (int (length args)) @ CRLF @
     concat (map (\<lambda>b. ''$'' @ Itoa (int (length b)) @ CRLF @ b @ CRLF) args)"

datatype reply = RString string | RInt int | RBulk string | RNil | RArray "reply list"

datatype resp_error = ReadError | MalformedReply | EmptyReply | ServerError string | BadInteger | BadBulkLength | BadArrayLength
  | ReadBulk | UnknownTag char | AllocPanic | NoFuel | CtxError | DialError | WriteError | AuthError resp_error
  | SelectError resp_error | UnexpectedReply | KeyNotFound

text \<open>\<open>ReadString\<close> up to a newline; without one it fails.\<close>

fun ReadLine :: "string \<Rightarrow> (string \<times> string) option" where
  "ReadLine [] = None"
| "ReadLine (c # s) = (if c = CHR 0x0A then Some ([c], s)
     else case ReadLine s of None \<Rightarrow> None | Some (line, rest) \<Rightarrow> Some (c # line, rest))"

text \<open>The largest allocation of the Go runtime; \<open>make\<close> panics above it, and on a negative length.\<close>

definition maxAlloc :: int where
  "maxAlloc = 2 ^ 48"

text \<open>The first line of a reply: a complete value, or the announced length of a bulk string or an array.\<close>

datatype header = Value reply | Bulk int | Elements int

definition parseLine :: "string \<Rightarrow> resp_error + header" where
  "parseLine line =
     (if length line < 3 \<or> line ! (length line - 2) \<noteq> CHR 0x0D \<or> line ! (length line - 1) \<noteq> CHR 0x0A
      then Inl MalformedReply
      else let payload = take (length line - 2) line in
        if length payload = 0 then Inl EmptyReply
        else if payload ! 0 = CHR ''+'' then Inr (Value (RString (drop 1 payload)))
        else if payload ! 0 = CHR ''-'' then Inl (ServerError (drop 1 payload))
        else if payload ! 0 = CHR '':'' then
          (case Atoi (drop 1 payload) of None \<Rightarrow> Inl BadInteger | Some n \<Rightarrow> Inr (Value (RInt n)))
        else if payload ! 0 = CHR ''$'' then
          (case Atoi (drop 1 payload) of None \<Rightarrow> Inl BadBulkLength | Some n \<Rightarrow> Inr (Bulk n))
        else if payload ! 0 = CHR ''*'' then
          (case Atoi (drop 1 payload) of None \<Rightarrow> Inl BadArrayLength | Some n \<Rightarrow> Inr (Elements n))
        else Inl (UnknownTag (payload ! 0)))"

definition readBulk :: "int \<Rightarrow> string \<Rightarrow> (resp_error + reply) \<times> string" where
  "readBulk n rest =
     (if n < 0 then (Inr RNil, rest)
      else if int64 (n + 2) < 0 \<or> int64 (n + 2) > maxAlloc then (Inl AllocPanic, rest)
      else if int (length rest) < n + 2 then (Inl ReadBulk, [])
      else (Inr (RBulk (take (nat n) rest)), drop (nat (n + 2)) rest))"

fun readReply :: "nat \<Rightarrow> string \<Rightarrow> (resp_error + reply) \<times> string"
  and readElems :: "nat \<Rightarrow> nat \<Rightarrow> string \<Rightarrow> reply list \<Rightarrow> (resp_error + reply) \<times> string" where
  "readReply 0 s = (Inl NoFuel, s)"
| "readReply (Suc fuel) s = (case ReadLine s of None \<Rightarrow> (Inl ReadError, [])
     | Some (line, rest) \<Rightarrow> (case parseLine line of
         Inl e \<Rightarrow> (Inl e, rest)
       | Inr (Value v) \<Rightarrow> (Inr v, rest)
       | Inr (Bulk n) \<Rightarrow> readBulk n rest
       | Inr (Elements n) \<Rightarrow>
           if n < 0 then (Inr RNil, rest)
           else if 16 * n > maxAlloc then (Inl AllocPanic, rest)
           else readElems fuel (nat n) rest []))"
| "readElems fuel 0 s arr = (Inr (RArray arr), s)"
| "readElems 0 (Suc n) s arr = (Inl NoFuel, s)"
| "readElems (Suc fuel) (Suc n) s arr = (case readReply fuel s of
     (Inl e, rest) \<Rightarrow> (Inl e, rest)
   | (Inr v, rest) \<Rightarrow> readElems fuel n rest (arr @ [v]))"

section \<open>The client\<close>

record RedisBackend =
  r_password :: string
  r_db :: int
  r_conn :: "string option"
  r_served :: string
  r_sent :: "string list"

text \<open>
  What the environment does during a command: whether the context is already cancelled, what dialling
  gives (the text the server will send), and which of the writes of this command succeed.
\<close>

record redis_env =
  ctx_done :: bool
  dial :: "string option"
  write_ok :: "nat \<Rightarrow> bool"

definition dropLocked :: "RedisBackend \<Rightarrow> RedisBackend" where
  "dropLocked r = r\<lparr>r_conn := None, r_served := [], r_sent := []\<rparr>"

definition redis_Close :: "RedisBackend \<Rightarrow> RedisBackend" where
  "redis_Close r = dropLocked r"

definition readFrom :: "string \<Rightarrow> (resp_error + reply) \<times> string" where
  "readFrom s = readReply (2 * length s + 2) s"

text \<open>One command and its reply on the open connection; \<open>k\<close> numbers the writes. A failure drops the
  connection, but a panic of the reader unwinds past the call of \<open>dropLocked\<close>.\<close>

definition roundTrip :: "redis_env \<Rightarrow> nat \<Rightarrow> string list \<Rightarrow> RedisBackend \<Rightarrow> (resp_error + reply) \<times> RedisBackend" where
  "roundTrip env k args r = (case r_conn r of None \<Rightarrow> (Inl WriteError, r)
     | Some s \<Rightarrow>
         if \<not> write_ok env k then (Inl WriteError, dropLocked r)
         else (let r = r\<lparr>r_sent := r_sent r @ [encodeCommand args]\<rparr> in case readFrom s of
             (Inl e, rest) \<Rightarrow> (Inl e, if e = AllocPanic then r\<lparr>r_conn := Some rest\<rparr> else dropLocked r)
           | (Inr v, rest) \<Rightarrow> (Inr v, r\<lparr>r_conn := Some rest\<rparr>)))"

definition wrap :: "(resp_error \<Rightarrow> resp_error) \<Rightarrow> resp_error \<Rightarrow> resp_error" where
  "wrap f e = (if e = AllocPanic then AllocPanic else f e)"

definition ensureConnectedLocked :: "redis_env \<Rightarrow> RedisBackend \<Rightarrow> resp_error option \<times> RedisBackend" where
  "ensureConnectedLocked env r = (if r_conn r \<noteq> None then (None, r)
     else case dial env of None \<Rightarrow> (Some DialError, r)
     | Some s \<Rightarrow> (let r = r\<lparr>r_conn := Some s, r_served := s, r_sent := []\<rparr>;
         (err, r) = (if r_password r \<noteq> [] then (case roundTrip env 0 [''AUTH'', r_password r] r of
             (Inl e, r) \<Rightarrow> (Some (wrap AuthError e), r) | (Inr _, r) \<Rightarrow> (None, r)) else (None, r))
       in if err \<noteq> None then (err, r)
          else if r_db r \<noteq> 0 then (case roundTrip env 1 [''SELECT'', Itoa (r_db r)] r of
             (Inl e, r) \<Rightarrow> (Some (wrap SelectError e), r) | (Inr _, r) \<Rightarrow> (None, r))
          else (None, r)))"

definition exec :: "redis_env \<Rightarrow> string list \<Rightarrow> RedisBackend \<Rightarrow> (resp_error + reply) \<times> RedisBackend" where
  "exec env args r = (if ctx_done env then (Inl CtxError, r)
     else case ensureConnectedLocked env r of
       (Some err, r) \<Rightarrow> (Inl err, r)
     | (None, r) \<Rightarrow> roundTrip env 2 args r)"

definition redis_Ping :: "redis_env \<Rightarrow> RedisBackend \<Rightarrow> resp_error option \<times> RedisBackend" where
  "redis_Ping env r = (case exec env [''PING''] r of (Inl e, r) \<Rightarrow> (Some e, r) | (Inr _, r) \<Rightarrow> (None, r))"

definition redis_Get :: "redis_env \<Rightarrow> string \<Rightarrow> RedisBackend \<Rightarrow> (resp_error + string) \<times> RedisBackend" where
  "redis_Get env key r = (case exec env [''GET'', key] r of
     (Inl e, r) \<Rightarrow> (Inl e, r)
   | (Inr RNil, r) \<Rightarrow> (Inl KeyNotFound, r)
   | (Inr (RBulk b), r) \<Rightarrow> (Inr b, r)
   | (Inr _, r) \<Rightarrow> (Inl UnexpectedReply, r))"

definition redis_Set :: "redis_env \<Rightarrow> string \<Rightarrow> string \<Rightarrow> duration \<Rightarrow> RedisBackend \<Rightarrow> resp_error option \<times> RedisBackend" where
  "redis_Set env key val ttl r =
     (let args = [''SET'', key, val];
          args = (if ttl > 0 then args @ [''PX'', Itoa (ttl div 1000000)] else args)
      in case exec env args r of (Inl e, r) \<Rightarrow> (Some e, r) | (Inr _, r) \<Rightarrow> (None, r))"

definition redis_Del :: "redis_env \<Rightarrow> string list \<Rightarrow> RedisBackend \<Rightarrow> (resp_error + int) \<times> RedisBackend" where
  "redis_Del env keys r = (if length keys = 0 then (Inr 0, r)
     else case exec env (''DEL'' # keys) r of
       (Inl e, r) \<Rightarrow> (Inl e, r)
     | (Inr (RInt n), r) \<Rightarrow> (Inr n, r)
     | (Inr _, r) \<Rightarrow> (Inl UnexpectedReply, r))"

section \<open>Fuel\<close>

lemma ReadLine_split: "ReadLine s = Some (line, rest) \<Longrightarrow> s = line @ rest \<and> line \<noteq> []"
  by (induction s arbitrary: line) (auto split: if_splits option.splits)

lemma parseLine_fuel: "parseLine line \<noteq> Inl NoFuel"
  by (auto simp: parseLine_def Let_def split: option.splits)

lemma readReply_fuel:
  "2 * length s + 1 \<le> fuel \<Longrightarrow> fst (readReply fuel s) \<noteq> Inl NoFuel \<and>
     (\<forall>v. fst (readReply fuel s) = Inr v \<longrightarrow> length (snd (readReply fuel s)) < length s)"
  "2 * length s + 2 \<le> fuel \<Longrightarrow> fst (readElems fuel n s arr) \<noteq> Inl NoFuel \<and>
     (\<forall>v. fst (readElems fuel n s arr) = Inr v \<longrightarrow> length (snd (readElems fuel n s arr)) \<le> length s)"
proof (induction fuel s and fuel n s arr rule: readReply_readElems.induct)
  case (2 fuel s)
  show ?case
  proof (cases "ReadLine s")
    case (Some lr)
    obtain line rest where lr: "lr = (line, rest)" by (cases lr)
    then have len: "length rest < length s" using ReadLine_split [of s line rest] Some by auto
    show ?thesis
    proof (cases "parseLine line")
      case (Inl e)
      then show ?thesis using Some lr parseLine_fuel by auto
    next
      case (Inr h)
      show ?thesis
      proof (cases h)
        case (Elements n)
        have "fst (readElems fuel (nat n) rest []) \<noteq> Inl NoFuel \<and>
          (\<forall>v. fst (readElems fuel (nat n) rest []) = Inr v \<longrightarrow> length (snd (readElems fuel (nat n) rest [])) \<le> length rest)"
          if "\<not> n < 0" "\<not> 16 * n > maxAlloc"
          using "2.IH" [OF Some lr [symmetric] Inr Elements that] "2.prems" len by simp
        then have "\<not> n < 0 \<Longrightarrow> \<not> 16 * n > maxAlloc \<Longrightarrow> fst (readElems fuel (nat n) rest []) = Inr v \<Longrightarrow>
            length (snd (readElems fuel (nat n) rest [])) < length s" for v
          using len by (meson le_less_trans)
        with \<open>_ \<Longrightarrow> _ \<Longrightarrow> _ \<and> _\<close> show ?thesis using Some lr Inr Elements len by simp blast
      next
        case (Bulk n)
        then show ?thesis using Some lr Inr len by (auto simp: readBulk_def)
      qed (use Some lr Inr len in simp)
    qed
  qed simp
next
  case (5 fuel n s arr)
  show ?case
  proof (cases "readReply fuel s")
    case (Pair r rest)
    have r: "r \<noteq> Inl NoFuel" "\<And>v. r = Inr v \<Longrightarrow> length rest < length s"
      using "5.IH"(1) "5.prems" Pair by auto
    show ?thesis
    proof (cases r)
      case (Inl e)
      then show ?thesis using Pair r by simp
    next
      case (Inr v)
      then have "length rest < length s" using r by blast
      then show ?thesis using "5.IH"(2) [OF Pair [symmetric] Inr] "5.prems" Pair Inr by auto
    qed
  qed
qed auto

section \<open>The codec reads back what it writes\<close>

lemma undigits_no_sign: "ds \<noteq> [] \<Longrightarrow> \<forall>c \<in> set ds. 48 \<le> (of_char c :: nat) \<and> (of_char c :: nat) \<le> 57 \<Longrightarrow>
    hd ds \<noteq> CHR ''-'' \<and> hd ds \<noteq> CHR ''+''"
  by (cases ds) auto

lemma Atoi_Itoa:
  assumes "- (2 ^ 63) \<le> n" "n < 2 ^ 63"
  shows "Atoi (Itoa n) = Some n"
proof -
  have d: "\<not> (\<exists>c \<in> set (digits k). \<not> (48 \<le> (of_char c :: nat) \<and> (of_char c :: nat) \<le> 57))" for k
    using digits_chars by blast
  show ?thesis
  proof (cases "n < 0")
    case True
    then show ?thesis
      using assms d [of "nat (- n)"] by (simp add: Itoa_def Atoi_def Let_def undigits_digits digits_nonempty)
  next
    case False
    obtain c r where cr: "digits (nat n) = c # r" using digits_nonempty by (cases "digits (nat n)") auto
    then have "c \<noteq> CHR ''-''" "c \<noteq> CHR ''+''"
      using undigits_no_sign [OF digits_nonempty, of "nat n"] digits_chars [of _ "nat n"] by auto
    moreover have "undigits (c # r) = nat n" using undigits_digits [of "nat n"] cr by simp
    ultimately show ?thesis
      using False assms d [of "nat n"] cr by (simp add: Itoa_def Atoi_def Let_def)
  qed
qed

lemma ReadLine_CRLF: "CHR 0x0A \<notin> set pre \<Longrightarrow> ReadLine (pre @ CRLF @ rest) = Some (pre @ CRLF, rest)"
  by (induction pre) (auto simp: CRLF_def)

lemma parseLine_CRLF:
  "parseLine (t # body @ CRLF) =
     (if t = CHR ''+'' then Inr (Value (RString body))
      else if t = CHR ''-'' then Inl (ServerError body)
      else if t = CHR '':'' then (case Atoi body of None \<Rightarrow> Inl BadInteger | Some n \<Rightarrow> Inr (Value (RInt n)))
      else if t = CHR ''$'' then (case Atoi body of None \<Rightarrow> Inl BadBulkLength | Some n \<Rightarrow> Inr (Bulk n))
      else if t = CHR ''*'' then (case Atoi body of None \<Rightarrow> Inl BadArrayLength | Some n \<Rightarrow> Inr (Elements n))
      else Inl (UnknownTag t))"
  by (simp add: parseLine_def CRLF_def Let_def nth_append nth_Cons')

lemma Itoa_no_newline: "CHR 0x0A \<notin> set (Itoa n)"
  by (rule Itoa_no_char) simp_all

text \<open>The encoding of replies of a server, and the replies that fit the limits of the reader.\<close>

fun encodeReply :: "reply \<Rightarrow> string" where
  "encodeReply (RString s) = ''+'' @ s @ CRLF"
| "encodeReply (RInt n) = '':'' @ Itoa n @ CRLF"
| "encodeReply (RBulk b) = ''$'' @ Itoa (int (length b)) @ CRLF @ b @ CRLF"
| "encodeReply RNil = ''$'' @ Itoa (- 1) @ CRLF"
| "encodeReply (RArray rs) = ''*'' @ Itoa (int (length rs)) @ CRLF @ concat (map encodeReply rs)"

fun fits :: "reply \<Rightarrow> bool" where
  "fits (RString s) = (CHR 0x0A \<notin> set s)"
| "fits (RInt n) = (- (2 ^ 63) \<le> n \<and> n < 2 ^ 63)"
| "fits (RBulk b) = (int (length b) + 2 \<le> maxAlloc)"
| "fits RNil = True"
| "fits (RArray rs) = (16 * int (length rs) \<le> maxAlloc \<and> (\<forall>r \<in> set rs. fits r))"

lemma encodeReply_length: "3 \<le> length (encodeReply r)"
  by (cases r) (auto simp: CRLF_def)

lemma readBulk_exact:
  "int (length b) + 2 \<le> maxAlloc \<Longrightarrow> readBulk (int (length b)) (b @ CRLF @ rest) = (Inr (RBulk b), rest)"
  by (simp add: readBulk_def int64_def maxAlloc_def CRLF_def nat_add_distrib)

lemma readReply_encode: "fits r \<Longrightarrow> 2 * length (encodeReply r) + 1 \<le> fuel \<Longrightarrow> readReply fuel (encodeReply r @ rest) = (Inr r, rest)"
proof (induction r arbitrary: fuel rest)
  case (RArray rs)
  obtain f where f: "fuel = Suc f" using RArray.prems(2) by (cases fuel) auto
  have elems: "readElems g (length qs) (concat (map encodeReply qs) @ rest) arr = (Inr (RArray (arr @ qs)), rest)"
    if "set qs \<subseteq> set rs" "2 * length (concat (map encodeReply qs)) + 2 \<le> g" for qs arr g
    using that
  proof (induction qs arbitrary: arr g)
    case (Cons q qs)
    then obtain g' where g: "g = Suc g'" by (cases g) auto
    have "readReply g' (encodeReply q @ (concat (map encodeReply qs) @ rest)) = (Inr q, concat (map encodeReply qs) @ rest)"
      using Cons.prems RArray.prems(1) g by (intro RArray.IH) auto
    moreover have "readElems g' (length qs) (concat (map encodeReply qs) @ rest) (arr @ [q]) = (Inr (RArray ((arr @ [q]) @ qs)), rest)"
      using Cons.prems g encodeReply_length [of q] by (intro Cons.IH) auto
    ultimately show ?case by (simp add: g)
  qed simp
  have "ReadLine (encodeReply (RArray rs) @ rest) =
      Some (''*'' @ Itoa (int (length rs)) @ CRLF, concat (map encodeReply rs) @ rest)"
    using ReadLine_CRLF [of "''*'' @ Itoa (int (length rs))"] Itoa_no_newline by simp
  moreover have "Atoi (Itoa (int (length rs))) = Some (int (length rs))"
    using RArray.prems(1) by (intro Atoi_Itoa) (auto simp: maxAlloc_def)
  moreover have "readElems f (length rs) (concat (map encodeReply rs) @ rest) [] = (Inr (RArray rs), rest)"
    using elems [of rs f "[]"] RArray.prems(2) f by (simp add: CRLF_def)
  ultimately show ?case
    using RArray.prems(1) by (simp add: f parseLine_CRLF)
next
  case (RBulk b)
  obtain f where f: "fuel = Suc f" using RBulk.prems(2) by (cases fuel) auto
  have "ReadLine (encodeReply (RBulk b) @ rest) = Some (''$'' @ Itoa (int (length b)) @ CRLF, b @ CRLF @ rest)"
    using ReadLine_CRLF [of "''$'' @ Itoa (int (length b))"] Itoa_no_newline by simp
  moreover have "Atoi (Itoa (int (length b))) = Some (int (length b))"
    using RBulk.prems(1) by (intro Atoi_Itoa) (auto simp: maxAlloc_def)
  ultimately show ?case
    using RBulk.prems(1) readBulk_exact by (simp add: f parseLine_CRLF)
next
  case (RString s)
  then show ?case
    using ReadLine_CRLF [of "''+'' @ s"] by (cases fuel) (auto simp: parseLine_CRLF)
next
  case (RInt n)
  then show ?case
    using ReadLine_CRLF [of "'':'' @ Itoa n"] Itoa_no_newline by (cases fuel) (auto simp: parseLine_CRLF Atoi_Itoa)
next
  case RNil
  then show ?case
    using ReadLine_CRLF [of "''$'' @ Itoa (- 1)"] Itoa_no_newline by (cases fuel) (auto simp: parseLine_CRLF Atoi_Itoa readBulk_def)
qed

lemma readFrom_encode: "fits r \<Longrightarrow> readFrom (encodeReply r @ rest) = (Inr r, rest)"
  unfolding readFrom_def by (rule readReply_encode) simp_all

lemma encodeCommand_array: "encodeCommand args = encodeReply (RArray (map RBulk args))"
  by (simp add: encodeCommand_def o_def)

text \<open>C30: The wire codec is faithful in both directions. A reply of a server, nested arrays included, is read
  back exactly and the reader stops behind it. A command is an array of bulk strings from which a RESP
  reader recovers the very arguments, so that no key and no value, whatever bytes it holds, can be
  taken for protocol.\<close>

theorem resp_roundtrip:
  assumes "fits r" and "16 * int (length args) \<le> maxAlloc" and "\<forall>a \<in> set args. int (length a) + 2 \<le> maxAlloc"
  shows "readFrom (encodeReply r @ rest) = (Inr r, rest) \<and>
    readFrom (encodeCommand args @ rest) = (Inr (RArray (map RBulk args)), rest)"
  using readFrom_encode [OF assms(1)] readFrom_encode [of "RArray (map RBulk args)" rest] assms(2,3)
  by (simp add: encodeCommand_array)

theorem resp_roundtrip_witness:
  "readFrom (encodeCommand [''GET'', CHR 0x0D # CHR 0x0A # ''*1''] @ ''+OK'') =
     (Inr (RArray [RBulk ''GET'', RBulk (CHR 0x0D # CHR 0x0A # ''*1'')]), ''+OK'')"
  using resp_roundtrip [of RNil "[''GET'', CHR 0x0D # CHR 0x0A # ''*1'']" "''+OK''"] by (simp add: maxAlloc_def)

section \<open>Commands and replies stay in step\<close>

text \<open>What is left of the text of a server after \<open>n\<close> successful replies.\<close>

fun consumed :: "nat \<Rightarrow> string \<Rightarrow> string option" where
  "consumed 0 s = Some s"
| "consumed (Suc n) s = (case consumed n s of None \<Rightarrow> None
     | Some t \<Rightarrow> (case readFrom t of (Inr _, rest) \<Rightarrow> Some rest | (Inl _, _) \<Rightarrow> None))"

definition in_step :: "RedisBackend \<Rightarrow> bool" where
  "in_step r \<longleftrightarrow> (\<forall>s. r_conn r = Some s \<longrightarrow> consumed (length (r_sent r)) (r_served r) = Some s)"

definition answered :: "string list \<Rightarrow> reply \<Rightarrow> RedisBackend \<Rightarrow> bool" where
  "answered args v r \<longleftrightarrow> (\<exists>before t rest. r_sent r = before @ [encodeCommand args] \<and>
     consumed (length before) (r_served r) = Some t \<and> readFrom t = (Inr v, rest) \<and> r_conn r = Some rest)"

text \<open>What a call of the client leaves: a client in step, unless it panicked, and a reply that answers the
  command.\<close>

definition sound_result :: "string list \<Rightarrow> (resp_error + reply) \<times> RedisBackend \<Rightarrow> bool" where
  "sound_result args res \<longleftrightarrow> (fst res \<noteq> Inl AllocPanic \<longrightarrow> in_step (snd res)) \<and>
     (\<forall>v. fst res = Inr v \<longrightarrow> answered args v (snd res))"

lemma in_step_drop: "in_step (dropLocked r)"
  by (simp add: in_step_def dropLocked_def)

lemma answered_in_step: "answered args v r \<Longrightarrow> in_step r"
  by (auto simp: answered_def in_step_def)

lemma roundTrip_step:
  assumes "in_step r"
  shows "sound_result args (roundTrip env k args r)"
proof (cases "r_conn r")
  case None
  then show ?thesis using assms by (simp add: roundTrip_def sound_result_def)
next
  case (Some s)
  then have s0: "consumed (length (r_sent r)) (r_served r) = Some s" using assms by (simp add: in_step_def)
  show ?thesis
  proof (cases "write_ok env k")
    case True
    obtain res rest where v: "readFrom s = (res, rest)" by fastforce
    show ?thesis
    proof (cases res)
      case (Inl e)
      then show ?thesis using True Some v in_step_drop by (simp add: roundTrip_def sound_result_def Let_def)
    next
      case (Inr w)
      let ?r = "r\<lparr>r_sent := r_sent r @ [encodeCommand args], r_conn := Some rest\<rparr>"
      have "answered args w ?r" using s0 v Inr by (auto simp: answered_def)
      then show ?thesis
        using True Some v Inr answered_in_step [of args w ?r] by (simp add: roundTrip_def sound_result_def Let_def)
    qed
  next
    case False
    then show ?thesis using Some in_step_drop by (simp add: roundTrip_def sound_result_def)
  qed
qed

lemma connect_step:
  assumes "in_step r" and "ensureConnectedLocked env r = (err, r')" and "err \<noteq> Some AllocPanic"
  shows "in_step r'"
proof (cases "r_conn r = None \<and> dial env \<noteq> None")
  case True
  then obtain s where s: "dial env = Some s" by blast
  let ?r = "r\<lparr>r_conn := Some s, r_served := s, r_sent := []\<rparr>"
  have start: "in_step ?r" by (simp add: in_step_def)
  obtain a r1 where a: "(if r_password ?r \<noteq> [] then (case roundTrip env 0 [''AUTH'', r_password ?r] ?r of
     (Inl e, r) \<Rightarrow> (Some (wrap AuthError e), r) | (Inr _, r) \<Rightarrow> (None, r)) else (None, ?r)) = (a, r1)" (is "?a = _")
    by fastforce
  have r1: "in_step r1" if "a \<noteq> Some AllocPanic"
    using a start that roundTrip_step [OF start, of "[''AUTH'', r_password ?r]" env 0]
    by (auto simp: sound_result_def wrap_def split: prod.splits sum.splits if_splits)
  have rest: "(err, r') = (if a \<noteq> None then (a, r1) else if r_db r1 \<noteq> 0 then (case roundTrip env 1 [''SELECT'', Itoa (r_db r1)] r1 of
             (Inl e, r) \<Rightarrow> (Some (wrap SelectError e), r) | (Inr _, r) \<Rightarrow> (None, r)) else (None, r1))"
    using assms(2) True s a by (simp add: ensureConnectedLocked_def Let_def)
  show ?thesis
  proof (cases a)
    case None
    then have "in_step r1" using r1 by simp
    then show ?thesis
      using rest None assms(3) roundTrip_step [of r1 "[''SELECT'', Itoa (r_db r1)]" env 1]
      by (auto simp: sound_result_def wrap_def split: prod.splits sum.splits if_splits)
  qed (use rest r1 assms(3) in simp)
next
  case False
  then show ?thesis using assms by (cases "r_conn r") (simp_all add: ensureConnectedLocked_def)
qed

lemma exec_step:
  assumes "in_step r"
  shows "sound_result args (exec env args r)"
proof (cases "ctx_done env")
  case False
  obtain err r1 where 1: "ensureConnectedLocked env r = (err, r1)" by fastforce
  show ?thesis
  proof (cases err)
    case None
    then have "in_step r1" using connect_step [OF assms 1] by simp
    then show ?thesis using False 1 None roundTrip_step by (simp add: exec_def)
  next
    case (Some e)
    then show ?thesis using False 1 connect_step [OF assms 1] by (simp add: exec_def sound_result_def)
  qed
qed (use assms in \<open>simp add: exec_def sound_result_def\<close>)

text \<open>A sequence of commands with connections closed in between, as long as no command panics.\<close>

datatype redis_op = Exec redis_env "string list" | CloseConn

fun runCommands :: "redis_op list \<Rightarrow> RedisBackend \<Rightarrow> RedisBackend option" where
  "runCommands [] r = Some r"
| "runCommands (CloseConn # cmds) r = runCommands cmds (redis_Close r)"
| "runCommands (Exec env args # cmds) r =
     (if fst (exec env args r) = Inl AllocPanic then None else runCommands cmds (snd (exec env args r)))"

lemma runCommands_in_step: "in_step r \<Longrightarrow> runCommands cmds r = Some r' \<Longrightarrow> in_step r'"
proof (induction cmds r rule: runCommands.induct)
  case (3 env args cmds r)
  then show ?case using exec_step [OF "3.prems"(1), of args env] by (auto simp: sound_result_def split: if_splits)
qed (simp_all add: redis_Close_def in_step_drop)

definition NewRedisBackend :: "string \<Rightarrow> int \<Rightarrow> RedisBackend" where
  "NewRedisBackend password db = \<lparr>r_password = password, r_db = db, r_conn = None, r_served = [], r_sent = []\<rparr>"

text \<open>A command is never answered by the reply to another one. Whatever commands were executed before,
  with closed connections and dial, write, read and server errors in between, a reply that \<open>exec\<close> returns is the reply with
  the same number on this connection as the command: a connection on which anything went wrong is
  dropped, so that a late reply cannot be read by the next command.\<close>

theorem replies_in_step:
  assumes "runCommands cmds (NewRedisBackend password db) = Some r0" and "exec env args r0 = (Inr v, r)"
  shows "\<exists>before t rest. r_sent r = before @ [encodeCommand args] \<and>
    consumed (length before) (r_served r) = Some t \<and> readFrom t = (Inr v, rest) \<and> r_conn r = Some rest"
proof -
  have "in_step r0"
    by (rule runCommands_in_step [OF _ assms(1)]) (simp add: in_step_def NewRedisBackend_def)
  from exec_step [OF this, of args env] assms(2) show ?thesis by (simp add: answered_def sound_result_def)
qed

theorem replies_in_step_witness:
  "\<exists>before t rest. r_sent (snd (exec \<lparr>ctx_done = False, dial = Some (encodeReply RNil), write_ok = (\<lambda>_. True)\<rparr> [''PING'']
       (NewRedisBackend [] 0))) = before @ [encodeCommand [''PING'']] \<and>
     consumed (length before) (encodeReply RNil) = Some t \<and> readFrom t = (Inr RNil, rest)"
proof -
  let ?env = "\<lparr>ctx_done = False, dial = Some (encodeReply RNil), write_ok = (\<lambda>_. True)\<rparr>"
  have rd: "readFrom (encodeReply RNil) = (Inr RNil, [])" using readFrom_encode [of RNil "[]"] by simp
  have ex: "exec ?env [''PING''] (NewRedisBackend [] 0) = (Inr RNil, snd (exec ?env [''PING''] (NewRedisBackend [] 0)))"
    and sv: "r_served (snd (exec ?env [''PING''] (NewRedisBackend [] 0))) = encodeReply RNil"
    using rd by (simp_all add: exec_def ensureConnectedLocked_def NewRedisBackend_def roundTrip_def Let_def del: encodeReply.simps)
  show ?thesis using replies_in_step [of "[]", OF _ ex] sv by fastforce
qed

end
