(* ===== verification/DistCache.thy ===== *)
theory DistCache
  imports Complex_Main EvalCache Resp
begin

text \<open>
  The distributed cache (\<open>src/internal/cache/distributed/distributed.go\<close>) and its in-memory backend
  (\<open>backend.go\<close>). The \<open>Backend\<close> interface is a record of operations on a backend state, with the
  errors of \<open>Resp\<close>; the contract of the interface is the locale \<open>kv_backend\<close>, interpreted on the memory
  backend. JSON encoding is the record \<open>json\<close>, a parameter. Histories are sequences of whole calls: the
  locks of the tag index and of the backend make each read-modify-write atomic, but \<open>SetByKey\<close> holds no lock from the
  entry it stores to the last tag it indexes, and calls that overlap there are not covered.
\<close>

section \<open>The backend interface\<close>

record 'b Backend =
  b_Get :: "string \<Rightarrow> 'b \<Rightarrow> (resp_error + string) \<times> 'b"
  b_Set :: "string \<Rightarrow> string \<Rightarrow> duration \<Rightarrow> 'b \<Rightarrow> resp_error option \<times> 'b"
  b_Del :: "string list \<Rightarrow> 'b \<Rightarrow> (resp_error + int) \<times> 'b"
  b_Ping :: "'b \<Rightarrow> resp_error option \<times> 'b"
  b_Name :: string
  b_Len :: "'b \<Rightarrow> (nat \<times> 'b) option"

record memEntry =
  me_value :: string
  me_expiresAt :: "instant option"

text \<open>The clock is called at most once by an operation; \<open>m_clock n\<close> is the answer to call number \<open>n\<close>.\<close>

record MemoryBackend =
  m_entries :: "string \<rightharpoonup> memEntry"
  m_clock :: "nat \<Rightarrow> instant"
  m_calls :: nat

definition newMemoryBackendWithClock :: "(nat \<Rightarrow> instant) \<Rightarrow> MemoryBackend" where
  "newMemoryBackendWithClock clock = \<lparr>m_entries = Map.empty, m_clock = clock, m_calls = 0\<rparr>"

definition mem_now :: "MemoryBackend \<Rightarrow> instant \<times> MemoryBackend" where
  "mem_now m = (m_clock m (m_calls m), m\<lparr>m_calls := Suc (m_calls m)\<rparr>)"

definition mem_Get :: "string \<Rightarrow> MemoryBackend \<Rightarrow> (resp_error + string) \<times> MemoryBackend" where
  "mem_Get key m = (case m_entries m key of None \<Rightarrow> (Inl KeyNotFound, m)
     | Some e \<Rightarrow> (case me_expiresAt e of None \<Rightarrow> (Inr (me_value e), m)
         | Some t \<Rightarrow> (let (now, m) = mem_now m in
             if now > t then (Inl KeyNotFound, m\<lparr>m_entries := (m_entries m)(key := None)\<rparr>)
             else (Inr (me_value e), m))))"

definition mem_Set :: "string \<Rightarrow> string \<Rightarrow> duration \<Rightarrow> MemoryBackend \<Rightarrow> resp_error option \<times> MemoryBackend" where
  "mem_Set key val ttl m =
     (let (expiresAt, m) = (if ttl > 0 then (let (now, m) = mem_now m in (Some (now + ttl), m)) else (None, m))
      in (None, m\<lparr>m_entries := (m_entries m)(key \<mapsto> \<lparr>me_value = val, me_expiresAt = expiresAt\<rparr>)\<rparr>))"

fun mem_delKeys :: "string list \<Rightarrow> int \<Rightarrow> MemoryBackend \<Rightarrow> int \<times> MemoryBackend" where
  "mem_delKeys [] n m = (n, m)"
| "mem_delKeys (k # ks) n m = (if m_entries m k \<noteq> None
     then mem_delKeys ks (n + 1) (m\<lparr>m_entries := (m_entries m)(k := None)\<rparr>)
     else mem_delKeys ks n m)"

definition mem_Del :: "string list \<Rightarrow> MemoryBackend \<Rightarrow> (resp_error + int) \<times> MemoryBackend" where
  "mem_Del keys m = (let (n, m) = mem_delKeys keys 0 m in (Inr n, m))"

definition sweepLocked :: "MemoryBackend \<Rightarrow> MemoryBackend" where
  "sweepLocked m = (if m_entries m = Map.empty then m
     else let (now, m) = mem_now m in
       m\<lparr>m_entries := (\<lambda>k. case m_entries m k of None \<Rightarrow> None
          | Some e \<Rightarrow> (case me_expiresAt e of Some t \<Rightarrow> if now > t then None else Some e | None \<Rightarrow> Some e))\<rparr>)"

definition mem_Len :: "MemoryBackend \<Rightarrow> nat \<times> MemoryBackend" where
  "mem_Len m = (let m = sweepLocked m in (card (dom (m_entries m)), m))"

definition memoryOps :: "MemoryBackend Backend" where
  "memoryOps = \<lparr>b_Get = mem_Get, b_Set = mem_Set, b_Del = mem_Del, b_Ping = (\<lambda>m. (None, m)),
     b_Name = ''memory'', b_Len = (\<lambda>m. Some (mem_Len m))\<rparr>"

text \<open>The Redis client in an environment that behaves alike in every command.\<close>

definition redisOps :: "redis_env \<Rightarrow> RedisBackend Backend" where
  "redisOps env = \<lparr>b_Get = redis_Get env, b_Set = redis_Set env, b_Del = redis_Del env, b_Ping = redis_Ping env,
     b_Name = ''redis'', b_Len = (\<lambda>r. None)\<rparr>"

section \<open>The cache\<close>

record 'b dist_Cache =
  d_backend :: 'b
  d_ttl :: duration
  d_prefix :: string
  d_hits :: u64
  d_misses :: u64
  d_sets :: u64
  d_evictions :: u64
  d_errors :: u64

text \<open>What \<open>encoding/json\<close> does with values and with lists of strings. Decoding a list gives what the
  target slice holds afterwards and whether there was no error.\<close>

record 'v json =
  marshal :: "'v \<Rightarrow> string option"
  unmarshal :: "string \<Rightarrow> 'v option"
  marshalKeys :: "string list \<Rightarrow> string"
  unmarshalKeys :: "string \<Rightarrow> string list \<times> bool"

datatype dist_option = Dist_WithTTL duration | Dist_WithPrefix string

fun dist_apply :: "dist_option \<Rightarrow> 'b dist_Cache \<Rightarrow> 'b dist_Cache" where
  "dist_apply (Dist_WithTTL d) c = (if d > 0 then c\<lparr>d_ttl := d\<rparr> else c)"
| "dist_apply (Dist_WithPrefix p) c = (if p \<noteq> [] then c\<lparr>d_prefix := p\<rparr> else c)"

definition dist_defaultTTL :: duration where
  "dist_defaultTTL = 5 * 60 * 1000000000"

definition defaultPrefix :: string where
  "defaultPrefix = ''symkernel:v1:''"

definition dist_New :: "'b \<Rightarrow> dist_option list \<Rightarrow> 'b dist_Cache" where
  "dist_New b opts = fold dist_apply opts
     \<lparr>d_backend = b, d_ttl = dist_defaultTTL, d_prefix = defaultPrefix,
      d_hits = 0, d_misses = 0, d_sets = 0, d_evictions = 0, d_errors = 0\<rparr>"

record 'v WarmEntry =
  w_Expr :: string
  w_Context :: "string \<rightharpoonup> 'v"
  w_Value :: 'v
  w_Tags :: "string list"

definition dataKey :: "string \<Rightarrow> string \<Rightarrow> string \<Rightarrow> string" where
  "dataKey prefix exprHash ctxHash = prefix @ exprHash @ '':'' @ ctxHash"

definition tagKey :: "string \<Rightarrow> string \<Rightarrow> string" where
  "tagKey prefix tag = prefix @ ''::tag::'' @ tag"

definition countError :: "'b dist_Cache \<Rightarrow> 'b dist_Cache" where
  "countError c = c\<lparr>d_errors := d_errors c + 1\<rparr>"

datatype dist_error = BackendErr resp_error | EncodeErr | DecodeErr | DecodeTagErr | HashErr

definition dist_GetByKey :: "'b Backend \<Rightarrow> 'v json \<Rightarrow> string \<Rightarrow> string \<Rightarrow> 'b dist_Cache \<Rightarrow> (dist_error + 'v option) \<times> 'b dist_Cache" where
  "dist_GetByKey ops j exprHash ctxHash c =
     (case b_Get ops (dataKey (d_prefix c) exprHash ctxHash) (d_backend c) of
        (Inl err, b) \<Rightarrow> (let c = c\<lparr>d_backend := b\<rparr> in
          if err = KeyNotFound then (Inr None, c\<lparr>d_misses := d_misses c + 1\<rparr>)
          else (Inl (BackendErr err), countError c))
      | (Inr data, b) \<Rightarrow> (let c = c\<lparr>d_backend := b\<rparr> in case unmarshal j data of
            None \<Rightarrow> (Inl DecodeErr, countError c)
          | Some v \<Rightarrow> (Inr (Some v), c\<lparr>d_hits := d_hits c + 1\<rparr>)))"

definition addTagKey :: "'b Backend \<Rightarrow> 'v json \<Rightarrow> string \<Rightarrow> string \<Rightarrow> 'b dist_Cache \<Rightarrow> resp_error option \<times> 'b dist_Cache" where
  "addTagKey ops j tag key c =
     (let tk = tagKey (d_prefix c) tag;
          (got, b) = b_Get ops tk (d_backend c);
          c = c\<lparr>d_backend := b\<rparr>;
          add = (\<lambda>members. if key \<in> set members then (None, c)
            else let (err, b) = b_Set ops tk (marshalKeys j (members @ [key])) 0 (d_backend c) in (err, c\<lparr>d_backend := b\<rparr>))
      in case got of
          Inl err \<Rightarrow> if err = KeyNotFound then add [] else (Some err, c)
        | Inr data \<Rightarrow> add (fst (unmarshalKeys j data)))"

fun indexTags :: "'b Backend \<Rightarrow> 'v json \<Rightarrow> string list \<Rightarrow> string \<Rightarrow> 'b dist_Cache \<Rightarrow> 'b dist_Cache" where
  "indexTags ops j [] key c = c"
| "indexTags ops j (tag # tags) key c = (case addTagKey ops j tag key c of
     (None, c) \<Rightarrow> indexTags ops j tags key c
   | (Some err, c) \<Rightarrow> indexTags ops j tags key (countError c))"

definition dist_SetByKey :: "'b Backend \<Rightarrow> 'v json \<Rightarrow> string \<Rightarrow> string \<Rightarrow> 'v \<Rightarrow> string list \<Rightarrow> duration list \<Rightarrow> 'b dist_Cache \<Rightarrow>
    dist_error option \<times> 'b dist_Cache" where
  "dist_SetByKey ops j exprHash ctxHash v tags ttlOverride c = (case marshal j v of
     None \<Rightarrow> (Some EncodeErr, countError c)
   | Some data \<Rightarrow>
       (let ttl = (case ttlOverride of t # _ \<Rightarrow> if t > 0 then t else d_ttl c | [] \<Rightarrow> d_ttl c);
            key = dataKey (d_prefix c) exprHash ctxHash;
            (err, b) = b_Set ops key data ttl (d_backend c);
            c = c\<lparr>d_backend := b\<rparr>
        in case err of Some e \<Rightarrow> (Some (BackendErr e), countError c)
           | None \<Rightarrow> (None, indexTags ops j tags key (c\<lparr>d_sets := d_sets c + 1\<rparr>))))"

text \<open>What hashing an expression and its context relies on: SHA-256 in hexadecimal, the JSON encoding of a
  map, and the order in which Go ranges over it.\<close>

record 'v hasher =
  sha :: "string \<Rightarrow> string"
  marshalMap :: "(string \<rightharpoonup> 'v) \<Rightarrow> string option"
  rangeOrder :: "(string \<rightharpoonup> 'v) \<Rightarrow> string list"

definition dist_Get :: "'b Backend \<Rightarrow> 'v json \<Rightarrow> 'v hasher \<Rightarrow> string \<Rightarrow> (string \<rightharpoonup> 'v) \<Rightarrow>
    'b dist_Cache \<Rightarrow> (dist_error + 'v option) \<times> 'b dist_Cache" where
  "dist_Get ops j h expr ctx c = (case HashContext (sha h) (marshalMap h) (rangeOrder h ctx) ctx of
     None \<Rightarrow> (Inl HashErr, countError c)
   | Some ctxHash \<Rightarrow> dist_GetByKey ops j (HashExpr (sha h) expr) ctxHash c)"

definition dist_Set :: "'b Backend \<Rightarrow> 'v json \<Rightarrow> 'v hasher \<Rightarrow> string \<Rightarrow> (string \<rightharpoonup> 'v) \<Rightarrow>
    'v \<Rightarrow> string list \<Rightarrow> duration list \<Rightarrow> 'b dist_Cache \<Rightarrow> dist_error option \<times> 'b dist_Cache" where
  "dist_Set ops j h expr ctx v tags ttlOverride c = (case HashContext (sha h) (marshalMap h) (rangeOrder h ctx) ctx of
     None \<Rightarrow> (Some HashErr, countError c)
   | Some ctxHash \<Rightarrow> dist_SetByKey ops j (HashExpr (sha h) expr) ctxHash v tags ttlOverride c)"

definition dist_Delete :: "'b Backend \<Rightarrow> string \<Rightarrow> string \<Rightarrow> 'b dist_Cache \<Rightarrow> dist_error option \<times> 'b dist_Cache" where
  "dist_Delete ops exprHash ctxHash c = (case b_Del ops [dataKey (d_prefix c) exprHash ctxHash] (d_backend c) of
     (Inl e, b) \<Rightarrow> (Some (BackendErr e), countError (c\<lparr>d_backend := b\<rparr>))
   | (Inr n, b) \<Rightarrow> (let c = c\<lparr>d_backend := b\<rparr> in
       (None, if n > 0 then c\<lparr>d_evictions := d_evictions c + of_int n\<rparr> else c)))"

definition dist_InvalidateByTag :: "'b Backend \<Rightarrow> 'v json \<Rightarrow> string \<Rightarrow> 'b dist_Cache \<Rightarrow> (dist_error + nat) \<times> 'b dist_Cache" where
  "dist_InvalidateByTag ops j tag c =
     (let tk = tagKey (d_prefix c) tag in case b_Get ops tk (d_backend c) of
        (Inl err, b) \<Rightarrow> (let c = c\<lparr>d_backend := b\<rparr> in
          if err = KeyNotFound then (Inr 0, c) else (Inl (BackendErr err), countError c))
      | (Inr data, b) \<Rightarrow> (let c = c\<lparr>d_backend := b\<rparr>; (members, ok) = unmarshalKeys j data in
          if \<not> ok then (Inl DecodeTagErr, countError c)
          else if length members = 0 then (Inr 0, c)
          else case b_Del ops (members @ [tk]) (d_backend c) of
              (Inl e, b) \<Rightarrow> (Inl (BackendErr e), countError (c\<lparr>d_backend := b\<rparr>))
            | (Inr _, b) \<Rightarrow> (Inr (length members), c\<lparr>d_backend := b, d_evictions := d_evictions c + of_nat (length members)\<rparr>)))"

fun dist_Warm :: "'b Backend \<Rightarrow> 'v json \<Rightarrow> 'v hasher \<Rightarrow> 'v WarmEntry list \<Rightarrow> nat \<Rightarrow>
    'b dist_Cache \<Rightarrow> (nat \<times> dist_error option) \<times> 'b dist_Cache" where
  "dist_Warm ops j h [] n c = ((n, None), c)"
| "dist_Warm ops j h (e # es) n c =
     (case dist_Set ops j h (w_Expr e) (w_Context e) (w_Value e) (w_Tags e) [] c of
        (Some err, c) \<Rightarrow> ((n, Some err), c)
      | (None, c) \<Rightarrow> dist_Warm ops j h es (n + 1) c)"

definition dist_Ping :: "'b Backend \<Rightarrow> 'b dist_Cache \<Rightarrow> dist_error option \<times> 'b dist_Cache" where
  "dist_Ping ops c = (case b_Ping ops (d_backend c) of
     (Some e, b) \<Rightarrow> (Some (BackendErr e), countError (c\<lparr>d_backend := b\<rparr>))
   | (None, b) \<Rightarrow> (None, c\<lparr>d_backend := b\<rparr>))"

record dist_stats =
  st_Backend :: string
  st_Prefix :: string
  st_DefaultTTL :: duration
  st_Keys :: nat
  st_Hits :: u64
  st_Misses :: u64
  st_Sets :: u64
  st_Evictions :: u64
  st_Errors :: u64
  st_HitRatio :: rat

text \<open>The hit ratio is the exact quotient, which the code rounds to a \<open>float64\<close>; its divisor wraps around.\<close>

definition dist_Stats :: "'b Backend \<Rightarrow> 'b dist_Cache \<Rightarrow> dist_stats \<times> 'b dist_Cache" where
  "dist_Stats ops c =
     (let (keys, b) = (case b_Len ops (d_backend c) of Some nb \<Rightarrow> nb | None \<Rightarrow> (0, d_backend c))
      in (\<lparr>st_Backend = b_Name ops, st_Prefix = d_prefix c, st_DefaultTTL = d_ttl c, st_Keys = keys,
           st_Hits = d_hits c, st_Misses = d_misses c, st_Sets = d_sets c, st_Evictions = d_evictions c,
           st_Errors = d_errors c,
           st_HitRatio = (if d_hits c + d_misses c > 0
             then of_nat (unat (d_hits c)) / of_nat (unat (d_hits c + d_misses c)) else 0)\<rparr>, c\<lparr>d_backend := b\<rparr>))"


section \<open>The contract of a backend\<close>

text \<open>\<open>stored b k\<close> is what the backend holds under a key, expired or not; \<open>durable b k\<close> says that the key
  was set without a time to live.\<close>

locale kv_backend =
  fixes ops :: "'b Backend"
    and stored :: "'b \<Rightarrow> string \<Rightarrow> string option"
    and durable :: "'b \<Rightarrow> string \<Rightarrow> bool"
  assumes get_hit: "b_Get ops k b = (Inr v, b') \<Longrightarrow> stored b k = Some v \<and> stored b' = stored b \<and> durable b' = durable b"
    and get_miss: "b_Get ops k b = (Inl KeyNotFound, b') \<Longrightarrow>
      \<not> durable b k \<and> stored b' = (stored b)(k := None) \<and> durable b' = durable b"
    and durable_stored: "durable b k \<Longrightarrow> stored b k \<noteq> None"
    and set_ok: "b_Set ops k v ttl b = (None, b') \<Longrightarrow>
      stored b' = (stored b)(k \<mapsto> v) \<and> durable b' = (durable b)(k := ttl \<le> 0)"
    and del_ok: "b_Del ops ks b = (Inr n, b') \<Longrightarrow>
      stored b' = stored b |` (- set ks) \<and> durable b' = (\<lambda>k. durable b k \<and> k \<notin> set ks)"

text \<open>A backend in the same process: the only failure is a missing key.\<close>

locale reliable_backend = kv_backend ops stored durable
  for ops :: "'b Backend" and stored :: "'b \<Rightarrow> string \<Rightarrow> string option" and durable :: "'b \<Rightarrow> string \<Rightarrow> bool" +
  assumes get_total: "b_Get ops k b = (Inl e, b') \<Longrightarrow> e = KeyNotFound"
    and set_total: "\<exists>b'. b_Set ops k v ttl b = (None, b')"
    and del_total: "\<exists>n b'. b_Del ops ks b = (Inr n, b')"

definition mem_stored :: "MemoryBackend \<Rightarrow> string \<Rightarrow> string option" where
  "mem_stored m k = map_option me_value (m_entries m k)"

definition mem_durable :: "MemoryBackend \<Rightarrow> string \<Rightarrow> bool" where
  "mem_durable m k \<longleftrightarrow> (\<exists>e. m_entries m k = Some e \<and> me_expiresAt e = None)"

lemma mem_delKeys_entries:
  "m_entries (snd (mem_delKeys ks n m)) = m_entries m |` (- set ks)"
proof (induction ks n m rule: mem_delKeys.induct)
  case (2 k ks n m)
  then show ?case by (auto simp: restrict_map_def fun_eq_iff)
qed simp

lemmas mem_view = mem_stored_def mem_durable_def fun_eq_iff

interpretation memory: reliable_backend memoryOps mem_stored mem_durable
proof
  fix k v ttl b b' ks n e
  show "b_Get memoryOps k b = (Inr v, b') \<Longrightarrow> mem_stored b k = Some v \<and> mem_stored b' = mem_stored b \<and> mem_durable b' = mem_durable b"
    by (auto simp: memoryOps_def mem_Get_def mem_now_def mem_view split: option.splits if_splits)
  show "b_Get memoryOps k b = (Inl KeyNotFound, b') \<Longrightarrow>
      \<not> mem_durable b k \<and> mem_stored b' = (mem_stored b)(k := None) \<and> mem_durable b' = mem_durable b"
    by (auto simp: memoryOps_def mem_Get_def mem_now_def mem_view split: option.splits if_splits)
  show "mem_durable b k \<Longrightarrow> mem_stored b k \<noteq> None" by (auto simp: mem_view)
  show "b_Set memoryOps k v ttl b = (None, b') \<Longrightarrow>
      mem_stored b' = (mem_stored b)(k \<mapsto> v) \<and> mem_durable b' = (mem_durable b)(k := ttl \<le> 0)"
    by (auto simp: memoryOps_def mem_Set_def mem_now_def mem_view split: if_splits)
  show "b_Del memoryOps ks b = (Inr n, b') \<Longrightarrow>
      mem_stored b' = mem_stored b |` (- set ks) \<and> mem_durable b' = (\<lambda>k. mem_durable b k \<and> k \<notin> set ks)"
    using mem_delKeys_entries [of ks 0 b]
    by (auto simp: memoryOps_def mem_Del_def mem_view restrict_map_def split: prod.splits)
  show "b_Get memoryOps k b = (Inl e, b') \<Longrightarrow> e = KeyNotFound"
    by (auto simp: memoryOps_def mem_Get_def mem_now_def split: option.splits if_splits)
  show "\<exists>b'. b_Set memoryOps k v ttl b = (None, b')" by (simp add: memoryOps_def mem_Set_def split: prod.splits)
  show "\<exists>n b'. b_Del memoryOps ks b = (Inr n, b')" by (simp add: memoryOps_def mem_Del_def split: prod.splits)
qed

section \<open>The tag index\<close>

definition ascii :: "string \<Rightarrow> bool" where
  "ascii s \<longleftrightarrow> (\<forall>c \<in> set s. (of_char c :: nat) < 128)"

text \<open>Documented behaviour of \<open>encoding/json\<close>: a list of strings is decoded to itself. It holds of valid
  UTF-8 only, since other bytes are replaced; it is used for ASCII.\<close>

definition json_keys :: "'v json \<Rightarrow> bool" where
  "json_keys j \<longleftrightarrow> (\<forall>ms. (\<forall>m \<in> set ms. ascii m) \<longrightarrow> unmarshalKeys j (marshalKeys j ms) = (ms, True))"

text \<open>A hash in hexadecimal is not empty and does not start with a colon.\<close>

definition wf_hash :: "string \<Rightarrow> bool" where
  "wf_hash h \<longleftrightarrow> h \<noteq> [] \<and> hd h \<noteq> CHR '':'' \<and> ascii h"

lemma dataKey_not_tagKey: "wf_hash eh \<Longrightarrow> dataKey p eh ch \<noteq> tagKey p tag"
  by (cases eh) (auto simp: wf_hash_def dataKey_def tagKey_def)

lemma tagKey_inject [simp]: "tagKey p t = tagKey p t' \<longleftrightarrow> t = t'"
  by (simp add: tagKey_def)

datatype 'v dist_op = DSet string string 'v "string list" "duration list" | DGet string string
  | DDelete string string | DInvalidate string

fun dist_step :: "'b Backend \<Rightarrow> 'v json \<Rightarrow> 'v dist_op \<Rightarrow> 'b dist_Cache \<Rightarrow> 'b dist_Cache" where
  "dist_step ops j (DSet eh ch v tags ttl) c = snd (dist_SetByKey ops j eh ch v tags ttl c)"
| "dist_step ops j (DGet eh ch) c = snd (dist_GetByKey ops j eh ch c)"
| "dist_step ops j (DDelete eh ch) c = snd (dist_Delete ops eh ch c)"
| "dist_step ops j (DInvalidate tag) c = snd (dist_InvalidateByTag ops j tag c)"

definition dist_run :: "'b Backend \<Rightarrow> 'v json \<Rightarrow> 'v dist_op list \<Rightarrow> 'b dist_Cache \<Rightarrow> 'b dist_Cache" where
  "dist_run ops j hist c = fold (dist_step ops j) hist c"

fun wf_op :: "'v dist_op \<Rightarrow> bool" where
  "wf_op (DSet eh ch v tags ttl) = (wf_hash eh \<and> wf_hash ch)"
| "wf_op (DGet eh ch) = (wf_hash eh \<and> wf_hash ch)"
| "wf_op (DDelete eh ch) = (wf_hash eh \<and> wf_hash ch)"
| "wf_op (DInvalidate tag) = True"

text \<open>The specification: which keys were stored with a tag since the tag was last invalidated.\<close>

fun tag_step :: "'v json \<Rightarrow> string \<Rightarrow> 'v dist_op \<Rightarrow> (string \<times> string) set \<Rightarrow> (string \<times> string) set" where
  "tag_step j p (DSet eh ch v tags ttl) H = (if marshal j v = None then H else H \<union> {dataKey p eh ch} \<times> set tags)"
| "tag_step j p (DInvalidate tag) H = {kt \<in> H. snd kt \<noteq> tag}"
| "tag_step j p _ H = H"

definition tag_history :: "'v json \<Rightarrow> string \<Rightarrow> 'v dist_op list \<Rightarrow> (string \<times> string) set" where
  "tag_history j p hist = fold (tag_step j p) hist {}"


definition tag_members :: "(string \<times> string) set \<Rightarrow> string \<Rightarrow> string set" where
  "tag_members H tag = {k. (k, tag) \<in> H}"

definition data_keys :: "string \<Rightarrow> (string \<times> string) set \<Rightarrow> bool" where
  "data_keys p H \<longleftrightarrow> (\<forall>kt \<in> H. ascii (fst kt) \<and> (\<forall>t. fst kt \<noteq> tagKey p t))"

lemma dataKey_ascii: "ascii p \<Longrightarrow> wf_hash eh \<Longrightarrow> wf_hash ch \<Longrightarrow> ascii (dataKey p eh ch)"
  by (auto simp: ascii_def wf_hash_def dataKey_def)

lemma json_keys_members:
  assumes "json_keys j" and "data_keys p H" and "set ms = tag_members H tag"
  shows "unmarshalKeys j (marshalKeys j ms) = (ms, True)"
proof -
  have "\<forall>m \<in> set ms. ascii m" using assms(2,3) by (force simp: data_keys_def tag_members_def)
  then show ?thesis using assms(1) by (simp add: json_keys_def)
qed

text \<open>What the index entry of a tag with the members \<open>ms\<close> looks like.\<close>

definition index_entry :: "'v json \<Rightarrow> string option \<Rightarrow> bool \<Rightarrow> string list \<Rightarrow> bool" where
  "index_entry j data forever ms \<longleftrightarrow> (if ms = [] then data = None else forever \<and> data = Some (marshalKeys j ms))"

lemma index_entry_none [simp]: "index_entry j None forever ms \<longleftrightarrow> ms = []"
  by (simp add: index_entry_def)

lemma index_entry_some: "index_entry j (Some d) forever ms \<longleftrightarrow> ms \<noteq> [] \<and> forever \<and> d = marshalKeys j ms"
  by (auto simp: index_entry_def)

lemma index_entry_nil [simp]: "index_entry j data forever [] \<longleftrightarrow> data = None"
  by (simp add: index_entry_def)

context reliable_backend
begin

text \<open>The index holds, for every tag, the keys of the history in a durable entry, or nothing.\<close>

definition indexed :: "'v json \<Rightarrow> string \<Rightarrow> 'b \<Rightarrow> (string \<times> string) set \<Rightarrow> bool" where
  "indexed j p b H \<longleftrightarrow> (\<forall>tag. \<exists>ms. distinct ms \<and> set ms = tag_members H tag \<and>
     index_entry j (stored b (tagKey p tag)) (durable b (tagKey p tag)) ms)"

lemma indexedE:
  assumes "indexed j p b H"
  obtains ms where "distinct ms" "set ms = tag_members H tag"
    "index_entry j (stored b (tagKey p tag)) (durable b (tagKey p tag)) ms"
  using assms unfolding indexed_def by blast

lemma indexed_frame:
  "indexed j p b H \<Longrightarrow> \<forall>t. stored b' (tagKey p t) = stored b (tagKey p t) \<and> durable b' (tagKey p t) = durable b (tagKey p t) \<Longrightarrow>
     indexed j p b' H"
  by (simp add: indexed_def)

lemma indexed_get:
  assumes "indexed j p b H" and "b_Get ops k b = (res, b')"
  shows "indexed j p b' H"
proof (cases res)
  case (Inl e)
  then have m: "\<not> durable b k" "stored b' = (stored b)(k := None)" "durable b' = durable b"
    using get_total assms(2) get_miss [of k b b'] by auto
  have "stored b k = None" if "k = tagKey p t" for t
  proof (rule indexedE [OF assms(1), of t])
    fix ms assume "index_entry j (stored b (tagKey p t)) (durable b (tagKey p t)) ms"
    then show ?thesis using m(1) that by (cases "ms = []") (simp_all add: index_entry_def)
  qed
  then show ?thesis using m by (intro indexed_frame [OF assms(1)]) auto
next
  case (Inr v)
  then show ?thesis using assms get_hit [of k b v b'] by (intro indexed_frame [OF assms(1)]) simp
qed

lemma indexed_lookup:
  assumes "indexed j p b H"
  obtains ms b' where "distinct ms" "set ms = tag_members H tag" "stored b' = stored b" "durable b' = durable b"
    and "b_Get ops (tagKey p tag) b = (if ms = [] then Inl KeyNotFound else Inr (marshalKeys j ms), b')"
proof -
  obtain ms where ms: "distinct ms" "set ms = tag_members H tag"
    "index_entry j (stored b (tagKey p tag)) (durable b (tagKey p tag)) ms"
    by (rule indexedE [OF assms])
  obtain res b' where get: "b_Get ops (tagKey p tag) b = (res, b')" by fastforce
  show thesis
  proof (cases res)
    case (Inl e)
    then have miss: "b_Get ops (tagKey p tag) b = (Inl KeyNotFound, b')" using get get_total by blast
    then have "ms = []" using ms(3) get_miss [OF miss] by (auto simp: index_entry_def split: if_splits)
    moreover have "stored b' = stored b" using get_miss [OF miss] \<open>ms = []\<close> ms(3) by auto
    ultimately show thesis using that ms miss get_miss [OF miss] by simp
  next
    case (Inr v)
    then have hit: "b_Get ops (tagKey p tag) b = (Inr v, b')" using get by simp
    then have "ms \<noteq> [] \<and> v = marshalKeys j ms" using ms(3) get_hit [OF hit] by (simp add: index_entry_some)
    then show thesis using that [of ms b'] ms hit get_hit [OF hit] by simp
  qed
qed

lemma indexed_insert:
  assumes "indexed j p b1 H" and "distinct ms" "set ms = tag_members H tag" "key \<notin> set ms"
    and "stored b2 = (stored b1)(tagKey p tag \<mapsto> marshalKeys j (ms @ [key]))" "durable b2 = (durable b1)(tagKey p tag := True)"
  shows "indexed j p b2 (insert (key, tag) H)"
  unfolding indexed_def
proof
  fix t
  obtain ms' where "distinct ms'" "set ms' = tag_members H t"
    "index_entry j (stored b1 (tagKey p t)) (durable b1 (tagKey p t)) ms'"
    by (rule indexedE [OF assms(1)])
  moreover have "tag_members (insert (key, tag) H) t = (if t = tag then insert key (set ms) else tag_members H t)"
    using assms(3) by (auto simp: tag_members_def)
  ultimately show "\<exists>ms'. distinct ms' \<and> set ms' = tag_members (insert (key, tag) H) t \<and>
      index_entry j (stored b2 (tagKey p t)) (durable b2 (tagKey p t)) ms'"
    using assms by (intro exI [of _ "if t = tag then ms @ [key] else ms'"]) (cases "t = tag"; auto simp: index_entry_def)
qed

lemma addTagKey_indexed:
  assumes "indexed j (d_prefix c) (d_backend c) H" and "json_keys j" and "data_keys (d_prefix c) H"
  obtains b where "addTagKey ops j tag key c = (None, c\<lparr>d_backend := b\<rparr>)"
    and "indexed j (d_prefix c) b (insert (key, tag) H)"
    and "\<forall>k. (\<forall>t. k \<noteq> tagKey (d_prefix c) t) \<longrightarrow> stored b k = stored (d_backend c) k"
proof -
  let ?p = "d_prefix c" and ?tk = "tagKey (d_prefix c) tag"
  obtain ms b1 where ms: "distinct ms" "set ms = tag_members H tag"
    and b1: "stored b1 = stored (d_backend c)" "durable b1 = durable (d_backend c)"
    and get: "b_Get ops ?tk (d_backend c) = (if ms = [] then Inl KeyNotFound else Inr (marshalKeys j ms), b1)"
    by (rule indexed_lookup [OF assms(1)])
  have idx: "indexed j ?p b1 H" by (rule indexed_frame [OF assms(1)]) (simp add: b1)
  obtain b2 where set: "b_Set ops ?tk (marshalKeys j (ms @ [key])) 0 b1 = (None, b2)" using set_total by blast
  let ?b = "if key \<in> set ms then b1 else b2"
  have 1: "addTagKey ops j tag key c = (None, c\<lparr>d_backend := ?b\<rparr>)"
    using get set json_keys_members [OF assms(2,3) ms(2)] by (cases "ms = []") (simp_all add: addTagKey_def)
  have 2: "indexed j ?p ?b (insert (key, tag) H)"
  proof (cases "key \<in> set ms")
    case True
    then have "insert (key, tag) H = H" using ms(2) by (auto simp: tag_members_def)
    then show ?thesis using True idx by simp
  next
    case False
    then show ?thesis using indexed_insert [OF idx ms] set_ok [OF set] by simp
  qed
  have 3: "\<forall>k. (\<forall>t. k \<noteq> tagKey ?p t) \<longrightarrow> stored ?b k = stored (d_backend c) k"
    using b1 set_ok [OF set] by simp
  show thesis by (rule that [OF 1 2 3])
qed

lemma indexTags_indexed:
  assumes "indexed j (d_prefix c) (d_backend c) H" and "json_keys j" and "data_keys (d_prefix c) (H \<union> {key} \<times> set tags)"
  shows "\<exists>b. indexTags ops j tags key c = c\<lparr>d_backend := b\<rparr> \<and> indexed j (d_prefix c) b (H \<union> {key} \<times> set tags) \<and>
    (\<forall>k. (\<forall>t. k \<noteq> tagKey (d_prefix c) t) \<longrightarrow> stored b k = stored (d_backend c) k)"
  using assms(1,3)
proof (induction tags arbitrary: c H)
  case (Cons tag tags)
  then have data: "data_keys (d_prefix c) H" by (simp add: data_keys_def)
  obtain b where b: "addTagKey ops j tag key c = (None, c\<lparr>d_backend := b\<rparr>)"
    and idx: "indexed j (d_prefix c) b (insert (key, tag) H)"
    and keep: "\<forall>k. (\<forall>t. k \<noteq> tagKey (d_prefix c) t) \<longrightarrow> stored b k = stored (d_backend c) k"
    by (rule addTagKey_indexed [OF Cons.prems(1) assms(2) data])
  moreover have "insert (key, tag) H \<union> {key} \<times> set tags = H \<union> {key} \<times> set (tag # tags)" by auto
  ultimately show ?case
    using Cons.IH [of "c\<lparr>d_backend := b\<rparr>" "insert (key, tag) H"] Cons.prems(2) by auto
next
  case Nil
  then show ?case by (intro exI [of _ "d_backend c"]) simp
qed

lemma SetByKey_indexed:
  assumes "indexed j (d_prefix c) (d_backend c) H" and "json_keys j" and "wf_hash eh" and "marshal j v = Some data"
    and "data_keys (d_prefix c) (H \<union> {dataKey (d_prefix c) eh ch} \<times> set tags)"
  obtains b where "dist_SetByKey ops j eh ch v tags ttl c = (None, c\<lparr>d_backend := b, d_sets := d_sets c + 1\<rparr>)"
    and "indexed j (d_prefix c) b (H \<union> {dataKey (d_prefix c) eh ch} \<times> set tags)"
    and "stored b (dataKey (d_prefix c) eh ch) = Some data"
proof -
  let ?key = "dataKey (d_prefix c) eh ch"
  let ?ttl = "case ttl of t # _ \<Rightarrow> if t > 0 then t else d_ttl c | [] \<Rightarrow> d_ttl c"
  obtain b1 where b1: "b_Set ops ?key data ?ttl (d_backend c) = (None, b1)" using set_total by blast
  let ?c = "c\<lparr>d_backend := b1, d_sets := d_sets c + 1\<rparr>"
  have "indexed j (d_prefix c) b1 H"
    using set_ok [OF b1] dataKey_not_tagKey [OF assms(3)] by (intro indexed_frame [OF assms(1)]) (simp add: eq_commute)
  then obtain b where "indexTags ops j tags ?key ?c = ?c\<lparr>d_backend := b\<rparr>"
    "indexed j (d_prefix c) b (H \<union> {?key} \<times> set tags)"
    "\<forall>k. (\<forall>t. k \<noteq> tagKey (d_prefix c) t) \<longrightarrow> stored b k = stored b1 k"
    using indexTags_indexed [of j ?c H ?key tags] assms(2,5) by auto
  moreover have "stored b1 ?key = Some data" using set_ok [OF b1] by simp
  ultimately show thesis
    using that [of b] b1 assms(3,4) dataKey_not_tagKey by (simp add: dist_SetByKey_def Let_def)
qed

lemma Delete_indexed:
  assumes "indexed j (d_prefix c) (d_backend c) H" and "wf_hash eh"
  shows "indexed j (d_prefix c) (d_backend (snd (dist_Delete ops eh ch c))) H"
proof -
  obtain n b where b: "b_Del ops [dataKey (d_prefix c) eh ch] (d_backend c) = (Inr n, b)" using del_total by blast
  have "indexed j (d_prefix c) b H"
    using del_ok [OF b] dataKey_not_tagKey [OF assms(2)]
    by (intro indexed_frame [OF assms(1)]) (auto simp: restrict_map_def eq_commute)
  then show ?thesis using b by (simp add: dist_Delete_def Let_def)
qed

lemma GetByKey_indexed:
  assumes "indexed j (d_prefix c) (d_backend c) H"
  shows "indexed j (d_prefix c) (d_backend (snd (dist_GetByKey ops j' eh ch c))) H"
proof -
  obtain res b where b: "b_Get ops (dataKey (d_prefix c) eh ch) (d_backend c) = (res, b)" by fastforce
  show ?thesis
    using indexed_get [OF assms b] b by (auto simp: dist_GetByKey_def countError_def Let_def split: sum.splits option.splits)
qed

lemma Invalidate_indexed:
  assumes "indexed j (d_prefix c) (d_backend c) H" and "json_keys j" and "data_keys (d_prefix c) H"
  shows "\<exists>b. fst (dist_InvalidateByTag ops j tag c) = Inr (card (tag_members H tag)) \<and>
    d_backend (snd (dist_InvalidateByTag ops j tag c)) = b \<and> indexed j (d_prefix c) b {kt \<in> H. snd kt \<noteq> tag} \<and>
    (\<forall>k. (\<forall>t. k \<noteq> tagKey (d_prefix c) t) \<longrightarrow> stored b k = (if (k, tag) \<in> H then None else stored (d_backend c) k))"
proof -
  let ?p = "d_prefix c" and ?tk = "tagKey (d_prefix c) tag"
  obtain ms b1 where ms: "distinct ms" "set ms = tag_members H tag"
    and b1: "stored b1 = stored (d_backend c)" "durable b1 = durable (d_backend c)"
    and get: "b_Get ops ?tk (d_backend c) = (if ms = [] then Inl KeyNotFound else Inr (marshalKeys j ms), b1)"
    by (rule indexed_lookup [OF assms(1)])
  have idx: "indexed j ?p b1 H" by (rule indexed_frame [OF assms(1)]) (simp add: b1)
  have len: "length ms = card (tag_members H tag)" using ms distinct_card by metis
  have mem: "(k, tag) \<in> H \<longleftrightarrow> k \<in> set ms" for k using ms(2) by (simp add: tag_members_def)
  have rest: "tag_members {kt \<in> H. snd kt \<noteq> tag} t = (if t = tag then {} else tag_members H t)" for t
    by (auto simp: tag_members_def)
  show ?thesis
  proof (cases "ms = []")
    case True
    then have "{kt \<in> H. snd kt \<noteq> tag} = H" using mem by auto
    then show ?thesis using True get idx b1 len mem by (simp add: dist_InvalidateByTag_def Let_def)
  next
    case False
    obtain n b where b: "b_Del ops (ms @ [?tk]) b1 = (Inr n, b)" using del_total by blast
    have data: "tagKey ?p t \<notin> set ms" for t using assms(3) mem unfolding data_keys_def by fastforce
    have "indexed j ?p b {kt \<in> H. snd kt \<noteq> tag}"
      unfolding indexed_def
    proof
      fix t
      obtain ms' where "distinct ms'" "set ms' = tag_members H t"
        "index_entry j (stored b1 (tagKey ?p t)) (durable b1 (tagKey ?p t)) ms'"
        by (rule indexedE [OF idx])
      then show "\<exists>ms'. distinct ms' \<and> set ms' = tag_members {kt \<in> H. snd kt \<noteq> tag} t \<and>
          index_entry j (stored b (tagKey ?p t)) (durable b (tagKey ?p t)) ms'"
        using del_ok [OF b] data rest by (intro exI [of _ "if t = tag then [] else ms'"]) (simp add: restrict_map_def)
    qed
    moreover have "card (tag_members H tag) \<noteq> 0" using False len [symmetric] by simp
    ultimately show ?thesis
      using False get b len mem del_ok [OF b] b1 json_keys_members [OF assms(2,3) ms(2)]
      by (simp add: dist_InvalidateByTag_def Let_def restrict_map_def)
  qed
qed

lemma step_indexed:
  assumes "indexed j (d_prefix c) (d_backend c) H" and "json_keys j" and "data_keys (d_prefix c) H" and "wf_op op"
    and "data_keys (d_prefix c) (tag_step j (d_prefix c) op H)"
  shows "indexed j (d_prefix c) (d_backend (dist_step ops j op c)) (tag_step j (d_prefix c) op H)"
proof (cases op)
  case (DSet eh ch v tags ttl)
  then have wf: "wf_hash eh" using assms(4) by simp
  show ?thesis
  proof (cases "marshal j v")
    case None
    then show ?thesis using DSet assms(1) by (simp add: dist_SetByKey_def countError_def)
  next
    case (Some data)
    then show ?thesis
      using DSet assms(5) by (auto intro: SetByKey_indexed [OF assms(1,2) wf Some, of ch tags ttl])
  qed
next
  case (DInvalidate tag)
  then show ?thesis using Invalidate_indexed [OF assms(1-3), of tag] by simp
next
  case (DDelete eh ch)
  then show ?thesis using assms Delete_indexed [of j c H eh ch] by simp
qed (use assms GetByKey_indexed in simp)

end

section \<open>Histories\<close>

lemma indexTags_prefix: "d_prefix (indexTags ops j tags key c) = d_prefix c"
  by (induction tags arbitrary: c)
    (auto simp: addTagKey_def countError_def Let_def split: prod.splits option.splits sum.splits if_splits)

lemma step_prefix: "d_prefix (dist_step ops j op c) = d_prefix c"
  by (cases op) (auto simp: dist_SetByKey_def dist_GetByKey_def dist_Delete_def dist_InvalidateByTag_def countError_def
      indexTags_prefix Let_def split: option.splits sum.splits prod.splits)

lemma run_prefix: "d_prefix (dist_run ops j hist c) = d_prefix c"
  by (induction hist arbitrary: c) (simp_all add: dist_run_def step_prefix)

lemma tag_step_data_keys: "data_keys p H \<Longrightarrow> ascii p \<Longrightarrow> wf_op op \<Longrightarrow> data_keys p (tag_step j p op H)"
  using dataKey_not_tagKey dataKey_ascii by (cases op) (auto simp: data_keys_def)

lemma memory_run_indexed:
  assumes "memory.indexed j (d_prefix c) (d_backend c) H" "data_keys (d_prefix c) H" "json_keys j" "list_all wf_op hist"
    and "ascii (d_prefix c)"
  shows "memory.indexed j (d_prefix c) (d_backend (dist_run memoryOps j hist c)) (fold (tag_step j (d_prefix c)) hist H) \<and>
    data_keys (d_prefix c) (fold (tag_step j (d_prefix c)) hist H)"
  using assms
proof (induction hist arbitrary: c H)
  case (Cons op hist)
  from Cons.prems have "wf_op op" by simp
  then show ?case
    using Cons.IH [of "dist_step memoryOps j op c" "tag_step j (d_prefix c) op H"] Cons.prems
      memory.step_indexed [of j c H op] tag_step_data_keys [of "d_prefix c" H op j]
    by (simp add: dist_run_def step_prefix)
qed (simp add: dist_run_def)

lemma dist_apply_backend: "d_backend (fold dist_apply opts c) = d_backend c"
proof (induction opts arbitrary: c)
  case (Cons opt opts)
  then show ?case by (cases opt) simp_all
qed simp

lemma dist_New_backend: "d_backend (dist_New b opts) = b"
  by (simp add: dist_New_def dist_apply_backend)

lemma memory_New_indexed: "memory.indexed j p (newMemoryBackendWithClock clock) {}"
  by (simp add: memory.indexed_def tag_members_def mem_stored_def newMemoryBackendWithClock_def)

lemma mem_miss: "mem_stored (d_backend c) (dataKey (d_prefix c) eh ch) = None \<Longrightarrow>
    fst (dist_GetByKey memoryOps j eh ch c) = Inr None"
  by (simp add: mem_stored_def dist_GetByKey_def memoryOps_def mem_Get_def Let_def)

text \<open>C21: Invalidation by tag is exact on a cache with the memory backend. After any history of stores, lookups,
  deletions and invalidations, invalidating a tag makes every lookup miss whose key was stored with
  the tag since its last invalidation, keeps every other entry, and returns the number
  of those keys.\<close>

theorem tag_invalidation_exact:
  fixes hist :: "'v dist_op list"
  assumes "json_keys j" and "list_all wf_op hist" and "wf_hash eh" and "ascii (d_prefix c)"
    and "c = dist_run memoryOps j hist (dist_New (newMemoryBackendWithClock clock) opts)"
    and "dist_InvalidateByTag memoryOps j tag c = (res, c')"
    and "H = tag_history j (d_prefix c) hist"
  shows "res = Inr (card {k. (k, tag) \<in> H}) \<and>
    (if (dataKey (d_prefix c) eh ch, tag) \<in> H then fst (dist_GetByKey memoryOps j eh ch c') = Inr None
     else mem_stored (d_backend c') (dataKey (d_prefix c) eh ch) = mem_stored (d_backend c) (dataKey (d_prefix c) eh ch))"
proof -
  let ?c0 = "dist_New (newMemoryBackendWithClock clock) opts"
  have "memory.indexed j (d_prefix ?c0) (d_backend ?c0) {}" "data_keys (d_prefix ?c0) {}" "ascii (d_prefix ?c0)"
    using assms(4) assms(5) run_prefix [of memoryOps j hist ?c0] by (simp_all add: dist_New_backend memory_New_indexed data_keys_def)
  from memory_run_indexed [OF this(1,2) assms(1,2) this(3)]
  have idx: "memory.indexed j (d_prefix c) (d_backend c) H" and data: "data_keys (d_prefix c) H"
    using run_prefix [of memoryOps j hist ?c0] assms(5,7) by (simp_all add: tag_history_def)
  have "d_prefix c' = d_prefix c" using step_prefix [of memoryOps j "DInvalidate tag" c] assms(6) by simp
  then show ?thesis
    using memory.Invalidate_indexed [OF idx assms(1) data, of tag] assms(6) dataKey_not_tagKey [OF assms(3)]
      mem_miss [of c' eh ch j]
    by (auto simp: tag_members_def)
qed

text \<open>A concrete encoder, which escapes every character.\<close>

fun escKeys :: "string list \<Rightarrow> string" where
  "escKeys [] = []"
| "escKeys ([] # ms) = CHR ''.'' # escKeys ms"
| "escKeys ((c # m) # ms) = CHR ''c'' # c # escKeys (m # ms)"

fun unescKeys :: "string \<Rightarrow> string \<Rightarrow> string list" where
  "unescKeys [] cur = []"
| "unescKeys [x] cur = (if x = CHR ''.'' then [rev cur] else [])"
| "unescKeys (x # y # s) cur = (if x = CHR ''.'' then rev cur # unescKeys (y # s) [] else unescKeys s (y # cur))"

definition escJson :: "string json" where
  "escJson = \<lparr>marshal = Some, unmarshal = Some, marshalKeys = escKeys, unmarshalKeys = (\<lambda>s. (unescKeys s [], True))\<rparr>"

lemma unescKeys_escKeys: "ms \<noteq> [] \<Longrightarrow> unescKeys (escKeys ms) cur = (rev cur @ hd ms) # tl ms"
proof (induction ms arbitrary: cur rule: escKeys.induct)
  case (2 ms)
  then show ?case by (cases ms; cases "escKeys ms") auto
qed auto

lemma json_keys_escJson: "json_keys escJson"
proof -
  have "unescKeys (escKeys ms) [] = ms" for ms using unescKeys_escKeys [of ms "[]"] by (cases ms) auto
  then show ?thesis by (simp add: json_keys_def escJson_def)
qed

theorem tag_invalidation_exact_witness:
  "fst (dist_GetByKey memoryOps escJson ''aa'' ''bb'' (snd (dist_InvalidateByTag memoryOps escJson ''t''
     (dist_run memoryOps escJson [DSet ''aa'' ''bb'' ''v'' [''t''] []] (dist_New (newMemoryBackendWithClock (\<lambda>n. int n)) []))))) = Inr None"
proof -
  let ?c = "dist_run memoryOps escJson [DSet ''aa'' ''bb'' ''v'' [''t''] []] (dist_New (newMemoryBackendWithClock (\<lambda>n. int n)) [])"
  have p: "d_prefix ?c = defaultPrefix" by (simp add: run_prefix dist_New_def)
  obtain res c' where c': "dist_InvalidateByTag memoryOps escJson ''t'' ?c = (res, c')" by fastforce
  have "(dataKey (d_prefix ?c) ''aa'' ''bb'', ''t'') \<in> tag_history escJson (d_prefix ?c) [DSet ''aa'' ''bb'' ''v'' [''t''] []]"
    by (simp add: tag_history_def escJson_def)
  then show ?thesis
    using tag_invalidation_exact [OF json_keys_escJson _ _ _ refl c' refl, of "''aa''" "''bb''"] c'
    by (simp add: p wf_hash_def ascii_def defaultPrefix_def)
qed

section \<open>Expiry\<close>

lemma addTagKey_memory:
  assumes "\<forall>t. k \<noteq> tagKey (d_prefix c) t"
  shows "m_entries (d_backend (snd (addTagKey memoryOps j tag key c))) k = m_entries (d_backend c) k \<and>
    m_clock (d_backend (snd (addTagKey memoryOps j tag key c))) = m_clock (d_backend c) \<and>
    d_prefix (snd (addTagKey memoryOps j tag key c)) = d_prefix c"
  using assms by (auto simp: addTagKey_def memoryOps_def mem_Get_def mem_Set_def mem_now_def Let_def split: option.splits)

lemma indexTags_memory:
  assumes "\<forall>t. k \<noteq> tagKey (d_prefix c) t"
  shows "m_entries (d_backend (indexTags memoryOps j tags key c)) k = m_entries (d_backend c) k \<and>
    m_clock (d_backend (indexTags memoryOps j tags key c)) = m_clock (d_backend c)"
  using assms
proof (induction tags arbitrary: c)
  case (Cons tag tags)
  obtain err c1 where c1: "addTagKey memoryOps j tag key c = (err, c1)" by fastforce
  then show ?case
    using Cons.IH [of c1] Cons.IH [of "countError c1"] Cons.prems addTagKey_memory [OF Cons.prems, of j tag key]
    by (cases err) (simp_all add: countError_def)
qed simp

text \<open>A stored result is found again until its time to live has passed, and not afterwards, whatever tags it
  is stored with. The time to live is the override when it is positive and the default of
  the cache otherwise.\<close>

theorem set_then_get:
  assumes "wf_hash eh" and "marshal j v = Some data" and "unmarshal j data = Some w" and "0 < d_ttl c"
    and "dist_SetByKey memoryOps j eh ch v tags ttls c = (err, c')"
    and "ttl = (if ttls \<noteq> [] \<and> 0 < hd ttls then hd ttls else d_ttl c)"
  shows "err = None \<and> fst (dist_GetByKey memoryOps j eh ch c') =
    Inr (if m_clock (d_backend c) (m_calls (d_backend c')) \<le> m_clock (d_backend c) (m_calls (d_backend c)) + ttl then Some w else None)"
proof -
  let ?key = "dataKey (d_prefix c) eh ch"
  have ttl: "(case ttls of t # _ \<Rightarrow> if t > 0 then t else d_ttl c | [] \<Rightarrow> d_ttl c) = ttl" "0 < ttl"
    using assms(4,6) by (auto split: list.splits)
  obtain m where m: "mem_Set ?key data ttl (d_backend c) = (None, m)" "m_clock m = m_clock (d_backend c)"
    "m_entries m ?key = Some \<lparr>me_value = data, me_expiresAt = Some (m_clock (d_backend c) (m_calls (d_backend c)) + ttl)\<rparr>"
    using ttl(2) by (simp add: mem_Set_def mem_now_def)
  let ?c = "c\<lparr>d_backend := m, d_sets := d_sets c + 1\<rparr>"
  have c': "err = None" "c' = indexTags memoryOps j tags ?key ?c"
    using assms(2,5) ttl(1) m(1) by (simp_all add: dist_SetByKey_def memoryOps_def Let_def)
  have "m_entries (d_backend c') ?key = m_entries m ?key \<and> m_clock (d_backend c') = m_clock (d_backend c)"
    using indexTags_memory [of ?key ?c j tags ?key] dataKey_not_tagKey [OF assms(1)] c'(2) m(2) by simp
  moreover have "d_prefix c' = d_prefix c" using c'(2) by (simp add: indexTags_prefix)
  ultimately show ?thesis
    using m(3) assms(3) c'(1) by (simp add: dist_GetByKey_def memoryOps_def mem_Get_def mem_now_def Let_def)
qed

theorem set_then_get_witness:
  "fst (dist_GetByKey memoryOps escJson ''aa'' ''bb'' (snd (dist_SetByKey memoryOps escJson ''aa'' ''bb'' ''v'' [] [2]
     (dist_New (newMemoryBackendWithClock (\<lambda>n. int n)) [])))) = Inr (Some ''v'') \<and>
   fst (dist_GetByKey memoryOps escJson ''aa'' ''bb'' (snd (dist_SetByKey memoryOps escJson ''aa'' ''bb'' ''v'' [] [2]
     (dist_New (newMemoryBackendWithClock (\<lambda>n. 3 * int n)) [])))) = Inr None"
proof -
  have *: "wf_hash ''aa''" "marshal escJson ''v'' = Some ''v''" "unmarshal escJson ''v'' = Some ''v''"
    by (simp_all add: wf_hash_def ascii_def escJson_def)
  show ?thesis
    using set_then_get [OF *, of "dist_New (newMemoryBackendWithClock (\<lambda>n. int n)) []" "''bb''" "[]" "[2]" _ _ 2]
      set_then_get [OF *, of "dist_New (newMemoryBackendWithClock (\<lambda>n. 3 * int n)) []" "''bb''" "[]" "[2]" _ _ 2]
    by (simp add: dist_New_def newMemoryBackendWithClock_def dist_defaultTTL_def dist_SetByKey_def memoryOps_def mem_Set_def
        mem_now_def Let_def escJson_def)
qed

end
