(* ===== verification/PolicyImport.thy ===== *)
theory PolicyImport
  imports GoStrings "HOL-Library.Multiset"
begin

text \<open>
  The policy translators (\<open>src/internal/policyimport\<close>): \<open>cel_literals.go\<close>, \<open>cedar.go\<close> and \<open>rego.go\<close>, which turn
  the syntax tree of a Cedar policy or a Rego module into the text of a CEL expression. The parsers
  of the two languages are third-party code: a translation starts from the tree, whose
  node types are the constructors the source names, with \<open>OtherNode\<close>, \<open>OtherValue\<close>, \<open>OtherScope\<close> and \<open>OtherTerm\<close>
  for the types that fall into a default case (the string is the Go type name). Strings
  are valid UTF-8 whose characters outside ASCII are printable; those bytes are copied. The
  detail text of an error is not modelled.
\<close>

section \<open>Literals\<close>

fun celEscape :: "string \<Rightarrow> string" where
  "celEscape [] = []"
| "celEscape (r # s) =
     (if r = CHR 0x22 then [CHR 0x5C, CHR 0x22]
      else if r = CHR 0x5C then [CHR 0x5C, CHR 0x5C]
      else if r = CHR 0x0A then [CHR 0x5C, CHR ''n'']
      else if r = CHR 0x0D then [CHR 0x5C, CHR ''r'']
      else if r = CHR 0x09 then [CHR 0x5C, CHR ''t'']
      else [r]) @ celEscape s"

definition celString :: "string \<Rightarrow> string" where
  "celString s = [CHR 0x22] @ celEscape s @ [CHR 0x22]"

text \<open>\<open>parseFloat\<close> says which texts \<open>strconv.ParseFloat\<close> accepts.\<close>

definition celNumber :: "(string \<Rightarrow> bool) \<Rightarrow> (string \<Rightarrow> bool) \<Rightarrow> string \<Rightarrow> string" where
  "celNumber parseInt parseFloat s = (if parseInt s then s else if parseFloat s then s else celString s)"

text \<open>\<open>strconv.Quote\<close>, the verb \<open>%q\<close>.\<close>

definition hexDigit :: "nat \<Rightarrow> char" where
  "hexDigit n = (if n < 10 then char_of (48 + n) else char_of (87 + n))"

fun quoteBody :: "string \<Rightarrow> string" where
  "quoteBody [] = []"
| "quoteBody (c # s) =
     (if c = CHR 0x22 \<or> c = CHR 0x5C then [CHR 0x5C, c]
      else if c = CHR 0x07 then [CHR 0x5C, CHR ''a'']
      else if c = CHR 0x08 then [CHR 0x5C, CHR ''b'']
      else if c = CHR 0x0C then [CHR 0x5C, CHR ''f'']
      else if c = CHR 0x0A then [CHR 0x5C, CHR ''n'']
      else if c = CHR 0x0D then [CHR 0x5C, CHR ''r'']
      else if c = CHR 0x09 then [CHR 0x5C, CHR ''t'']
      else if c = CHR 0x0B then [CHR 0x5C, CHR ''v'']
      else if (of_char c :: nat) < 32 \<or> c = CHR 0x7F
        then [CHR 0x5C, CHR ''x'', hexDigit (of_char c div 16), hexDigit (of_char c mod 16)]
      else [c]) @ quoteBody s"

definition Quote :: "string \<Rightarrow> string" where
  "Quote s = [CHR 0x22] @ quoteBody s @ [CHR 0x22]"

definition celEntityUID :: "string \<Rightarrow> string \<Rightarrow> string" where
  "celEntityUID ty ident = celString (ty @ ''::'' @ Quote ident)"

definition wrapTerms :: "string list \<Rightarrow> string list" where
  "wrapTerms terms = map (\<lambda>t. ''('' @ t @ '')'') terms"

datatype UnsupportedError = Unsupported string string

section \<open>Cedar\<close>

datatype cedar_value = CBool bool | CLong int | CString string | CEntity string string
  | CSet "cedar_value list" | CRecord "(string \<times> cedar_value) list" | OtherValue string

datatype cedar_binary = NodeTypeEquals | NodeTypeNotEquals | NodeTypeLessThan | NodeTypeLessThanOrEqual
  | NodeTypeGreaterThan | NodeTypeGreaterThanOrEqual | NodeTypeAnd | NodeTypeOr | NodeTypeAdd | NodeTypeSub | NodeTypeMult

datatype cedar_method = NodeTypeContains | NodeTypeContainsAll | NodeTypeContainsAny

datatype cedar_node = NodeValue cedar_value | NodeTypeVariable string
  | NodeTypeAccess cedar_node string | NodeTypeHas cedar_node string
  | NodeBinary cedar_binary cedar_node cedar_node
  | NodeTypeNot cedar_node | NodeTypeNegate cedar_node
  | NodeTypeIn cedar_node cedar_node
  | NodeMethod cedar_method cedar_node cedar_node
  | NodeTypeIfThenElse cedar_node cedar_node cedar_node
  | NodeTypeSet "cedar_node list" | NodeTypeRecord "(string \<times> cedar_node) list"
  | NodeTypeIs cedar_node string
  | NodeTypeLike cedar_node | NodeTypeIsIn cedar_node | NodeTypeHasTag cedar_node | NodeTypeGetTag cedar_node
  | NodeTypeIsEmpty cedar_node | NodeTypeExtensionCall string "cedar_node list" | OtherNode string

fun cedar_op :: "cedar_binary \<Rightarrow> string" where
  "cedar_op NodeTypeEquals = ''==''"
| "cedar_op NodeTypeNotEquals = ''!=''"
| "cedar_op NodeTypeLessThan = ''<''"
| "cedar_op NodeTypeLessThanOrEqual = ''<=''"
| "cedar_op NodeTypeGreaterThan = ''>''"
| "cedar_op NodeTypeGreaterThanOrEqual = ''>=''"
| "cedar_op NodeTypeAnd = ''&&''"
| "cedar_op NodeTypeOr = ''||''"
| "cedar_op NodeTypeAdd = ''+''"
| "cedar_op NodeTypeSub = ''-''"
| "cedar_op NodeTypeMult = ''*''"

fun cedar_method_name :: "cedar_method \<Rightarrow> string" where
  "cedar_method_name NodeTypeContains = ''contains''"
| "cedar_method_name NodeTypeContainsAll = ''containsAll''"
| "cedar_method_name NodeTypeContainsAny = ''containsAny''"

text \<open>Elements of a set or a record literal come in the order in which Go iterates over them.\<close>

fun cedar_val :: "cedar_value \<Rightarrow> UnsupportedError + string"
  and cedar_vals :: "cedar_value list \<Rightarrow> UnsupportedError + string list"
  and cedar_items :: "(string \<times> cedar_value) list \<Rightarrow> UnsupportedError + (string \<times> string) list" where
  "cedar_val (CBool b) = Inr (if b then ''true'' else ''false'')"
| "cedar_val (CLong n) = Inr (Itoa n)"
| "cedar_val (CString s) = Inr (celString s)"
| "cedar_val (CEntity ty ident) = Inr (celEntityUID ty ident)"
| "cedar_val (CSet els) = (case cedar_vals els of Inl e \<Rightarrow> Inl e
     | Inr parts \<Rightarrow> Inr (''['' @ Join (sort parts) '', '' @ '']''))"
| "cedar_val (CRecord fields) = (case cedar_items fields of Inl e \<Rightarrow> Inl e
     | Inr items \<Rightarrow> Inr (''{'' @ Join (map (\<lambda>(k, v). k @ '': '' @ v) (sortSlice (\<lambda>i j. fst i < fst j) items)) '', '' @ ''}''))"
| "cedar_val (OtherValue ty) = Inl (Unsupported ''cedar'' (''cedar.value:'' @ ty))"
| "cedar_vals [] = Inr []"
| "cedar_vals (el # els) = (case cedar_val el of Inl e \<Rightarrow> Inl e
     | Inr s \<Rightarrow> (case cedar_vals els of Inl e \<Rightarrow> Inl e | Inr parts \<Rightarrow> Inr (s # parts)))"
| "cedar_items [] = Inr []"
| "cedar_items ((k, ev) # fields) = (case cedar_val ev of Inl e \<Rightarrow> Inl e
     | Inr s \<Rightarrow> (case cedar_items fields of Inl e \<Rightarrow> Inl e | Inr items \<Rightarrow> Inr ((celString k, s) # items)))"

text \<open>\<open>binary\<close> and \<open>method\<close> render their operands in order; \<open>both\<close> is that common part.\<close>

definition both :: "UnsupportedError + string \<Rightarrow> UnsupportedError + string \<Rightarrow> (string \<Rightarrow> string \<Rightarrow> string) \<Rightarrow> UnsupportedError + string" where
  "both l r f = (case l of Inl e \<Rightarrow> Inl e | Inr ls \<Rightarrow> (case r of Inl e \<Rightarrow> Inl e | Inr rs \<Rightarrow> Inr (f ls rs)))"

definition cedar_membership :: "string \<Rightarrow> string \<Rightarrow> string" where
  "cedar_membership left right = ''('' @ left @ '' == '' @ right @ '' || '' @ left @ '' in '' @ right @ ''.ancestors)''"

fun cedarNode :: "cedar_node \<Rightarrow> UnsupportedError + string"
  and cedarNodes :: "cedar_node list \<Rightarrow> UnsupportedError + string list"
  and cedarFields :: "(string \<times> cedar_node) list \<Rightarrow> UnsupportedError + string list" where
  "cedarNode (NodeValue v) = cedar_val v"
| "cedarNode (NodeTypeVariable name) = Inr name"
| "cedarNode (NodeTypeAccess arg attr) = map_sum id (\<lambda>base. base @ ''.'' @ attr) (cedarNode arg)"
| "cedarNode (NodeTypeHas arg attr) = map_sum id (\<lambda>base. ''has('' @ base @ ''.'' @ attr @ '')'') (cedarNode arg)"
| "cedarNode (NodeBinary op l r) =
     both (cedarNode l) (cedarNode r) (\<lambda>ls rs. ''('' @ ls @ '' '' @ cedar_op op @ '' '' @ rs @ '')'')"
| "cedarNode (NodeTypeNot arg) = map_sum id (\<lambda>s. ''!('' @ s @ '')'') (cedarNode arg)"
| "cedarNode (NodeTypeNegate arg) = map_sum id (\<lambda>s. ''-('' @ s @ '')'') (cedarNode arg)"
| "cedarNode (NodeTypeIn l r) = both (cedarNode l) (cedarNode r) cedar_membership"
| "cedarNode (NodeMethod m recv arg) =
     both (cedarNode recv) (cedarNode arg) (\<lambda>rs as. rs @ ''.'' @ cedar_method_name m @ ''('' @ as @ '')'')"
| "cedarNode (NodeTypeIfThenElse c t e) = (case cedarNode c of Inl err \<Rightarrow> Inl err
     | Inr cond \<Rightarrow> both (cedarNode t) (cedarNode e) (\<lambda>th els. ''('' @ cond @ '' ? '' @ th @ '' : '' @ els @ '')''))"
| "cedarNode (NodeTypeSet els) = map_sum id (\<lambda>parts. ''['' @ Join parts '', '' @ '']'') (cedarNodes els)"
| "cedarNode (NodeTypeRecord fields) = map_sum id (\<lambda>parts. ''{'' @ Join parts '', '' @ ''}'') (cedarFields fields)"
| "cedarNode (NodeTypeIs l ty) = map_sum id (\<lambda>s. s @ ''.__entity_type == '' @ celString ty) (cedarNode l)"
| "cedarNode (NodeTypeLike n) = Inl (Unsupported ''cedar'' ''cedar.node:like'')"
| "cedarNode (NodeTypeIsIn n) = Inl (Unsupported ''cedar'' ''cedar.node:isIn'')"
| "cedarNode (NodeTypeHasTag n) = Inl (Unsupported ''cedar'' ''cedar.node:tag'')"
| "cedarNode (NodeTypeGetTag n) = Inl (Unsupported ''cedar'' ''cedar.node:tag'')"
| "cedarNode (NodeTypeIsEmpty n) = Inl (Unsupported ''cedar'' ''cedar.node:isEmpty'')"
| "cedarNode (NodeTypeExtensionCall name args) = Inl (Unsupported ''cedar'' (''cedar.node:extensionCall:'' @ name))"
| "cedarNode (OtherNode ty) = Inl (Unsupported ''cedar'' (''cedar.node:'' @ ty))"
| "cedarNodes [] = Inr []"
| "cedarNodes (el # els) = (case cedarNode el of Inl e \<Rightarrow> Inl e
     | Inr s \<Rightarrow> map_sum id (\<lambda>parts. s # parts) (cedarNodes els))"
| "cedarFields [] = Inr []"
| "cedarFields ((k, n) # fields) = (case cedarNode n of Inl e \<Rightarrow> Inl e
     | Inr v \<Rightarrow> map_sum id (\<lambda>parts. (celString k @ '': '' @ v) # parts) (cedarFields fields))"

datatype cedar_scope = ScopeTypeAll | ScopeTypeEq string string | ScopeTypeIn string string
  | ScopeTypeIs string | ScopeTypeIsIn string string string | ScopeTypeInSet "(string \<times> string) list" | OtherScope string

text \<open>The empty text stands for no constraint. \<open>InSet\<close> is an action scope only.\<close>

fun scope :: "string \<Rightarrow> cedar_scope \<Rightarrow> UnsupportedError + string" where
  "scope var ScopeTypeAll = Inr []"
| "scope var (ScopeTypeEq ty ident) = Inr (var @ '' == '' @ celEntityUID ty ident)"
| "scope var (ScopeTypeIn ty ident) = Inr (''('' @ var @ '' == '' @ celEntityUID ty ident @ '' || '' @
     celEntityUID ty ident @ '' in '' @ var @ ''.ancestors)'')"
| "scope var (ScopeTypeIs ety) = Inr (var @ ''.__entity_type == '' @ celString ety)"
| "scope var (ScopeTypeIsIn ety ty ident) = Inr (''('' @ var @ ''.__entity_type == '' @ celString ety @ '' && ('' @
     var @ '' == '' @ celEntityUID ty ident @ '' || '' @ celEntityUID ty ident @ '' in '' @ var @ ''.ancestors))'')"
| "scope var (ScopeTypeInSet es) = Inl (Unsupported ''cedar'' ''cedar.scope:ast.ScopeTypeInSet'')"
| "scope var (OtherScope ty) = Inl (Unsupported ''cedar'' (''cedar.scope:'' @ ty))"

fun actionScope :: "cedar_scope \<Rightarrow> UnsupportedError + string" where
  "actionScope ScopeTypeAll = Inr []"
| "actionScope (ScopeTypeEq ty ident) = Inr (''action == '' @ celEntityUID ty ident)"
| "actionScope (ScopeTypeIn ty ident) = Inr (''(action == '' @ celEntityUID ty ident @ '' || '' @
     celEntityUID ty ident @ '' in action.ancestors)'')"
| "actionScope (ScopeTypeInSet es) =
     (let parts = map (\<lambda>(ty, ident). ''action == '' @ celEntityUID ty ident) es in
      if parts = [] then Inr ''false'' else Inr (''('' @ Join parts '' || '' @ '')''))"
| "actionScope (ScopeTypeIs ety) = Inl (Unsupported ''cedar'' ''cedar.scope:ast.ScopeTypeIs'')"
| "actionScope (ScopeTypeIsIn ety ty ident) = Inl (Unsupported ''cedar'' ''cedar.scope:ast.ScopeTypeIsIn'')"
| "actionScope (OtherScope ty) = Inl (Unsupported ''cedar'' (''cedar.scope:'' @ ty))"

datatype Effect = EffectPermit | EffectForbid

record cedar_policy =
  p_Effect :: Effect
  p_Principal :: cedar_scope
  p_Action :: cedar_scope
  p_Resource :: cedar_scope
  p_Conditions :: "(bool \<times> cedar_node) list"

text \<open>A condition is a body with the flag for \<open>unless\<close>.\<close>

fun cedar_conditions :: "(bool \<times> cedar_node) list \<Rightarrow> UnsupportedError + string list" where
  "cedar_conditions [] = Inr []"
| "cedar_conditions ((unless, n) # conds) = (case cedarNode n of Inl e \<Rightarrow> Inl e
     | Inr body \<Rightarrow> map_sum id (\<lambda>terms. (if unless then ''!('' @ body @ '')'' else body) # terms) (cedar_conditions conds))"

definition cedar_terms :: "cedar_policy \<Rightarrow> UnsupportedError + string list" where
  "cedar_terms p = (case scope ''principal'' (p_Principal p) of Inl e \<Rightarrow> Inl e
     | Inr s1 \<Rightarrow> (case actionScope (p_Action p) of Inl e \<Rightarrow> Inl e
     | Inr s2 \<Rightarrow> (case scope ''resource'' (p_Resource p) of Inl e \<Rightarrow> Inl e
     | Inr s3 \<Rightarrow> map_sum id (\<lambda>terms. filter (\<lambda>s. s \<noteq> []) [s1, s2, s3] @ terms) (cedar_conditions (p_Conditions p)))))"

definition cedar_policy_text :: "cedar_policy \<Rightarrow> UnsupportedError + string" where
  "cedar_policy_text p = map_sum id (\<lambda>terms. if terms = [] then ''true'' else Join (wrapTerms terms) '' && '') (cedar_terms p)"

record Result =
  res_CEL :: string
  res_Effect :: Effect
  res_SourceLang :: string

text \<open>\<open>parse\<close> is the parser of cedar-go: the policies of the set, or a parse error.\<close>

datatype import_error = ParseError | UnsupportedErr UnsupportedError

definition TranslateCedar :: "(string \<Rightarrow> cedar_policy list option) \<Rightarrow> string \<Rightarrow> import_error + Result" where
  "TranslateCedar parse src = (case parse src of None \<Rightarrow> Inl ParseError
     | Some policies \<Rightarrow>
         if length policies \<noteq> 1 then Inl (UnsupportedErr (Unsupported ''cedar'' ''cedar.multi-policy''))
         else let a = policies ! 0 in (case cedar_policy_text a of Inl e \<Rightarrow> Inl (UnsupportedErr e)
           | Inr conds \<Rightarrow> Inr \<lparr>res_CEL = conds, res_Effect = (if p_Effect a = EffectPermit then EffectPermit else EffectForbid),
               res_SourceLang = ''cedar''\<rparr>))"


section \<open>Translation is fail-closed\<close>

fun children :: "cedar_node \<Rightarrow> cedar_node list" where
  "children (NodeTypeAccess n attr) = [n]"
| "children (NodeTypeHas n attr) = [n]"
| "children (NodeBinary op l r) = [l, r]"
| "children (NodeTypeNot n) = [n]"
| "children (NodeTypeNegate n) = [n]"
| "children (NodeTypeIn l r) = [l, r]"
| "children (NodeMethod m l r) = [l, r]"
| "children (NodeTypeIfThenElse c t e) = [c, t, e]"
| "children (NodeTypeSet els) = els"
| "children (NodeTypeRecord fs) = map snd fs"
| "children (NodeTypeIs n ty) = [n]"
| "children _ = []"

inductive subnode :: "cedar_node \<Rightarrow> cedar_node \<Rightarrow> bool" where
  subnode_self: "subnode n n"
| subnode_child: "c \<in> set (children n) \<Longrightarrow> subnode m c \<Longrightarrow> subnode m n"

fun elements :: "cedar_value \<Rightarrow> cedar_value list" where
  "elements (CSet els) = els"
| "elements (CRecord fs) = map snd fs"
| "elements _ = []"

inductive subvalue :: "cedar_value \<Rightarrow> cedar_value \<Rightarrow> bool" where
  subvalue_self: "subvalue v v"
| subvalue_element: "e \<in> set (elements v) \<Longrightarrow> subvalue w e \<Longrightarrow> subvalue w v"

definition everywhere :: "(cedar_node \<Rightarrow> bool) \<Rightarrow> cedar_node \<Rightarrow> bool" where
  "everywhere P n \<longleftrightarrow> (\<forall>m. subnode m n \<longrightarrow> P m)"

definition all_values :: "(cedar_value \<Rightarrow> bool) \<Rightarrow> cedar_value \<Rightarrow> bool" where
  "all_values P v \<longleftrightarrow> (\<forall>w. subvalue w v \<longrightarrow> P w)"

lemma everywhere_unfold: "everywhere P n \<longleftrightarrow> P n \<and> (\<forall>c \<in> set (children n). everywhere P c)"
  unfolding everywhere_def by (auto intro: subnode.intros elim: subnode.cases)

lemma all_values_unfold: "all_values P v \<longleftrightarrow> P v \<and> (\<forall>e \<in> set (elements v). all_values P e)"
  unfolding all_values_def by (auto intro: subvalue.intros elim: subvalue.cases)

text \<open>The constructs that the translator does not understand.\<close>

fun is_other :: "cedar_value \<Rightarrow> bool" where
  "is_other (OtherValue ty) = True"
| "is_other _ = False"

fun rejected :: "cedar_node \<Rightarrow> bool" where
  "rejected (NodeTypeLike n) = True"
| "rejected (NodeTypeIsIn n) = True"
| "rejected (NodeTypeHasTag n) = True"
| "rejected (NodeTypeGetTag n) = True"
| "rejected (NodeTypeIsEmpty n) = True"
| "rejected (NodeTypeExtensionCall name args) = True"
| "rejected (OtherNode ty) = True"
| "rejected (NodeValue v) = (\<exists>w. subvalue w v \<and> is_other w)"
| "rejected _ = False"

lemma isl_map_sum [simp]: "isl (map_sum f g x) = isl x"
  by (cases x) simp_all

lemma isl_both [simp]: "isl (both l r f) \<longleftrightarrow> isl l \<or> isl r"
  by (simp add: both_def split: sum.splits)

lemma isl_case_Inl [simp]: "isl (case x of Inl e \<Rightarrow> Inl e | Inr v \<Rightarrow> f v) \<longleftrightarrow> isl x \<or> isl (f (projr x))"
  by (cases x) simp_all

lemma cedar_val_closed:
  "\<not> isl (cedar_val v) \<longleftrightarrow> all_values (\<lambda>w. \<not> is_other w) v"
  "\<not> isl (cedar_vals vs) \<longleftrightarrow> (\<forall>v \<in> set vs. all_values (\<lambda>w. \<not> is_other w) v)"
  "\<not> isl (cedar_items fs) \<longleftrightarrow> (\<forall>v \<in> set (map snd fs). all_values (\<lambda>w. \<not> is_other w) v)"
proof (induction v and vs and fs rule: cedar_val_cedar_vals_cedar_items.induct)
  case (5 els)
  then show ?case by (subst all_values_unfold) simp
next
  case (6 fs)
  then show ?case by (subst all_values_unfold) simp
next
  case (9 el els)
  then show ?case by (cases "cedar_val el") simp_all
next
  case (11 k ev fs)
  then show ?case by (cases "cedar_val ev") simp_all
qed (subst all_values_unfold, simp)+

lemma cedarNode_closed:
  "\<not> isl (cedarNode n) \<longleftrightarrow> everywhere (\<lambda>m. \<not> rejected m) n"
  "\<not> isl (cedarNodes ns) \<longleftrightarrow> (\<forall>n \<in> set ns. everywhere (\<lambda>m. \<not> rejected m) n)"
  "\<not> isl (cedarFields fs) \<longleftrightarrow> (\<forall>n \<in> set (map snd fs). everywhere (\<lambda>m. \<not> rejected m) n)"
proof (induction n and ns and fs rule: cedarNode_cedarNodes_cedarFields.induct)
  case (1 v)
  have "\<not> rejected (NodeValue v) \<longleftrightarrow> all_values (\<lambda>w. \<not> is_other w) v" by (simp add: all_values_def)
  then show ?case by (subst everywhere_unfold) (simp add: cedar_val_closed)
next
  case (22 el els)
  then show ?case by (cases "cedarNode el") simp_all
next
  case (24 k n fs)
  then show ?case by (cases "cedarNode n") simp_all
next
  case (10 c t e)
  then show ?case by (subst everywhere_unfold) (cases "cedarNode c"; simp)
qed ((subst everywhere_unfold, simp) | simp)+


fun entity_scope :: "cedar_scope \<Rightarrow> bool" where
  "entity_scope (ScopeTypeInSet es) = False"
| "entity_scope (OtherScope ty) = False"
| "entity_scope _ = True"

fun action_scope :: "cedar_scope \<Rightarrow> bool" where
  "action_scope (ScopeTypeIs ety) = False"
| "action_scope (ScopeTypeIsIn ety ty ident) = False"
| "action_scope (OtherScope ty) = False"
| "action_scope _ = True"

definition understood :: "cedar_policy \<Rightarrow> bool" where
  "understood p \<longleftrightarrow> entity_scope (p_Principal p) \<and> action_scope (p_Action p) \<and> entity_scope (p_Resource p) \<and>
     (\<forall>(unless, body) \<in> set (p_Conditions p). \<forall>m. subnode m body \<longrightarrow> \<not> rejected m)"

lemma scope_closed: "isl (scope var s) \<longleftrightarrow> \<not> entity_scope s" "isl (actionScope s) \<longleftrightarrow> \<not> action_scope s"
  by (cases s; simp add: Let_def)+

lemma cedar_conditions_closed:
  "isl (cedar_conditions conds) \<longleftrightarrow> \<not> (\<forall>(unless, body) \<in> set conds. everywhere (\<lambda>m. \<not> rejected m) body)"
proof (induction conds rule: cedar_conditions.induct)
  case (2 unless n conds)
  then show ?case using cedarNode_closed(1) [of n] by (cases "cedarNode n") auto
qed simp

lemma cedar_terms_closed: "isl (cedar_terms p) \<longleftrightarrow> \<not> understood p"
  by (auto simp: cedar_terms_def scope_closed cedar_conditions_closed understood_def everywhere_def)

text \<open>C39: The Cedar translator is fail-closed: it succeeds exactly on a document with one policy whose scopes it
  knows and whose conditions contain none of the rejected constructs at any depth, inside set and
  record literals included.\<close>

theorem cedar_fail_closed:
  "(\<exists>r. TranslateCedar parse src = Inr r) \<longleftrightarrow> (\<exists>p. parse src = Some [p] \<and> understood p)"
proof (cases "parse src")
  case (Some ps)
  show ?thesis
  proof (cases "length ps = 1")
    case True
    then obtain p where "ps = [p]" by (cases ps) auto
    then show ?thesis
      using Some cedar_terms_closed [of p]
      by (cases "cedar_terms p") (auto simp: TranslateCedar_def cedar_policy_text_def)
  next
    case False
    then show ?thesis using Some by (auto simp: TranslateCedar_def)
  qed
qed (simp add: TranslateCedar_def)

section \<open>Literals cannot break out\<close>

text \<open>A reader of CEL text that tracks the open brackets and whether it is inside a string literal.\<close>

fun scan :: "char list \<Rightarrow> bool \<Rightarrow> string \<Rightarrow> (char list \<times> bool) option" where
  "scan st quoted [] = Some (st, quoted)"
| "scan st True [c] = (if c = CHR 0x22 then Some (st, False) else if c = CHR 0x5C then None else Some (st, True))"
| "scan st True (c # d # s) = (if c = CHR 0x5C then scan st True s
     else if c = CHR 0x22 then scan st False (d # s) else scan st True (d # s))"
| "scan st False (c # s) =
     (if c = CHR 0x22 then scan st True s
      else if c = CHR ''('' then scan (CHR '')'' # st) False s
      else if c = CHR ''['' then scan (CHR '']'' # st) False s
      else if c = CHR ''{'' then scan (CHR ''}'' # st) False s
      else if c \<in> {CHR '')'', CHR '']'', CHR ''}''} then (case st of [] \<Rightarrow> None | o1 # st \<Rightarrow> if o1 = c then scan st False s else None)
      else scan st False s)"

definition balanced :: "string \<Rightarrow> bool" where
  "balanced s \<longleftrightarrow> (\<forall>st rest. scan st False (s @ rest) = scan st False rest)"

definition plain :: "string \<Rightarrow> bool" where
  "plain s \<longleftrightarrow> (\<forall>c \<in> set s. c \<notin> {CHR 0x22, CHR ''('', CHR '')'', CHR ''['', CHR '']'', CHR ''{'', CHR ''}''})"

lemma balanced_Nil [simp]: "balanced []"
  by (simp add: balanced_def)

lemma balanced_append: "balanced a \<Longrightarrow> balanced b \<Longrightarrow> balanced (a @ b)"
  by (simp add: balanced_def)

lemma plain_balanced: "plain s \<Longrightarrow> balanced s"
  by (induction s) (auto simp: plain_def balanced_def)

lemma balanced_round: "balanced s \<Longrightarrow> balanced (''('' @ s @ '')'')"
  by (simp add: balanced_def)

lemma balanced_square: "balanced s \<Longrightarrow> balanced (''['' @ s @ '']'')"
  by (simp add: balanced_def)

lemma balanced_curly: "balanced s \<Longrightarrow> balanced (''{'' @ s @ ''}'')"
  by (simp add: balanced_def)

lemma scan_quoted_step: "c \<noteq> CHR 0x5C \<Longrightarrow> c \<noteq> CHR 0x22 \<Longrightarrow> scan st True (c # s) = scan st True s"
  by (cases s) simp_all

lemma scan_quoted_end: "scan st True (CHR 0x22 # s) = scan st False s"
  by (cases s) simp_all

lemma scan_celEscape: "scan st True (celEscape s @ CHR 0x22 # rest) = scan st False rest"
proof (induction s)
  case (Cons c s)
  then show ?case by (simp add: scan_quoted_step)
qed (simp add: scan_quoted_end)

lemma celString_balanced: "balanced (celString s)"
  by (simp add: balanced_def celString_def scan_celEscape)

lemma celEntityUID_balanced: "balanced (celEntityUID ty ident)"
  by (simp add: celEntityUID_def celString_balanced)

lemma Join_balanced: "\<forall>s \<in> set parts. balanced s \<Longrightarrow> balanced sep \<Longrightarrow> balanced (Join parts sep)"
  by (induction parts sep rule: Join.induct) (auto intro!: balanced_append)

lemma plain_iff: "plain s \<longleftrightarrow> (\<forall>c \<in> {CHR 0x22, CHR ''('', CHR '')'', CHR ''['', CHR '']'', CHR ''{'', CHR ''}''}. c \<notin> set s)"
  by (auto simp: plain_def)

lemma Itoa_plain: "plain (Itoa n)"
  by (simp add: plain_iff Itoa_no_char)

lemma map_sum_Inr [simp]: "map_sum id f x = Inr y \<longleftrightarrow> (\<exists>a. x = Inr a \<and> y = f a)"
  by (cases x) auto

lemma both_Inr [simp]: "both l r f = Inr y \<longleftrightarrow> (\<exists>ls rs. l = Inr ls \<and> r = Inr rs \<and> y = f ls rs)"
  by (cases l; cases r) (auto simp: both_def)

lemma case_Inr [simp]: "(case x of Inl e \<Rightarrow> Inl e | Inr v \<Rightarrow> f v) = Inr y \<longleftrightarrow> (\<exists>v. x = Inr v \<and> f v = Inr y)"
  by (cases x) auto

lemma list_balanced:
  assumes "\<forall>s \<in> set parts. balanced s"
  shows "balanced (''['' @ Join parts '', '' @ '']'')" "balanced (''{'' @ Join parts '', '' @ ''}'')"
proof -
  have "balanced (Join parts '', '')" using assms by (rule Join_balanced) (simp add: balanced_def)
  then show "balanced (''['' @ Join parts '', '' @ '']'')" "balanced (''{'' @ Join parts '', '' @ ''}'')"
    by (rule balanced_square, rule balanced_curly)
qed

lemma cedar_val_balanced:
  "cedar_val v = Inr s \<Longrightarrow> balanced s"
  "cedar_vals vs = Inr ss \<Longrightarrow> \<forall>s \<in> set ss. balanced s"
  "cedar_items fs = Inr items \<Longrightarrow> \<forall>(k, v) \<in> set items. balanced k \<and> balanced v"
proof (induction v and vs and fs arbitrary: s and ss and items rule: cedar_val_cedar_vals_cedar_items.induct)
  case (1 b)
  then show ?case by (auto simp: balanced_def)
next
  case (2 n)
  then show ?case using Itoa_plain plain_balanced by auto
next
  case (5 els)
  then obtain parts where "cedar_vals els = Inr parts" "s = ''['' @ Join (sort parts) '', '' @ '']''" by auto
  then show ?case using "5.IH" list_balanced(1) [of "sort parts"] by simp
next
  case (6 fs)
  then obtain items where items: "cedar_items fs = Inr items"
    "s = ''{'' @ Join (map (\<lambda>(k, v). k @ '': '' @ v) (sortSlice (\<lambda>i j. fst i < fst j) items)) '', '' @ ''}''"
    by auto
  then have "\<forall>(k, v) \<in> set items. balanced k \<and> balanced v" using 6 by blast
  moreover have "sortSlice (\<lambda>i j. fst i < fst j) items = sort_key fst items" by (rule sortSlice_sort_key) simp
  ultimately have "\<forall>t \<in> set (map (\<lambda>(k, v). k @ '': '' @ v) (sortSlice (\<lambda>i j. fst i < fst j) items)). balanced t"
    by (force simp: balanced_def)
  then show ?case unfolding items(2) by (rule list_balanced(2))
next
  case (11 k ev fs)
  then obtain v rest where v: "cedar_val ev = Inr v" "cedar_items fs = Inr rest" "items = (celString k, v) # rest" by auto
  then show ?case using "11.IH"(1) "11.IH"(2) [OF v(1,2)] celString_balanced by simp
qed (auto intro: celString_balanced celEntityUID_balanced)

text \<open>Names are written into the text as they are.\<close>

definition ident_char :: "char \<Rightarrow> bool" where
  "ident_char c \<longleftrightarrow> c = CHR ''_'' \<or> (let n = (of_char c :: nat) in 48 \<le> n \<and> n \<le> 57 \<or> 65 \<le> n \<and> n \<le> 90 \<or> 97 \<le> n \<and> n \<le> 122)"

definition is_ident :: "string \<Rightarrow> bool" where
  "is_ident s \<longleftrightarrow> s \<noteq> [] \<and> list_all ident_char s"

fun names_ok :: "cedar_node \<Rightarrow> bool" where
  "names_ok (NodeTypeVariable name) = is_ident name"
| "names_ok (NodeTypeAccess n attr) = is_ident attr"
| "names_ok (NodeTypeHas n attr) = is_ident attr"
| "names_ok _ = True"

lemma ident_plain:
  assumes "is_ident s" shows "plain s"
proof -
  have "c \<notin> set s" if "\<not> ident_char c" for c using assms that by (auto simp: is_ident_def list_all_iff)
  then show ?thesis by (simp add: plain_iff ident_char_def)
qed

lemma ident_balanced: "is_ident s \<Longrightarrow> balanced s"
  by (intro plain_balanced ident_plain)

lemma cedar_op_balanced: "balanced (cedar_op op)"
  by (cases op) (simp_all add: balanced_def)

lemma cedar_method_balanced: "balanced (cedar_method_name m)"
  by (cases m) (simp_all add: balanced_def)

lemma cedarNode_balanced:
  "cedarNode n = Inr s \<Longrightarrow> everywhere names_ok n \<Longrightarrow> balanced s"
  "cedarNodes ns = Inr ss \<Longrightarrow> \<forall>n \<in> set ns. everywhere names_ok n \<Longrightarrow> \<forall>s \<in> set ss. balanced s"
  "cedarFields fs = Inr ss' \<Longrightarrow> \<forall>n \<in> set (map snd fs). everywhere names_ok n \<Longrightarrow> \<forall>s \<in> set ss'. balanced s"
proof (induction n and ns and fs arbitrary: s and ss and ss' rule: cedarNode_cedarNodes_cedarFields.induct)
  case (1 v)
  then show ?case using cedar_val_balanced(1) by simp
next
  case (2 name)
  then show ?case using everywhere_unfold [of names_ok "NodeTypeVariable name"] ident_balanced by simp
next
  case (3 arg attr)
  then show ?case using everywhere_unfold [of names_ok "NodeTypeAccess arg attr"] ident_balanced [of attr]
    by (auto simp: balanced_def)
next
  case (4 arg attr)
  then show ?case using everywhere_unfold [of names_ok "NodeTypeHas arg attr"] ident_balanced [of attr]
    by (auto simp: balanced_def)
next
  case (5 op l r)
  then show ?case using everywhere_unfold [of names_ok "NodeBinary op l r"] cedar_op_balanced [of op]
    by (auto simp: balanced_def)
next
  case (6 arg)
  then show ?case using everywhere_unfold [of names_ok "NodeTypeNot arg"] by (auto simp: balanced_def)
next
  case (7 arg)
  then show ?case using everywhere_unfold [of names_ok "NodeTypeNegate arg"] by (auto simp: balanced_def)
next
  case (8 l r)
  then show ?case using everywhere_unfold [of names_ok "NodeTypeIn l r"] by (auto simp: balanced_def cedar_membership_def)
next
  case (9 m recv arg)
  then show ?case using everywhere_unfold [of names_ok "NodeMethod m recv arg"] cedar_method_balanced [of m]
    by (auto simp: balanced_def)
next
  case (10 c t e)
  then show ?case using everywhere_unfold [of names_ok "NodeTypeIfThenElse c t e"] by (auto simp: balanced_def)
next
  case (11 els)
  then show ?case using everywhere_unfold [of names_ok "NodeTypeSet els"] list_balanced(1) by auto
next
  case (12 fs)
  then show ?case using everywhere_unfold [of names_ok "NodeTypeRecord fs"] list_balanced(2) by auto
next
  case (13 l ty)
  then show ?case using everywhere_unfold [of names_ok "NodeTypeIs l ty"] celString_balanced [of ty] by (auto simp: balanced_def)
next
  case (24 k n fs)
  then show ?case using celString_balanced [of k] by (auto simp: balanced_def)
qed auto


lemma scope_balanced:
  assumes "is_ident var" and "scope var s = Inr t" shows "balanced t"
proof (cases s)
  case (ScopeTypeIsIn ety ty ident)
  then show ?thesis
    using assms ident_balanced [of var] celEntityUID_balanced [of ty ident] celString_balanced [of ety] by (auto simp: balanced_def)
next
  case (ScopeTypeIn ty ident)
  then show ?thesis
    using assms ident_balanced [of var] celEntityUID_balanced [of ty ident] by (auto simp: balanced_def)
next
  case (ScopeTypeEq ty ident)
  then show ?thesis
    using assms ident_balanced [of var] celEntityUID_balanced [of ty ident] by (auto simp: balanced_def)
next
  case (ScopeTypeIs ety)
  then show ?thesis
    using assms ident_balanced [of var] celString_balanced [of ety] by (auto simp: balanced_def)
qed (use assms in auto)

lemma actionScope_balanced:
  assumes "actionScope s = Inr t" shows "balanced t"
proof (cases s)
  case (ScopeTypeEq ty ident)
  then show ?thesis using assms celEntityUID_balanced [of ty ident] by (auto simp: balanced_def)
next
  case (ScopeTypeIn ty ident)
  then show ?thesis using assms celEntityUID_balanced [of ty ident] by (auto simp: balanced_def)
next
  case (ScopeTypeInSet es)
  have "\<forall>s \<in> set (map (\<lambda>(ty, ident). ''action == '' @ celEntityUID ty ident) es). balanced s"
    using celEntityUID_balanced by (auto simp: balanced_def)
  then have "balanced (Join (map (\<lambda>(ty, ident). ''action == '' @ celEntityUID ty ident) es) '' || '')"
    by (rule Join_balanced) (simp add: balanced_def)
  then show ?thesis using assms ScopeTypeInSet balanced_round by (auto simp: Let_def balanced_def split: if_splits)
qed (use assms in auto)

lemma cedar_conditions_balanced:
  "cedar_conditions conds = Inr terms \<Longrightarrow> \<forall>(unless, body) \<in> set conds. everywhere names_ok body \<Longrightarrow>
    \<forall>t \<in> set terms. balanced t"
proof (induction conds arbitrary: terms rule: cedar_conditions.induct)
  case (2 unless n conds)
  then obtain body rest where b: "cedarNode n = Inr body" "cedar_conditions conds = Inr rest"
    "terms = (if unless then ''!('' @ body @ '')'' else body) # rest" by auto
  then have "balanced body" "\<forall>t \<in> set rest. balanced t" using 2 cedarNode_balanced(1) by auto
  then show ?case using b(3) by (auto simp: balanced_def)
qed simp

lemma cedar_terms_balanced:
  assumes "cedar_terms p = Inr terms" and "\<forall>(unless, body) \<in> set (p_Conditions p). everywhere names_ok body"
  shows "\<forall>t \<in> set terms. balanced t"
proof -
  obtain s1 s2 s3 conds where s: "scope ''principal'' (p_Principal p) = Inr s1" "actionScope (p_Action p) = Inr s2"
    "scope ''resource'' (p_Resource p) = Inr s3" "cedar_conditions (p_Conditions p) = Inr conds"
    "terms = filter (\<lambda>s. s \<noteq> []) [s1, s2, s3] @ conds"
    using assms(1) unfolding cedar_terms_def by auto
  have "is_ident ''principal''" "is_ident ''resource''" by (simp_all add: is_ident_def ident_char_def)
  then have "balanced s1" "balanced s2" "balanced s3" using s(1-3) scope_balanced actionScope_balanced by blast+
  then show ?thesis using s(5) cedar_conditions_balanced [OF s(4) assms(2)] by auto
qed

lemma wrapped_balanced: "\<forall>t \<in> set terms. balanced t \<Longrightarrow> balanced sep \<Longrightarrow> balanced (Join (wrapTerms terms) sep)"
  using balanced_round by (intro Join_balanced) (auto simp: wrapTerms_def)

text \<open>As long as the attribute names of a Cedar policy are identifiers, nothing in its literals can escape into
  the expression: the emitted text is the conjunction of the scope constraints and conditions, each in
  its own parentheses and each with all brackets and string literals closed.\<close>

theorem cedar_terms_isolated:
  assumes "TranslateCedar parse src = Inr r" and "parse src = Some [p]"
    and "\<forall>(unless, body) \<in> set (p_Conditions p). \<forall>m. subnode m body \<longrightarrow> names_ok m"
  shows "\<exists>terms. cedar_terms p = Inr terms \<and> (\<forall>t \<in> set terms. balanced t) \<and> balanced (res_CEL r) \<and>
    res_CEL r = (if terms = [] then ''true'' else Join (wrapTerms terms) '' && '')"
proof -
  obtain terms where t: "cedar_terms p = Inr terms" "res_CEL r = (if terms = [] then ''true'' else Join (wrapTerms terms) '' && '')"
    using assms(1,2) by (auto simp: TranslateCedar_def cedar_policy_text_def Let_def split: sum.splits)
  have b: "\<forall>t \<in> set terms. balanced t" using cedar_terms_balanced [OF t(1)] assms(3) by (auto simp: everywhere_def)
  moreover have "balanced (res_CEL r)" using t(2) wrapped_balanced [OF b, of "'' && ''"] by (simp add: balanced_def)
  ultimately show ?thesis using t by blast
qed

text \<open>A policy that permits everyone the condition holds for.\<close>

definition when_policy :: "cedar_node \<Rightarrow> cedar_policy" where
  "when_policy n = \<lparr>p_Effect = EffectPermit, p_Principal = ScopeTypeAll, p_Action = ScopeTypeAll, p_Resource = ScopeTypeAll,
     p_Conditions = [(False, n)]\<rparr>"

theorem cedar_terms_isolated_witness:
  "balanced (projr (cedar_policy_text (when_policy (NodeBinary NodeTypeEquals (NodeTypeAccess (NodeTypeVariable ''context'') ''user'')
     (NodeValue (CString (CHR 0x22 # '') || (true'')))))))"
proof -
  let ?n = "NodeBinary NodeTypeEquals (NodeTypeAccess (NodeTypeVariable ''context'') ''user'') (NodeValue (CString (CHR 0x22 # '') || (true'')))"
  obtain r where r: "TranslateCedar (\<lambda>src. Some [when_policy ?n]) [] = Inr r" "res_CEL r = projr (cedar_policy_text (when_policy ?n))"
    by (simp add: TranslateCedar_def cedar_policy_text_def cedar_terms_def when_policy_def both_def)
  have "everywhere names_ok ?n"
    by (simp add: everywhere_unfold [of _ ?n] everywhere_unfold [of _ "NodeTypeAccess (NodeTypeVariable ''context'') ''user''"]
        everywhere_unfold [of _ "NodeTypeVariable ''context''"] everywhere_unfold [of _ "NodeValue v" for v] is_ident_def ident_char_def)
  then show ?thesis
    using cedar_terms_isolated [OF r(1), of "when_policy ?n"] r(2) by (auto simp: when_policy_def everywhere_def)
qed

text \<open>An attribute name goes into the text unquoted. The policy \<open>permit(principal, action, resource) when
  { context["x) || (true"] }\<close> is translated to a disjunction with \<open>true\<close>, although every construct in it is
  supported.\<close>

theorem attribute_injection:
  "cedar_policy_text (when_policy (NodeTypeAccess (NodeTypeVariable ''context'') ''x) || (true'')) = Inr ''(context.x) || (true)''"
  by (simp add: cedar_policy_text_def cedar_terms_def when_policy_def wrapTerms_def)

lemma in_condition_reversed:
  "cedarNode (NodeTypeIn (NodeTypeVariable var) (NodeValue (CEntity ty ident))) =
     Inr (''('' @ var @ '' == '' @ celEntityUID ty ident @ '' || '' @ var @ '' in '' @ celEntityUID ty ident @ ''.ancestors)'') \<and>
   scope var (ScopeTypeIn ty ident) =
     Inr (''('' @ var @ '' == '' @ celEntityUID ty ident @ '' || '' @ celEntityUID ty ident @ '' in '' @ var @ ''.ancestors)'')"
  by (simp add: both_def cedar_membership_def)

section \<open>The text does not depend on the iteration order\<close>

lemma celEscape_inj: "celEscape s = celEscape t \<Longrightarrow> s = t"
proof (induction s arbitrary: t)
  case Nil
  then show ?case by (cases t) (auto split: if_splits)
next
  case (Cons c s)
  then obtain d t' where "t = d # t'" by (cases t) (auto split: if_splits)
  then show ?case using Cons by (auto split: if_splits)
qed

lemma celString_inj: "celString s = celString t \<longleftrightarrow> s = t"
  using celEscape_inj by (auto simp: celString_def)

lemma cedar_vals_map: "cedar_vals vs = Inr parts \<Longrightarrow> parts = map (\<lambda>v. projr (cedar_val v)) vs"
  by (induction vs arbitrary: parts) auto

lemma cedar_items_map: "cedar_items fs = Inr items \<Longrightarrow> items = map (\<lambda>(k, v). (celString k, projr (cedar_val v))) fs"
  by (induction fs arbitrary: items) auto

text \<open>The emitted literal is deterministic although Go iterates over a set or a record in any order.\<close>

theorem literal_order_independent:
  assumes "cedar_val (CSet vs) = Inr s" "cedar_val (CSet vs') = Inr s'" "mset vs = mset vs'"
    and "cedar_val (CRecord fs) = Inr r" "cedar_val (CRecord fs') = Inr r'" "mset fs = mset fs'" "distinct (map fst fs)"
  shows "s = s' \<and> r = r'"
proof
  obtain ps ps' where ps: "cedar_vals vs = Inr ps" "cedar_vals vs' = Inr ps'"
    "s = ''['' @ Join (sort ps) '', '' @ '']''" "s' = ''['' @ Join (sort ps') '', '' @ '']''"
    using assms(1,2) by auto
  have "mset ps = mset ps'" using ps(1,2)[THEN cedar_vals_map] assms(3) by simp
  then have "sort ps = sort ps'" by (metis sorted_list_of_multiset_mset)
  then show "s = s'" using ps(3,4) by simp
next
  let ?srt = "sortSlice (\<lambda>i j. fst i < fst j) :: (string \<times> string) list \<Rightarrow> _" and ?out = "map (\<lambda>(k, v). k @ '': '' @ v)"
  obtain its its' where i: "cedar_items fs = Inr its" "cedar_items fs' = Inr its'"
    "r = ''{'' @ Join (?out (?srt its)) '', '' @ ''}''" "r' = ''{'' @ Join (?out (?srt its')) '', '' @ ''}''"
    using assms(4,5) by auto
  have srt: "?srt xs = sort_key fst xs" for xs by (rule sortSlice_sort_key) simp
  have "mset its = mset its'" using i(1,2)[THEN cedar_items_map] assms(6) by simp
  moreover have "inj_on fst (set its)"
    using cedar_items_map [OF i(1)] assms(7) celString_inj by (auto simp: inj_on_def dest: eq_key_imp_eq_value)
  ultimately have "sort_key fst its = sort_key fst its'" by (intro sort_key_inj_key_eq) simp_all
  then show "r = r'" using i(3,4) srt by simp
qed

theorem literal_order_independent_witness:
  "cedar_val (CSet [CLong 2, CLong 1]) = cedar_val (CSet [CLong 1, CLong 2]) \<and>
   cedar_val (CRecord [(''b'', CBool True), (''a'', CBool False)]) = cedar_val (CRecord [(''a'', CBool False), (''b'', CBool True)])"
proof -
  obtain s s' r r' where *: "cedar_val (CSet [CLong 2, CLong 1]) = Inr s" "cedar_val (CSet [CLong 1, CLong 2]) = Inr s'"
    "cedar_val (CRecord [(''b'', CBool True), (''a'', CBool False)]) = Inr r"
    "cedar_val (CRecord [(''a'', CBool False), (''b'', CBool True)]) = Inr r'"
    by simp
  show ?thesis using literal_order_independent [OF *(1,2) _ *(3,4)] * by (simp del: cedar_val.simps)
qed

end
