(* ===== verification/RegoImport.thy ===== *)
theory RegoImport
  imports PolicyImport
begin

text \<open>
  The Rego translator (\<open>src/internal/policyimport/rego.go\<close>) from the syntax tree that OPA's parser gives: the
  trees of a module are datatypes and records with the fields the translator reads. It shares the
  literals and the error type with \<open>PolicyImport\<close>.
\<close>

section \<open>The translator\<close>

text \<open>Terms of OPA. A call used as a value has a printed operator, when it has one.\<close>

datatype rego_term = TBoolean bool | TNumber string | TString string | TNull | TRef "rego_term list"
  | TCall "string option" | TVar string | TArray "rego_term list" | TSet "rego_term list" | OtherTerm string

datatype rego_terms = Call "string option" "rego_term list" | Every | Some_decl | Bare rego_term | OtherExpr string

record rego_expr =
  x_With :: nat
  x_Negated :: bool
  x_Terms :: rego_terms

record rego_head =
  h_Name :: string
  h_Args :: nat
  h_Key :: bool
  h_Value :: "rego_term option"

record rego_rule =
  rr_Head :: "rego_head option"
  rr_Default :: bool
  rr_Else :: bool
  rr_Body :: "rego_expr list"

abbreviation rego_unsupported :: "string \<Rightarrow> UnsupportedError" where
  "rego_unsupported construct \<equiv> Unsupported ''rego'' construct"

fun boolTermValue :: "rego_term option \<Rightarrow> bool option" where
  "boolTermValue (Some (TBoolean b)) = Some b"
| "boolTermValue _ = None"

fun ref_segments :: "rego_term list \<Rightarrow> UnsupportedError + string" where
  "ref_segments [] = Inr []"
| "ref_segments (TString s # segs) = map_sum id (\<lambda>b. ''.'' @ s @ b) (ref_segments segs)"
| "ref_segments (seg # segs) = Inl (rego_unsupported ''rego.ref.dynamic'')"

definition rego_ref :: "rego_term list \<Rightarrow> UnsupportedError + string" where
  "rego_ref r = (case r of [] \<Rightarrow> Inl (rego_unsupported ''rego.ref.empty'')
     | TVar root # segs \<Rightarrow>
         if root \<noteq> ''input'' then Inl (rego_unsupported (''rego.ref.root:'' @ root))
         else map_sum id (\<lambda>b. ''input'' @ b) (ref_segments segs)
     | _ \<Rightarrow> Inl (rego_unsupported ''rego.ref.head''))"

text \<open>The parameter record stands for the standard library's and OPA's part: which texts are numbers, and the
  infix operator of a built-in.\<close>

record rego_env =
  parseInt :: "string \<Rightarrow> bool"
  parseFloat :: "string \<Rightarrow> bool"
  BuiltinMap :: "string \<Rightarrow> string option"

fun regoTerm :: "rego_env \<Rightarrow> rego_term \<Rightarrow> UnsupportedError + string"
  and regoTerms :: "rego_env \<Rightarrow> rego_term list \<Rightarrow> UnsupportedError + string list" where
  "regoTerm env (TBoolean b) = Inr (if b then ''true'' else ''false'')"
| "regoTerm env (TNumber n) = Inr (celNumber (parseInt env) (parseFloat env) n)"
| "regoTerm env (TString s) = Inr (celString s)"
| "regoTerm env TNull = Inr ''null''"
| "regoTerm env (TRef r) = rego_ref r"
| "regoTerm env (TCall op) = Inl (rego_unsupported (''rego.builtin:'' @ (case op of None \<Rightarrow> ''?'' | Some name \<Rightarrow> name)))"
| "regoTerm env (TVar v) = Inl (rego_unsupported ''rego.var'')"
| "regoTerm env (TArray els) = map_sum id (\<lambda>parts. ''['' @ Join parts '', '' @ '']'') (regoTerms env els)"
| "regoTerm env (TSet els) = map_sum id (\<lambda>parts. ''['' @ Join (sort parts) '', '' @ '']'') (regoTerms env els)"
| "regoTerm env (OtherTerm ty) = Inl (rego_unsupported (''rego.term:'' @ ty))"
| "regoTerms env [] = Inr []"
| "regoTerms env (el # els) = (case regoTerm env el of Inl e \<Rightarrow> Inl e
     | Inr s \<Rightarrow> map_sum id (\<lambda>parts. s # parts) (regoTerms env els))"

definition regoInfixToCEL :: "string \<Rightarrow> string option" where
  "regoInfixToCEL op = (if op \<in> set [''=='', ''!='', ''<'', ''<='', ''>'', ''>='', ''+'', ''-''] then Some op else None)"

definition rego_call :: "rego_env \<Rightarrow> string option \<Rightarrow> rego_term list \<Rightarrow> UnsupportedError + string" where
  "rego_call env op operands = (case op of None \<Rightarrow> Inl (rego_unsupported ''rego.call.no-operator'')
     | Some name \<Rightarrow> (case BuiltinMap env name of None \<Rightarrow> Inl (rego_unsupported (''rego.builtin:'' @ name))
     | Some infx \<Rightarrow> (case regoInfixToCEL infx of None \<Rightarrow> Inl (rego_unsupported (''rego.builtin:'' @ name))
     | Some celOp \<Rightarrow> (case operands of
           [a, b] \<Rightarrow> both (regoTerm env a) (regoTerm env b) (\<lambda>l r. ''('' @ l @ '' '' @ celOp @ '' '' @ r @ '')'')
         | _ \<Rightarrow> Inl (rego_unsupported (''rego.builtin:'' @ name))))))"

definition regoExpr :: "rego_env \<Rightarrow> rego_expr \<Rightarrow> UnsupportedError + string" where
  "regoExpr env x =
     (if x_With x > 0 then Inl (rego_unsupported ''rego.with'')
      else let negate = map_sum id (\<lambda>s. if x_Negated x then ''!('' @ s @ '')'' else s) in
        case x_Terms x of
          Call op operands \<Rightarrow> negate (rego_call env op operands)
        | Every \<Rightarrow> Inl (rego_unsupported ''rego.quantifier'')
        | Some_decl \<Rightarrow> Inl (rego_unsupported ''rego.quantifier'')
        | Bare term \<Rightarrow> negate (regoTerm env term)
        | OtherExpr ty \<Rightarrow> Inl (rego_unsupported ''rego.expr''))"

fun regoExprs :: "rego_env \<Rightarrow> rego_expr list \<Rightarrow> UnsupportedError + string list" where
  "regoExprs env [] = Inr []"
| "regoExprs env (x # xs) = (case regoExpr env x of Inl e \<Rightarrow> Inl e
     | Inr s \<Rightarrow> map_sum id (\<lambda>terms. s # terms) (regoExprs env xs))"

definition rego_body :: "rego_env \<Rightarrow> rego_expr list \<Rightarrow> UnsupportedError + string" where
  "rego_body env b = (if length b = 0 then Inr ''true''
     else map_sum id (\<lambda>terms. Join (wrapTerms terms) '' && '') (regoExprs env b))"

text \<open>The loop over the rules: \<open>None\<close> for a rule that contributes no term.\<close>

definition regoRule :: "rego_env \<Rightarrow> string \<Rightarrow> rego_rule \<Rightarrow> UnsupportedError + string option" where
  "regoRule env ruleName rule = (case rr_Head rule of None \<Rightarrow> Inr None
     | Some head \<Rightarrow>
         if h_Name head \<noteq> ruleName then Inr None
         else if h_Args head > 0 then Inl (rego_unsupported ''rego.function'')
         else if h_Key head then Inl (rego_unsupported ''rego.partial-set'')
         else if rr_Default rule then
           (if boolTermValue (h_Value head) = Some True then Inl (rego_unsupported ''rego.default-true'') else Inr None)
         else if rr_Else rule then Inl (rego_unsupported ''rego.else'')
         else if boolTermValue (h_Value head) \<noteq> Some True then Inl (rego_unsupported ''rego.non-bool-head'')
         else map_sum id Some (rego_body env (rr_Body rule)))"

fun rego_rules :: "rego_env \<Rightarrow> string \<Rightarrow> rego_rule list \<Rightarrow> UnsupportedError + string list" where
  "rego_rules env ruleName [] = Inr []"
| "rego_rules env ruleName (rule # rules) = (case regoRule env ruleName rule of Inl e \<Rightarrow> Inl e
     | Inr d \<Rightarrow> map_sum id (\<lambda>ds. (case d of None \<Rightarrow> [] | Some body \<Rightarrow> [body]) @ ds) (rego_rules env ruleName rules))"

text \<open>\<open>parse\<close> is OPA's parser: an error, a nil module, or the rules of the module.\<close>

definition TranslateRego :: "rego_env \<Rightarrow> (string \<Rightarrow> rego_rule list option option) \<Rightarrow> string \<Rightarrow> string \<Rightarrow> import_error + Result" where
  "TranslateRego env parse src ruleName =
     (let ruleName = (if ruleName = [] then ''allow'' else ruleName) in
      case parse src of None \<Rightarrow> Inl ParseError
      | Some None \<Rightarrow> Inl (UnsupportedErr (rego_unsupported ''rego.empty''))
      | Some (Some rules) \<Rightarrow> (case rego_rules env ruleName rules of Inl e \<Rightarrow> Inl (UnsupportedErr e)
          | Inr disjuncts \<Rightarrow>
              if disjuncts = [] then Inl (UnsupportedErr (rego_unsupported ''rego.no-rule''))
              else Inr \<lparr>res_CEL = Join (wrapTerms disjuncts) '' || '', res_Effect = EffectPermit, res_SourceLang = ''rego''\<rparr>))"


section \<open>Translation is fail-closed\<close>

fun is_string :: "rego_term \<Rightarrow> bool" where
  "is_string (TString s) = True"
| "is_string _ = False"

definition static_ref :: "rego_term list \<Rightarrow> bool" where
  "static_ref r \<longleftrightarrow> r \<noteq> [] \<and> hd r = TVar ''input'' \<and> list_all is_string (tl r)"

fun static_term :: "rego_term \<Rightarrow> bool" where
  "static_term (TRef r) = static_ref r"
| "static_term (TArray els) = list_all static_term els"
| "static_term (TSet els) = list_all static_term els"
| "static_term (TCall op) = False"
| "static_term (TVar v) = False"
| "static_term (OtherTerm ty) = False"
| "static_term _ = True"

text \<open>A condition the translator has a CEL operator for.\<close>

definition comparison :: "rego_env \<Rightarrow> rego_terms \<Rightarrow> bool" where
  "comparison env ts \<longleftrightarrow> (\<exists>name infx a b. ts = Call (Some name) [a, b] \<and> BuiltinMap env name = Some infx \<and>
     infx \<in> set [''=='', ''!='', ''<'', ''<='', ''>'', ''>='', ''+'', ''-''] \<and> static_term a \<and> static_term b)"

definition static_expr :: "rego_env \<Rightarrow> rego_expr \<Rightarrow> bool" where
  "static_expr env x \<longleftrightarrow> x_With x = 0 \<and> (comparison env (x_Terms x) \<or> (\<exists>t. x_Terms x = Bare t \<and> static_term t))"

definition named :: "string \<Rightarrow> rego_rule \<Rightarrow> bool" where
  "named ruleName rule \<longleftrightarrow> (\<exists>head. rr_Head rule = Some head \<and> h_Name head = ruleName)"

definition decision_rule :: "rego_env \<Rightarrow> rego_rule \<Rightarrow> bool" where
  "decision_rule env rule \<longleftrightarrow> (\<exists>head. rr_Head rule = Some head \<and> h_Args head = 0 \<and> \<not> h_Key head \<and>
     (if rr_Default rule then boolTermValue (h_Value head) \<noteq> Some True
      else \<not> rr_Else rule \<and> h_Value head = Some (TBoolean True) \<and> list_all (static_expr env) (rr_Body rule)))"

lemma ref_segments_closed: "isl (ref_segments segs) \<longleftrightarrow> \<not> list_all is_string segs"
  by (induction segs rule: ref_segments.induct) simp_all

lemma rego_ref_closed: "isl (rego_ref r) \<longleftrightarrow> \<not> static_ref r"
  by (cases r) (auto simp: rego_ref_def static_ref_def ref_segments_closed split: rego_term.splits)

lemma regoTerm_closed:
  "isl (regoTerm env t) \<longleftrightarrow> \<not> static_term t"
  "isl (regoTerms env ts) \<longleftrightarrow> \<not> list_all static_term ts"
proof (induction env t and env ts rule: regoTerm_regoTerms.induct)
  case (12 env el els)
  then show ?case by (cases "regoTerm env el") simp_all
qed (simp_all add: rego_ref_closed)

lemma rego_call_closed: "isl (rego_call env op operands) \<longleftrightarrow> \<not> comparison env (Call op operands)"
  by (auto simp: rego_call_def comparison_def regoInfixToCEL_def regoTerm_closed split: option.splits list.splits)

lemma regoExpr_closed: "isl (regoExpr env x) \<longleftrightarrow> \<not> static_expr env x"
proof (cases "x_Terms x")
  case (Call op operands)
  then show ?thesis by (simp add: regoExpr_def static_expr_def rego_call_closed)
qed (auto simp: regoExpr_def static_expr_def comparison_def regoTerm_closed)

lemma regoExprs_closed: "isl (regoExprs env xs) \<longleftrightarrow> \<not> list_all (static_expr env) xs"
proof (induction xs)
  case (Cons x xs)
  then show ?case using regoExpr_closed [of env x] by (cases "regoExpr env x") simp_all
qed simp

lemma boolTermValue_True: "boolTermValue v = Some True \<longleftrightarrow> v = Some (TBoolean True)"
  by (cases v rule: boolTermValue.cases) simp_all

lemma regoRule_closed: "isl (regoRule env ruleName rule) \<longleftrightarrow> named ruleName rule \<and> \<not> decision_rule env rule"
  by (auto simp: regoRule_def named_def decision_rule_def rego_body_def regoExprs_closed boolTermValue_True split: option.splits)

lemma regoRule_term:
  "regoRule env ruleName rule = Inr d \<Longrightarrow> d \<noteq> None \<longleftrightarrow> named ruleName rule \<and> \<not> rr_Default rule"
  by (auto simp: regoRule_def named_def split: option.splits if_splits)

lemma rego_rules_closed:
  "isl (rego_rules env ruleName rules) \<longleftrightarrow> (\<exists>rule \<in> set rules. named ruleName rule \<and> \<not> decision_rule env rule)"
proof (induction rules)
  case (Cons rule rules)
  then show ?case using regoRule_closed [of env ruleName rule] by (cases "regoRule env ruleName rule") auto
qed simp

lemma rego_rules_empty:
  "rego_rules env ruleName rules = Inr ds \<Longrightarrow> ds \<noteq> [] \<longleftrightarrow> (\<exists>rule \<in> set rules. named ruleName rule \<and> \<not> rr_Default rule)"
proof (induction rules arbitrary: ds)
  case (Cons rule rules)
  then obtain d rest where d: "regoRule env ruleName rule = Inr d" "rego_rules env ruleName rules = Inr rest"
    "ds = (case d of None \<Rightarrow> [] | Some body \<Rightarrow> [body]) @ rest" by auto
  then show ?case using Cons.IH regoRule_term [OF d(1)] by (auto split: option.splits)
qed simp

definition decides :: "rego_env \<Rightarrow> string \<Rightarrow> rego_rule list \<Rightarrow> bool" where
  "decides env ruleName rules \<longleftrightarrow> (\<forall>rule \<in> set rules. named ruleName rule \<longrightarrow> decision_rule env rule) \<and>
     (\<exists>rule \<in> set rules. named ruleName rule \<and> \<not> rr_Default rule)"

lemma rego_rules_decides: "(\<exists>ds. rego_rules env ruleName rules = Inr ds \<and> ds \<noteq> []) \<longleftrightarrow> decides env ruleName rules"
proof (cases "rego_rules env ruleName rules")
  case (Inl e)
  then show ?thesis using rego_rules_closed [of env ruleName rules] by (auto simp: decides_def)
next
  case (Inr ds)
  then show ?thesis using rego_rules_closed [of env ruleName rules] rego_rules_empty [OF Inr] by (simp add: decides_def)
qed

text \<open>The Rego translator is fail-closed: it succeeds exactly when the module parses, some rule other than a
  default has the requested name (\<open>allow\<close> when none is given), and every rule of that name is a plain
  decision rule whose conditions are static: built-in comparisons over literals and \<open>input\<close> paths,
  with no function, \<open>with\<close>, quantifier, \<open>else\<close> or variable at any depth.\<close>

theorem rego_fail_closed:
  "(\<exists>r. TranslateRego env parse src ruleName = Inr r) \<longleftrightarrow>
   (\<exists>rules. parse src = Some (Some rules) \<and> decides env (if ruleName = [] then ''allow'' else ruleName) rules)"
  unfolding rego_rules_decides [symmetric]
  by (auto simp: TranslateRego_def Let_def split: option.splits sum.splits)

section \<open>The text of a rule\<close>

fun idents :: "rego_term \<Rightarrow> bool" where
  "idents (TRef r) = (\<forall>s. TString s \<in> set r \<longrightarrow> is_ident s)"
| "idents (TArray els) = list_all idents els"
| "idents (TSet els) = list_all idents els"
| "idents _ = True"

definition numbers_plain :: "rego_env \<Rightarrow> bool" where
  "numbers_plain env \<longleftrightarrow> (\<forall>s. parseInt env s \<or> parseFloat env s \<longrightarrow> plain s)"

lemma ref_segments_balanced: "ref_segments segs = Inr s \<Longrightarrow> \<forall>n. TString n \<in> set segs \<longrightarrow> is_ident n \<Longrightarrow> balanced s"
proof (induction segs arbitrary: s rule: ref_segments.induct)
  case (2 n segs)
  then obtain b where "ref_segments segs = Inr b" "s = ''.'' @ n @ b" by auto
  then show ?case using 2 ident_balanced [of n] by (auto simp: balanced_def)
qed auto

lemma regoTerm_balanced:
  "regoTerm env t = Inr s \<Longrightarrow> numbers_plain env \<Longrightarrow> idents t \<Longrightarrow> balanced s"
  "regoTerms env ts = Inr ss \<Longrightarrow> numbers_plain env \<Longrightarrow> list_all idents ts \<Longrightarrow> \<forall>s \<in> set ss. balanced s"
proof (induction env t and env ts arbitrary: s and ss rule: regoTerm_regoTerms.induct)
  case (2 env n)
  then show ?case
    using celString_balanced [of n] plain_balanced [of n] by (auto simp: celNumber_def numbers_plain_def split: if_splits)
next
  case (5 env r)
  then obtain segs b where r: "r = TVar ''input'' # segs" "ref_segments segs = Inr b" "s = ''input'' @ b"
    by (auto simp: rego_ref_def split: list.splits rego_term.splits if_splits)
  then have "balanced b" using 5 by (intro ref_segments_balanced) auto
  then show ?case using r(3) by (simp add: balanced_def)
next
  case (8 env els)
  then show ?case using list_balanced(1) by auto
next
  case (9 env els)
  then obtain parts where "regoTerms env els = Inr parts" "s = ''['' @ Join (sort parts) '', '' @ '']''" by auto
  then show ?case using 9 list_balanced(1) [of "sort parts"] by simp
qed (auto simp: balanced_def celString_balanced [unfolded balanced_def] split: if_splits)


fun expr_idents :: "rego_terms \<Rightarrow> bool" where
  "expr_idents (Call op operands) = list_all idents operands"
| "expr_idents (Bare t) = idents t"
| "expr_idents _ = True"

lemma regoInfix_balanced: "regoInfixToCEL infx = Some celOp \<Longrightarrow> balanced celOp"
  by (auto simp: regoInfixToCEL_def balanced_def split: if_splits)

lemma rego_call_balanced:
  assumes "rego_call env op operands = Inr s" and "numbers_plain env" and "list_all idents operands"
  shows "balanced s"
proof -
  obtain a b l r celOp where "operands = [a, b]" "regoTerm env a = Inr l" "regoTerm env b = Inr r"
    "balanced celOp" "s = ''('' @ l @ '' '' @ celOp @ '' '' @ r @ '')''"
    using assms(1) by (auto simp: rego_call_def dest: regoInfix_balanced split: option.splits list.splits)
  moreover from this have "balanced l" "balanced r" using assms(2,3) regoTerm_balanced(1) by auto
  ultimately show ?thesis by (simp add: balanced_def)
qed

lemma regoExpr_balanced:
  assumes "regoExpr env x = Inr s" and "numbers_plain env" and "expr_idents (x_Terms x)"
  shows "balanced s"
proof -
  obtain u where "balanced u" "s = (if x_Negated x then ''!('' @ u @ '')'' else u)"
    using assms
    by (auto simp: regoExpr_def Let_def dest: rego_call_balanced regoTerm_balanced(1) split: if_splits rego_terms.splits)
  then show ?thesis by (simp add: balanced_def)
qed

lemma regoExprs_balanced:
  "regoExprs env xs = Inr ts \<Longrightarrow> numbers_plain env \<Longrightarrow> \<forall>x \<in> set xs. expr_idents (x_Terms x) \<Longrightarrow> \<forall>t \<in> set ts. balanced t"
  by (induction xs arbitrary: ts) (auto intro: regoExpr_balanced)

lemma rego_body_balanced:
  assumes "rego_body env b = Inr s" and "numbers_plain env" and "\<forall>x \<in> set b. expr_idents (x_Terms x)"
  shows "balanced s"
proof (cases "b = []")
  case True
  then show ?thesis using assms(1) by (auto simp: rego_body_def balanced_def)
next
  case False
  then obtain ts where "regoExprs env b = Inr ts" "s = Join (wrapTerms ts) '' && ''"
    using assms(1) by (auto simp: rego_body_def)
  then show ?thesis using wrapped_balanced [OF regoExprs_balanced] assms(2,3) by (simp add: balanced_def)
qed

lemma regoRule_balanced:
  "regoRule env ruleName rule = Inr (Some s) \<Longrightarrow> numbers_plain env \<Longrightarrow> \<forall>x \<in> set (rr_Body rule). expr_idents (x_Terms x) \<Longrightarrow> balanced s"
  by (auto simp: regoRule_def intro: rego_body_balanced split: option.splits if_splits)

lemma rego_rules_balanced:
  "rego_rules env ruleName rules = Inr ds \<Longrightarrow> numbers_plain env \<Longrightarrow>
    \<forall>rule \<in> set rules. \<forall>x \<in> set (rr_Body rule). expr_idents (x_Terms x) \<Longrightarrow> \<forall>d \<in> set ds. balanced d"
proof (induction rules arbitrary: ds)
  case (Cons rule rules)
  then obtain d rest where d: "regoRule env ruleName rule = Inr d" "rego_rules env ruleName rules = Inr rest"
    "ds = (case d of None \<Rightarrow> [] | Some body \<Rightarrow> [body]) @ rest" by auto
  then have "\<forall>b. d = Some b \<longrightarrow> balanced b" using Cons.prems regoRule_balanced by auto
  then show ?case using d Cons by (auto split: option.splits)
qed simp

text \<open>As long as the fields of \<open>input\<close> in a Rego module are identifiers, the emitted text is the disjunction of
  the bodies of the rules, each in its own parentheses with all brackets and literals closed.\<close>

theorem rego_bodies_isolated:
  assumes "TranslateRego env parse src ruleName = Inr r" and "parse src = Some (Some rules)" and "numbers_plain env"
    and "\<forall>rule \<in> set rules. \<forall>x \<in> set (rr_Body rule). expr_idents (x_Terms x)"
  shows "\<exists>bodies. bodies \<noteq> [] \<and> rego_rules env (if ruleName = [] then ''allow'' else ruleName) rules = Inr bodies \<and>
    (\<forall>b \<in> set bodies. balanced b) \<and> res_CEL r = Join (wrapTerms bodies) '' || ''"
proof -
  obtain ds where ds: "rego_rules env (if ruleName = [] then ''allow'' else ruleName) rules = Inr ds" "ds \<noteq> []"
    "res_CEL r = Join (wrapTerms ds) '' || ''"
    using assms(1,2) by (auto simp: TranslateRego_def Let_def split: sum.splits if_splits)
  then show ?thesis using rego_rules_balanced [OF ds(1) assms(3,4)] by blast
qed

lemma path_injection:
  "regoTerm env (TRef [TVar ''input'', TString ''x || true'']) = Inr ''input.x || true''"
  by (simp add: rego_ref_def)

text \<open>A default that is no boolean is accepted, as if it were \<open>false\<close>.\<close>

lemma default_not_boolean:
  "regoRule env ''allow'' \<lparr>rr_Head = Some \<lparr>h_Name = ''allow'', h_Args = 0, h_Key = False, h_Value = Some (TString ''yes'')\<rparr>,
     rr_Default = True, rr_Else = False, rr_Body = []\<rparr> = Inr None"
  by (simp add: regoRule_def)

definition demo_env :: rego_env where
  "demo_env = \<lparr>parseInt = (\<lambda>s. s \<noteq> [] \<and> list_all ident_char s), parseFloat = (\<lambda>s. False), BuiltinMap = [''equal'' \<mapsto> ''=='']\<rparr>"

definition demo_rule :: rego_rule where
  "demo_rule = \<lparr>rr_Head = Some \<lparr>h_Name = ''allow'', h_Args = 0, h_Key = False, h_Value = Some (TBoolean True)\<rparr>, rr_Default = False,
     rr_Else = False, rr_Body = [\<lparr>x_With = 0, x_Negated = False,
       x_Terms = Call (Some ''equal'') [TRef [TVar ''input'', TString ''role''], TString ''admin'']\<rparr>]\<rparr>"

theorem rego_bodies_isolated_witness:
  "\<exists>bodies. bodies \<noteq> [] \<and> rego_rules demo_env ''allow'' [demo_rule] = Inr bodies \<and> \<not> (\<exists>b. b \<in> set bodies \<and> \<not> balanced b)"
proof -
  obtain r where r: "TranslateRego demo_env (\<lambda>src. Some (Some [demo_rule])) [] [] = Inr r"
    by (simp add: TranslateRego_def demo_env_def demo_rule_def regoRule_def rego_body_def regoExpr_def rego_call_def
        rego_ref_def regoInfixToCEL_def both_def)
  have "numbers_plain demo_env" using ident_plain by (simp add: numbers_plain_def demo_env_def is_ident_def)
  moreover have "\<forall>rule \<in> set [demo_rule]. \<forall>x \<in> set (rr_Body rule). expr_idents (x_Terms x)"
    by (simp add: demo_rule_def is_ident_def ident_char_def)
  ultimately show ?thesis
    using rego_bodies_isolated [OF r refl] by auto
qed

end
