(* ===== verification/ShardMetrics.thy ===== *)
theory ShardMetrics
  imports Complex_Main Prelude
begin

text \<open>
  Per-shard counters and the choice of the least loaded shard (\<open>src/internal/distributed/sharding/metrics.go\<close>).
  The atomic counters are words; the collector shares the counters of a node with its owner, so the state
  is a store of counters by node and the set of registered nodes. A \<open>float64\<close> quotient is exact here.
\<close>

record ShardMetrics =
  sm_requestCount :: u64
  sm_errorCount :: u64
  sm_totalLatency :: u64
  sm_sampleCount :: u64
  sm_lastUpdatedAt :: "instant option"

definition NewShardMetrics :: ShardMetrics where
  "NewShardMetrics = \<lparr>sm_requestCount = 0, sm_errorCount = 0, sm_totalLatency = 0, sm_sampleCount = 0, sm_lastUpdatedAt = None\<rparr>"

definition shard_Record :: "instant \<Rightarrow> duration \<Rightarrow> bool \<Rightarrow> ShardMetrics \<Rightarrow> ShardMetrics" where
  "shard_Record now latency isError m =
     (let m = m\<lparr>sm_requestCount := sm_requestCount m + 1\<rparr>;
          m = (if isError then m\<lparr>sm_errorCount := sm_errorCount m + 1\<rparr> else m);
          m = (if latency \<ge> 0 then m\<lparr>sm_totalLatency := sm_totalLatency m + of_int latency, sm_sampleCount := sm_sampleCount m + 1\<rparr> else m)
      in m\<lparr>sm_lastUpdatedAt := Some now\<rparr>)"

definition shard_errorRate :: "u64 \<Rightarrow> u64 \<Rightarrow> rat" where
  "shard_errorRate requests errors = (if requests = 0 then 0 else of_nat (unat errors) / of_nat (unat requests))"

definition avgLatency :: "u64 \<Rightarrow> u64 \<Rightarrow> duration" where
  "avgLatency totalNs samples = (if samples = 0 then 0 else sint (totalNs div samples))"

record ShardStats =
  ss_NodeID :: string
  ss_RequestCount :: u64
  ss_ErrorCount :: u64
  ss_TotalLatency :: u64
  ss_SampleCount :: u64
  ss_ErrorRate :: rat
  ss_AvgLatency :: duration
  ss_LastUpdatedAt :: "instant option"

definition shard_Snapshot :: "string \<Rightarrow> ShardMetrics \<Rightarrow> ShardStats" where
  "shard_Snapshot nodeID m = \<lparr>ss_NodeID = nodeID, ss_RequestCount = sm_requestCount m, ss_ErrorCount = sm_errorCount m,
     ss_TotalLatency = sm_totalLatency m, ss_SampleCount = sm_sampleCount m,
     ss_ErrorRate = shard_errorRate (sm_requestCount m) (sm_errorCount m),
     ss_AvgLatency = avgLatency (sm_totalLatency m) (sm_sampleCount m), ss_LastUpdatedAt = sm_lastUpdatedAt m\<rparr>"

definition shard_Reset :: "ShardMetrics \<Rightarrow> ShardMetrics" where
  "shard_Reset m = m\<lparr>sm_requestCount := 0, sm_errorCount := 0, sm_totalLatency := 0, sm_sampleCount := 0\<rparr>"

text \<open>The collector maps a node to the address of its counters; the counters live in a store.\<close>

record shard_collector =
  sc_metrics :: "string \<rightharpoonup> nat"
  sc_store :: "nat \<Rightarrow> ShardMetrics"

definition shard_Register :: "string \<Rightarrow> nat option \<Rightarrow> shard_collector \<Rightarrow> shard_collector" where
  "shard_Register nodeID metrics c = (case metrics of None \<Rightarrow> c\<lparr>sc_metrics := (sc_metrics c)(nodeID := None)\<rparr>
     | Some addr \<Rightarrow> c\<lparr>sc_metrics := (sc_metrics c)(nodeID \<mapsto> addr)\<rparr>)"

definition metrics_of :: "shard_collector \<Rightarrow> string \<Rightarrow> ShardMetrics" where
  "metrics_of c nodeID = sc_store c (the (sc_metrics c nodeID))"

definition collector_Snapshot :: "(string set \<Rightarrow> string list) \<Rightarrow> shard_collector \<Rightarrow> ShardStats list" where
  "collector_Snapshot visit c = map (\<lambda>nodeID. shard_Snapshot nodeID (metrics_of c nodeID)) (visit (dom (sc_metrics c)))"

fun leastLoop :: "shard_collector \<Rightarrow> string list \<Rightarrow> string \<Rightarrow> u64 \<Rightarrow> string" where
  "leastLoop c [] bestID bestCount = bestID"
| "leastLoop c (nodeID # ids) bestID bestCount =
     (let rc = sm_requestCount (metrics_of c nodeID) in
      if rc < bestCount then leastLoop c ids nodeID rc else leastLoop c ids bestID bestCount)"

definition LeastLoaded :: "(string set \<Rightarrow> string list) \<Rightarrow> shard_collector \<Rightarrow> string \<times> bool" where
  "LeastLoaded visit c = (if sc_metrics c = Map.empty then ([], False)
     else (leastLoop c (visit (dom (sc_metrics c))) [] (2 ^ 63 - 1), True))"

section \<open>The least loaded shard\<close>

lemma leastLoop_least:
  "leastLoop c ids bestID bestCount = bestID \<and> (\<forall>i \<in> set ids. bestCount \<le> sm_requestCount (metrics_of c i)) \<or>
   leastLoop c ids bestID bestCount \<in> set ids \<and> sm_requestCount (metrics_of c (leastLoop c ids bestID bestCount)) < bestCount \<and>
     (\<forall>i \<in> set ids. sm_requestCount (metrics_of c (leastLoop c ids bestID bestCount)) \<le> sm_requestCount (metrics_of c i))"
proof (induction c ids bestID bestCount rule: leastLoop.induct)
  case (2 c nodeID ids bestID bestCount)
  then show ?case
    by (cases "sm_requestCount (metrics_of c nodeID) < bestCount") (auto simp: Let_def not_less intro: order_trans less_trans)
qed simp

text \<open>\<open>LeastLoaded\<close> returns a registered node whose request count is the least of all registered nodes, whatever
  the iteration order, as long as some node has fewer than \<open>2^63 - 1\<close> requests; it returns false
  exactly when no node is registered.\<close>

theorem LeastLoaded_least:
  assumes "visits visit" and "finite (dom (sc_metrics c))" and "n \<in> dom (sc_metrics c)"
    and "sm_requestCount (metrics_of c n) < 2 ^ 63 - 1" and "LeastLoaded visit c = (best, ok)"
  shows "ok \<and> best \<in> dom (sc_metrics c) \<and>
    (\<forall>i \<in> dom (sc_metrics c). sm_requestCount (metrics_of c best) \<le> sm_requestCount (metrics_of c i))"
proof -
  have ids: "set (visit (dom (sc_metrics c))) = dom (sc_metrics c)" using assms(1,2) by (simp add: visits_def)
  have "sc_metrics c \<noteq> Map.empty" using assms(3) by auto
  then have best: "ok" "best = leastLoop c (visit (dom (sc_metrics c))) [] (2 ^ 63 - 1)" using assms(5) by (auto simp: LeastLoaded_def)
  have "\<not> (\<forall>i \<in> dom (sc_metrics c). 2 ^ 63 - 1 \<le> sm_requestCount (metrics_of c i))" using assms(3,4) by (meson not_less)
  then show ?thesis
    using leastLoop_least [of c "visit (dom (sc_metrics c))" "[]" "2 ^ 63 - 1"] best unfolding ids by blast
qed

theorem LeastLoaded_least_witness:
  "fst (LeastLoaded (\<lambda>S. SOME xs. distinct xs \<and> set xs = S)
     (shard_Register ''a'' (Some 0) \<lparr>sc_metrics = Map.empty, sc_store = (\<lambda>addr. NewShardMetrics)\<rparr>)) = ''a''"
  using LeastLoaded_least [OF visits_some, of "shard_Register ''a'' (Some 0) \<lparr>sc_metrics = Map.empty, sc_store = (\<lambda>addr. NewShardMetrics)\<rparr>" "''a''"]
  by (cases "LeastLoaded (\<lambda>S. SOME xs. distinct xs \<and> set xs = S)
     (shard_Register ''a'' (Some 0) \<lparr>sc_metrics = Map.empty, sc_store = (\<lambda>addr. NewShardMetrics)\<rparr>)")
    (auto simp: shard_Register_def metrics_of_def NewShardMetrics_def)

end
