(* ===== verification/GoValues.thy ===== *)
theory GoValues
  imports Complex_Main GoStrings
begin

text \<open>
  Dynamically typed Go values (\<open>any\<close>), as the JSON decoder and the CEL library produce them. A \<open>float64\<close>
  is a rational number, an infinity or NaN; a map is an association list with distinct keys.
\<close>

datatype gofloat = Finite rat | PosInf | NegInf | NaN

datatype goany = ANil | ABool bool | AInt int | AUint nat | AFloat gofloat | AString string
  | AList "goany list" | AMap "(string \<times> goany) list"

type_synonym bindings = "(string \<times> goany) list"

definition is_integral :: "rat \<Rightarrow> bool" where
  "is_integral r \<longleftrightarrow> of_int \<lfloor>r\<rfloor> = r"

end
