(* ===== verification/Sandbox.thy ===== *)
theory Sandbox
  imports GoValues "HOL-Library.Word"
begin

text \<open>
  The Wasm sandbox (\<open>src/internal/sandbox/sandbox.go\<close>) and the repair prompts made from its traps
  (\<open>src/internal/repair/repair.go\<close>). The runtime wazero is a parameter: what the guest writes and how its
  instantiation ends, given the page limit, the arguments and the timeout. Bytes are characters.
\<close>

section \<open>Traps\<close>

datatype TrapKind = TrapKindUnreachable | TrapKindMemoryOOB | TrapKindStackOverflow | TrapKindTimeout

record TrapInfo =
  Kind :: TrapKind
  Message :: string

record SandboxResult =
  Stdout :: string
  Stderr :: string
  ExitCode :: int
  Trap :: "TrapInfo option"

text \<open>
  An error of the runtime: its text, whether it is a deadline error, and its exit code when it is an error
  of a process that has one.
\<close>

record run_error =
  re_text :: string
  re_deadline :: bool
  re_exit :: "u32 option"

definition exitCodeFromErr :: "run_error option \<Rightarrow> int" where
  "exitCodeFromErr err = (case err of None \<Rightarrow> 0 | Some e \<Rightarrow> (case re_exit e of Some code \<Rightarrow> sint code | None \<Rightarrow> 0))"

definition trapFromErr :: "run_error option \<Rightarrow> TrapInfo option" where
  "trapFromErr err = (case err of None \<Rightarrow> None | Some e \<Rightarrow> (let msg = re_text e in
     if re_deadline e then Some \<lparr>Kind = TrapKindTimeout, Message = msg\<rparr>
     else if Contains msg ''unreachable'' then Some \<lparr>Kind = TrapKindUnreachable, Message = msg\<rparr>
     else if Contains msg ''out of bounds memory access'' then Some \<lparr>Kind = TrapKindMemoryOOB, Message = msg\<rparr>
     else if Contains msg ''stack overflow'' then Some \<lparr>Kind = TrapKindStackOverflow, Message = msg\<rparr>
     else None))"

section \<open>Limits\<close>

definition wasmPageSize :: u32 where
  "wasmPageSize = 65536"

definition memLimitMBToPages :: "int \<Rightarrow> u32" where
  "memLimitMBToPages mb = (if mb \<le> 0 then 1
     else (let pages = word_of_int mb * 1024 * 1024 div wasmPageSize in if pages = 0 then 1 else pages))"

record limitedBuffer =
  lb_buf :: string
  maxCap :: int

definition buffer_Write :: "string \<Rightarrow> limitedBuffer \<Rightarrow> nat \<times> limitedBuffer" where
  "buffer_Write p b = (if maxCap b > 0 \<and> int (length (lb_buf b)) \<ge> maxCap b then (length p, b)
     else (let want = (if maxCap b > 0 \<and> maxCap b - int (length (lb_buf b)) < int (length p)
                       then nat (maxCap b - int (length (lb_buf b))) else length p)
           in (length p, b\<lparr>lb_buf := lb_buf b @ take want p\<rparr>)))"

definition buffer_Bytes :: "limitedBuffer \<Rightarrow> string" where
  "buffer_Bytes b = lb_buf b"

text \<open>The order of the arguments is the iteration order of the map; \<open>fmt_v\<close> is the verb \<open>%v\<close>.\<close>

definition buildArgs :: "(goany \<Rightarrow> string) \<Rightarrow> bindings \<Rightarrow> string list" where
  "buildArgs fmt_v args = map (\<lambda>(k, v). k @ ''='' @ fmt_v v) args"

section \<open>Running a module\<close>

record guest_run =
  gr_stdout :: "string list"
  gr_stderr :: "string list"
  gr_error :: "run_error option"

type_synonym wazero = "string \<Rightarrow> u32 \<Rightarrow> string list \<Rightarrow> int option \<Rightarrow> guest_run"

datatype sandbox_error = Base64Decode | RunFailed run_error

definition write_all :: "string list \<Rightarrow> limitedBuffer \<Rightarrow> limitedBuffer" where
  "write_all ws b = fold (\<lambda>p b. snd (buffer_Write p b)) ws b"

definition sandbox_Run :: "(string \<Rightarrow> string option) \<Rightarrow> (goany \<Rightarrow> string) \<Rightarrow> wazero \<Rightarrow> string \<Rightarrow> bindings \<Rightarrow> int \<Rightarrow> int \<Rightarrow>
    SandboxResult \<times> sandbox_error option" where
  "sandbox_Run base64 fmt_v wz wasmModuleB64 args memLimitMB timeoutMs = (case base64 wasmModuleB64 of
     None \<Rightarrow> (\<lparr>Stdout = [], Stderr = [], ExitCode = 0, Trap = None\<rparr>, Some Base64Decode)
   | Some wasmBytes \<Rightarrow>
      (let pages = memLimitMBToPages memLimitMB;
           g = wz wasmBytes pages (buildArgs fmt_v args) (if timeoutMs > 0 then Some timeoutMs else None);
           out = buffer_Bytes (write_all (gr_stdout g) \<lparr>lb_buf = [], maxCap = 0\<rparr>);
           err = buffer_Bytes (write_all (gr_stderr g) \<lparr>lb_buf = [], maxCap = 0\<rparr>)
       in case gr_error g of
            Some e \<Rightarrow> (\<lparr>Stdout = out, Stderr = err, ExitCode = exitCodeFromErr (Some e), Trap = trapFromErr (Some e)\<rparr>, Some (RunFailed e))
          | None \<Rightarrow> (\<lparr>Stdout = out, Stderr = err, ExitCode = 0, Trap = None\<rparr>, None)))"

section \<open>Repair prompts\<close>

record RepairPrompt =
  System :: string
  User :: string
  Program :: string
  p_TrapKind :: string
  TrapMessage :: string
  p_Stdout :: string
  p_Stderr :: string
  p_ExitCode :: int

datatype repair_error = ErrEmptyProgram | ErrNoTrap

fun TrapKind_text :: "TrapKind \<Rightarrow> string" where
  "TrapKind_text TrapKindUnreachable = ''unreachable''"
| "TrapKind_text TrapKindMemoryOOB = ''memory_oob''"
| "TrapKind_text TrapKindStackOverflow = ''stack_overflow''"
| "TrapKind_text TrapKindTimeout = ''timeout''"

definition nl :: string where
  "nl = [CHR 10]"

definition prompt_section :: "string \<Rightarrow> string \<Rightarrow> string" where
  "prompt_section title body = ''## '' @ title @ nl @ body @ nl @ nl"

definition assembleUserPrompt :: "RepairPrompt \<Rightarrow> string" where
  "assembleUserPrompt p =
     ''The following program trapped during sandboxed execution. Diagnose and fix it.'' @ nl @ nl @
     prompt_section ''Trap kind'' (p_TrapKind p) @
     (if TrapMessage p \<noteq> [] then prompt_section ''Runtime error'' (TrapMessage p) else []) @
     prompt_section ''Exit code'' (Itoa (p_ExitCode p)) @
     (if p_Stdout p \<noteq> [] then prompt_section ''Captured stdout'' (p_Stdout p) else []) @
     (if p_Stderr p \<noteq> [] then prompt_section ''Captured stderr'' (p_Stderr p) else []) @
     ''## Program to fix'' @ nl @ Program p @ nl"

definition Repair :: "string \<Rightarrow> string \<Rightarrow> SandboxResult \<Rightarrow> repair_error + RepairPrompt" where
  "Repair systemPrompt program trapResult =
     (if TrimSpace program = [] then Inl ErrEmptyProgram
      else case Trap trapResult of None \<Rightarrow> Inl ErrNoTrap
      | Some trap \<Rightarrow> (let p = \<lparr>System = systemPrompt, User = [], Program = program, p_TrapKind = TrapKind_text (Kind trap),
            TrapMessage = Message trap, p_Stdout = Stdout trapResult, p_Stderr = Stderr trapResult, p_ExitCode = ExitCode trapResult\<rparr>
          in Inr (p\<lparr>User := assembleUserPrompt p\<rparr>)))"

section \<open>The limits\<close>

lemma pages_product: "unat (word_of_int mb * 1024 * 1024 div wasmPageSize :: u32) = 16 * nat (mb mod 4096)"
proof -
  have "(word_of_int mb * 1024 * 1024 :: u32) = word_of_int (mb * 2 ^ 20)" by simp
  moreover have "uint (word_of_int (mb * 2 ^ 20) :: u32) = 2 ^ 20 * (mb mod 4096)"
  proof -
    have "uint (word_of_int (mb * 2 ^ 20) :: u32) = (2 ^ 20 * mb) mod (2 ^ 20 * 2 ^ 12)" by (simp only: uint_word_of_int) (simp add: mult.commute)
    also have "\<dots> = 2 ^ 20 * (mb mod 2 ^ 12)" by (simp only: mod_mult_mult1)
    finally show ?thesis by simp
  qed
  ultimately have "uint (word_of_int mb * 1024 * 1024 div wasmPageSize :: u32) = 2 ^ 20 * (mb mod 4096) div 65536"
    by (simp only: wasmPageSize_def uint_div) simp
  also have "\<dots> = 16 * (mb mod 4096)" by simp
  finally show ?thesis by (simp add: unat_eq_nat_uint nat_mult_distrib)
qed

text \<open>the page limit is 16 pages of 64 KiB per megabyte, at least one page, up to 4095 megabytes. Above
  that the multiplication wraps around in 32 bits: the limit is that of the remainder modulo 4096, and a
  multiple of 4096 megabytes is a single page.\<close>

theorem memLimitMBToPages_exact:
  "unat (memLimitMBToPages mb) = (if mb \<le> 0 \<or> 4096 dvd mb then 1 else 16 * nat (mb mod 4096)) \<and>
   (0 < mb \<and> mb < 4096 \<longrightarrow> int (unat (memLimitMBToPages mb)) * 65536 = mb * 1024 * 1024)"
proof -
  let ?p = "word_of_int mb * 1024 * 1024 div wasmPageSize :: u32"
  have "?p = 0 \<longleftrightarrow> 4096 dvd mb"
    using pages_product [of mb] pos_mod_sign [of 4096 mb] by (auto simp: unat_eq_zero [symmetric] dvd_eq_mod_eq_0)
  then have eq: "unat (memLimitMBToPages mb) = (if mb \<le> 0 \<or> 4096 dvd mb then 1 else 16 * nat (mb mod 4096))"
    using pages_product [of mb] by (simp add: memLimitMBToPages_def Let_def)
  moreover have "int (unat (memLimitMBToPages mb)) * 65536 = mb * 1024 * 1024" if "0 < mb" "mb < 4096"
  proof -
    have "\<not> 4096 dvd mb" using that zdvd_not_zless by blast
    with that eq show ?thesis by simp
  qed
  ultimately show ?thesis by blast
qed

theorem memLimitMBToPages_exact_witness:
  "unat (memLimitMBToPages 64) = 1024 \<and> unat (memLimitMBToPages 4096) = 1 \<and> unat (memLimitMBToPages 5000) = 14464"
  using memLimitMBToPages_exact [of 64] memLimitMBToPages_exact [of 4096] memLimitMBToPages_exact [of 5000] by simp

lemma take_take_append: "take n (take n x @ y) = take n (x @ y)"
  by (cases "length x \<le> n") auto

lemma write_all_spec:
  "maxCap (write_all ws b) = maxCap b"
  "maxCap b > 0 \<and> int (length (lb_buf b)) \<le> maxCap b \<Longrightarrow>
     lb_buf (write_all ws b) = take (nat (maxCap b)) (lb_buf b @ concat ws)"
  "\<not> maxCap b > 0 \<Longrightarrow> lb_buf (write_all ws b) = lb_buf b @ concat ws"
proof -
  show cap: "maxCap (write_all ws b) = maxCap b" for ws b
    by (induction ws arbitrary: b) (auto simp: write_all_def buffer_Write_def Let_def)
  show "\<not> maxCap b > 0 \<Longrightarrow> lb_buf (write_all ws b) = lb_buf b @ concat ws"
    by (induction ws arbitrary: b) (auto simp: write_all_def buffer_Write_def Let_def)
  show "maxCap b > 0 \<and> int (length (lb_buf b)) \<le> maxCap b \<Longrightarrow>
     lb_buf (write_all ws b) = take (nat (maxCap b)) (lb_buf b @ concat ws)"
  proof (induction ws arbitrary: b)
    case Nil
    then have "length (lb_buf b) \<le> nat (maxCap b)" by linarith
    then show ?case by (simp add: write_all_def)
  next
    case (Cons w ws)
    let ?b = "snd (buffer_Write w b)"
    have b: "maxCap ?b = maxCap b" "lb_buf ?b = take (nat (maxCap b)) (lb_buf b @ w)"
      using Cons.prems by (auto simp: buffer_Write_def Let_def nat_diff_distrib)
    have "length (lb_buf ?b) \<le> nat (maxCap b)" unfolding b(2) by simp
    then have len: "int (length (lb_buf ?b)) \<le> maxCap b" using Cons.prems by linarith
    have "lb_buf (write_all (w # ws) b) = lb_buf (write_all ws ?b)" by (simp add: write_all_def)
    also have "\<dots> = take (nat (maxCap b)) (lb_buf ?b @ concat ws)"
      using Cons.IH [of ?b] len Cons.prems unfolding b(1) by blast
    also have "\<dots> = take (nat (maxCap b)) (lb_buf b @ concat (w # ws))"
      unfolding b(2) take_take_append by simp
    finally show ?case .
  qed
qed

section \<open>From a run to a prompt\<close>

definition is_trap :: "run_error \<Rightarrow> bool" where
  "is_trap e \<longleftrightarrow> re_deadline e \<or> (\<exists>w \<in> {''unreachable'', ''out of bounds memory access'', ''stack overflow''}. Contains (re_text e) w)"

lemma trapFromErr_iff: "trapFromErr (Some e) = None \<longleftrightarrow> \<not> is_trap e"
  "trapFromErr (Some e) = Some t \<Longrightarrow> Message t = re_text e"
  by (auto simp: trapFromErr_def is_trap_def Let_def split: if_splits)

lemma sandbox_Run_started:
  assumes "base64 m = Some wasm"
    and "g = wz wasm (memLimitMBToPages mb) (buildArgs fmt_v args) (if t > 0 then Some t else None)"
  shows "Stdout (fst (sandbox_Run base64 fmt_v wz m args mb t)) = concat (gr_stdout g)"
    "Stderr (fst (sandbox_Run base64 fmt_v wz m args mb t)) = concat (gr_stderr g)"
    "Trap (fst (sandbox_Run base64 fmt_v wz m args mb t)) = trapFromErr (gr_error g)"
    "ExitCode (fst (sandbox_Run base64 fmt_v wz m args mb t)) = exitCodeFromErr (gr_error g)"
    "snd (sandbox_Run base64 fmt_v wz m args mb t) = map_option RunFailed (gr_error g)"
proof -
  have "sandbox_Run base64 fmt_v wz m args mb t = (\<lparr>Stdout = concat (gr_stdout g), Stderr = concat (gr_stderr g),
      ExitCode = exitCodeFromErr (gr_error g), Trap = trapFromErr (gr_error g)\<rparr>, map_option RunFailed (gr_error g))"
    by (cases "gr_error g") (simp_all add: sandbox_Run_def Let_def assms(1) assms(2) [symmetric] buffer_Bytes_def write_all_spec(3)
      exitCodeFromErr_def trapFromErr_def)
  then show "Stdout (fst (sandbox_Run base64 fmt_v wz m args mb t)) = concat (gr_stdout g)"
    "Stderr (fst (sandbox_Run base64 fmt_v wz m args mb t)) = concat (gr_stderr g)"
    "Trap (fst (sandbox_Run base64 fmt_v wz m args mb t)) = trapFromErr (gr_error g)"
    "ExitCode (fst (sandbox_Run base64 fmt_v wz m args mb t)) = exitCodeFromErr (gr_error g)"
    "snd (sandbox_Run base64 fmt_v wz m args mb t) = map_option RunFailed (gr_error g)" by simp_all
qed

text \<open>the result of a run carries everything the guest wrote, without a bound, and the exit code of its error.
  A prompt is made exactly for a program that is not blank and a run that ended in a deadline or in an error
  whose text mentions a trap; it quotes the error, the output and, at its end, the program verbatim.\<close>

theorem run_then_repair:
  assumes "base64 m = Some wasm"
  shows "let g = wz wasm (memLimitMBToPages mb) (buildArgs fmt_v args) (if t > 0 then Some t else None);
      res = fst (sandbox_Run base64 fmt_v wz m args mb t) in
    Stdout res = concat (gr_stdout g) \<and> Stderr res = concat (gr_stderr g) \<and>
    ((\<exists>p. Repair sys prog res = Inr p) \<longleftrightarrow> TrimSpace prog \<noteq> [] \<and> (\<exists>e. gr_error g = Some e \<and> is_trap e)) \<and>
    (\<forall>p. Repair sys prog res = Inr p \<longrightarrow> TrapMessage p = re_text (the (gr_error g)) \<and> p_Stdout p = concat (gr_stdout g) \<and>
       p_ExitCode p = exitCodeFromErr (gr_error g) \<and> (\<exists>pre. User p = pre @ prog @ nl))"
proof -
  define g where "g = wz wasm (memLimitMBToPages mb) (buildArgs fmt_v args) (if t > 0 then Some t else None)"
  define res where "res = fst (sandbox_Run base64 fmt_v wz m args mb t)"
  note run = sandbox_Run_started [of base64 m wasm g wz mb fmt_v args t, OF assms g_def, folded res_def]
  have trap: "Trap res = None \<longleftrightarrow> \<not> (\<exists>e. gr_error g = Some e \<and> is_trap e)"
    unfolding run(3) using trapFromErr_iff(1) by (cases "gr_error g") (auto simp: trapFromErr_def)
  have msg: "Message t = re_text (the (gr_error g))" if "Trap res = Some t" for t
    using that trapFromErr_iff(2) unfolding run(3) by (cases "gr_error g") (auto simp: trapFromErr_def)
  have ok: "(\<exists>p. Repair sys prog res = Inr p) \<longleftrightarrow> TrimSpace prog \<noteq> [] \<and> Trap res \<noteq> None"
    by (auto simp: Repair_def Let_def split: option.splits)
  have "TrapMessage p = re_text (the (gr_error g)) \<and> p_Stdout p = concat (gr_stdout g) \<and>
      p_ExitCode p = exitCodeFromErr (gr_error g) \<and> (\<exists>pre. User p = pre @ prog @ nl)" if p: "Repair sys prog res = Inr p" for p
  proof -
    obtain t where t: "Trap res = Some t" "TrapMessage p = Message t" "p_Stdout p = Stdout res" "p_ExitCode p = ExitCode res"
      and user: "User p = assembleUserPrompt (p\<lparr>User := []\<rparr>)" "Program p = prog"
      using p by (auto simp: Repair_def Let_def split: if_splits option.splits)
    have "\<exists>pre. User p = pre @ prog @ nl"
      unfolding user(1) using user(2) by (auto simp: assembleUserPrompt_def append_assoc [symmetric] simp del: append_assoc)
    with t msg run(1,4) show ?thesis by simp
  qed
  moreover have "(\<exists>p. Repair sys prog res = Inr p) \<longleftrightarrow> TrimSpace prog \<noteq> [] \<and> (\<exists>e. gr_error g = Some e \<and> is_trap e)"
    using ok trap by simp
  ultimately show ?thesis unfolding g_def [symmetric] res_def [symmetric] Let_def using run(1,2) by simp
qed

definition trap_guest :: wazero where
  "trap_guest m pages args t = \<lparr>gr_stdout = [''ab'', ''c''], gr_stderr = [], gr_error =
     Some \<lparr>re_text = ''wasm error: unreachable'', re_deadline = False, re_exit = None\<rparr>\<rparr>"

theorem run_then_repair_witness:
  "\<exists>res p. res = fst (sandbox_Run Some (\<lambda>_. []) trap_guest ''m'' [] 64 100) \<and> Stdout res = ''abc'' \<and>
     Repair [] ''prog'' res = Inr p \<and> TrapMessage p = ''wasm error: unreachable''"
proof -
  have "TrimSpace ''prog'' \<noteq> []" "Contains ''wasm error: unreachable'' ''unreachable''" by code_simp+
  moreover from this have "is_trap (the (gr_error (trap_guest m pages args t)))" for m pages args t
    unfolding is_trap_def by (simp add: trap_guest_def)
  ultimately show ?thesis
    using run_then_repair [of Some "''m''" "''m''" trap_guest 64 "\<lambda>_. []" "[]" 100 "[]" "''prog''"]
    by (auto simp: Let_def trap_guest_def)
qed

text \<open>An error that is no trap but mentions the word is classified as one.\<close>

lemma link_error_taken_for_trap:
  "trapFromErr (Some \<lparr>re_text = ''module[unreachable] not instantiated'', re_deadline = False, re_exit = None\<rparr>) =
     Some \<lparr>Kind = TrapKindUnreachable, Message = ''module[unreachable] not instantiated''\<rparr>"
  by code_simp

end
