(* ===== verification/Observability.thy ===== *)
theory Observability
  imports Complex_Main Prelude "HOL-Library.List_Lexorder" "HOL-Library.Char_ord"
begin

text \<open>
  The observability collector (\<open>src/internal/observability/metrics.go\<close>) and the dashboard summaries
  (\<open>dashboard.go\<close>). A \<open>float64\<close> is a rational: quotients and interpolations are exact here and rounded in
  the code. Counters are \<open>uint64\<close> words, the latency sum wraps like an \<open>int64\<close>. The Prometheus text
  and the service are in \<open>ObsService\<close>; the Grafana model is in \<open>Grafana\<close>.
\<close>

section \<open>Latency histogram\<close>

definition latencyBucketsSeconds :: "rat list" where
  "latencyBucketsSeconds = map (\<lambda>n. of_nat n / 1000) [5, 10, 25, 50, 100, 250, 500, 1000, 2500, 5000, 10000]"

definition numLatencyBuckets :: nat where
  "numLatencyBuckets = length latencyBucketsSeconds + 1"

record latencyAgg =
  la_count :: u64
  la_sum :: duration
  la_min :: duration
  la_max :: duration
  la_buckets :: "u64 list"

definition newLatencyAgg :: latencyAgg where
  "newLatencyAgg = \<lparr>la_count = 0, la_sum = 0, la_min = 0, la_max = 0, la_buckets = replicate numLatencyBuckets 0\<rparr>"

definition Seconds :: "duration \<Rightarrow> rat" where
  "Seconds d = of_int d / 1000000000"

fun bucketFrom :: "nat \<Rightarrow> rat list \<Rightarrow> rat \<Rightarrow> nat" where
  "bucketFrom i [] s = numLatencyBuckets - 1"
| "bucketFrom i (b # bs) s = (if s \<le> b then i else bucketFrom (Suc i) bs s)"

definition latencyBucketIndex :: "duration \<Rightarrow> nat" where
  "latencyBucketIndex d = bucketFrom 0 latencyBucketsSeconds (Seconds d)"

definition lat_record :: "duration \<Rightarrow> latencyAgg \<Rightarrow> latencyAgg" where
  "lat_record d a =
     (let a = (if la_count a = 0 \<or> d < la_min a then a\<lparr>la_min := d\<rparr> else a);
          a = (if d > la_max a then a\<lparr>la_max := d\<rparr> else a)
      in a\<lparr>la_count := la_count a + 1, la_sum := int64 (la_sum a + d),
           la_buckets := (la_buckets a)[latencyBucketIndex d := la_buckets a ! latencyBucketIndex d + 1]\<rparr>)"

definition secondsToDuration :: "rat \<Rightarrow> duration" where
  "secondsToDuration s = (if s \<le> 0 then 0 else \<lfloor>s * 1000000000\<rfloor>)"

fun percentileFrom :: "rat \<Rightarrow> rat list \<Rightarrow> u64 list \<Rightarrow> u64 \<Rightarrow> rat \<Rightarrow> duration \<Rightarrow> duration" where
  "percentileFrom target (bound # bounds) (bucketCount # buckets) cum prevBound highest =
     (let cumPrev = cum; cum = cum + bucketCount in
      if of_nat (unat cum) \<ge> target then
        (if bucketCount = 0 then secondsToDuration bound
         else let frac = (target - of_nat (unat cumPrev)) / of_nat (unat bucketCount);
                  frac = (if frac < 0 then 0 else if frac > 1 then 1 else frac)
              in secondsToDuration (prevBound + frac * (bound - prevBound)))
      else percentileFrom target bounds buckets cum bound highest)"
| "percentileFrom target _ _ cum prevBound highest = highest"

definition percentile :: "rat \<Rightarrow> latencyAgg \<Rightarrow> duration" where
  "percentile q a =
     (if la_count a = 0 then 0 else if q \<le> 0 then la_min a else if q \<ge> 1 then la_max a
      else percentileFrom (q * of_nat (unat (la_count a))) latencyBucketsSeconds (la_buckets a) 0 0 (la_max a))"

section \<open>The collector\<close>

record Observation =
  ob_PolicyID :: string
  ob_Tier :: string
  ob_Latency :: duration
  ob_Success :: bool
  ob_ErrorCode :: string
  ob_MemoryBytes :: u64
  ob_InstructionCount :: u64
  ob_Timestamp :: "instant option"

record policySeries =
  ps_policyID :: string
  ps_tier :: string
  ps_lat :: latencyAgg
  ps_total :: u64
  ps_successes :: u64
  ps_failures :: u64
  ps_errorsByCode :: "string \<rightharpoonup> u64"
  ps_maxMemory :: u64
  ps_totalInstructions :: u64
  ps_lastUpdated :: "instant option"

type_synonym Collector = "string \<rightharpoonup> policySeries"

definition newSeries :: "string \<Rightarrow> string \<Rightarrow> policySeries" where
  "newSeries policyID tier = \<lparr>ps_policyID = policyID, ps_tier = tier, ps_lat = newLatencyAgg, ps_total = 0, ps_successes = 0,
     ps_failures = 0, ps_errorsByCode = Map.empty, ps_maxMemory = 0, ps_totalInstructions = 0, ps_lastUpdated = None\<rparr>"

definition bump :: "string \<Rightarrow> u64 \<Rightarrow> (string \<rightharpoonup> u64) \<Rightarrow> string \<rightharpoonup> u64" where
  "bump code n m = m(code \<mapsto> (case m code of None \<Rightarrow> 0 | Some k \<Rightarrow> k) + n)"

definition updateSeries :: "instant \<Rightarrow> Observation \<Rightarrow> policySeries \<Rightarrow> policySeries" where
  "updateSeries ts obs ps =
     (let ps = ps\<lparr>ps_tier := ob_Tier obs, ps_lat := lat_record (ob_Latency obs) (ps_lat ps), ps_total := ps_total ps + 1\<rparr>;
          ps = (if ob_Success obs then ps\<lparr>ps_successes := ps_successes ps + 1\<rparr>
            else ps\<lparr>ps_failures := ps_failures ps + 1,
              ps_errorsByCode := bump (if ob_ErrorCode obs \<noteq> [] then ob_ErrorCode obs else ''unknown'') 1 (ps_errorsByCode ps)\<rparr>);
          ps = (if ob_MemoryBytes obs > ps_maxMemory ps then ps\<lparr>ps_maxMemory := ob_MemoryBytes obs\<rparr> else ps)
      in ps\<lparr>ps_totalInstructions := ps_totalInstructions ps + ob_InstructionCount obs, ps_lastUpdated := Some ts\<rparr>)"

definition Record :: "instant \<Rightarrow> Observation \<Rightarrow> Collector \<Rightarrow> Collector" where
  "Record now obs c =
     (if ob_PolicyID obs = [] then c
      else let ts = (case ob_Timestamp obs of None \<Rightarrow> now | Some t \<Rightarrow> t);
               ps = (case c (ob_PolicyID obs) of None \<Rightarrow> newSeries (ob_PolicyID obs) (ob_Tier obs) | Some ps \<Rightarrow> ps)
           in c(ob_PolicyID obs \<mapsto> updateSeries ts obs ps))"

definition allSeries :: "(string set \<Rightarrow> string list) \<Rightarrow> Collector \<Rightarrow> policySeries list" where
  "allSeries visit c = sortSlice (\<lambda>i j. ps_policyID i < ps_policyID j) (map (\<lambda>k. the (c k)) (visit (dom c)))"

definition PolicyIDs :: "(string set \<Rightarrow> string list) \<Rightarrow> Collector \<Rightarrow> string list" where
  "PolicyIDs visit c = sort (visit (dom c))"

section \<open>The dashboard\<close>

definition lat_mean :: "latencyAgg \<Rightarrow> duration" where
  "lat_mean a = (if la_count a = 0 then 0
     else let n = int64 (uint (la_count a)) in sgn (la_sum a) * sgn n * (\<bar>la_sum a\<bar> div \<bar>n\<bar>))"

definition errorRate :: "u64 \<Rightarrow> u64 \<Rightarrow> rat" where
  "errorRate n failures = (if n = 0 then 0 else of_nat (unat failures) / of_nat (unat n))"

record Bucket =
  UpperBoundSeconds :: rat
  CumulativeCount :: u64

fun cumulate :: "rat list \<Rightarrow> u64 list \<Rightarrow> u64 \<Rightarrow> Bucket list \<times> u64" where
  "cumulate (bound # bounds) (n # ns) cum = (let cum = cum + n; (out, last) = cumulate bounds ns cum
     in (\<lparr>UpperBoundSeconds = bound, CumulativeCount = cum\<rparr> # out, last))"
| "cumulate _ _ cum = ([], cum)"

definition cumulativeBuckets :: "u64 list \<Rightarrow> Bucket list" where
  "cumulativeBuckets nonCum = (let (out, cum) = cumulate latencyBucketsSeconds nonCum 0
     in out @ [\<lparr>UpperBoundSeconds = - 1, CumulativeCount = cum + nonCum ! (length nonCum - 1)\<rparr>])"

text \<open>\<open>Microseconds\<close> truncates towards zero.\<close>

definition ms :: "duration \<Rightarrow> rat" where
  "ms d = of_int (sgn d * (\<bar>d\<bar> div 1000)) / 1000"

record LatencyStats =
  ls_Count :: u64
  ls_MeanMs :: rat
  ls_MinMs :: rat
  ls_MaxMs :: rat
  ls_P50Ms :: rat
  ls_P95Ms :: rat
  ls_P99Ms :: rat
  ls_Buckets :: "Bucket list"

record PolicySummary =
  su_PolicyID :: string
  su_Tier :: string
  su_Total :: u64
  su_Successes :: u64
  su_Failures :: u64
  su_ErrorRate :: rat
  su_Latency :: LatencyStats
  su_PeakMemoryBytes :: u64
  su_TotalInstructions :: u64
  su_ErrorsByCode :: "string \<rightharpoonup> u64"
  su_UpdatedAt :: "instant option"

definition summarize :: "policySeries \<Rightarrow> PolicySummary" where
  "summarize ps = \<lparr>su_PolicyID = ps_policyID ps, su_Tier = ps_tier ps, su_Total = ps_total ps, su_Successes = ps_successes ps,
     su_Failures = ps_failures ps, su_ErrorRate = errorRate (ps_total ps) (ps_failures ps),
     su_Latency = \<lparr>ls_Count = la_count (ps_lat ps), ls_MeanMs = ms (lat_mean (ps_lat ps)), ls_MinMs = ms (la_min (ps_lat ps)),
       ls_MaxMs = ms (la_max (ps_lat ps)), ls_P50Ms = ms (percentile (1 / 2) (ps_lat ps)),
       ls_P95Ms = ms (percentile (95 / 100) (ps_lat ps)), ls_P99Ms = ms (percentile (99 / 100) (ps_lat ps)),
       ls_Buckets = cumulativeBuckets (la_buckets (ps_lat ps))\<rparr>,
     su_PeakMemoryBytes = ps_maxMemory ps, su_TotalInstructions = ps_totalInstructions ps,
     su_ErrorsByCode = ps_errorsByCode ps, su_UpdatedAt = ps_lastUpdated ps\<rparr>"

definition mergeLat :: "latencyAgg \<Rightarrow> latencyAgg \<Rightarrow> latencyAgg" where
  "mergeLat dst src =
     (if la_count src > 0 then
        (let dst = (if la_count dst = 0 \<or> la_min src < la_min dst then dst\<lparr>la_min := la_min src\<rparr> else dst);
             dst = (if la_max src > la_max dst then dst\<lparr>la_max := la_max src\<rparr> else dst)
         in dst\<lparr>la_count := la_count dst + la_count src, la_sum := int64 (la_sum dst + la_sum src),
               la_buckets := map2 (+) (la_buckets dst) (la_buckets src)\<rparr>)
      else dst)"

text \<open>The loop over the error codes of the source adds each code once; \<open>visit\<close> is the order.\<close>

definition mergeCodes :: "(string set \<Rightarrow> string list) \<Rightarrow> (string \<rightharpoonup> u64) \<Rightarrow> (string \<rightharpoonup> u64) \<Rightarrow> string \<rightharpoonup> u64" where
  "mergeCodes visit src dst = fold (\<lambda>code m. bump code (the (src code)) m) (visit (dom src)) dst"

definition mergeSeries :: "(string set \<Rightarrow> string list) \<Rightarrow> policySeries \<Rightarrow> policySeries \<Rightarrow> policySeries" where
  "mergeSeries visit dst src =
     dst\<lparr>ps_lat := mergeLat (ps_lat dst) (ps_lat src), ps_total := ps_total dst + ps_total src,
         ps_successes := ps_successes dst + ps_successes src, ps_failures := ps_failures dst + ps_failures src,
         ps_errorsByCode := mergeCodes visit (ps_errorsByCode src) (ps_errorsByCode dst),
         ps_maxMemory := (if ps_maxMemory src > ps_maxMemory dst then ps_maxMemory src else ps_maxMemory dst),
         ps_totalInstructions := ps_totalInstructions dst + ps_totalInstructions src,
         ps_lastUpdated := (case ps_lastUpdated src of None \<Rightarrow> ps_lastUpdated dst
           | Some t \<Rightarrow> (case ps_lastUpdated dst of None \<Rightarrow> Some t | Some u \<Rightarrow> if t > u then Some t else Some u))\<rparr>"

record Dashboard =
  db_GeneratedAt :: instant
  db_PolicyCount :: nat
  db_Overall :: PolicySummary
  db_Policies :: "PolicySummary list"

definition overallSeries :: "(string set \<Rightarrow> string list) \<Rightarrow> policySeries list \<Rightarrow> policySeries" where
  "overallSeries visit series = (fold (\<lambda>ps overall. mergeSeries visit overall ps) series (newSeries [] []))
     \<lparr>ps_policyID := ''__overall__'', ps_tier := ''unknown''\<rparr>"

definition Render :: "(string set \<Rightarrow> string list) \<Rightarrow> instant \<Rightarrow> Collector \<Rightarrow> Dashboard" where
  "Render visit now c = (let series = allSeries visit c in
     \<lparr>db_GeneratedAt = now, db_PolicyCount = length (map summarize series),
      db_Overall = summarize (overallSeries visit series), db_Policies = map summarize series\<rparr>)"


section \<open>The series is a function of the observations\<close>

text \<open>The specification of a latency aggregate: what it holds after the samples \<open>ds\<close>.\<close>

definition bucketCounts :: "duration list \<Rightarrow> u64 list" where
  "bucketCounts ds = map (\<lambda>i. of_nat (length (filter (\<lambda>d. latencyBucketIndex d = i) ds))) [0..<numLatencyBuckets]"

definition agg :: "duration list \<Rightarrow> latencyAgg" where
  "agg ds = \<lparr>la_count = of_nat (length ds), la_sum = int64 (sum_list ds),
     la_min = (if ds = [] then 0 else Min (set ds)), la_max = Max (insert 0 (set ds)),
     la_buckets = bucketCounts ds\<rparr>"

lemma bucketFrom_bound: "i + length bs \<le> numLatencyBuckets - 1 \<Longrightarrow> bucketFrom i bs s \<le> numLatencyBuckets - 1"
  by (induction i bs s rule: bucketFrom.induct) auto

lemma latencyBucketIndex_bound: "latencyBucketIndex d < numLatencyBuckets"
  using bucketFrom_bound [of 0 latencyBucketsSeconds "Seconds d"] by (simp add: latencyBucketIndex_def numLatencyBuckets_def)

lemma of_nat_zero: "n < 2 ^ 64 \<Longrightarrow> (of_nat n :: u64) = 0 \<longleftrightarrow> n = 0"
  by (simp add: word_of_nat_eq_0_iff dvd_imp_le) (use nat_dvd_not_less in force)

lemma agg_Nil: "agg [] = newLatencyAgg"
  by (simp add: agg_def bucketCounts_def newLatencyAgg_def int64_def map_replicate_const)

lemma length_bucketCounts [simp]: "length (bucketCounts ds) = numLatencyBuckets"
  by (simp add: bucketCounts_def)

lemma nth_bucketCounts: "i < numLatencyBuckets \<Longrightarrow> bucketCounts ds ! i = of_nat (length (filter (\<lambda>d. latencyBucketIndex d = i) ds))"
  by (simp add: bucketCounts_def)

lemma bucketCounts_snoc:
  "(bucketCounts ds)[latencyBucketIndex d := bucketCounts ds ! latencyBucketIndex d + 1] = bucketCounts (ds @ [d])"
  using latencyBucketIndex_bound [of d] by (intro nth_equalityI) (auto simp: nth_list_update nth_bucketCounts)

lemma bucketCounts_append: "map2 (+) (bucketCounts xs) (bucketCounts ys) = bucketCounts (xs @ ys)"
  by (intro nth_equalityI) (auto simp: nth_bucketCounts)

lemma lat_record_agg:
  assumes "length ds < 2 ^ 64"
  shows "lat_record d (agg ds) = agg (ds @ [d])"
proof -
  have "la_buckets (lat_record d (agg ds)) = la_buckets (agg (ds @ [d]))"
    using bucketCounts_snoc [of ds d] by (simp add: lat_record_def agg_def Let_def)
  moreover have "la_min (lat_record d (agg ds)) = la_min (agg (ds @ [d]))"
  proof -
    have "la_min (agg (ds @ [d])) = (if ds = [] then d else min d (la_min (agg ds)))" by (simp add: agg_def)
    moreover have "la_count (agg ds) = 0 \<longleftrightarrow> ds = []" using of_nat_zero [OF assms] by (simp add: agg_def)
    ultimately show ?thesis by (simp add: lat_record_def Let_def min_def)
  qed
  moreover have "la_max (lat_record d (agg ds)) = la_max (agg (ds @ [d]))"
  proof -
    have "insert 0 (set (ds @ [d])) = insert d (insert 0 (set ds))" by auto
    then have "la_max (agg (ds @ [d])) = max d (la_max (agg ds))"
      by (simp only: agg_def latencyAgg.simps) (subst Max_insert; simp)
    then show ?thesis by (simp add: lat_record_def Let_def max_def)
  qed
  moreover have "la_sum (lat_record d (agg ds)) = la_sum (agg (ds @ [d]))"
    by (simp add: lat_record_def agg_def Let_def int64_add)
  ultimately show ?thesis
    by (simp add: lat_record_def agg_def Let_def)
qed

lemma agg_cong: "mset xs = mset ys \<Longrightarrow> agg xs = agg ys"
proof -
  assume eq: "mset xs = mset ys"
  have "length (filter P xs) = length (filter P ys)" for P using eq by (metis mset_filter size_mset)
  moreover have "length xs = length ys" "set xs = set ys" "sum_list xs = sum_list ys" "xs = [] \<longleftrightarrow> ys = []"
    using eq by (auto dest: mset_eq_length mset_eq_setD simp flip: sum_mset_sum_list)
  ultimately show ?thesis by (simp add: agg_def bucketCounts_def)
qed

lemma mergeLat_agg:
  assumes "length (xs @ ys) < 2 ^ 64"
  shows "mergeLat (agg xs) (agg ys) = agg (xs @ ys)"
proof (cases "ys = []")
  case True
  then show ?thesis by (simp add: mergeLat_def) (simp add: agg_def)
next
  case False
  have c: "la_count (agg ys) > 0" "la_count (agg xs) = 0 \<longleftrightarrow> xs = []"
    using assms False of_nat_zero [of "length ys"] of_nat_zero [of "length xs"] by (auto simp: agg_def word_gt_0)
  have "la_buckets (mergeLat (agg xs) (agg ys)) = la_buckets (agg (xs @ ys))"
    using c(1) by (simp add: mergeLat_def Let_def) (simp add: agg_def bucketCounts_append)
  moreover have "la_min (mergeLat (agg xs) (agg ys)) = la_min (agg (xs @ ys))"
  proof -
    have "la_min (agg (xs @ ys)) = (if xs = [] then la_min (agg ys) else min (la_min (agg xs)) (la_min (agg ys)))"
      using False by (simp add: agg_def Min_Un)
    then show ?thesis using c by (simp add: mergeLat_def Let_def min_def)
  qed
  moreover have "la_max (mergeLat (agg xs) (agg ys)) = la_max (agg (xs @ ys))"
  proof -
    have "insert 0 (set (xs @ ys)) = insert 0 (set xs) \<union> insert 0 (set ys)" by auto
    then have "la_max (agg (xs @ ys)) = max (la_max (agg xs)) (la_max (agg ys))"
      by (simp only: agg_def latencyAgg.simps) (subst Max_Un; simp)
    then show ?thesis using c(1) by (simp add: mergeLat_def Let_def max_def)
  qed
  moreover have "la_sum (mergeLat (agg xs) (agg ys)) = la_sum (agg (xs @ ys))"
    using c(1) int64_add [of "sum_list xs"] int64_add [of "sum_list ys" "sum_list xs"]
    by (simp add: mergeLat_def Let_def) (simp add: agg_def add.commute int64_add)
  moreover have "la_count (mergeLat (agg xs) (agg ys)) = la_count (agg (xs @ ys))"
    using c(1) by (simp add: mergeLat_def Let_def) (simp add: agg_def)
  ultimately show ?thesis by (cases "mergeLat (agg xs) (agg ys)"; cases "agg (xs @ ys)") simp
qed

text \<open>What a series with the observations \<open>os\<close> holds: every counter is determined by the observations alone.\<close>

definition codeOf :: "Observation \<Rightarrow> string" where
  "codeOf ob = (if ob_ErrorCode ob \<noteq> [] then ob_ErrorCode ob else ''unknown'')"

definition failedWith :: "string \<Rightarrow> Observation \<Rightarrow> bool" where
  "failedWith code ob \<longleftrightarrow> \<not> ob_Success ob \<and> codeOf ob = code"

definition tally :: "('a \<Rightarrow> bool) \<Rightarrow> 'a list \<Rightarrow> u64" where
  "tally P xs = of_nat (length (filter P xs))"

definition summarises :: "policySeries \<Rightarrow> Observation list \<Rightarrow> bool" where
  "summarises ps obs \<longleftrightarrow> ps_lat ps = agg (map ob_Latency obs) \<and> ps_total ps = of_nat (length obs) \<and>
     ps_successes ps = tally ob_Success obs \<and> ps_failures ps = tally (\<lambda>ob. \<not> ob_Success ob) obs \<and>
     (\<forall>code. ps_errorsByCode ps code = (if \<exists>ob \<in> set obs. failedWith code ob then Some (tally (failedWith code) obs) else None)) \<and>
     ps_maxMemory ps = Max (insert 0 (ob_MemoryBytes ` set obs)) \<and>
     ps_totalInstructions ps = sum_list (map ob_InstructionCount obs)"

lemma tally_simps [simp]: "tally P [] = 0" "tally P (xs @ ys) = tally P xs + tally P ys"
  "tally P [x] = (if P x then 1 else 0)"
  by (simp_all add: tally_def)

lemma tally_none: "\<not> (\<exists>x \<in> set xs. P x) \<Longrightarrow> tally P xs = 0"
  by (simp add: tally_def filter_empty_conv)

lemma Max_insert_0: "Max (insert 0 (f ` set (xs @ ys))) = max (Max (insert 0 (f ` set xs))) (Max (insert 0 (f ` set ys)) :: u64)"
proof -
  have "insert 0 (f ` set (xs @ ys)) = insert 0 (f ` set xs) \<union> insert 0 (f ` set ys)" by auto
  then show ?thesis by (simp only:) (subst Max_Un; simp)
qed

lemma summarises_new: "summarises (newSeries policyID tier) []"
  by (simp add: summarises_def newSeries_def agg_Nil)

lemma summarises_label: "summarises ps obs \<Longrightarrow> summarises (ps\<lparr>ps_policyID := p, ps_tier := t\<rparr>) obs"
  by (simp add: summarises_def)

lemma updateSeries_fields:
  "ps_policyID (updateSeries ts ob ps) = ps_policyID ps" "ps_tier (updateSeries ts ob ps) = ob_Tier ob"
  "ps_lat (updateSeries ts ob ps) = lat_record (ob_Latency ob) (ps_lat ps)"
  "ps_total (updateSeries ts ob ps) = ps_total ps + 1"
  "ps_successes (updateSeries ts ob ps) = ps_successes ps + (if ob_Success ob then 1 else 0)"
  "ps_failures (updateSeries ts ob ps) = ps_failures ps + (if ob_Success ob then 0 else 1)"
  "ps_errorsByCode (updateSeries ts ob ps) = (if ob_Success ob then ps_errorsByCode ps else bump (codeOf ob) 1 (ps_errorsByCode ps))"
  "ps_maxMemory (updateSeries ts ob ps) = max (ps_maxMemory ps) (ob_MemoryBytes ob)"
  "ps_totalInstructions (updateSeries ts ob ps) = ps_totalInstructions ps + ob_InstructionCount ob"
  "ps_lastUpdated (updateSeries ts ob ps) = Some ts"
  by (auto simp: updateSeries_def Let_def codeOf_def max_def)

lemma summarises_update:
  assumes "summarises ps obs" and "length obs < 2 ^ 64"
  shows "summarises (updateSeries ts ob ps) (obs @ [ob])"
proof -
  have "ps_errorsByCode (updateSeries ts ob ps) code =
      (if \<exists>ob \<in> set (obs @ [ob]). failedWith code ob then Some (tally (failedWith code) (obs @ [ob])) else None)" for code
    using assms(1) tally_none [of obs "failedWith code"]
    by (auto simp: updateSeries_fields summarises_def bump_def failedWith_def)
  then show ?thesis
    using assms lat_record_agg [of "map ob_Latency obs" "ob_Latency ob"] Max_insert_0 [of ob_MemoryBytes obs "[ob]"]
    unfolding summarises_def by (simp add: updateSeries_fields)
qed

lemma fold_bump:
  "distinct codes \<Longrightarrow> fold (\<lambda>code m. bump code (the (src code)) m) codes dst code =
    (if code \<in> set codes then Some ((case dst code of None \<Rightarrow> 0 | Some k \<Rightarrow> k) + the (src code)) else dst code)"
  by (induction codes arbitrary: dst) (auto simp: bump_def)

lemma mergeCodes_at:
  assumes "visits visit" and "finite (dom src)"
  shows "mergeCodes visit src dst code = (case src code of None \<Rightarrow> dst code
    | Some n \<Rightarrow> Some ((case dst code of None \<Rightarrow> 0 | Some k \<Rightarrow> k) + n))"
  using assms fold_bump [of "visit (dom src)" src dst code] unfolding mergeCodes_def visits_def
  by (auto split: option.splits)

lemma summarises_finite:
  assumes "summarises ps obs" shows "finite (dom (ps_errorsByCode ps))"
proof (rule finite_subset)
  have "ps_errorsByCode ps code = (if \<exists>ob \<in> set obs. failedWith code ob then Some (tally (failedWith code) obs) else None)" for code
    using assms by (simp add: summarises_def)
  then show "dom (ps_errorsByCode ps) \<subseteq> codeOf ` set obs" by (force simp: failedWith_def split: if_splits)
qed simp

lemma mergeSeries_fields:
  "ps_lat (mergeSeries visit dst src) = mergeLat (ps_lat dst) (ps_lat src)"
  "ps_total (mergeSeries visit dst src) = ps_total dst + ps_total src"
  "ps_successes (mergeSeries visit dst src) = ps_successes dst + ps_successes src"
  "ps_failures (mergeSeries visit dst src) = ps_failures dst + ps_failures src"
  "ps_errorsByCode (mergeSeries visit dst src) = mergeCodes visit (ps_errorsByCode src) (ps_errorsByCode dst)"
  "ps_maxMemory (mergeSeries visit dst src) = max (ps_maxMemory dst) (ps_maxMemory src)"
  "ps_totalInstructions (mergeSeries visit dst src) = ps_totalInstructions dst + ps_totalInstructions src"
  by (auto simp: mergeSeries_def max_def)

lemma summarises_merge:
  assumes "visits visit" and "summarises dst xs" and "summarises src ys" and "length (xs @ ys) < 2 ^ 64"
  shows "summarises (mergeSeries visit dst src) (xs @ ys)"
proof -
  have "ps_errorsByCode (mergeSeries visit dst src) code =
      (if \<exists>ob \<in> set (xs @ ys). failedWith code ob then Some (tally (failedWith code) (xs @ ys)) else None)" for code
    using mergeCodes_at [OF assms(1) summarises_finite [OF assms(3)], of "ps_errorsByCode dst" code] assms(2,3)
      tally_none [of xs "failedWith code"] tally_none [of ys "failedWith code"]
    by (auto simp: mergeSeries_fields summarises_def)
  then show ?thesis
    using assms mergeLat_agg [of "map ob_Latency xs" "map ob_Latency ys"] Max_insert_0 [of ob_MemoryBytes xs ys]
    unfolding summarises_def by (simp add: mergeSeries_fields)
qed

lemma tally_mset: "mset xs = mset ys \<Longrightarrow> tally P xs = tally P ys"
  unfolding tally_def by (metis mset_filter size_mset)

lemma summarises_mset:
  assumes "mset xs = mset ys" and "summarises ps xs"
  shows "summarises ps ys"
proof -
  have "agg (map ob_Latency xs) = agg (map ob_Latency ys)" by (rule agg_cong) (simp add: assms(1))
  moreover have "sum_list (map ob_InstructionCount xs) = sum_list (map ob_InstructionCount ys)"
    by (metis assms(1) mset_map sum_mset_sum_list)
  ultimately show ?thesis
    using assms(2) mset_eq_length [OF assms(1)] mset_eq_setD [OF assms(1)] tally_mset [OF assms(1)]
    unfolding summarises_def by simp
qed

section \<open>Logs\<close>

definition collect :: "(instant \<times> Observation) list \<Rightarrow> Collector" where
  "collect evs = fold (\<lambda>(now, ob). Record now ob) evs Map.empty"

definition of_policy :: "string \<Rightarrow> (instant \<times> Observation) list \<Rightarrow> Observation list" where
  "of_policy policyID evs = filter (\<lambda>ob. ob_PolicyID ob = policyID) (map snd evs)"

text \<open>A collector reflects a evs when every policy has its own series, and nothing else.\<close>

definition reflects :: "Collector \<Rightarrow> (instant \<times> Observation) list \<Rightarrow> bool" where
  "reflects c evs \<longleftrightarrow> (\<forall>p. if p = [] \<or> of_policy p evs = [] then c p = None
     else \<exists>ps. c p = Some ps \<and> ps_policyID ps = p \<and> summarises ps (of_policy p evs) \<and>
       ps_tier ps = ob_Tier (last (of_policy p evs)))"

lemma of_policy_snoc: "of_policy p (evs @ [(now, ob)]) = of_policy p evs @ (if ob_PolicyID ob = p then [ob] else [])"
  by (simp add: of_policy_def)

lemma reflects_Record:
  assumes "reflects c evs" and "length evs < 2 ^ 64"
  shows "reflects (Record now ob c) (evs @ [(now, ob)])"
proof (cases "ob_PolicyID ob = []")
  case True
  then show ?thesis using assms(1) by (simp add: reflects_def Record_def of_policy_snoc)
next
  case False
  let ?p = "ob_PolicyID ob" and ?ts = "case ob_Timestamp ob of None \<Rightarrow> now | Some t \<Rightarrow> t"
  let ?ps = "case c ?p of None \<Rightarrow> newSeries ?p (ob_Tier ob) | Some ps \<Rightarrow> ps"
  have rec: "Record now ob c = c(?p \<mapsto> updateSeries ?ts ob ?ps)" using False by (simp add: Record_def Let_def)
  have "length (of_policy ?p evs) < 2 ^ 64"
    using assms(2) le_less_trans [OF length_filter_le] by (fastforce simp: of_policy_def)
  moreover have "summarises ?ps (of_policy ?p evs) \<and> ps_policyID ?ps = ?p"
    using assms(1) False summarises_new by (auto simp: reflects_def newSeries_def dest!: spec [of _ ?p] split: if_splits)
  ultimately have "summarises (updateSeries ?ts ob ?ps) (of_policy ?p evs @ [ob])" "ps_policyID (updateSeries ?ts ob ?ps) = ?p"
    "ps_tier (updateSeries ?ts ob ?ps) = ob_Tier ob"
    using summarises_update by (simp_all add: updateSeries_fields)
  then show ?thesis using assms(1) False unfolding reflects_def rec by (simp add: of_policy_snoc)
qed

lemma reflects_collect: "length evs \<le> 2 ^ 64 \<Longrightarrow> reflects (collect evs) evs"
proof (induction evs rule: rev_induct)
  case (snoc e evs)
  obtain now ob where "e = (now, ob)" by (cases e)
  then show ?case using snoc reflects_Record [of "collect evs" evs now ob] by (simp add: collect_def)
qed (simp add: reflects_def collect_def of_policy_def)


text \<open>The collector is a function of the observations: after any log of up to \<open>2^64\<close> observations every policy
  with an observation has its own series, no other series exists, and its counters, minimum, maximum, sum,
  histogram, errors by code, peak memory and instructions are those of its observations
  alone, in whatever order the policies were interleaved.\<close>

theorem collector_correct:
  assumes "length evs \<le> 2 ^ 64"
  shows "if p = [] \<or> of_policy p evs = [] then collect evs p = None
    else \<exists>ps. collect evs p = Some ps \<and> ps_policyID ps = p \<and> summarises ps (of_policy p evs) \<and>
      ps_tier ps = ob_Tier (last (of_policy p evs))"
  using reflects_collect [OF assms] by (simp add: reflects_def)

definition failed_cel :: Observation where
  "failed_cel = \<lparr>ob_PolicyID = ''p'', ob_Tier = ''cel'', ob_Latency = 7000000, ob_Success = False, ob_ErrorCode = [],
     ob_MemoryBytes = 9, ob_InstructionCount = 0, ob_Timestamp = None\<rparr>"

theorem collector_correct_witness:
  "\<exists>ps. collect [(0, failed_cel)] ''p'' = Some ps \<and> ps_failures ps = 1 \<and> ps_errorsByCode ps ''unknown'' = Some 1"
  using collector_correct [of "[(0, failed_cel)]" "''p''"]
  by (auto simp: of_policy_def failed_cel_def summarises_def failedWith_def codeOf_def)

section \<open>The overall rollup\<close>

lemma allSeries_sort: "allSeries visit c = sort_key ps_policyID (map (\<lambda>k. the (c k)) (visit (dom c)))"
  unfolding allSeries_def by (rule sortSlice_sort_key) simp

lemma filter_partition:
  "distinct ks \<Longrightarrow> mset (concat (map (\<lambda>k. filter (\<lambda>x. f x = k) xs) ks)) = mset (filter (\<lambda>x. f x \<in> set ks) xs)"
proof (induction ks)
  case (Cons k ks)
  have "mset (filter (\<lambda>x. f x = k) xs) + mset (filter (\<lambda>x. f x \<in> set ks) xs) = mset (filter (\<lambda>x. f x = k \<or> f x \<in> set ks) xs)"
    using Cons.prems by (induction xs) auto
  then show ?case using Cons by simp
qed simp

lemma summarises_fold:
  assumes "visits visit" and "list_all2 summarises series obss" and "summarises acc xs" and "length (xs @ concat obss) < 2 ^ 64"
  shows "summarises (fold (\<lambda>ps overall. mergeSeries visit overall ps) series acc) (xs @ concat obss)"
  using assms(2,3,4)
proof (induction arbitrary: acc xs rule: list_all2_induct)
  case (Cons ps series obs obss)
  have "summarises (mergeSeries visit acc ps) (xs @ obs)"
    using summarises_merge [OF assms(1) Cons.prems(1) Cons.hyps(1)] Cons.prems(2) by simp
  then show ?case using Cons.IH [of "mergeSeries visit acc ps" "xs @ obs"] Cons.prems(2) by simp
qed simp

lemma dom_reflects:
  assumes "reflects c evs"
  shows "dom c = {p \<in> ob_PolicyID ` snd ` set evs. p \<noteq> []}"
proof (rule set_eqI)
  fix p
  have "p \<in> dom c \<longleftrightarrow> p \<noteq> [] \<and> of_policy p evs \<noteq> []"
    using assms by (auto simp: reflects_def dest!: spec [of _ p] split: if_splits)
  moreover have "of_policy p evs \<noteq> [] \<longleftrightarrow> p \<in> ob_PolicyID ` snd ` set evs"
    by (auto simp: of_policy_def filter_empty_conv)
  ultimately show "p \<in> dom c \<longleftrightarrow> p \<in> {p \<in> ob_PolicyID ` snd ` set evs. p \<noteq> []}" by (simp add: conj_commute)
qed

lemma series_summarise:
  assumes "reflects c evs" and "p \<in> dom c"
  shows "summarises (the (c p)) (of_policy p evs) \<and> ps_policyID (the (c p)) = p"
  using assms by (auto simp: reflects_def dest!: spec [of _ p] split: if_splits)

lemma allSeries_facts:
  assumes "visits visit" and "reflects c evs"
  shows "distinct (map ps_policyID (allSeries visit c))" "set (map ps_policyID (allSeries visit c)) = dom c"
    "list_all2 summarises (allSeries visit c) (map (\<lambda>ps. of_policy (ps_policyID ps) evs) (allSeries visit c))"
proof -
  have dom: "set (visit (dom c)) = dom c" "distinct (visit (dom c))"
    using assms(1) dom_reflects [OF assms(2)] by (simp_all add: visits_def)
  have "map (\<lambda>k. ps_policyID (the (c k))) (visit (dom c)) = visit (dom c)"
    using series_summarise [OF assms(2)] dom(1) by (intro map_idI) simp
  moreover have "mset (map ps_policyID (allSeries visit c)) = mset (map (\<lambda>k. ps_policyID (the (c k))) (visit (dom c)))"
    by (simp add: allSeries_sort multiset.map_comp o_def)
  ultimately have ids: "mset (map ps_policyID (allSeries visit c)) = mset (visit (dom c))" by simp
  show "distinct (map ps_policyID (allSeries visit c))" "set (map ps_policyID (allSeries visit c)) = dom c"
    using ids dom by (metis mset_eq_imp_distinct_iff, metis mset_eq_setD)
  have "summarises ps (of_policy (ps_policyID ps) evs)" if "ps \<in> set (allSeries visit c)" for ps
  proof -
    from that dom(1) obtain k where "k \<in> dom c" "ps = the (c k)" by (auto simp: allSeries_sort)
    then show ?thesis using series_summarise [OF assms(2), of k] by simp
  qed
  then show "list_all2 summarises (allSeries visit c) (map (\<lambda>ps. of_policy (ps_policyID ps) evs) (allSeries visit c))"
    by (simp add: list.rel_map list_all2_same)
qed

text \<open>C18: The overall row of the dashboard is the rollup of all observations: merging the series of all policies gives
  the counters that a single series fed with every observation would have, whatever the order in
  which Go iterates over the maps.\<close>

theorem overall_is_union:
  assumes "visits visit" and "length evs < 2 ^ 64"
  shows "summarises (overallSeries visit (allSeries visit (collect evs))) (filter (\<lambda>ob. ob_PolicyID ob \<noteq> []) (map snd evs))"
proof -
  let ?c = "collect evs" and ?series = "allSeries visit (collect evs)" and ?valid = "filter (\<lambda>ob. ob_PolicyID ob \<noteq> []) (map snd evs)"
  let ?obss = "map (\<lambda>ps. of_policy (ps_policyID ps) evs) ?series"
  have r: "reflects ?c evs" using reflects_collect assms(2) by simp
  note facts = allSeries_facts [OF assms(1) r]
  have "mset (concat ?obss) = mset (filter (\<lambda>ob. ob_PolicyID ob \<in> dom ?c) (map snd evs))"
    using filter_partition [OF facts(1), of ob_PolicyID "map snd evs"] facts(2) by (simp add: of_policy_def o_def)
  moreover have "filter (\<lambda>ob. ob_PolicyID ob \<in> dom ?c) (map snd evs) = ?valid"
    using dom_reflects [OF r] by (intro filter_cong) auto
  ultimately have perm: "mset (concat ?obss) = mset ?valid" by simp
  have "length ?valid \<le> length evs"
    using length_filter_le [of "\<lambda>ob. ob_PolicyID ob \<noteq> []" "map snd evs"] by (simp only: length_map)
  then have "length ?valid < 2 ^ 64" using assms(2) by (rule le_less_trans)
  then have len: "length ([] @ concat ?obss) < 2 ^ 64" unfolding append_Nil mset_eq_length [OF perm] .
  have "summarises (fold (\<lambda>ps overall. mergeSeries visit overall ps) ?series (newSeries [] [])) ([] @ concat ?obss)"
    by (rule summarises_fold [OF assms(1) facts(3) summarises_new len])
  then have "summarises (fold (\<lambda>ps overall. mergeSeries visit overall ps) ?series (newSeries [] [])) ?valid"
    unfolding append_Nil by (rule summarises_mset [OF perm])
  then show ?thesis unfolding overallSeries_def by (rule summarises_label)
qed

theorem overall_is_union_witness:
  "ps_failures (overallSeries (\<lambda>S. SOME xs. distinct xs \<and> set xs = S) (allSeries (\<lambda>S. SOME xs. distinct xs \<and> set xs = S)
     (collect [(0, failed_cel), (1, failed_cel\<lparr>ob_PolicyID := ''q''\<rparr>)]))) = 2"
  using overall_is_union [OF visits_some, of "[(0, failed_cel), (1, failed_cel\<lparr>ob_PolicyID := ''q''\<rparr>)]"]
  by (simp add: summarises_def failed_cel_def tally_def)


section \<open>Percentiles\<close>

definition lowerBound :: "nat \<Rightarrow> rat" where
  "lowerBound i = (if i = 0 then 0 else latencyBucketsSeconds ! (i - 1))"

lemma length_bounds [simp]: "length latencyBucketsSeconds = 11"
  by (simp add: latencyBucketsSeconds_def)

lemma numLatencyBuckets_eq: "numLatencyBuckets = 12"
  by (simp add: numLatencyBuckets_def)

lemma less_11: "i < (11 :: nat) \<longleftrightarrow> i \<in> {0, 1, 2, 3, 4, 5, 6, 7, 8, 9, 10}"
  unfolding insert_iff empty_iff by presburger

lemma bounds_ascend: "i < 11 \<Longrightarrow> 0 \<le> lowerBound i \<and> lowerBound i \<le> latencyBucketsSeconds ! i"
  unfolding less_11 by (auto simp: lowerBound_def latencyBucketsSeconds_def)

lemma lowerBound_nanos: "i < 11 \<Longrightarrow> \<exists>z. lowerBound i * 1000000000 = of_int z"
proof -
  have "\<exists>z. (of_nat n / 1000 :: rat) * 1000000000 = of_int z" for n by (intro exI [of _ "int n * 1000000"]) simp
  moreover assume "i < 11"
  ultimately show ?thesis by (auto simp: lowerBound_def latencyBucketsSeconds_def nth_Cons' intro: exI [of _ 0])
qed

lemma bucketFrom_lower: "i + length bs \<le> numLatencyBuckets - 1 \<Longrightarrow> i \<le> bucketFrom i bs s"
  by (induction i bs s rule: bucketFrom.induct) auto

lemma bucketFrom_mono: "i + length bs \<le> numLatencyBuckets - 1 \<Longrightarrow> s \<le> s' \<Longrightarrow> bucketFrom i bs s \<le> bucketFrom i bs s'"
proof (induction i bs s rule: bucketFrom.induct)
  case (2 i b bs s)
  then show ?case using bucketFrom_lower [of "Suc i" bs s'] by auto
qed simp

lemma latencyBucketIndex_mono: "d \<le> d' \<Longrightarrow> latencyBucketIndex d \<le> latencyBucketIndex d'"
  unfolding latencyBucketIndex_def
  by (rule bucketFrom_mono) (simp_all add: numLatencyBuckets_def Seconds_def divide_right_mono)

text \<open>The number of samples in the buckets before bucket \<open>i\<close>.\<close>

definition before :: "duration list \<Rightarrow> nat \<Rightarrow> nat" where
  "before ds i = length (filter (\<lambda>d. latencyBucketIndex d < i) ds)"

lemma before_Suc: "before ds (Suc i) = before ds i + length (filter (\<lambda>d. latencyBucketIndex d = i) ds)"
  unfolding before_def by (induction ds) auto

lemma before_le: "before ds i \<le> length ds" "i \<le> j \<Longrightarrow> before ds i \<le> before ds j"
  unfolding before_def by (simp, induction ds) auto

lemma rank_in_bucket:
  assumes "k < length ds"
  shows "before ds (latencyBucketIndex (sort ds ! k)) \<le> k" "k < before ds (Suc (latencyBucketIndex (sort ds ! k)))"
proof -
  let ?s = "sort ds" and ?i = "latencyBucketIndex (sort ds ! k)"
  have before: "before ds i = card {j. j < length ds \<and> latencyBucketIndex (?s ! j) < i}" for i
  proof -
    have "length (filter (\<lambda>d. latencyBucketIndex d < i) ?s) = before ds i"
      unfolding before_def by (rule mset_eq_length) (simp only: mset_filter mset_sort)
    then show ?thesis by (simp add: length_filter_conv_card)
  qed
  have mono: "latencyBucketIndex (?s ! j) \<le> latencyBucketIndex (?s ! j')" if "j \<le> j'" "j' < length ds" for j j'
    using that by (intro latencyBucketIndex_mono sorted_nth_mono) simp_all
  have "{j. j < length ds \<and> latencyBucketIndex (?s ! j) < ?i} \<subseteq> {..<k}"
    using mono [of k] by (auto simp: not_le [symmetric] intro: ccontr)
  then show "before ds ?i \<le> k" using card_mono [of "{..<k}"] by (simp add: before)
  have "{..k} \<subseteq> {j. j < length ds \<and> latencyBucketIndex (?s ! j) < Suc ?i}" using mono assms by (auto simp: less_Suc_eq_le)
  then show "k < before ds (Suc ?i)" using card_mono [of "{j. j < length ds \<and> latencyBucketIndex (?s ! j) < Suc ?i}" "{..k}"] by (simp add: before)
qed

lemma percentileFrom_step:
  assumes "j < 11" and "length ds < 2 ^ 64"
  shows "percentileFrom target (drop j latencyBucketsSeconds) (drop j (bucketCounts ds)) (of_nat (before ds j)) (lowerBound j) mx =
    (if target \<le> of_nat (before ds (Suc j)) then
       (let n = before ds (Suc j) - before ds j in
        if n = 0 then secondsToDuration (latencyBucketsSeconds ! j)
        else secondsToDuration (lowerBound j + min 1 (max 0 ((target - of_nat (before ds j)) / of_nat n)) * (latencyBucketsSeconds ! j - lowerBound j)))
     else percentileFrom target (drop (Suc j) latencyBucketsSeconds) (drop (Suc j) (bucketCounts ds)) (of_nat (before ds (Suc j)))
       (lowerBound (Suc j)) mx)"
proof -
  have bound: "drop j latencyBucketsSeconds = latencyBucketsSeconds ! j # drop (Suc j) latencyBucketsSeconds"
    using assms(1) by (simp add: Cons_nth_drop_Suc)
  let ?n = "before ds (Suc j) - before ds j"
  have count: "drop j (bucketCounts ds) = of_nat ?n # drop (Suc j) (bucketCounts ds)"
    using assms(1) Cons_nth_drop_Suc [of j "bucketCounts ds"] nth_bucketCounts [of j ds] by (simp add: numLatencyBuckets_eq before_Suc)
  have small: "before ds i < 2 ^ 64" for i using before_le(1) [of ds i] assms(2) by (rule le_less_trans)
  have un: "unat (of_nat m :: u64) = m" if "m < 2 ^ 64" for m using that by (simp add: unat_of_nat take_bit_nat_eq_self)
  have n: "?n < 2 ^ 64" "before ds j + ?n = before ds (Suc j)" using small [of "Suc j"] by (simp_all add: before_Suc)
  have zero: "(of_nat ?n :: u64) = 0 \<longleftrightarrow> ?n = 0" by (rule of_nat_zero [OF n(1)])
  have cum: "(of_nat (before ds j) :: u64) + of_nat ?n = of_nat (before ds (Suc j))" using n(2) by (simp flip: of_nat_add)
  have frac: "(if f < 0 then 0 else if f > 1 then 1 else f) = min 1 (max 0 f)" for f :: rat by simp
  show ?thesis
    unfolding bound count percentileFrom.simps Let_def cum zero un [OF small] un [OF n(1)] frac
    by (simp add: lowerBound_def)
qed


lemma percentileFrom_skip:
  assumes "i \<le> 11" and "length ds < 2 ^ 64" and "of_nat (before ds i) < target" and "j \<le> i"
  shows "percentileFrom target (drop j latencyBucketsSeconds) (drop j (bucketCounts ds)) (of_nat (before ds j)) (lowerBound j) mx =
    percentileFrom target (drop i latencyBucketsSeconds) (drop i (bucketCounts ds)) (of_nat (before ds i)) (lowerBound i) mx"
  using assms(4)
proof (induction j rule: inc_induct)
  case (step j)
  have "of_nat (before ds (Suc j)) \<le> (of_nat (before ds i) :: rat)" using before_le(2) [of "Suc j" i ds] step by simp
  then have "\<not> target \<le> of_nat (before ds (Suc j))" using assms(3) by linarith
  moreover have "j < 11" using step assms(1) by simp
  ultimately show ?case using percentileFrom_step [OF _ assms(2), of j target mx] step.IH by (simp only: if_False)
qed simp

lemma secondsToDuration_between:
  assumes "0 \<le> lo" "lo \<le> s" "s \<le> hi" and "lo * 1000000000 = of_int z"
  shows "lo \<le> Seconds (secondsToDuration s)" "Seconds (secondsToDuration s) \<le> hi"
proof -
  have "z \<le> \<lfloor>s * 1000000000\<rfloor>" using assms(2,4) by (simp add: le_floor_iff flip: assms(4))
  then have "lo * 1000000000 \<le> of_int \<lfloor>s * 1000000000\<rfloor>" using assms(4) by simp
  then show "lo \<le> Seconds (secondsToDuration s)" using assms(1,2) by (auto simp: Seconds_def secondsToDuration_def)
  have "(of_int \<lfloor>s * 1000000000\<rfloor> :: rat) \<le> s * 1000000000" by simp
  also have "\<dots> \<le> hi * 1000000000" using assms(3) by simp
  finally show "Seconds (secondsToDuration s) \<le> hi" using assms by (auto simp: Seconds_def secondsToDuration_def)
qed

lemma interpolate:
  assumes "0 \<le> f" "f \<le> 1" "lo \<le> (hi :: rat)"
  shows "lo \<le> lo + f * (hi - lo)" "lo + f * (hi - lo) \<le> hi"
  using mult_right_mono [of f 1 "hi - lo"] mult_nonneg_nonneg [of f "hi - lo"] assms by simp_all

lemma percentileFrom_found:
  assumes "i < 11" and "length ds < 2 ^ 64" and "of_nat (before ds i) < target" "target \<le> of_nat (before ds (Suc i))"
  shows "lowerBound i \<le> Seconds (percentileFrom target latencyBucketsSeconds (bucketCounts ds) 0 0 mx) \<and>
    Seconds (percentileFrom target latencyBucketsSeconds (bucketCounts ds) 0 0 mx) \<le> latencyBucketsSeconds ! i"
proof -
  let ?lo = "lowerBound i" and ?hi = "latencyBucketsSeconds ! i"
  let ?f = "min 1 (max 0 ((target - of_nat (before ds i)) / of_nat (before ds (Suc i) - before ds i)))"
  have "(of_nat (before ds i) :: rat) < of_nat (before ds (Suc i))" using assms(3,4) by linarith
  then have "before ds (Suc i) - before ds i \<noteq> 0" by simp
  moreover have "percentileFrom target latencyBucketsSeconds (bucketCounts ds) 0 0 mx =
      percentileFrom target (drop i latencyBucketsSeconds) (drop i (bucketCounts ds)) (of_nat (before ds i)) ?lo mx"
    using percentileFrom_skip [OF _ assms(2,3), of 0 mx] assms(1) by (simp add: before_def lowerBound_def)
  ultimately have eq: "percentileFrom target latencyBucketsSeconds (bucketCounts ds) 0 0 mx = secondsToDuration (?lo + ?f * (?hi - ?lo))"
    using percentileFrom_step [OF assms(1,2), of target mx] assms(4) by (simp only: if_True if_False Let_def)
  have lohi: "0 \<le> ?lo" "?lo \<le> ?hi" using bounds_ascend [OF assms(1)] by auto
  have "?lo \<le> ?lo + ?f * (?hi - ?lo)" "?lo + ?f * (?hi - ?lo) \<le> ?hi" by (rule interpolate; use lohi in simp)+
  moreover obtain z where "?lo * 1000000000 = of_int z" using lowerBound_nanos [OF assms(1)] by blast
  ultimately show ?thesis unfolding eq using secondsToDuration_between lohi(1) by blast
qed

lemma fold_lat_record: "length ds \<le> 2 ^ 64 \<Longrightarrow> fold lat_record ds newLatencyAgg = agg ds"
proof (induction ds rule: rev_induct)
  case (snoc d ds)
  then show ?case using lat_record_agg [of ds d] by simp
qed (simp add: agg_Nil)

text \<open>A percentile estimate is in the right histogram bucket. For a quantile strictly between 0 and 1 the estimate
  lies between the bounds of the bucket that holds the sample of that rank, and it is the recorded
  maximum when that sample is above the last bound.\<close>

theorem percentile_in_bucket:
  assumes "ds \<noteq> []" and "length ds < 2 ^ 64" and "0 < q" "q < 1"
    and "d = sort ds ! (nat \<lceil>q * of_nat (length ds)\<rceil> - 1)" and "p = percentile q (fold lat_record ds newLatencyAgg)"
  shows "if latencyBucketIndex d = numLatencyBuckets - 1 then p = la_max (fold lat_record ds newLatencyAgg)
    else lowerBound (latencyBucketIndex d) \<le> Seconds p \<and> Seconds p \<le> latencyBucketsSeconds ! latencyBucketIndex d"
proof -
  let ?n = "length ds" and ?target = "q * of_nat (length ds)" and ?i = "latencyBucketIndex d"
  let ?k = "nat \<lceil>?target\<rceil> - 1"
  have pos: "0 < ?target" "?target \<le> of_nat ?n" using assms(1,3,4) by (simp_all add: mult_le_cancel_right1)
  then have ceil: "0 < \<lceil>?target\<rceil>" "\<lceil>?target\<rceil> \<le> int ?n" by (simp_all add: ceiling_le_iff)
  then have k: "?k < ?n" by linarith
  have rank: "of_nat ?k < ?target" "?target \<le> of_nat (Suc ?k)"
    using ceil ceiling_correct [of ?target] by (simp_all add: of_nat_diff)
  have "before ds ?i \<le> ?k" "Suc ?k \<le> before ds (Suc ?i)" using rank_in_bucket [OF k] assms(5) by (simp_all add: Suc_le_eq)
  then have b: "of_nat (before ds ?i) < ?target" "?target \<le> of_nat (before ds (Suc ?i))"
    using rank by (meson le_less_trans of_nat_le_iff, meson order_trans of_nat_le_iff)
  have n0: "(of_nat ?n :: u64) \<noteq> 0" "unat (of_nat ?n :: u64) = ?n"
    using assms(1,2) of_nat_zero [OF assms(2)] by (simp_all add: unat_of_nat take_bit_nat_eq_self)
  have u: "(unsigned (of_nat ?n :: u64) :: rat) = of_nat ?n" using arg_cong [OF n0(2), of "of_nat :: nat \<Rightarrow> rat"] by simp
  have p: "p = percentileFrom ?target latencyBucketsSeconds (bucketCounts ds) 0 0 (la_max (agg ds))"
    using assms(2,3,4,6) n0 fold_lat_record [of ds] by (simp add: percentile_def) (simp add: agg_def u)
  show ?thesis
  proof (cases "?i < 11")
    case True
    then show ?thesis using percentileFrom_found [OF True assms(2) b] p by (simp add: numLatencyBuckets_eq)
  next
    case False
    then have i: "?i = 11" using latencyBucketIndex_bound [of d] by (simp add: numLatencyBuckets_eq)
    then show ?thesis
      using percentileFrom_skip [of 11 ds ?target 0 "la_max (agg ds)"] b(1) assms(2) p fold_lat_record [of ds]
      by (simp add: numLatencyBuckets_eq before_def lowerBound_def)
  qed
qed

theorem percentile_in_bucket_witness:
  "1 / 200 \<le> Seconds (percentile (1 / 2) (fold lat_record [7000000] newLatencyAgg)) \<and>
   Seconds (percentile (1 / 2) (fold lat_record [7000000] newLatencyAgg)) \<le> 1 / 100"
proof -
  have "\<lceil>1 / 2 :: rat\<rceil> = 1" by (rule ceiling_unique) simp_all
  then have d: "7000000 = sort [7000000] ! (nat \<lceil>1 / 2 * of_nat (length [7000000 :: duration]) :: rat\<rceil> - 1)" by simp
  have i: "latencyBucketIndex 7000000 = 1" by (simp add: latencyBucketIndex_def latencyBucketsSeconds_def Seconds_def)
  show ?thesis
    using percentile_in_bucket [of "[7000000]" "1 / 2", OF _ _ _ _ d refl]
    by (simp only: i) (simp add: numLatencyBuckets_eq lowerBound_def latencyBucketsSeconds_def)
qed

end
