(* ===== verification/Alerting.thy ===== *)
theory Alerting
  imports Observability "HOL-Library.Product_Lexorder"
begin

text \<open>
  Degradation alerts (\<open>src/internal/observability/alerting.go\<close>): the rules, their evaluation over the
  collector, the order of the fired alerts and the PromQL export of a rule. The verbs \<open>%.4g\<close> and \<open>%g\<close> and
  the printing of a duration are parameters; the YAML encoder is third-party code, and the export stops at
  the rule group.
\<close>

section \<open>Rules\<close>

type_synonym Severity = string
type_synonym MetricKind = string
type_synonym Comparison = string

record AlertRule =
  ar_ID :: string
  ar_Name :: string
  ar_Metric :: MetricKind
  ar_Comparison :: Comparison
  ar_Threshold :: rat
  ar_For :: duration
  ar_Severity :: Severity
  ar_Message :: string
  ar_MinSamples :: u64

record Alert =
  al_RuleID :: string
  al_Name :: string
  al_Severity :: Severity
  al_PolicyID :: string
  al_Tier :: string
  al_Metric :: MetricKind
  al_Observed :: rat
  al_Threshold :: rat
  al_Unit :: string
  al_Message :: string
  al_FiredAt :: instant

definition emDash :: string where
  "emDash = [CHR 0xE2, CHR 0x80, CHR 0x94]"

definition DefaultRules :: "AlertRule list" where
  "DefaultRules =
     [\<lparr>ar_ID = ''PolicyLatencyP95High'', ar_Name = ''Policy p95 latency is high'', ar_Metric = ''latency_p95_ms'',
        ar_Comparison = ''>'', ar_Threshold = 500, ar_For = 5 * 60 * second, ar_Severity = ''warning'',
        ar_Message = ''p95 verification latency for {{policy_id}} exceeded 500ms '' @ emDash @ '' investigate a performance regression.'', ar_MinSamples = 20\<rparr>,
      \<lparr>ar_ID = ''PolicyLatencyP95Critical'', ar_Name = ''Policy p95 latency is critical'', ar_Metric = ''latency_p95_ms'',
        ar_Comparison = ''>'', ar_Threshold = 1000, ar_For = 2 * 60 * second, ar_Severity = ''critical'',
        ar_Message = ''p95 verification latency for {{policy_id}} exceeded 1s '' @ emDash @ '' the policy is failing its latency SLO.'', ar_MinSamples = 10\<rparr>,
      \<lparr>ar_ID = ''PolicyErrorRateHigh'', ar_Name = ''Policy error rate is elevated'', ar_Metric = ''error_rate'',
        ar_Comparison = ''>'', ar_Threshold = 5 / 100, ar_For = 5 * 60 * second, ar_Severity = ''warning'',
        ar_Message = ''More than 5% of verifications for {{policy_id}} are failing '' @ emDash @ '' check for malformed inputs or solver errors.'', ar_MinSamples = 50\<rparr>,
      \<lparr>ar_ID = ''PolicyErrorRateCritical'', ar_Name = ''Policy error rate is critical'', ar_Metric = ''error_rate'',
        ar_Comparison = ''>'', ar_Threshold = 10 / 100, ar_For = 2 * 60 * second, ar_Severity = ''critical'',
        ar_Message = ''More than 10% of verifications for {{policy_id}} are failing '' @ emDash @ '' the policy is likely broken.'', ar_MinSamples = 50\<rparr>,
      \<lparr>ar_ID = ''PolicyPeakMemoryCritical'', ar_Name = ''Policy peak memory is critical'', ar_Metric = ''peak_memory_bytes'',
        ar_Comparison = ''>'', ar_Threshold = 512 * 1024 * 1024, ar_For = 5 * 60 * second, ar_Severity = ''critical'',
        ar_Message = ''A verification for {{policy_id}} consumed over 512MiB '' @ emDash @ '' possible runaway sandbox allocation.'', ar_MinSamples = 1\<rparr>]"

section \<open>Evaluation\<close>

definition metricValue :: "PolicySummary \<Rightarrow> MetricKind \<Rightarrow> rat option" where
  "metricValue s m =
     (if m = ''latency_p95_ms'' then Some (ls_P95Ms (su_Latency s))
      else if m = ''latency_p99_ms'' then Some (ls_P99Ms (su_Latency s))
      else if m = ''error_rate'' then Some (su_ErrorRate s)
      else if m = ''peak_memory_bytes'' then Some (of_nat (unat (su_PeakMemoryBytes s)))
      else None)"

definition metricUnit :: "MetricKind \<Rightarrow> string" where
  "metricUnit m =
     (if m = ''latency_p95_ms'' \<or> m = ''latency_p99_ms'' then ''ms''
      else if m = ''error_rate'' then ''ratio''
      else if m = ''peak_memory_bytes'' then ''bytes''
      else [])"

definition compare :: "Comparison \<Rightarrow> rat \<Rightarrow> rat \<Rightarrow> bool" where
  "compare op observed threshold = (if op = ''<'' then observed < threshold else observed > threshold)"

text \<open>\<open>None\<close> is a loop that does not end: with an empty \<open>old\<close> the index stays where it is.\<close>

function replaceAll :: "string \<Rightarrow> string \<Rightarrow> string \<Rightarrow> string option" where
  "replaceAll s old new = (if s = [] then Some [] else if old = [] then None
     else if length old \<le> length s \<and> take (length old) s = old
       then map_option (\<lambda>b. new @ b) (replaceAll (drop (length old) s) old new)
     else map_option (\<lambda>b. hd s # b) (replaceAll (tl s) old new))"
  by pat_completeness auto
termination replaceAll
  by (relation "measure (\<lambda>(s, old, new). length s)") auto

definition renderMessage :: "(rat \<Rightarrow> string) \<Rightarrow> string \<Rightarrow> string \<Rightarrow> rat \<Rightarrow> string" where
  "renderMessage fmt4g msg policyID observed =
     (let out = the (replaceAll msg ''{{policy_id}}'' policyID)
      in the (replaceAll out ''{{observed}}'' (fmt4g observed)))"

definition evalRule :: "(rat \<Rightarrow> string) \<Rightarrow> instant \<Rightarrow> PolicySummary \<Rightarrow> AlertRule \<Rightarrow> Alert option" where
  "evalRule fmt4g now summary rule =
     (if ar_MinSamples rule > 0 \<and> ls_Count (su_Latency summary) < ar_MinSamples rule then None
      else case metricValue summary (ar_Metric rule) of None \<Rightarrow> None
      | Some observed \<Rightarrow>
          if \<not> compare (ar_Comparison rule) observed (ar_Threshold rule) then None
          else Some \<lparr>al_RuleID = ar_ID rule, al_Name = ar_Name rule, al_Severity = ar_Severity rule,
            al_PolicyID = su_PolicyID summary, al_Tier = su_Tier summary, al_Metric = ar_Metric rule, al_Observed = observed,
            al_Threshold = ar_Threshold rule, al_Unit = metricUnit (ar_Metric rule),
            al_Message = renderMessage fmt4g (ar_Message rule) (su_PolicyID summary) observed, al_FiredAt = now\<rparr>)"

definition alertOrder :: "Severity \<rightharpoonup> nat" where
  "alertOrder = [''critical'' \<mapsto> 0, ''warning'' \<mapsto> 1, ''info'' \<mapsto> 2]"

definition alertLess :: "Alert \<Rightarrow> Alert \<Rightarrow> bool" where
  "alertLess x y =
     (let ox = (case alertOrder (al_Severity x) of Some n \<Rightarrow> n | None \<Rightarrow> 3);
          oy = (case alertOrder (al_Severity y) of Some n \<Rightarrow> n | None \<Rightarrow> 3)
      in if ox \<noteq> oy then ox < oy
         else if al_PolicyID x \<noteq> al_PolicyID y then al_PolicyID x < al_PolicyID y
         else al_RuleID x < al_RuleID y)"

text \<open>The inner loop swaps the element \<open>x\<close> down over the greater ones before it (in reverse order here).\<close>

fun sinkAlert :: "Alert list \<Rightarrow> Alert \<Rightarrow> Alert list \<Rightarrow> Alert list" where
  "sinkAlert [] x after = x # after"
| "sinkAlert (p # prev) x after = (if alertLess x p then sinkAlert prev x (p # after) else rev (p # prev) @ x # after)"

fun sortAlertsFrom :: "Alert list \<Rightarrow> Alert list \<Rightarrow> Alert list" where
  "sortAlertsFrom sorted_part [] = sorted_part"
| "sortAlertsFrom sorted_part (x # xs) = sortAlertsFrom (sinkAlert (rev sorted_part) x []) xs"

definition sortAlerts :: "Alert list \<Rightarrow> Alert list" where
  "sortAlerts a = sortAlertsFrom [] a"

definition Evaluate :: "(string set \<Rightarrow> string list) \<Rightarrow> (rat \<Rightarrow> string) \<Rightarrow> instant \<Rightarrow> AlertRule list \<Rightarrow> Collector \<Rightarrow> Alert list" where
  "Evaluate visit fmt4g now rules c =
     sortAlerts (concat (map (\<lambda>ps. List.map_filter (evalRule fmt4g now (summarize ps)) rules) (allSeries visit c)))"

section \<open>PromQL export\<close>

definition promQLFor :: "(rat \<Rightarrow> string) \<Rightarrow> AlertRule \<Rightarrow> string" where
  "promQLFor fmtg r =
     (if ar_Metric r = ''latency_p95_ms'' then
        ''histogram_quantile(0.95, sum by (policy_id, le) (rate(symkernel_policy_verification_duration_seconds_bucket[5m]))) > ''
          @ fmtg (ar_Threshold r / 1000)
      else if ar_Metric r = ''latency_p99_ms'' then
        ''histogram_quantile(0.99, sum by (policy_id, le) (rate(symkernel_policy_verification_duration_seconds_bucket[5m]))) > ''
          @ fmtg (ar_Threshold r / 1000)
      else if ar_Metric r = ''error_rate'' then
        ''sum by (policy_id) (rate(symkernel_policy_verification_total{result='' @ [CHR 0x22] @ ''failure'' @ [CHR 0x22] @
        ''}[5m])) / clamp_min(sum by (policy_id) (rate(symkernel_policy_verification_total[5m])), 1) > '' @ fmtg (ar_Threshold r)
      else if ar_Metric r = ''peak_memory_bytes'' then
        ''max by (policy_id) (symkernel_policy_verification_memory_bytes_max) > '' @ fmtg (ar_Threshold r)
      else [])"

definition promFor :: "(duration \<Rightarrow> string) \<Rightarrow> duration \<Rightarrow> string" where
  "promFor durString d = (if d \<le> 0 then ''0s'' else durString d)"

record promRule =
  pr_Alert :: string
  pr_Expr :: string
  pr_For :: string
  pr_Labels :: "string \<rightharpoonup> string"
  pr_Annotations :: "string \<rightharpoonup> string"

definition promRules :: "(rat \<Rightarrow> string) \<Rightarrow> (rat \<Rightarrow> string) \<Rightarrow> (duration \<Rightarrow> string) \<Rightarrow> AlertRule list \<Rightarrow> promRule list" where
  "promRules fmtg fmt4g durString rules = List.map_filter (\<lambda>r. let expr = promQLFor fmtg r in
     if expr = [] then None
     else Some \<lparr>pr_Alert = ar_ID r, pr_Expr = expr, pr_For = promFor durString (ar_For r), pr_Labels = [''severity'' \<mapsto> ar_Severity r],
       pr_Annotations = [''summary'' \<mapsto> ar_Name r,
         ''message'' \<mapsto> renderMessage fmt4g (ar_Message r) ''{{policy_id}}'' (ar_Threshold r),
         ''metric'' \<mapsto> ar_Metric r, ''threshold'' \<mapsto> fmtg (ar_Threshold r)]\<rparr>) rules"

section \<open>The order of alerts\<close>

definition alertKey :: "Alert \<Rightarrow> nat \<times> string \<times> string" where
  "alertKey a = ((case alertOrder (al_Severity a) of Some n \<Rightarrow> n | None \<Rightarrow> 3), al_PolicyID a, al_RuleID a)"

lemma alertLess_key: "alertLess x y \<longleftrightarrow> alertKey x < alertKey y"
  by (auto simp: alertLess_def alertKey_def Let_def less_prod_def')

lemma mset_sinkAlert: "mset (sinkAlert prev x after) = add_mset x (mset prev + mset after)"
  by (induction prev x after rule: sinkAlert.induct) auto

lemma sorted_sinkAlert:
  "sorted (map alertKey (rev prev @ after)) \<Longrightarrow> \<forall>a \<in> set after. alertKey x < alertKey a \<Longrightarrow>
    sorted (map alertKey (sinkAlert prev x after))"
proof (induction prev x after rule: sinkAlert.induct)
  case (1 x after)
  then show ?case by (auto simp: less_imp_le)
next
  case (2 p prev x after)
  then show ?case by (auto simp: alertLess_key sorted_append not_less intro: order_trans less_imp_le)
qed

lemma sortAlertsFrom_correct:
  "sorted (map alertKey done) \<Longrightarrow> sorted (map alertKey (sortAlertsFrom done xs)) \<and> mset (sortAlertsFrom done xs) = mset done + mset xs"
proof (induction "done" xs rule: sortAlertsFrom.induct)
  case (2 sorted_part x xs)
  then show ?case using sorted_sinkAlert [of "rev sorted_part" "[]" x] by (simp add: mset_sinkAlert)
qed simp

lemma sortAlerts_correct: "sorted (map alertKey (sortAlerts a))" "mset (sortAlerts a) = mset a"
  using sortAlertsFrom_correct [of "[]" a] by (simp_all add: sortAlerts_def)

section \<open>Which alerts fire\<close>

lemma replaceAll_returns: "old \<noteq> [] \<Longrightarrow> \<exists>t. replaceAll s old new = Some t"
proof (induction s old new rule: replaceAll.induct)
  case (1 s old new)
  then show ?case by (subst replaceAll.simps) auto
qed

text \<open>Replacing leaves no occurrence behind that the replacement does not bring: a text without the first character
  of the pattern stays as it is.\<close>

lemma replaceAll_none: "hd old \<notin> set s \<Longrightarrow> old \<noteq> [] \<Longrightarrow> replaceAll s old new = Some s"
proof (induction s)
  case (Cons c s)
  then have "take (length old) (c # s) \<noteq> old" by (cases old) auto
  then show ?case using Cons by (subst replaceAll.simps) simp
qed simp

lemma set_map_filter: "set (List.map_filter f xs) = {y. \<exists>x \<in> set xs. f x = Some y}"
  by (induction xs) (auto simp: map_filter_simps split: option.splits)

lemma set_Evaluate:
  "set (Evaluate visit fmt4g now rules c) = {a. \<exists>ps \<in> set (allSeries visit c). \<exists>r \<in> set rules. evalRule fmt4g now (summarize ps) r = Some a}"
proof -
  have "set (sortAlerts as) = set as" for as by (metis mset_eq_setD sortAlerts_correct(2))
  then show ?thesis by (simp add: Evaluate_def set_map_filter) blast
qed

lemma evalRule_Some:
  "(\<exists>a. evalRule fmt4g now s r = Some a \<and> al_RuleID a = rid \<and> al_PolicyID a = p) \<longleftrightarrow>
   ar_ID r = rid \<and> su_PolicyID s = p \<and> (ar_MinSamples r = 0 \<or> ar_MinSamples r \<le> ls_Count (su_Latency s)) \<and>
   (\<exists>v. metricValue s (ar_Metric r) = Some v \<and> compare (ar_Comparison r) v (ar_Threshold r))"
  by (auto simp: evalRule_def word_gt_0 not_less split: option.splits)

definition fires :: "string \<Rightarrow> policySeries \<Rightarrow> bool" where
  "fires p ps \<longleftrightarrow> ps_policyID ps = p \<and> 50 \<le> la_count (ps_lat ps) \<and> errorRate (ps_total ps) (ps_failures ps) > 10 / 100"

lemma critical_rule_fires:
  "(\<exists>rl \<in> set DefaultRules. \<exists>a. evalRule fmt4g now (summarize ps) rl = Some a \<and> al_RuleID a = ''PolicyErrorRateCritical'' \<and> al_PolicyID a = p)
      \<longleftrightarrow> fires p ps"
  unfolding evalRule_Some fires_def
  by (auto simp: DefaultRules_def metricValue_def compare_def summarize_def)

lemma unat_small: "m < 2 ^ 64 \<Longrightarrow> unat (of_nat m :: u64) = m"
  by (simp add: unat_of_nat take_bit_nat_eq_self)

lemma errorRate_exceeds:
  assumes "n < 2 ^ 64" "m \<le> n"
  shows "errorRate (of_nat n) (of_nat m) > 10 / 100 \<longleftrightarrow> n < 10 * m"
proof -
  have m: "unat (of_nat m :: u64) = m" and n: "unat (of_nat n :: u64) = n"
    using unat_small [OF assms(1)] unat_small [of m] assms by auto
  have "(unsigned (of_nat m :: u64) :: rat) = of_nat m" "(unsigned (of_nat n :: u64) :: rat) = of_nat n"
    using arg_cong [OF m, of "of_nat :: nat \<Rightarrow> rat"] arg_cong [OF n, of "of_nat :: nat \<Rightarrow> rat"] by simp_all
  moreover have "(of_nat n :: rat) < 10 * of_nat m \<longleftrightarrow> n < 10 * m"
    using of_nat_less_iff [of n "10 * m", where ?'a = rat] by simp
  ultimately show ?thesis
    using of_nat_zero [OF assms(1)] assms(2) by (auto simp: errorRate_def field_simps)
qed

lemma series_fires:
  assumes "summarises ps obs" and "length obs < 2 ^ 64"
  shows "fires p ps \<longleftrightarrow> ps_policyID ps = p \<and> 50 \<le> length obs \<and> length obs < 10 * length (filter (\<lambda>ob. \<not> ob_Success ob) obs)"
proof -
  have "la_count (ps_lat ps) = of_nat (length obs)" using assms(1) by (simp add: summarises_def agg_def)
  moreover have "(50 :: u64) \<le> of_nat (length obs) \<longleftrightarrow> 50 \<le> length obs"
    using unat_small [OF assms(2)] by (simp add: word_le_nat_alt)
  moreover have "ps_total ps = of_nat (length obs)" "ps_failures ps = of_nat (length (filter (\<lambda>ob. \<not> ob_Success ob) obs))"
    using assms(1) by (simp_all add: summarises_def tally_def)
  ultimately show ?thesis
    unfolding fires_def using errorRate_exceeds [OF assms(2) length_filter_le] by simp
qed

text \<open>The error-rate alert is exact, from the observations to the API. With the default rules and any log of
  observations, the critical error-rate alert is among the alerts for a policy if and only if the
  policy has at least 50 observations and more than a tenth of them failed. The alerts come sorted by severity,
  policy and rule.\<close>

theorem error_rate_alert_exact:
  assumes "visits visit" and "length evs < 2 ^ 64" and "alerts = Evaluate visit fmt4g now DefaultRules (collect evs)"
    and "obs = of_policy p evs"
  shows "sorted (map alertKey alerts) \<and>
    ((\<exists>a \<in> set alerts. al_RuleID a = ''PolicyErrorRateCritical'' \<and> al_PolicyID a = p) \<longleftrightarrow>
      p \<noteq> [] \<and> 50 \<le> length obs \<and> length obs < 10 * length (filter (\<lambda>ob. \<not> ob_Success ob) obs))"
proof
  show "sorted (map alertKey alerts)" using sortAlerts_correct(1) by (simp add: assms(3) Evaluate_def)
  let ?c = "collect evs"
  have r: "reflects ?c evs" using reflects_collect assms(2) by simp
  note facts = allSeries_facts [OF assms(1) r]
  have "length obs \<le> length evs"
    using length_filter_le [of "\<lambda>ob. ob_PolicyID ob = p" "map snd evs"] by (simp add: assms(4) of_policy_def del: length_filter_le)
  then have len: "length obs < 2 ^ 64" using assms(2) by (rule le_less_trans)
  have sum: "summarises ps obs" if "ps \<in> set (allSeries visit ?c)" "ps_policyID ps = p" for ps
    using facts(3) that by (auto simp: list.rel_map list_all2_same assms(4))
  have ex: "(\<exists>ps \<in> set (allSeries visit ?c). ps_policyID ps = p) \<longleftrightarrow> p \<noteq> [] \<and> obs \<noteq> []"
  proof -
    have "(\<exists>ps \<in> set (allSeries visit ?c). ps_policyID ps = p) \<longleftrightarrow> p \<in> dom ?c"
      unfolding facts(2) [symmetric] by auto
    also have "\<dots> \<longleftrightarrow> p \<noteq> [] \<and> obs \<noteq> []"
      using r assms(4) by (auto simp: reflects_def dest!: spec [of _ p] split: if_splits)
    finally show ?thesis .
  qed
  have "(\<exists>a \<in> set alerts. al_RuleID a = ''PolicyErrorRateCritical'' \<and> al_PolicyID a = p) \<longleftrightarrow> (\<exists>ps \<in> set (allSeries visit ?c). fires p ps)"
    unfolding assms(3) set_Evaluate using critical_rule_fires [of fmt4g now _ p] by blast
  also have "\<dots> \<longleftrightarrow> (\<exists>ps \<in> set (allSeries visit ?c). ps_policyID ps = p) \<and> 50 \<le> length obs \<and>
      length obs < 10 * length (filter (\<lambda>ob. \<not> ob_Success ob) obs)"
    using series_fires [OF sum len] by (metis fires_def)
  finally show "(\<exists>a \<in> set alerts. al_RuleID a = ''PolicyErrorRateCritical'' \<and> al_PolicyID a = p) \<longleftrightarrow>
      p \<noteq> [] \<and> 50 \<le> length obs \<and> length obs < 10 * length (filter (\<lambda>ob. \<not> ob_Success ob) obs)"
    using ex by auto
qed

theorem error_rate_alert_exact_witness:
  "\<exists>a. a \<in> set (Evaluate (\<lambda>S. SOME xs. distinct xs \<and> set xs = S) (\<lambda>q. []) 0 DefaultRules (collect (replicate 50 (0, failed_cel)))) \<and>
     al_RuleID a = ''PolicyErrorRateCritical'' \<and> al_PolicyID a = ''p''"
proof -
  have "of_policy ''p'' (replicate 50 (0, failed_cel)) = replicate 50 failed_cel"
    by (simp add: of_policy_def failed_cel_def filter_replicate)
  then show ?thesis
    using error_rate_alert_exact [OF visits_some _ refl refl, of "replicate 50 (0, failed_cel)" "\<lambda>q. []" 0 "''p''"]
    by (auto simp: filter_replicate failed_cel_def)
qed

text \<open>The exported expression compares with \<open>>\<close> whatever the comparison of the rule is.\<close>

lemma promQLFor_ignores_comparison: "promQLFor fmtg (r\<lparr>ar_Comparison := op\<rparr>) = promQLFor fmtg r"
  by (simp add: promQLFor_def)

end
