(* ===== verification/ObsService.thy ===== *)
theory ObsService
  imports Alerting
begin

text \<open>
  The Prometheus text of the collector (\<open>PrometheusText\<close> of \<open>src/internal/observability/metrics.go\<close>) and the
  HTTP service over the collector and the alert rules (\<open>dashboard.go\<close>). The verbs \<open>%g\<close> and \<open>%q\<close> are the
  parameters \<open>fmt_g\<close> and \<open>fmt_q\<close>.
\<close>

section \<open>Prometheus text\<close>

definition snapshotSeries :: "Collector \<Rightarrow> string \<Rightarrow> policySeries option" where
  "snapshotSeries c policyID = c policyID"

definition sortedKeys :: "(string set \<Rightarrow> string list) \<Rightarrow> (string \<rightharpoonup> 'v) \<Rightarrow> string list" where
  "sortedKeys visit m = sort (visit (dom m))"

definition text_line :: "string \<Rightarrow> string" where
  "text_line s = s @ [CHR 10]"

definition prom_header :: string where
  "prom_header = concat (map text_line
     [''# HELP symkernel_policy_verification_duration_seconds Verification latency distribution.'',
      ''# TYPE symkernel_policy_verification_duration_seconds histogram'',
      ''# HELP symkernel_policy_verification_total Total verifications by policy and outcome.'',
      ''# TYPE symkernel_policy_verification_total counter'',
      ''# HELP symkernel_policy_verification_errors_total Verification errors by policy and code.'',
      ''# TYPE symkernel_policy_verification_errors_total counter'',
      ''# HELP symkernel_policy_verification_memory_bytes_max Peak memory consumed by a verification, in bytes.'',
      ''# TYPE symkernel_policy_verification_memory_bytes_max gauge'',
      ''# HELP symkernel_policy_verification_instructions_total Cumulative instructions executed across verifications.'',
      ''# TYPE symkernel_policy_verification_instructions_total counter''])"

text \<open>The loop over the bounds: each bucket with the cumulative count.\<close>

fun promBuckets :: "rat list \<Rightarrow> u64 list \<Rightarrow> u64 \<Rightarrow> (rat \<times> u64) list" where
  "promBuckets (bound # bounds) (n # ns) cum = (let cum = cum + n in (bound, cum) # promBuckets bounds ns cum)"
| "promBuckets _ _ cum = []"

definition u64_text :: "u64 \<Rightarrow> string" where
  "u64_text n = Itoa (uint n)"

definition sample_line :: "string \<Rightarrow> string \<Rightarrow> string \<Rightarrow> string" where
  "sample_line name labels val = text_line (''symkernel_policy_verification_'' @ name @ ''{'' @ labels @ ''} '' @ val)"

text \<open>\<open>Tier.String\<close>: an empty tier is printed as unknown.\<close>

definition Tier_String :: "string \<Rightarrow> string" where
  "Tier_String t = (if t = [] then ''unknown'' else t)"

definition seriesText :: "(rat \<Rightarrow> string) \<Rightarrow> (string \<Rightarrow> string) \<Rightarrow> (string set \<Rightarrow> string list) \<Rightarrow> policySeries \<Rightarrow> string" where
  "seriesText fmt_g fmt_q visit ps =
     (let labels = ''policy_id='' @ fmt_q (ps_policyID ps) @ '',tier='' @ fmt_q (Tier_String (ps_tier ps)) in
      concat (map (\<lambda>(bound, cum). sample_line ''duration_seconds_bucket'' (labels @ '',le=\"'' @ fmt_g bound @ ''\"'') (u64_text cum))
        (promBuckets latencyBucketsSeconds (la_buckets (ps_lat ps)) 0)) @
      sample_line ''duration_seconds_bucket'' (labels @ '',le=\"+Inf\"'') (u64_text (la_count (ps_lat ps))) @
      sample_line ''duration_seconds_sum'' labels (fmt_g (Seconds (la_sum (ps_lat ps)))) @
      sample_line ''duration_seconds_count'' labels (u64_text (la_count (ps_lat ps))) @
      sample_line ''total'' (labels @ '',result=\"success\"'') (u64_text (ps_successes ps)) @
      sample_line ''total'' (labels @ '',result=\"failure\"'') (u64_text (ps_failures ps)) @
      concat (map (\<lambda>code. sample_line ''errors_total'' (labels @ '',code='' @ fmt_q code) (u64_text (the (ps_errorsByCode ps code))))
        (sortedKeys visit (ps_errorsByCode ps))) @
      sample_line ''memory_bytes_max'' labels (u64_text (ps_maxMemory ps)) @
      sample_line ''instructions_total'' labels (u64_text (ps_totalInstructions ps)))"

definition collector_PrometheusText :: "(rat \<Rightarrow> string) \<Rightarrow> (string \<Rightarrow> string) \<Rightarrow> (string set \<Rightarrow> string list) \<Rightarrow> Collector \<Rightarrow> string" where
  "collector_PrometheusText fmt_g fmt_q visit c = prom_header @ concat (map (seriesText fmt_g fmt_q visit) (allSeries visit c))"

section \<open>The service\<close>

record Service =
  sv_collector :: Collector
  sv_alerts :: "AlertRule list"

definition NewService :: "Collector option \<Rightarrow> Service" where
  "NewService c = \<lparr>sv_collector = (case c of None \<Rightarrow> Map.empty | Some c \<Rightarrow> c), sv_alerts = DefaultRules\<rparr>"

definition NewServiceWithAlerts :: "Collector option \<Rightarrow> AlertRule list option \<Rightarrow> Service" where
  "NewServiceWithAlerts c e = \<lparr>sv_collector = (case c of None \<Rightarrow> Map.empty | Some c \<Rightarrow> c),
     sv_alerts = (case e of None \<Rightarrow> DefaultRules | Some rules \<Rightarrow> rules)\<rparr>"

definition dashboardHandler :: "(string set \<Rightarrow> string list) \<Rightarrow> instant \<Rightarrow> Service \<Rightarrow> Dashboard" where
  "dashboardHandler visit now s = Render visit now (sv_collector s)"

definition metricsHandler :: "(rat \<Rightarrow> string) \<Rightarrow> (string \<Rightarrow> string) \<Rightarrow> (string set \<Rightarrow> string list) \<Rightarrow> Service \<Rightarrow> string" where
  "metricsHandler fmt_g fmt_q visit s = collector_PrometheusText fmt_g fmt_q visit (sv_collector s)"

definition alertsHandler :: "(string set \<Rightarrow> string list) \<Rightarrow> (rat \<Rightarrow> string) \<Rightarrow> instant \<Rightarrow> Service \<Rightarrow> Alert list" where
  "alertsHandler visit fmt now s = Evaluate visit fmt now (sv_alerts s) (sv_collector s)"

section \<open>The exported histogram\<close>

lemma bucketFrom_le_iff:
  "sorted bs \<Longrightarrow> j < length bs \<Longrightarrow> k + length bs \<le> numLatencyBuckets - 1 \<Longrightarrow> bucketFrom k bs s \<le> k + j \<longleftrightarrow> s \<le> bs ! j"
proof (induction bs arbitrary: k j)
  case (Cons b bs)
  show ?case
  proof (cases j)
    case 0
    then show ?thesis using bucketFrom_lower [of "Suc k" bs s] Cons.prems by auto
  next
    case (Suc i)
    then have "b \<le> bs ! i" using Cons.prems by simp
    moreover have "bucketFrom (Suc k) bs s \<le> Suc k + i \<longleftrightarrow> s \<le> bs ! i" using Cons.IH [of i "Suc k"] Cons.prems Suc by simp
    ultimately show ?thesis using Suc by auto
  qed
qed simp

lemma bounds_sorted: "sorted latencyBucketsSeconds"
  by (simp add: latencyBucketsSeconds_def)

lemma latencyBucketIndex_le_iff: "j < 11 \<Longrightarrow> latencyBucketIndex d < Suc j \<longleftrightarrow> Seconds d \<le> latencyBucketsSeconds ! j"
  using bucketFrom_le_iff [OF bounds_sorted, of j 0 "Seconds d"] by (simp add: latencyBucketIndex_def less_Suc_eq_le numLatencyBuckets_eq)

lemma promBuckets_nth:
  "j < length bs \<Longrightarrow> j < length ns \<Longrightarrow> promBuckets bs ns cum ! j = (bs ! j, cum + sum_list (take (Suc j) ns))"
proof (induction bs ns cum arbitrary: j rule: promBuckets.induct)
  case (1 b bs n ns cum)
  then show ?case by (cases j) (auto simp: Let_def add.assoc)
qed auto

lemma bucketCounts_prefix: "j \<le> numLatencyBuckets \<Longrightarrow> sum_list (take j (bucketCounts ds)) = of_nat (before ds j)"
proof (induction j)
  case (Suc j)
  then have "take (Suc j) (bucketCounts ds) = take j (bucketCounts ds) @ [bucketCounts ds ! j]" by (simp add: take_Suc_conv_app_nth)
  with Suc show ?case by (simp add: nth_bucketCounts before_Suc)
qed (simp add: before_def)

text \<open>C22: the exported histogram has the meaning that Prometheus gives to it. After any log of up to \<open>2^64\<close> observations
  the bucket of bound \<open>b\<close> in the text of a policy counts exactly the observations of this policy that took at most
  \<open>b\<close> seconds, and the total counts all of them.\<close>

theorem prometheus_histogram_exact:
  assumes "length evs \<le> 2 ^ 64" and "p \<noteq> []" "of_policy p evs \<noteq> []" and "j < length latencyBucketsSeconds"
  shows "\<exists>ps. snapshotSeries (collect evs) p = Some ps \<and>
    promBuckets latencyBucketsSeconds (la_buckets (ps_lat ps)) 0 ! j = (latencyBucketsSeconds ! j,
      of_nat (length (filter (\<lambda>ob. Seconds (ob_Latency ob) \<le> latencyBucketsSeconds ! j) (of_policy p evs)))) \<and>
    la_count (ps_lat ps) = of_nat (length (of_policy p evs))"
proof -
  let ?os = "of_policy p evs" and ?ds = "map ob_Latency (of_policy p evs)"
  obtain ps where ps: "collect evs p = Some ps" "summarises ps ?os"
    using reflects_collect [OF assms(1)] assms(2,3) unfolding reflects_def by meson
  then have lat: "ps_lat ps = agg ?ds" by (simp add: summarises_def)
  have j: "j < 11" using assms(4) by simp
  have "before ?ds (Suc j) = length (filter (\<lambda>ob. Seconds (ob_Latency ob) \<le> latencyBucketsSeconds ! j) ?os)"
    by (simp add: before_def filter_map comp_def latencyBucketIndex_le_iff [OF j])
  moreover have "promBuckets latencyBucketsSeconds (bucketCounts ?ds) 0 ! j = (latencyBucketsSeconds ! j, of_nat (before ?ds (Suc j)))"
    using promBuckets_nth [of j latencyBucketsSeconds "bucketCounts ?ds" 0] bucketCounts_prefix [of "Suc j" ?ds] j
    by (simp add: numLatencyBuckets_eq)
  ultimately show ?thesis using ps(1) lat by (auto simp: snapshotSeries_def agg_def)
qed

theorem prometheus_histogram_exact_witness:
  "\<exists>ps. snapshotSeries (collect [(0, failed_cel)]) (ob_PolicyID failed_cel) = Some ps \<and> la_count (ps_lat ps) = 1"
  using prometheus_histogram_exact [of "[(0, failed_cel)]" "ob_PolicyID failed_cel" 0] by (auto simp: of_policy_def failed_cel_def)

end
