(* ===== verification/Z3Bridge.thy ===== *)
theory Z3Bridge
  imports DecisionCache GoStrings "HOL-Library.AList"
begin

text \<open>
  The bridge to the Z3 process (\<open>src/internal/z3/z3.go\<close>): the SMT-LIB program built from constraints and
  symbol sorts, the parser of the process's output, and the cached query. Running the process, the
  state of the context before and after the run and the elapsed time are inputs of a call. A Go map
  is an association list with distinct keys, in an unspecified order.
\<close>

section \<open>Solutions\<close>

record Solution =
  sol_Sat :: string
  sol_Model :: "(string \<times> string) list option"
  sol_UnsatCore :: "string list"
  SolverMs :: int

datatype z3_error = EmptyOutput | UnexpectedResult string | RunError

definition no_solution :: "string \<Rightarrow> Solution" where
  "no_solution s = \<lparr>sol_Sat = s, sol_Model = None, sol_UnsatCore = [], SolverMs = 0\<rparr>"

definition decisionFromSolution :: "Solution \<Rightarrow> Decision" where
  "decisionFromSolution s = \<lparr>d_Sat = sol_Sat s, d_Model = sol_Model s, d_UnsatCore = sol_UnsatCore s\<rparr>"

text \<open>Durations are in nanoseconds.\<close>

definition elapsedMillis :: "duration \<Rightarrow> int" where
  "elapsedMillis elapsed =
     (if elapsed \<le> 0 then 0 else if elapsed div 1000000 > 0 then elapsed div 1000000 else 1)"

definition solutionFromDecision :: "Decision \<Rightarrow> duration \<Rightarrow> Solution" where
  "solutionFromDecision d elapsed = \<lparr>sol_Sat = d_Sat d, sol_Model = d_Model d, sol_UnsatCore = d_UnsatCore d,
     SolverMs = elapsedMillis elapsed\<rparr>"

section \<open>The SMT-LIB program\<close>

datatype goval = GString string | GBool bool | GInt int | GFloat | GOther

type_synonym symbols = "(string \<times> goval) list"

definition hasNamedAssertions :: "string \<Rightarrow> bool" where
  "hasNamedAssertions constraints = Contains constraints '':named''"

definition inferSort :: "goval \<Rightarrow> string" where
  "inferSort v = (case v of
     GString x \<Rightarrow>
       if HasPrefix x ''BitVec_'' then ''(_ BitVec '' @ TrimPrefix x ''BitVec_'' @ '')''
       else (let parts = SplitN2 CHR ''_'' (TrimPrefix x ''Array_'') in
         if HasPrefix x ''Array_'' \<and> length parts = 2 then ''(Array '' @ parts ! 0 @ '' '' @ parts ! 1 @ '')''
         else if x \<noteq> [] then x else ''Int'')
   | GBool _ \<Rightarrow> ''Bool''
   | GInt _ \<Rightarrow> ''Int''
   | GFloat \<Rightarrow> ''Real''
   | GOther \<Rightarrow> ''Int'')"

definition newline :: string where
  "newline = [CHR 10]"

definition declare_const :: "symbols \<Rightarrow> string \<Rightarrow> string" where
  "declare_const model name = ''(declare-const '' @ name @ '' '' @ inferSort (the (map_of model name)) @ '')'' @ newline"

definition buildSMT2 :: "string \<Rightarrow> symbols \<Rightarrow> string" where
  "buildSMT2 constraints model =
     (if hasNamedAssertions constraints then ''(set-option :produce-unsat-cores true)'' @ newline else []) @
     concat (map (declare_const model) (sort (map fst model))) @
     constraints @ newline @ ''(check-sat)'' @ newline @ ''(get-model)'' @ newline @
     (if hasNamedAssertions constraints then ''(get-unsat-core)'' @ newline else []) @
     ''(exit)'' @ newline"

section \<open>The output of the process\<close>

function stripParens :: "string \<Rightarrow> string" where
  "stripParens line = (if length line \<ge> 2 \<and> line ! 0 = CHR ''('' \<and> line ! (length line - 1) = CHR '')''
     then stripParens (take (length line - 2) (drop 1 line)) else line)"
  by pat_completeness auto
termination
  by (relation "measure length") auto

declare stripParens.simps [simp del]

text \<open>
  The loop of \<open>parseModel\<close>: the bindings so far and the name whose value is expected on the next line.
  \<open>None\<close> is the early return of nil.
\<close>

type_synonym model_state = "(string \<times> string) list \<times> string"

definition parseModelLine :: "string \<Rightarrow> model_state \<Rightarrow> model_state option" where
  "parseModelLine raw st = (let line = TrimSpace raw; (m, pending) = st in
     if line = [] \<or> line = ''(model'' \<or> line = '')'' \<or> line = ''('' \<or> line = ''unsat'' \<or> line = ''unknown'' then Some (m, pending)
     else if HasPrefix line ''(error'' then None
     else if HasPrefix line ''(define-fun '' then
       (let parts = Fields (TrimSuffix (TrimPrefix line ''(define-fun '') '')'') in
          if length parts \<ge> 4 \<and> parts ! 1 = ''()'' then Some (AList.update (parts ! 0) (Join (drop 3 parts) '' '') m, [])
          else if length parts = 3 \<and> parts ! 1 = ''()'' then Some (m, parts ! 0)
          else Some (m, []))
     else if pending \<noteq> [] then
       (let val = TrimSpace (trim_right (\<lambda>c. c = CHR '')'') line) in
          Some (if val \<noteq> [] then AList.update pending val m else m, []))
     else
       (let parts = Fields (stripParens line) in
          Some (if length parts \<ge> 2 then AList.update (parts ! 0) (parts ! 1) m else m, pending)))"

fun parseModelLoop :: "string list \<Rightarrow> model_state \<Rightarrow> model_state option" where
  "parseModelLoop [] st = Some st"
| "parseModelLoop (l # ls) st = (case parseModelLine l st of None \<Rightarrow> None | Some st' \<Rightarrow> parseModelLoop ls st')"

definition parseModel :: "string list \<Rightarrow> (string \<times> string) list option" where
  "parseModel ls = (case parseModelLoop ls ([], []) of None \<Rightarrow> None
     | Some (m, _) \<Rightarrow> if m = [] then None else Some m)"

fun parseUnsatCore :: "string list \<Rightarrow> string list" where
  "parseUnsatCore [] = []"
| "parseUnsatCore (raw # ls) = (let line = TrimSpace raw in
     if line = [] \<or> line = ''()'' \<or> line = ''sat'' \<or> line = ''unknown'' then parseUnsatCore ls
     else if HasPrefix line ''(error'' then parseUnsatCore ls
     else (let tokens = Fields (stripParens line) in if tokens \<noteq> [] then tokens else parseUnsatCore ls))"

definition parseOutput :: "string \<Rightarrow> z3_error + Solution" where
  "parseOutput output = (let ls = Split (CHR 10) (TrimSpace output) in
     if length ls = 0 \<or> (length ls = 1 \<and> ls ! 0 = []) then Inl EmptyOutput
     else if ls ! 0 = ''sat'' then Inr ((no_solution ''sat'')\<lparr>sol_Model := parseModel (drop 1 ls)\<rparr>)
     else if ls ! 0 = ''unsat'' then Inr ((no_solution ''unsat'')\<lparr>sol_UnsatCore := parseUnsatCore (drop 1 ls)\<rparr>)
     else if ls ! 0 = ''unknown'' then Inr (no_solution ''unknown'')
     else Inl (UnexpectedResult (ls ! 0)))"

section \<open>The cached query\<close>

text \<open>
  The inputs of one call: whether the context is done before the lookup and after the run, the process
  (whether it failed, and its standard output), and the elapsed times.
\<close>

record z3_call =
  ctx_before :: bool
  z3_run :: "string \<Rightarrow> bool \<times> string"
  ctx_after :: bool
  lookup_time :: duration
  run_time :: duration

definition SolveConstraintsCtx :: "(string \<Rightarrow> string) \<Rightarrow> z3_call \<Rightarrow> string \<Rightarrow> symbols \<Rightarrow> DCache \<Rightarrow>
    (z3_error + Solution) \<times> DCache" where
  "SolveConstraintsCtx hash call constraints model c = (let smt2 = buildSMT2 constraints model in
     if ctx_before call then (Inr (no_solution ''unknown''), c)
     else case dcache_Get hash smt2 c of
       (Some decision, c) \<Rightarrow> (Inr (solutionFromDecision decision (lookup_time call)), c)
     | (None, c) \<Rightarrow>
         (let (failed, stdout) = z3_run call smt2; solverMs = run_time call div 1000000 in
            if failed \<and> ctx_after call then (Inr ((no_solution ''unknown'')\<lparr>SolverMs := solverMs\<rparr>), c)
            else if failed \<and> length stdout = 0 then (Inl RunError, c)
            else case parseOutput stdout of
              Inl e \<Rightarrow> (Inl (if failed then RunError else e), c)
            | Inr sol \<Rightarrow> (let sol = sol\<lparr>SolverMs := solverMs\<rparr> in
                (Inr sol, if sol_Sat sol \<noteq> ''unknown'' then dcache_Set hash smt2 (decisionFromSolution sol) c else c))))"

section \<open>Cached answers are answers of the process\<close>

type_synonym query = "z3_call \<times> string \<times> symbols"

fun script :: "query \<Rightarrow> string" where
  "script (call, constraints, model) = buildSMT2 constraints model"

text \<open>The process, run by this query on its program, printed this decision.\<close>

fun answers :: "query \<Rightarrow> Decision \<Rightarrow> bool" where
  "answers (call, constraints, model) d \<longleftrightarrow> (case parseOutput (snd (z3_run call (buildSMT2 constraints model))) of
     Inl _ \<Rightarrow> False | Inr sol \<Rightarrow> decisionFromSolution sol = d)"

fun solve_query :: "(string \<Rightarrow> string) \<Rightarrow> query \<Rightarrow> DCache \<Rightarrow> (z3_error + Solution) \<times> DCache" where
  "solve_query hash (call, constraints, model) c = SolveConstraintsCtx hash call constraints model c"

definition stored_from :: "(string \<Rightarrow> string) \<Rightarrow> query set \<Rightarrow> string \<Rightarrow> Decision \<Rightarrow> bool" where
  "stored_from hash Q h d \<longleftrightarrow> (\<exists>q \<in> Q. hash (script q) = h \<and> answers q d)"

definition provenance :: "(string \<Rightarrow> string) \<Rightarrow> query set \<Rightarrow> DCache \<Rightarrow> bool" where
  "provenance hash Q c \<longleftrightarrow> dcache_inv c \<and> (\<forall>h d. map_of (absl c) h = Some d \<longrightarrow> stored_from hash Q h d)"

lemma decision_roundtrip [simp]: "decisionFromSolution (solutionFromDecision d t) = d"
  "decisionFromSolution (sol\<lparr>SolverMs := t\<rparr>) = decisionFromSolution sol"
  by (simp_all add: decisionFromSolution_def solutionFromDecision_def)

lemma SolveConstraintsCtx_cases:
  assumes "solve_query hash q c = (r, c')"
  obtains (undecided) "\<forall>sol. r = Inr sol \<longrightarrow> sol_Sat sol = ''unknown''" "c' = c \<or> c' = snd (GetByHash (hash (script q)) c)"
    | (hit) d t where "fst (GetByHash (hash (script q)) c) = Some d" "r = Inr (solutionFromDecision d t)"
        "c' = snd (GetByHash (hash (script q)) c)"
    | (fresh) sol where "answers q (decisionFromSolution sol)" "r = Inr sol"
        "c' = SetByHash (hash (script q)) (decisionFromSolution sol) (snd (GetByHash (hash (script q)) c))"
proof -
  obtain call cs m where q: "q = (call, cs, m)" by (cases q)
  let ?G = "GetByHash (hash (script q)) c" and ?out = "z3_run call (buildSMT2 cs m)"
  show thesis
  proof (cases "ctx_before call")
    case True
    then show thesis using assms by (intro undecided) (auto simp: q SolveConstraintsCtx_def no_solution_def)
  next
    case live: False
    show thesis
    proof (cases "fst ?G")
      case (Some d)
      then obtain c1 where c1: "?G = (Some d, c1)" by (metis prod.collapse)
      then have "r = Inr (solutionFromDecision d (lookup_time call)) \<and> c' = c1"
        using assms live by (simp add: q SolveConstraintsCtx_def dcache_Get_def)
      with c1 show thesis by (intro hit [of d "lookup_time call"]) auto
    next
      case None
      then obtain c1 where miss: "GetByHash (hash (buildSMT2 cs m)) c = (None, c1)"
        unfolding q by (metis prod.collapse script.simps)
      show thesis
      proof (cases "parseOutput (snd ?out)")
        case (Inl e)
        then show thesis using assms live miss
          by (intro undecided) (auto simp: q SolveConstraintsCtx_def dcache_Get_def Let_def no_solution_def split: prod.splits if_splits)
      next
        case (Inr sol)
        show thesis
        proof (cases "fst ?out \<and> (ctx_after call \<or> length (snd ?out) = 0) \<or> sol_Sat sol = ''unknown''")
          case True
          then show thesis using assms live miss Inr
            by (intro undecided) (auto simp: q SolveConstraintsCtx_def dcache_Get_def Let_def no_solution_def split: prod.splits if_splits)
        next
          case False
          then have "r = Inr (sol\<lparr>SolverMs := run_time call div 1000000\<rparr>)"
            "c' = SetByHash (hash (script q)) (decisionFromSolution (sol\<lparr>SolverMs := run_time call div 1000000\<rparr>)) c1"
            using assms live miss Inr
            by (auto simp: q SolveConstraintsCtx_def dcache_Get_def Let_def dcache_Set_def split: prod.splits if_splits)
          then show thesis using Inr miss
            by (intro fresh [of "sol\<lparr>SolverMs := run_time call div 1000000\<rparr>"]) (auto simp: q)
        qed
      qed
    qed
  qed
qed

lemma stored_from_mono: "stored_from hash Q h d \<Longrightarrow> stored_from hash (insert q Q) h d"
  by (auto simp: stored_from_def)

lemma provenance_solve:
  assumes "provenance hash Q c" "solve_query hash q c = (r, c')"
  shows "provenance hash (insert q Q) c' \<and>
    (\<forall>sol. r = Inr sol \<and> sol_Sat sol \<noteq> ''unknown'' \<longrightarrow> stored_from hash (insert q Q) (hash (script q)) (decisionFromSolution sol))"
proof -
  let ?h = "hash (script q)" and ?P = "stored_from hash (insert q Q)"
  have inv: "dcache_inv c" and P: "\<forall>h d. map_of (absl c) h = Some d \<longrightarrow> ?P h d"
    using assms(1) stored_from_mono by (auto simp: provenance_def)
  note inv' = solver_cache.get_good [OF inv, of ?h]
  note P' = solver_cache.get_provenance(2) [OF inv P, of ?h]
  from assms(2) show ?thesis
  proof (cases rule: SolveConstraintsCtx_cases)
    case undecided
    then show ?thesis using inv inv' P P' by (auto simp: provenance_def)
  next
    case (hit d t)
    have "?P ?h d" by (rule solver_cache.get_provenance(1) [OF inv P hit(1)])
    then show ?thesis using hit inv' P' by (auto simp: provenance_def)
  next
    case (fresh sol)
    then have "?P ?h (decisionFromSolution sol)" by (auto simp: stored_from_def)
    then show ?thesis
      using fresh(2,3) solver_cache.put_good [OF inv'] solver_cache.put_provenance [OF inv' P'] by (auto simp: provenance_def)
  qed
qed

text \<open>Where the hash does not collide, a stored decision belongs to the program itself.\<close>

lemma stored_from_same:
  assumes "stored_from hash Q (hash (script q)) d" and "inj_on hash (script ` Q)" and "q \<in> Q"
  shows "\<exists>q' \<in> Q. script q' = script q \<and> answers q' d"
  using assms by (auto simp: stored_from_def dest: inj_onD)

definition solve_all :: "(string \<Rightarrow> string) \<Rightarrow> query list \<Rightarrow> DCache \<Rightarrow> DCache" where
  "solve_all hash qs c = fold (\<lambda>q c. snd (solve_query hash q c)) qs c"

lemma provenance_run: "provenance hash Q c \<Longrightarrow> provenance hash (set qs \<union> Q) (solve_all hash qs c)"
proof (induction qs arbitrary: c Q)
  case (Cons q qs)
  have "provenance hash (insert q Q) (snd (solve_query hash q c))"
    using provenance_solve [OF Cons.prems prod.collapse [symmetric]] by blast
  from Cons.IH [OF this] show ?case by (simp add: solve_all_def)
qed (simp add: solve_all_def)

text \<open>whatever queries came before, a query that is answered sat or unsat gets an answer that the
  process printed for exactly the same SMT-LIB program, in this query or in an earlier one, as long as
  the hash does not collide on these programs.\<close>

theorem answer_from_same_program:
  assumes "inj_on hash (script ` set (qs @ [q]))"
    and "solve_query hash q (solve_all hash qs (NewDCache n)) = (Inr sol, c')"
    and "sol_Sat sol \<noteq> ''unknown''"
  shows "\<exists>q' \<in> set (qs @ [q]). script q' = script q \<and> answers q' (decisionFromSolution sol)"
proof -
  have "provenance hash {} (NewDCache n)"
    by (simp add: provenance_def dcache_inv_New) (simp add: absl_def NewDCache_def)
  from provenance_solve [OF provenance_run [OF this] assms(2)] assms(3)
  have "stored_from hash (insert q (set qs)) (hash (script q)) (decisionFromSolution sol)" by simp
  with stored_from_same [of hash "insert q (set qs)" q] assms(1) show ?thesis by simp
qed

definition demo_call :: "bool \<Rightarrow> z3_call" where
  "demo_call b = \<lparr>ctx_before = False, z3_run = (\<lambda>_. (True, if b then ''unsat'' @ newline @ ''(error)'' else ''sat'')),
     ctx_after = False, lookup_time = 10, run_time = 5000000\<rparr>"

theorem answer_from_same_program_witness:
  "\<exists>q' \<in> set [(demo_call True, ''(assert false)'', []), (demo_call False, ''(assert false)'', [])].
     answers q' \<lparr>d_Sat = ''unsat'', d_Model = None, d_UnsatCore = []\<rparr>"
proof -
  let ?q1 = "(demo_call True, ''(assert false)'', [])" and ?q2 = "(demo_call False, ''(assert false)'', [])"
  let ?sol = "\<lparr>sol_Sat = ''unsat'', sol_Model = None, sol_UnsatCore = [], SolverMs = 1\<rparr>"
  have "fst (solve_query id ?q2 (solve_all id [?q1] (NewDCache 10))) = Inr ?sol" by code_simp
  then have "solve_query id ?q2 (solve_all id [?q1] (NewDCache 10)) =
      (Inr ?sol, snd (solve_query id ?q2 (solve_all id [?q1] (NewDCache 10))))"
    by (metis prod.collapse)
  from answer_from_same_program [OF inj_on_id this] show ?thesis by (simp add: decisionFromSolution_def)
qed

section \<open>Models in the multi-line format\<close>

text \<open>A symbol or value of one word and without parentheses.\<close>

definition word :: "string \<Rightarrow> bool" where
  "word w \<longleftrightarrow> token w \<and> CHR ''('' \<notin> set w \<and> CHR '')'' \<notin> set w"

fun define_fun :: "string \<Rightarrow> string \<times> string \<Rightarrow> string list" where
  "define_fun srt (name, val) = [''  (define-fun '' @ name @ '' () '' @ srt, ''    '' @ val @ '')'']"

definition z3_model :: "string \<Rightarrow> (string \<times> string) list \<Rightarrow> string list" where
  "z3_model srt bs = [''(''] @ concat (map (define_fun srt) bs) @ ['')'']"

lemma TrimSpace_indent:
  assumes "w \<noteq> []" "\<not> is_space (hd w)" "\<not> is_space (last w)" "\<forall>c \<in> set s. is_space c"
  shows "TrimSpace (s @ w) = w"
proof -
  have "dropWhile is_space (s @ w) = dropWhile is_space w" using assms(4) by (simp add: dropWhile_append2)
  then have "TrimSpace (s @ w) = TrimSpace w" by (simp add: TrimSpace_def)
  with TrimSpace_id [OF assms(1-3)] show ?thesis by simp
qed

lemma is_space_paren [simp]: "\<not> is_space CHR ''(''" "\<not> is_space CHR '')''"
  by (simp_all add: is_space_def)

lemma last_word: "word w \<Longrightarrow> w \<noteq> [] \<and> \<not> is_space (last w) \<and> last w \<noteq> CHR '')'' \<and> hd w \<noteq> CHR ''('' \<and> \<not> is_space (hd w)"
  by (metis hd_in_set last_in_set token_def word_def)

lemma header_line:
  assumes "word name" "word srt"
  shows "parseModelLine (''  (define-fun '' @ name @ '' () '' @ srt) (m, pending) = Some (m, name)"
proof -
  let ?l = "''(define-fun '' @ name @ '' () '' @ srt"
  have tok: "token name" "token srt" using assms by (auto simp: word_def)
  have srt: "srt \<noteq> []" "\<not> is_space (last srt)" "last srt \<noteq> CHR '')''" using last_word [OF assms(2)] by auto
  have trim: "TrimSpace (''  '' @ ?l) = ?l"
    by (rule TrimSpace_indent) (use srt in auto)
  have "\<not> HasSuffix (name @ '' () '' @ srt) '')''"
    using srt by (cases srt rule: rev_cases) (auto simp: HasSuffix_def HasPrefix_def)
  then have "TrimSuffix (TrimPrefix ?l ''(define-fun '') '')'' = name @ '' () '' @ srt"
    by (simp add: TrimPrefix_def HasPrefix_def TrimSuffix_def)
  moreover have "Fields (name @ '' () '' @ srt) = [name, ''()'', srt]"
    using tok Fields_token_space [of name "CHR '' ''" "''() '' @ srt"] Fields_token_space [of "''()''" "CHR '' ''" srt]
    by (simp add: Fields_token token_def)
  moreover have "\<not> HasPrefix ?l ''(error''" "HasPrefix ?l ''(define-fun ''" by (simp_all add: HasPrefix_def)
  moreover have "name \<noteq> []" using tok(1) by (simp add: token_def)
  ultimately show ?thesis
    using trim unfolding parseModelLine_def by (simp add: Let_def)
qed

lemma value_line:
  assumes "word val" "pending \<noteq> []"
  shows "parseModelLine (''    '' @ val @ '')'') (m, pending) = Some (AList.update pending val m, [])"
proof -
  have v: "val \<noteq> []" "\<not> is_space (hd val)" "hd val \<noteq> CHR ''(''" "last val \<noteq> CHR '')''" using last_word [OF assms(1)] by auto
  have trim: "TrimSpace (''    '' @ val @ '')'') = val @ '')''"
    by (rule TrimSpace_indent) (use v in auto)
  have ends: "val @ '')'' \<noteq> ''unsat''" "val @ '')'' \<noteq> ''unknown''" "val @ '')'' \<noteq> ''('' " "val @ '')'' \<noteq> ''(model''" "val @ '')'' \<noteq> '')''"
    using v(1) by (auto simp: append_eq_Cons_conv)
  have "trim_right (\<lambda>c. c = CHR '')'') (val @ '')'') = val"
    using v(1,4) by (cases val rule: rev_cases) (auto simp: trim_right_def)
  then have val: "TrimSpace (trim_right (\<lambda>c. c = CHR '')'') (val @ '')'')) = val"
    using assms(1) by (simp add: TrimSpace_token word_def)
  have pre: "\<not> HasPrefix (val @ '')'') ''(error''" "\<not> HasPrefix (val @ '')'') ''(define-fun ''"
    using v(1,3) by (cases val; simp add: HasPrefix_def)+
  show ?thesis
    unfolding parseModelLine_def trim Let_def using ends pre val assms(2) v(1) by simp
qed

lemma paren_line: "parseModelLine ''('' st = Some st" "parseModelLine '')'' st = Some st"
  by (cases st, simp add: parseModelLine_def TrimSpace_id)+

lemma parseModelLoop_define_fun:
  "\<forall>(n, v) \<in> set bs. word n \<and> word v \<Longrightarrow> word srt \<Longrightarrow> distinct (map fst (m @ bs)) \<Longrightarrow>
   parseModelLoop (concat (map (define_fun srt) bs) @ ls) (m, []) = parseModelLoop ls (m @ bs, [])"
proof (induction bs arbitrary: m)
  case (Cons b bs)
  obtain n v where b: "b = (n, v)" by (cases b)
  have w: "word n" "word v" "n \<noteq> []" using Cons.prems(1) b by (auto simp: word_def token_def)
  have "n \<notin> fst ` set m" using Cons.prems(3) b by auto
  then have upd: "AList.update n v m = m @ [(n, v)]" by (induction m) auto
  have "parseModelLoop (concat (map (define_fun srt) (b # bs)) @ ls) (m, []) =
        parseModelLoop (concat (map (define_fun srt) bs) @ ls) (m @ [(n, v)], [])"
    using header_line [OF w(1) Cons.prems(2)] value_line [OF w(2,3)] by (simp add: b upd)
  also have "\<dots> = parseModelLoop ls ((m @ [(n, v)]) @ bs, [])"
    using Cons.prems b by (intro Cons.IH) auto
  finally show ?case by (simp add: b)
qed simp

text \<open>a model that Z3 prints in its multi-line format, with the values of symbols of a one-word sort
  and without parentheses, is read back exactly.\<close>

theorem parseModel_define_fun:
  assumes "\<forall>(name, val) \<in> set bs. word name \<and> word val" and "distinct (map fst bs)" and "word srt" and "bs \<noteq> []"
  shows "parseModel (z3_model srt bs) = Some bs"
  using parseModelLoop_define_fun [of bs srt "[]" "['')'']"] assms
  by (simp add: parseModel_def z3_model_def paren_line)

theorem parseModel_define_fun_witness:
  "parseModel [''('', ''  (define-fun x () Int'', ''    6)'', ''  (define-fun y () Int'', ''    0)'', '')''] = Some [(''x'', ''6''), (''y'', ''0'')]"
  using parseModel_define_fun [of "[(''x'', ''6''), (''y'', ''0'')]" "''Int''"]
  by (simp add: word_def token_def is_space_def z3_model_def)

text \<open>the sort of a bit-vector symbol has several words, so the same format loses its value and reports a
  piece of the sort instead; a negative integer loses its closing parenthesis.\<close>

theorem parseModel_bitvector:
  "parseModel [''('', ''  (define-fun arg0 () (_ BitVec 32)'', ''    #x00000005)'', '')''] = Some [(''arg0'', ''BitVec 32'')] \<and>
   parseModel [''('', ''  (define-fun x () Int'', ''    (- 5))'', '')''] = Some [(''x'', ''(- 5'')]"
  by code_simp

end
