(* ===== verification/CelEval.thy ===== *)
theory CelEval
  imports GoValues
begin

text \<open>
  CEL evaluation (\<open>src/internal/cel/evaluator.go\<close>), the criterion endpoint
  (\<open>src/internal/criterion\<close>) and the command \<open>symk verify cel\<close> (\<open>src/cmd/symk/main.go\<close>; its flags are in \<open>Symk\<close>). The library cel-go is the
  parameter \<open>lib\<close>: creating an environment from variable declarations, compiling, planning and running a
  program. Decoded request bodies, clock readings and the JSON codec are inputs.
\<close>

section \<open>The library\<close>

datatype celType = BoolType | IntType | UintType | DoubleType | StringType | DynType

type_synonym declarations = "(string \<times> celType) list"

record ('ast, 'prg) cel_lib =
  lib_NewEnv :: "declarations \<Rightarrow> string option"
  lib_Compile :: "declarations \<Rightarrow> string \<Rightarrow> string + 'ast"
  lib_Program :: "declarations \<Rightarrow> 'ast \<Rightarrow> string + 'prg"
  lib_Eval :: "'prg \<Rightarrow> bindings \<Rightarrow> string + goany"

datatype cel_error = CreateEnv string | CompileError string | ProgramError string | EvalError string | EvalTimeout
  | ExpectedBool goany

fun celTypeOf :: "goany \<Rightarrow> celType" where
  "celTypeOf (ABool b) = BoolType"
| "celTypeOf (AInt i) = IntType"
| "celTypeOf (AUint n) = UintType"
| "celTypeOf (AFloat f) = DoubleType"
| "celTypeOf (AString s) = StringType"
| "celTypeOf ANil = DynType"
| "celTypeOf (AList xs) = DynType"
| "celTypeOf (AMap m) = DynType"

definition declare_vars :: "bindings \<Rightarrow> declarations" where
  "declare_vars args = map (\<lambda>(name, val). (name, celTypeOf val)) args"

section \<open>The evaluator\<close>

record 'prg Evaluator =
  ev_prg :: "'prg option"

definition NewEvaluator :: "('ast, 'prg) cel_lib \<Rightarrow> string + 'prg Evaluator" where
  "NewEvaluator lib = (case lib_NewEnv lib [] of Some err \<Rightarrow> Inl err | None \<Rightarrow> Inr \<lparr>ev_prg = None\<rparr>)"

definition evaluator_Evaluate :: "('ast, 'prg) cel_lib \<Rightarrow> string \<Rightarrow> bindings \<Rightarrow> 'prg Evaluator \<Rightarrow>
    (cel_error + bool) \<times> 'prg Evaluator" where
  "evaluator_Evaluate lib expr args ev = (let opts = declare_vars args in
     case lib_NewEnv lib opts of Some err \<Rightarrow> (Inl (CreateEnv err), ev)
     | None \<Rightarrow> (case lib_Compile lib opts expr of Inl err \<Rightarrow> (Inl (CompileError err), ev)
       | Inr ast \<Rightarrow> (case lib_Program lib opts ast of Inl err \<Rightarrow> (Inl (ProgramError err), ev)
         | Inr prg \<Rightarrow> (let ev = ev\<lparr>ev_prg := Some prg\<rparr> in
             case lib_Eval lib prg args of Inl err \<Rightarrow> (Inl (EvalError err), ev)
             | Inr out \<Rightarrow> (case out of ABool result \<Rightarrow> (Inr result, ev) | _ \<Rightarrow> (Inl (ExpectedBool out), ev))))))"

text \<open>
  The function \<open>Evaluate\<close>: the deadline of the context, if it has one, the time at which the default
  deadline is set and the time at which the program has run, all in nanoseconds.
\<close>

definition cel_defaultTimeoutMs :: int where
  "cel_defaultTimeoutMs = 2000"

definition cel_Evaluate :: "('ast, 'prg) cel_lib \<Rightarrow> instant option \<Rightarrow> instant \<Rightarrow> instant \<Rightarrow> string \<Rightarrow> bindings \<Rightarrow> cel_error + goany" where
  "cel_Evaluate lib deadline started ended expr vars = (let opts = declare_vars vars in
     case lib_NewEnv lib opts of Some err \<Rightarrow> Inl (CreateEnv err)
     | None \<Rightarrow> (case lib_Compile lib opts expr of Inl err \<Rightarrow> Inl (CompileError err)
       | Inr ast \<Rightarrow> (case lib_Program lib opts ast of Inl err \<Rightarrow> Inl (ProgramError err)
         | Inr prg \<Rightarrow> (let expires = (case deadline of Some d \<Rightarrow> d | None \<Rightarrow> started + cel_defaultTimeoutMs * 1000000) in
             case lib_Eval lib prg vars of
               Inl err \<Rightarrow> if expires \<le> ended then Inl EvalTimeout else Inl (EvalError err)
             | Inr out \<Rightarrow> Inr out))))"

section \<open>The endpoint \<open>/v1/verify/cel\<close>\<close>

record CELInput =
  ci_Expr :: string
  ci_Context :: bindings
  ci_TimeoutMs :: int

record CELResult =
  cr_Ok :: bool
  cr_Value :: "cel_error + goany"
  cr_EvalNs :: duration

record celOpaResponse =
  co_Result :: CELResult
  co_DecisionID :: string

text \<open>
  The conversion of a \<open>float64\<close> to \<open>int64\<close> is the parameter \<open>f2i\<close>: the language leaves it to the
  implementation when the value does not fit.
\<close>

definition normalizeValue :: "(rat \<Rightarrow> int) \<Rightarrow> goany \<Rightarrow> goany" where
  "normalizeValue f2i v = (case v of AFloat (Finite f) \<Rightarrow> if is_integral f then AInt (f2i f) else v | _ \<Rightarrow> v)"

definition normalizeContext :: "(rat \<Rightarrow> int) \<Rightarrow> bindings \<Rightarrow> bindings" where
  "normalizeContext f2i m = map (\<lambda>(k, v). (k, normalizeValue f2i v)) m"

datatype 'r http_reply = BadRequest string | ServerError string | Unprocessable string | Replied 'r

definition effective_timeout :: "int \<Rightarrow> int \<Rightarrow> int" where
  "effective_timeout dflt timeoutMs = (if timeoutMs \<le> 0 then dflt else timeoutMs)"

text \<open>
  A body that does not decode is \<open>None\<close>. The deadline of the request's own context, if any, bounds the one
  that is set here.
\<close>

definition earliest :: "instant option \<Rightarrow> instant \<Rightarrow> instant" where
  "earliest outer d = (case outer of None \<Rightarrow> d | Some e \<Rightarrow> min e d)"

definition cel_Handler :: "('ast, 'prg) cel_lib \<Rightarrow> (rat \<Rightarrow> int) \<Rightarrow> instant option \<Rightarrow> instant \<Rightarrow> instant \<Rightarrow> string \<Rightarrow> CELInput option \<Rightarrow>
    celOpaResponse http_reply" where
  "cel_Handler lib f2i outer started ended decisionID req = (case req of None \<Rightarrow> BadRequest ''invalid request''
     | Some input \<Rightarrow> if TrimSpace (ci_Expr input) = [] then BadRequest ''expr is required''
       else (let timeoutMs = effective_timeout cel_defaultTimeoutMs (ci_TimeoutMs input);
                 context = normalizeContext f2i (ci_Context input);
                 result = cel_Evaluate lib (Some (earliest outer (started + timeoutMs * 1000000))) started ended (ci_Expr input) context
             in Replied \<lparr>co_Result = \<lparr>cr_Ok = (case result of Inl _ \<Rightarrow> False | Inr _ \<Rightarrow> True), cr_Value = result, cr_EvalNs = ended - started\<rparr>,
                         co_DecisionID = decisionID\<rparr>))"

section \<open>The endpoint \<open>/v1/verify/criterion\<close>\<close>

datatype Level = LevelHard | LevelSoft

datatype Category = CategoryFormat | CategoryContent | CategoryStyle | CategoryTool | CategoryState | CategorySecurity | CategorySemantic

datatype RepairStrategy = RepairPatch | RepairInsertSection | RepairRegenerateRegion | RepairFull

record RepairDirective =
  Strategy :: RepairStrategy
  TargetRegion :: string
  MaxRounds :: int

record ConstraintIR =
  ir_ID :: string
  ir_Description :: string
  ir_VerifyMethod :: string
  ir_Arg :: goany
  ir_Path :: string
  ir_Level :: Level
  ir_Priority :: rat
  ir_Category :: Category
  ir_Repair :: "RepairDirective option"

record VerifyCriterionResponse =
  vc_OK :: bool
  vc_CriterionID :: string
  vc_Hint :: string

record celArg =
  ca_Expr :: string
  ca_Context :: bindings

text \<open>\<open>json.Marshal\<close> and \<open>json.Unmarshal\<close> into the expected shape, each of which may fail.\<close>

definition decodeCELArg :: "(goany \<Rightarrow> string + string) \<Rightarrow> (string \<Rightarrow> string + celArg) \<Rightarrow> goany \<Rightarrow> string + celArg" where
  "decodeCELArg marshal unmarshal raw = (case marshal raw of Inl err \<Rightarrow> Inl (''arg is not encodable: '' @ err)
     | Inr b \<Rightarrow> (case unmarshal b of Inl err \<Rightarrow> Inl (''arg is not a valid cel_expr arg: '' @ err)
       | Inr a \<Rightarrow> if ca_Expr a = [] then Inl ''cel_expr arg requires a non-empty \"expr\"'' else Inr a))"

definition pass :: "ConstraintIR \<Rightarrow> bool \<Rightarrow> VerifyCriterionResponse" where
  "pass c ok = \<lparr>vc_OK = ok, vc_CriterionID = ir_ID c, vc_Hint = (if ok then [] else ir_Description c)\<rparr>"

definition criterion_evaluate :: "('ast, 'prg) cel_lib \<Rightarrow> (goany \<Rightarrow> string + string) \<Rightarrow> (string \<Rightarrow> string + celArg) \<Rightarrow>
    instant \<Rightarrow> instant \<Rightarrow> instant \<Rightarrow> ConstraintIR \<Rightarrow> VerifyCriterionResponse http_reply" where
  "criterion_evaluate lib marshal unmarshal deadline started ended c =
     (if ir_VerifyMethod c = ''cel_expr''
      then (case decodeCELArg marshal unmarshal (ir_Arg c) of Inl err \<Rightarrow> BadRequest err
        | Inr arg \<Rightarrow> (case cel_Evaluate lib (Some deadline) started ended (ca_Expr arg) (ca_Context arg) of
            Inl err \<Rightarrow> Unprocessable ''cel evaluation failed''
          | Inr out \<Rightarrow> (case out of ABool ok \<Rightarrow> Replied (pass c ok) | _ \<Rightarrow> Unprocessable ''cel expression did not return bool'')))
      else BadRequest (''unknown verify_method '' @ ir_VerifyMethod c))"

definition criterion_defaultTimeout :: duration where
  "criterion_defaultTimeout = 5000000000"

definition criterion_Handler :: "('ast, 'prg) cel_lib \<Rightarrow> (goany \<Rightarrow> string + string) \<Rightarrow> (string \<Rightarrow> string + celArg) \<Rightarrow>
    instant option \<Rightarrow> instant \<Rightarrow> instant \<Rightarrow> ConstraintIR option \<Rightarrow> VerifyCriterionResponse http_reply" where
  "criterion_Handler lib marshal unmarshal outer started ended req = (case req of None \<Rightarrow> BadRequest ''invalid request''
     | Some c \<Rightarrow> if ir_ID c = [] then BadRequest ''criterion.id is required''
       else if ir_VerifyMethod c = [] then BadRequest ''criterion.verify_method is required''
       else criterion_evaluate lib marshal unmarshal (earliest outer (started + criterion_defaultTimeout)) started ended c)"

section \<open>The command \<open>symk verify cel\<close>\<close>

datatype symk_exit = Usage | ExprRequired | ContextError string | FAIL cel_error | PASS goany

text \<open>The context file: not given, or its content, reading and decoding which may fail.\<close>

definition cmdVerify :: "('ast, 'prg) cel_lib \<Rightarrow> (rat \<Rightarrow> int) \<Rightarrow> instant \<Rightarrow> instant \<Rightarrow> string list \<Rightarrow> string \<Rightarrow>
    (string + bindings) option \<Rightarrow> symk_exit" where
  "cmdVerify lib f2i started ended args expr contextFile =
     (if length args < 2 \<or> args ! 0 \<noteq> ''cel'' then Usage
      else if expr = [] then ExprRequired
      else case contextFile of
        Some (Inl err) \<Rightarrow> ContextError err
      | _ \<Rightarrow> (let vars = (case contextFile of Some (Inr m) \<Rightarrow> normalizeContext f2i m | _ \<Rightarrow> []) in
          case cel_Evaluate lib (Some (started + 5000000000)) started ended expr vars of Inl err \<Rightarrow> FAIL err | Inr result \<Rightarrow> PASS result))"

section \<open>The endpoints agree\<close>

text \<open>The decision of the library on an expression and its variables, without any of the endpoints.\<close>

definition cel_value :: "('ast, 'prg) cel_lib \<Rightarrow> string \<Rightarrow> bindings \<Rightarrow> goany option" where
  "cel_value lib expr vars = (let opts = declare_vars vars in
     if lib_NewEnv lib opts \<noteq> None then None
     else case lib_Compile lib opts expr of Inl _ \<Rightarrow> None
     | Inr ast \<Rightarrow> (case lib_Program lib opts ast of Inl _ \<Rightarrow> None
       | Inr prg \<Rightarrow> (case lib_Eval lib prg vars of Inl _ \<Rightarrow> None | Inr out \<Rightarrow> Some out)))"

lemma cel_Evaluate_value: "cel_Evaluate lib deadline started ended expr vars = Inr out \<longleftrightarrow> cel_value lib expr vars = Some out"
  by (auto simp: cel_Evaluate_def cel_value_def Let_def split: option.splits sum.splits)

lemma evaluator_value: "fst (evaluator_Evaluate lib expr vars ev) = Inr b \<longleftrightarrow> cel_value lib expr vars = Some (ABool b)"
  by (auto simp: evaluator_Evaluate_def cel_value_def Let_def split: option.splits sum.splits goany.splits)

definition cel_Handler_value :: "celOpaResponse http_reply \<Rightarrow> goany option" where
  "cel_Handler_value r = (case r of Replied resp \<Rightarrow> (case cr_Value (co_Result resp) of Inl _ \<Rightarrow> None | Inr v \<Rightarrow> Some v) | _ \<Rightarrow> None)"

lemma cel_Handler_decides:
  assumes "TrimSpace (ci_Expr input) \<noteq> []"
  shows "cel_Handler_value (cel_Handler lib f2i outer started ended i (Some input)) =
    cel_value lib (ci_Expr input) (normalizeContext f2i (ci_Context input))"
  using assms cel_Evaluate_value [of lib _ started ended "ci_Expr input" "normalizeContext f2i (ci_Context input)"]
  by (auto simp: cel_Handler_def cel_Handler_value_def Let_def split: sum.splits)
     (metis Inl_Inr_False not_None_eq)

definition criterion_verdict :: "VerifyCriterionResponse http_reply \<Rightarrow> bool option" where
  "criterion_verdict r = (case r of Replied resp \<Rightarrow> Some (vc_OK resp) | _ \<Rightarrow> None)"

lemma criterion_decides:
  assumes "ir_ID c \<noteq> []" "ir_VerifyMethod c = ''cel_expr''" "decodeCELArg marshal unmarshal (ir_Arg c) = Inr arg"
  shows "criterion_verdict (criterion_Handler lib marshal unmarshal outer started ended (Some c)) = Some b \<longleftrightarrow>
    cel_value lib (ca_Expr arg) (ca_Context arg) = Some (ABool b)"
  unfolding cel_Evaluate_value [of lib "Some (earliest outer (started + criterion_defaultTimeout))" started ended, symmetric]
  using assms by (auto simp: criterion_Handler_def criterion_evaluate_def criterion_verdict_def pass_def split: sum.splits goany.splits)

lemma cmdVerify_decides:
  assumes "2 \<le> length args" "args ! 0 = ''cel''" "expr \<noteq> []"
  shows "cmdVerify lib f2i started ended args expr (Some (Inr m)) = PASS out \<longleftrightarrow>
    cel_value lib expr (normalizeContext f2i m) = Some out"
  unfolding cel_Evaluate_value [of lib "Some (started + 5000000000)" started ended, symmetric]
  using assms by (auto simp: cmdVerify_def split: sum.splits)

text \<open>Every value but a whole \<open>float64\<close>.\<close>

definition no_whole_floats :: "bindings \<Rightarrow> bool" where
  "no_whole_floats m \<longleftrightarrow> (\<forall>f. AFloat (Finite f) \<in> snd ` set m \<longrightarrow> \<not> is_integral f)"

lemma normalizeContext_fixed: "no_whole_floats m \<Longrightarrow> normalizeContext f2i m = m"
  by (induction m) (auto simp: normalizeContext_def no_whole_floats_def normalizeValue_def split: goany.splits gofloat.splits)

text \<open>Normalisation keeps the number as long as it fits into 64 bits.\<close>

lemma normalizeValue_exact:
  assumes "\<And>r. is_integral r \<Longrightarrow> \<bar>r\<bar> < 2 ^ 63 \<Longrightarrow> of_int (f2i r) = r" and "\<bar>f\<bar> < 2 ^ 63"
  shows "normalizeValue f2i (AFloat (Finite f)) = AFloat (Finite f) \<or> (\<exists>i. normalizeValue f2i (AFloat (Finite f)) = AInt i \<and> of_int i = f)"
  using assms by (auto simp: normalizeValue_def)

text \<open>C31: for a context without whole floating-point numbers the endpoint \<open>/v1/verify/cel\<close>, the criterion
  endpoint, the evaluator of the composed endpoint and the command-line tool give the same decision on the
  same expression, whatever their deadlines are and however long they run.\<close>

theorem cel_endpoints_agree:
  assumes "TrimSpace expr \<noteq> []" and "no_whole_floats vars"
    and "ir_ID c \<noteq> []" "ir_VerifyMethod c = ''cel_expr''"
    and "decodeCELArg marshal unmarshal (ir_Arg c) = Inr \<lparr>ca_Expr = expr, ca_Context = vars\<rparr>"
    and "2 \<le> length args" "args ! 0 = ''cel''"
  shows "(criterion_verdict (criterion_Handler lib marshal unmarshal outer s1 e1 (Some c)) = Some b \<longleftrightarrow>
      cel_Handler_value (cel_Handler lib f2i outer' s2 e2 i (Some \<lparr>ci_Expr = expr, ci_Context = vars, ci_TimeoutMs = t\<rparr>)) = Some (ABool b)) \<and>
    (criterion_verdict (criterion_Handler lib marshal unmarshal outer s1 e1 (Some c)) = Some b \<longleftrightarrow>
      fst (evaluator_Evaluate lib expr vars ev) = Inr b) \<and>
    (criterion_verdict (criterion_Handler lib marshal unmarshal outer s1 e1 (Some c)) = Some b \<longleftrightarrow>
      cmdVerify lib f2i s3 e3 args expr (Some (Inr vars)) = PASS (ABool b))"
proof -
  have "expr \<noteq> []" using assms(1) by (auto simp: TrimSpace_def trim_right_def)
  note decides = criterion_decides [OF assms(3-5)] cel_Handler_decides [of "\<lparr>ci_Expr = expr, ci_Context = vars, ci_TimeoutMs = t\<rparr>"]
    cmdVerify_decides [OF assms(6,7) \<open>expr \<noteq> []\<close>] evaluator_value normalizeContext_fixed [OF assms(2)]
  show ?thesis using assms(1) by (simp add: decides)
qed

definition demo_lib :: "(string, string) cel_lib" where
  "demo_lib = \<lparr>lib_NewEnv = (\<lambda>_. None),
     lib_Compile = (\<lambda>decls e. if e \<in> fst ` set decls then Inr e else Inl ''undeclared reference''),
     lib_Program = (\<lambda>_ e. Inr e), lib_Eval = (\<lambda>e vars. Inr (the (map_of vars e)))\<rparr>"

definition demo_criterion :: ConstraintIR where
  "demo_criterion = \<lparr>ir_ID = ''c'', ir_Description = ''d'', ir_VerifyMethod = ''cel_expr'', ir_Arg = AString ''x'', ir_Path = [],
     ir_Level = LevelHard, ir_Priority = 50, ir_Category = CategoryContent, ir_Repair = None\<rparr>"

theorem cel_endpoints_agree_witness:
  "cmdVerify demo_lib floor 7 8 [''cel'', ''--expr''] ''x'' (Some (Inr [(''x'', ABool True)])) = PASS (ABool True) \<and>
   criterion_verdict (criterion_Handler demo_lib (\<lambda>_. Inr []) (\<lambda>_. Inr \<lparr>ca_Expr = ''x'', ca_Context = [(''x'', ABool True)]\<rparr>)
     None 0 9000000000 (Some demo_criterion)) = Some True"
proof -
  have "TrimSpace ''x'' \<noteq> []" by code_simp
  moreover have "no_whole_floats [(''x'', ABool True)]" by (simp add: no_whole_floats_def)
  moreover have "cmdVerify demo_lib floor 7 8 [''cel'', ''--expr''] ''x'' (Some (Inr [(''x'', ABool True)])) = PASS (ABool True)"
    by (simp add: cmdVerify_def cel_Evaluate_def demo_lib_def declare_vars_def normalizeContext_def normalizeValue_def)
  ultimately show ?thesis
    using cel_endpoints_agree [of "''x''" "[(''x'', ABool True)]" demo_criterion "\<lambda>_. Inr []"
      "\<lambda>_. Inr \<lparr>ca_Expr = ''x'', ca_Context = [(''x'', ABool True)]\<rparr>" "[''cel'', ''--expr'']"
      demo_lib None 0 9000000000 True floor None 0 0 "[]" 0 "\<lparr>ev_prg = None\<rparr>" 7 8]
    by (simp add: demo_criterion_def decodeCELArg_def)
qed

end
