(* ===== verification/Solvers.thy ===== *)
theory Solvers
  imports Z3Bridge CelEval
begin

text \<open>
  The endpoints that run the Z3 process: \<open>/v1/verify/z3\<close> (\<open>src/internal/verify/z3.go\<close>, \<open>handler.go\<close>), the
  solver of \<open>src/internal/smt/smt.go\<close> and \<open>/v1/verify/smt\<close> (\<open>src/internal/smthttp\<close>). As in the bridge, the
  process and the state of the context are inputs of a call.
\<close>

section \<open>The solver of \<open>/v1/verify/z3\<close>\<close>

record VResult =
  vr_Sat :: string
  vr_Model :: "(string \<times> string) list option"

datatype solver_error = ProcessError | SolverEmptyOutput | SolverUnexpected string

text \<open>One line of the model in the simple format; \<open>smt.go\<close> has the same parser.\<close>

definition simpleModelLine :: "string \<Rightarrow> (string \<times> string) list \<Rightarrow> (string \<times> string) list" where
  "simpleModelLine raw m = (let line = TrimSpace raw in
     if line = [] \<or> line = ''(model'' \<or> line = '')'' then m
     else (let parts = Fields (stripParens line) in
       if length parts \<ge> 2 then AList.update (parts ! 0) (parts ! 1) m else m))"

definition verify_parseModel :: "string list \<Rightarrow> (string \<times> string) list option" where
  "verify_parseModel ls = (let m = fold simpleModelLine ls [] in if m = [] then None else Some m)"

definition verify_Solve :: "(string \<Rightarrow> string) \<Rightarrow> z3_call \<Rightarrow> string \<Rightarrow> DCache \<Rightarrow> (solver_error + VResult) \<times> DCache" where
  "verify_Solve hash call smt2 c =
     (if ctx_before call then (Inr \<lparr>vr_Sat = ''unknown'', vr_Model = None\<rparr>, c)
      else case dcache_Get hash smt2 c of
        (Some decision, c) \<Rightarrow> (Inr \<lparr>vr_Sat = d_Sat decision, vr_Model = d_Model decision\<rparr>, c)
      | (None, c) \<Rightarrow> (let (failed, out) = z3_run call smt2 in
          if failed then (if ctx_after call then (Inr \<lparr>vr_Sat = ''unknown'', vr_Model = None\<rparr>, c) else (Inl ProcessError, c))
          else (let ls = Split (CHR 10) (TrimSpace out) in
            if length ls = 0 then (Inl SolverEmptyOutput, c)
            else if ls ! 0 = ''unknown'' then (Inr \<lparr>vr_Sat = ''unknown'', vr_Model = None\<rparr>, c)
            else if ls ! 0 = ''sat'' \<or> ls ! 0 = ''unsat''
            then (let result = \<lparr>vr_Sat = ls ! 0, vr_Model = (if ls ! 0 = ''sat'' then verify_parseModel (drop 1 ls) else None)\<rparr> in
              (Inr result, dcache_Set hash smt2 \<lparr>d_Sat = vr_Sat result, d_Model = vr_Model result, d_UnsatCore = []\<rparr> c))
            else (Inl (SolverUnexpected (ls ! 0)), c))))"

record VerifyInput =
  ConstraintsSMT2 :: string
  vi_TimeoutMs :: int

record opaResponse =
  or_Result :: VResult
  or_DecisionID :: string

definition verify_defaultTimeoutMs :: int where
  "verify_defaultTimeoutMs = 2000"

definition verify_script :: "string \<Rightarrow> string" where
  "verify_script constraints = constraints @ newline @ ''(check-sat)'' @ newline @ ''(get-model)'' @ newline @ ''(exit)'' @ newline"

text \<open>
  The timeout determines the call, whose outcome is given by \<open>call\<close>; \<open>late\<close> is whether the deadline has
  passed when the handler looks at an error.
\<close>

definition verify_Handler :: "(string \<Rightarrow> string) \<Rightarrow> (int \<Rightarrow> z3_call) \<Rightarrow> bool \<Rightarrow> string \<Rightarrow> VerifyInput option \<Rightarrow> DCache \<Rightarrow>
    opaResponse http_reply \<times> DCache" where
  "verify_Handler hash call late decisionID req c = (case req of None \<Rightarrow> (BadRequest ''invalid request'', c)
     | Some input \<Rightarrow> if TrimSpace (ConstraintsSMT2 input) = [] then (BadRequest ''constraints_smt2 is required'', c)
       else (let timeoutMs = effective_timeout verify_defaultTimeoutMs (vi_TimeoutMs input) in
         case verify_Solve hash (call timeoutMs) (verify_script (ConstraintsSMT2 input)) c of
           (Inr result, c) \<Rightarrow> (Replied \<lparr>or_Result = result, or_DecisionID = decisionID\<rparr>, c)
         | (Inl err, c) \<Rightarrow> if late then (Replied \<lparr>or_Result = \<lparr>vr_Sat = ''unknown'', vr_Model = None\<rparr>, or_DecisionID = decisionID\<rparr>, c)
             else (ServerError ''solver error'', c)))"

section \<open>The solver of \<open>internal/smt\<close>\<close>

record SMTResult =
  sr_Sat :: string
  sr_Model :: "(string \<times> string) list option"
  sr_UnsatCore :: "string list"

fun smt_parseUnsatCore :: "string list \<Rightarrow> string list" where
  "smt_parseUnsatCore [] = []"
| "smt_parseUnsatCore (raw # ls) = (let line = TrimSpace raw in
     if line = [] \<or> line = ''()'' then smt_parseUnsatCore ls
     else (let tokens = Fields (stripParens line) in if tokens \<noteq> [] then tokens else smt_parseUnsatCore ls))"

definition smt_parseOutput :: "string \<Rightarrow> solver_error + SMTResult" where
  "smt_parseOutput output = (let ls = Split (CHR 10) (TrimSpace output) in
     if length ls = 0 then Inl SolverEmptyOutput
     else if ls ! 0 = ''sat'' then Inr \<lparr>sr_Sat = ''sat'', sr_Model = verify_parseModel (drop 1 ls), sr_UnsatCore = []\<rparr>
     else if ls ! 0 = ''unsat'' then Inr \<lparr>sr_Sat = ''unsat'', sr_Model = None, sr_UnsatCore = smt_parseUnsatCore (drop 1 ls)\<rparr>
     else if ls ! 0 = ''unknown'' then Inr \<lparr>sr_Sat = ''unknown'', sr_Model = None, sr_UnsatCore = []\<rparr>
     else Inl (SolverUnexpected (ls ! 0)))"

definition smt_Solve :: "(int \<Rightarrow> z3_call) \<Rightarrow> string \<Rightarrow> int \<Rightarrow> solver_error + SMTResult" where
  "smt_Solve call smt2 timeoutMs = (let call = call (effective_timeout 5000 timeoutMs); (failed, out) = z3_run call smt2 in
     if failed then (if ctx_after call then Inr \<lparr>sr_Sat = ''unknown'', sr_Model = None, sr_UnsatCore = []\<rparr> else Inl ProcessError)
     else smt_parseOutput out)"

section \<open>The endpoint \<open>/v1/verify/smt\<close>\<close>

fun toGoval :: "goany \<Rightarrow> goval" where
  "toGoval (AString s) = GString s"
| "toGoval (ABool b) = GBool b"
| "toGoval (AInt i) = GInt i"
| "toGoval (AUint n) = GInt (int n)"
| "toGoval (AFloat f) = GFloat"
| "toGoval ANil = GOther"
| "toGoval (AList xs) = GOther"
| "toGoval (AMap m) = GOther"

definition symbols_of :: "bindings \<Rightarrow> symbols" where
  "symbols_of m = map (\<lambda>(k, v). (k, toGoval v)) m"

record SMTRequest =
  sq_Constraints :: string
  sq_Model :: bindings
  sq_TimeoutMs :: int

record SMTResponse =
  sp_Sat :: bool
  sp_SatRaw :: string
  sp_Model :: "(string \<times> string) list option"
  sp_UnsatCore :: "string list"
  sp_DecisionID :: string
  sp_SolverMs :: int

definition smthttp_defaultTimeout :: duration where
  "smthttp_defaultTimeout = 5000000000"

definition smthttp_Handler :: "(string \<Rightarrow> string) \<Rightarrow> (duration \<Rightarrow> z3_call) \<Rightarrow> string \<Rightarrow> SMTRequest option \<Rightarrow> DCache \<Rightarrow>
    SMTResponse http_reply \<times> DCache" where
  "smthttp_Handler hash call uuid req c = (case req of None \<Rightarrow> (BadRequest ''invalid request'', c)
     | Some r \<Rightarrow> if TrimSpace (sq_Constraints r) = [] then (BadRequest ''constraints is required'', c)
       else (let timeout = (if sq_TimeoutMs r > 0 then sq_TimeoutMs r * 1000000 else smthttp_defaultTimeout) in
         case SolveConstraintsCtx hash (call timeout) (sq_Constraints r) (symbols_of (sq_Model r)) c of
           (Inl err, c) \<Rightarrow> (ServerError ''solver error'', c)
         | (Inr sol, c) \<Rightarrow> (Replied \<lparr>sp_Sat = (sol_Sat sol = ''sat''), sp_SatRaw = sol_Sat sol, sp_Model = sol_Model sol,
              sp_UnsatCore = sol_UnsatCore sol, sp_DecisionID = uuid, sp_SolverMs = SolverMs sol\<rparr>, c)))"

section \<open>The verdicts of \<open>/v1/verify/z3\<close>\<close>

type_synonym verify_request = "(int \<Rightarrow> z3_call) \<times> bool \<times> string \<times> VerifyInput option"

fun serve_verify :: "(string \<Rightarrow> string) \<Rightarrow> verify_request \<Rightarrow> DCache \<Rightarrow> opaResponse http_reply \<times> DCache" where
  "serve_verify hash (call, late, i, req) c = verify_Handler hash call late i req c"

definition verify_run :: "(string \<Rightarrow> string) \<Rightarrow> verify_request list \<Rightarrow> DCache \<Rightarrow> DCache" where
  "verify_run hash reqs c = fold (\<lambda>r c. snd (serve_verify hash r c)) reqs c"

text \<open>The script of a request, if it has one, and what the process of the request printed first for it, if it exited without an error.\<close>

fun request_script :: "verify_request \<Rightarrow> string option" where
  "request_script (call, late, i, req) = map_option (\<lambda>input. verify_script (ConstraintsSMT2 input)) req"

definition first_line :: "string \<Rightarrow> string" where
  "first_line out = hd (Split (CHR 10) (TrimSpace out))"

fun printed :: "verify_request \<Rightarrow> string \<Rightarrow> string \<Rightarrow> bool" where
  "printed (call, late, i, None) smt2 verdict \<longleftrightarrow> False"
| "printed (call, late, i, Some input) smt2 verdict \<longleftrightarrow>
     (case z3_run (call (effective_timeout verify_defaultTimeoutMs (vi_TimeoutMs input))) smt2 of
        (failed, out) \<Rightarrow> \<not> failed \<and> first_line out = verdict)"

definition decided_by :: "verify_request set \<Rightarrow> string \<Rightarrow> string \<Rightarrow> bool" where
  "decided_by R smt2 verdict \<longleftrightarrow> (\<exists>r \<in> R. request_script r = Some smt2 \<and> printed r smt2 verdict)"

definition scripts_of :: "verify_request set \<Rightarrow> string set" where
  "scripts_of R = {smt2. \<exists>r \<in> R. request_script r = Some smt2}"

definition from_requests :: "(string \<Rightarrow> string) \<Rightarrow> verify_request set \<Rightarrow> DCache \<Rightarrow> bool" where
  "from_requests hash R c \<longleftrightarrow> dcache_inv c \<and>
     (\<forall>h d. map_of (absl c) h = Some d \<longrightarrow> (\<exists>smt2. hash smt2 = h \<and> decided_by R smt2 (d_Sat d)))"

lemma decided_mono: "decided_by R smt2 v \<Longrightarrow> R \<subseteq> R' \<Longrightarrow> decided_by R' smt2 v"
  by (auto simp: decided_by_def)

lemma from_requests_mono: "from_requests hash R c \<Longrightarrow> R \<subseteq> R' \<Longrightarrow> from_requests hash R' c"
  by (meson decided_mono from_requests_def)

lemma from_requests_New: "from_requests hash R (NewDCache n)"
  by (simp add: from_requests_def dcache_inv_New) (simp add: absl_def NewDCache_def)

text \<open>A call of the solver gives a verdict that the cache had, or that its own process printed.\<close>

lemma verify_Solve_decided:
  assumes c: "from_requests hash R c" and r: "(call, late, i, Some input) \<in> R"
    and t: "t = effective_timeout verify_defaultTimeoutMs (vi_TimeoutMs input)"
    and s: "verify_Solve hash (call t) smt2 c = (res, c')" "smt2 = verify_script (ConstraintsSMT2 input)"
  shows "from_requests hash R c' \<and> (\<forall>v. res = Inr v \<longrightarrow> vr_Sat v \<noteq> ''unknown'' \<longrightarrow>
    (\<exists>smt2'. hash smt2' = hash smt2 \<and> decided_by R smt2' (vr_Sat v)))"
proof (cases "ctx_before (call t)")
  case True
  with c s show ?thesis by (auto simp: verify_Solve_def)
next
  case live: False
  let ?P = "\<lambda>h d. \<exists>smt2. hash smt2 = h \<and> decided_by R smt2 (d_Sat d)"
  have inv: "dcache_inv c" and P: "\<forall>h d. map_of (absl c) h = Some d \<longrightarrow> ?P h d" using c by (auto simp: from_requests_def)
  obtain g c1 where g: "GetByHash (hash smt2) c = (g, c1)" by fastforce
  have inv1: "dcache_inv c1" and P1: "\<forall>h d. map_of (absl c1) h = Some d \<longrightarrow> ?P h d"
    using solver_cache.get_good [OF inv, of "hash smt2"] solver_cache.get_provenance(2) [OF inv P, of "hash smt2"] g by auto
  show ?thesis
  proof (cases g)
    case (Some d)
    then have "?P (hash smt2) d" using solver_cache.get_provenance(1) [OF inv P, of "hash smt2"] g by auto
    then show ?thesis using live Some s(1) g inv1 P1 by (auto simp: verify_Solve_def dcache_Get_def from_requests_def)
  next
    case None
    obtain failed out where run: "z3_run (call t) smt2 = (failed, out)" by fastforce
    have new: "?P (hash smt2) d" if "\<not> failed" "d_Sat d = first_line out" for d
    proof -
      have "request_script (call, late, i, Some input) = Some smt2 \<and> printed (call, late, i, Some input) smt2 (d_Sat d)"
        using s(2) run that t by simp
      then show ?thesis using r unfolding decided_by_def by blast
    qed
    have put: "from_requests hash R (SetByHash (hash smt2) d c1)" if "?P (hash smt2) d" for d
      unfolding from_requests_def
      using solver_cache.put_good [OF inv1, of "hash smt2" d] solver_cache.put_provenance [OF inv1 P1 that] by blast
    have "Split (CHR 10) (TrimSpace out) ! 0 = first_line out"
      by (simp add: first_line_def hd_conv_nth)
    then have "c' = c1 \<and> (\<forall>v. res = Inr v \<longrightarrow> vr_Sat v = ''unknown'') \<or>
        \<not> failed \<and> (\<exists>d v. c' = SetByHash (hash smt2) d c1 \<and> d_Sat d = first_line out \<and> res = Inr v \<and> vr_Sat v = first_line out)"
      using live None run s(1) g by (auto simp: verify_Solve_def dcache_Get_def dcache_Set_def Let_def split: if_splits)
    then show ?thesis
    proof (elim disjE conjE exE)
      assume "c' = c1" "\<forall>v. res = Inr v \<longrightarrow> vr_Sat v = ''unknown''"
      then show ?thesis using inv1 P1 by (auto simp: from_requests_def)
    next
      fix d v
      assume d: "\<not> failed" "c' = SetByHash (hash smt2) d c1" "d_Sat d = first_line out" "res = Inr v" "vr_Sat v = first_line out"
      note P = new [OF d(1,3)]
      with put [OF P] d show ?thesis by auto
    qed
  qed
qed

lemma serve_verify_decided:
  assumes "from_requests hash R c" and "r \<in> R" and "serve_verify hash r c = (reply, c')"
  shows "from_requests hash R c' \<and> (\<forall>resp. reply = Replied resp \<longrightarrow> vr_Sat (or_Result resp) \<noteq> ''unknown'' \<longrightarrow>
    (\<exists>smt2 smt2'. request_script r = Some smt2 \<and> hash smt2' = hash smt2 \<and> decided_by R smt2' (vr_Sat (or_Result resp))))"
proof -
  obtain call late i req where r: "r = (call, late, i, req)" by (cases r)
  show ?thesis
  proof (cases req)
    case None
    then show ?thesis using assms(1,3) r by (auto simp: verify_Handler_def)
  next
    case (Some input)
    let ?t = "effective_timeout verify_defaultTimeoutMs (vi_TimeoutMs input)"
    obtain res c1 where s: "verify_Solve hash (call ?t) (verify_script (ConstraintsSMT2 input)) c = (res, c1)" by fastforce
    have "(call, late, i, Some input) \<in> R" using assms(2) r Some by simp
    from verify_Solve_decided [OF assms(1) this refl s refl]
    have d: "from_requests hash R c1 \<and> (\<forall>v. res = Inr v \<longrightarrow> vr_Sat v \<noteq> ''unknown'' \<longrightarrow>
        (\<exists>smt2'. hash smt2' = hash (verify_script (ConstraintsSMT2 input)) \<and> decided_by R smt2' (vr_Sat v)))" .
    then show ?thesis using assms(1,3) r Some s
      by (auto simp: verify_Handler_def Let_def split: sum.splits if_splits)
  qed
qed

lemma verify_run_decided: "from_requests hash R c \<Longrightarrow> set reqs \<subseteq> R \<Longrightarrow> from_requests hash R (verify_run hash reqs c)"
proof (induction reqs arbitrary: c)
  case (Cons r reqs)
  obtain reply c' where "serve_verify hash r c = (reply, c')" by fastforce
  with serve_verify_decided [OF Cons.prems(1) _ this] Cons show ?case by (simp add: verify_run_def)
qed (simp add: verify_run_def)

text \<open>C23: where the verdicts of \<open>/v1/verify/z3\<close> come from. Whatever requests came before, an answer other than \<open>unknown\<close> is the first line
  that a Z3 process, of this or of an earlier request with exactly the same script, printed before it exited
  without an error, as long as the hash of the cache does not collide on the scripts asked. So a script whose processes all exit
  with an error, as Z3 does when \<open>(get-model)\<close> follows an unsatisfiable check, gets no verdict.\<close>

theorem z3_endpoint_verdicts:
  assumes "inj_on hash (scripts_of (set (reqs @ [r])))"
    and "serve_verify hash r (verify_run hash reqs (NewDCache n)) = (Replied resp, c)"
    and "vr_Sat (or_Result resp) \<noteq> ''unknown''"
  shows "\<exists>smt2. request_script r = Some smt2 \<and> (\<exists>r' \<in> set (reqs @ [r]). request_script r' = Some smt2 \<and>
    printed r' smt2 (vr_Sat (or_Result resp)))"
proof -
  let ?R = "set (reqs @ [r])"
  have "from_requests hash ?R (verify_run hash reqs (NewDCache n))"
    by (rule verify_run_decided [OF from_requests_New]) auto
  from serve_verify_decided [OF this _ assms(2)] assms(3) obtain smt2 smt2' where
    s: "request_script r = Some smt2" "hash smt2' = hash smt2" "decided_by ?R smt2' (vr_Sat (or_Result resp))" by auto
  then have "smt2' \<in> scripts_of ?R" "smt2 \<in> scripts_of ?R" by (auto simp: decided_by_def scripts_of_def)
  then have "smt2' = smt2" using assms(1) s(2) by (auto dest: inj_onD)
  with s(1,3) show ?thesis unfolding decided_by_def by blast
qed

definition clean_call :: "string \<Rightarrow> z3_call" where
  "clean_call out = \<lparr>ctx_before = False, z3_run = (\<lambda>_. (False, out)), ctx_after = False, lookup_time = 0, run_time = 0\<rparr>"

definition two_checks :: "string \<Rightarrow> verify_request" where
  "two_checks out = ((\<lambda>_. clean_call out), False, ''id'', Some \<lparr>ConstraintsSMT2 = ''(assert false)(check-sat)(exit)'', vi_TimeoutMs = 0\<rparr>)"

text \<open>A script that ends with its own \<open>(exit)\<close>: the second request is answered from the cache.\<close>

theorem z3_endpoint_verdicts_witness:
  "\<exists>r' \<in> set [two_checks ''unsat'', two_checks ''sat'']. \<exists>smt2. request_script r' = Some smt2 \<and> printed r' smt2 ''unsat''"
proof -
  let ?c = "verify_run id [two_checks ''unsat''] (NewDCache 5)"
  have "fst (serve_verify id (two_checks ''sat'') ?c) = Replied \<lparr>or_Result = \<lparr>vr_Sat = ''unsat'', vr_Model = None\<rparr>, or_DecisionID = ''id''\<rparr>"
    by code_simp
  then have "serve_verify id (two_checks ''sat'') ?c = (Replied \<lparr>or_Result = \<lparr>vr_Sat = ''unsat'', vr_Model = None\<rparr>, or_DecisionID = ''id''\<rparr>,
      snd (serve_verify id (two_checks ''sat'') ?c))" by (metis prod.collapse)
  from z3_endpoint_verdicts [OF inj_on_id this] show ?thesis by auto
qed

section \<open>A failed process\<close>

text \<open>What the two endpoints make of the same process, if it prints \<open>unsat\<close> and exits with an error before the deadline: an internal
  error here, the verdict there.\<close>

lemma failed_process_verdicts:
  assumes "z3_run (call t) smt2 = (True, out)" and "\<not> ctx_before (call t)" "\<not> ctx_after (call t)"
  shows "fst (verify_Solve hash (call t) smt2 (NewDCache n)) = Inl ProcessError"
    "parseOutput out = Inr sol \<Longrightarrow> smt2 = buildSMT2 constraints model \<Longrightarrow> length out \<noteq> 0 \<Longrightarrow>
      \<exists>sol'. fst (SolveConstraintsCtx hash (call t) constraints model (NewDCache n)) = Inr sol' \<and> sol_Sat sol' = sol_Sat sol"
proof -
  have miss: "dcache_Get hash s (NewDCache n) = (None, snd (dcache_Get hash s (NewDCache n)))" for s
    by (simp add: dcache_Get_def GetByHash_def NewDCache_def)
  show "fst (verify_Solve hash (call t) smt2 (NewDCache n)) = Inl ProcessError"
    using assms unfolding verify_Solve_def by (subst miss) simp
  show "\<exists>sol'. fst (SolveConstraintsCtx hash (call t) constraints model (NewDCache n)) = Inr sol' \<and> sol_Sat sol' = sol_Sat sol"
    if "parseOutput out = Inr sol" "smt2 = buildSMT2 constraints model" "length out \<noteq> 0"
    using assms that unfolding SolveConstraintsCtx_def Let_def by (subst miss) (auto simp: Let_def)
qed

definition unsat_call :: "z3_call" where
  "unsat_call = \<lparr>ctx_before = False, z3_run = (\<lambda>_. (True, ''unsat'' @ newline @ ''(error)'')), ctx_after = False, lookup_time = 0, run_time = 0\<rparr>"

definition false_request :: verify_request where
  "false_request = ((\<lambda>_. unsat_call), False, ''id'', Some \<lparr>ConstraintsSMT2 = ''(assert false)'', vi_TimeoutMs = 0\<rparr>)"

text \<open>Z3 itself on \<open>(assert false)\<close>: no verdict at \<open>/v1/verify/z3\<close>, and \<open>unsat\<close> at \<open>/v1/verify/smt\<close>.\<close>

lemma z3_endpoint_no_verdict: "fst (serve_verify id false_request (NewDCache 5)) = ServerError ''solver error''"
  by code_simp

lemma bridge_answers_unsat:
  "fst (smthttp_Handler id (\<lambda>_. unsat_call) ''id'' (Some \<lparr>sq_Constraints = ''(assert false)'', sq_Model = [], sq_TimeoutMs = 0\<rparr>) (NewDCache 5)) =
     Replied \<lparr>sp_Sat = False, sp_SatRaw = ''unsat'', sp_Model = None, sp_UnsatCore = [], sp_DecisionID = ''id'', sp_SolverMs = 0\<rparr>"
  by code_simp

end
