(* ===== verification/Bench.thy ===== *)
theory Bench
  imports Solvers
begin

text \<open>
  The symbolic benchmark (\<open>src/bench/symbolic/symbolic.go\<close>): the SMT path conditions of a fixture are solved
  twice through the bridge and the report is checked. Reading files, joining paths, base64 and the wazero runtime
  are parameters. The table of \<open>FormatTable\<close> is not modelled.
\<close>

record pathQuery =
  pq_Constraints :: string
  pq_Model :: bindings

record fixture =
  fx_Name :: string
  fx_Module :: string
  fx_Entry :: string
  fx_Arguments :: "64 word list"
  fx_BranchPoints :: int
  fx_Paths :: "pathQuery list"

record BenchResult =
  br_Fixture :: string
  ExploredPaths :: int
  PotentialPaths :: int
  PathExplosionRate :: rat
  SolverTime :: duration
  CacheHitRatio :: rat

datatype module_error = ReadModule string | DecodeModule string | InstantiateModule string | ExportNotFound string | CallFailed string string

datatype bench_error = IncompleteFixture | BranchPointsRange | ModuleError module_error | SolveError z3_error

datatype run_error = ReadManifest string | DecodeManifest string | NoFixtures | FixtureFailed string bench_error

text \<open>What the benchmark uses of its environment: files by path, base64 and the runtime. An instantiated module maps the
  names of its exported functions to what calling them does (\<open>Inl\<close> an error).\<close>

record bench_env =
  ReadFile :: "string \<Rightarrow> string + string"
  PathJoin :: "string \<Rightarrow> string \<Rightarrow> string"
  Base64 :: "string \<Rightarrow> string + string"
  Instantiate :: "string \<Rightarrow> string + (string \<Rightarrow> (64 word list \<Rightarrow> string + 64 word list) option)"
  UnmarshalManifest :: "string \<Rightarrow> string + fixture list"

definition executeModule :: "bench_env \<Rightarrow> string \<Rightarrow> string \<Rightarrow> 64 word list \<Rightarrow> module_error option" where
  "executeModule env modulePath entry arguments =
     (case ReadFile env modulePath of Inl err \<Rightarrow> Some (ReadModule err)
      | Inr encoded \<Rightarrow> (case Base64 env (TrimSpace encoded) of Inl err \<Rightarrow> Some (DecodeModule err)
      | Inr wasm \<Rightarrow> (case Instantiate env wasm of Inl err \<Rightarrow> Some (InstantiateModule err)
      | Inr exports \<Rightarrow> (case exports entry of None \<Rightarrow> Some (ExportNotFound entry)
      | Some fn \<Rightarrow> (case fn arguments of Inl err \<Rightarrow> Some (CallFailed entry err) | Inr _ \<Rightarrow> None)))))"

definition loadManifest :: "bench_env \<Rightarrow> string \<Rightarrow> run_error + fixture list" where
  "loadManifest env dir =
     (case ReadFile env (PathJoin env dir ''manifest.json'') of Inl err \<Rightarrow> Inl (ReadManifest err)
      | Inr raw \<Rightarrow> (case UnmarshalManifest env raw of Inl err \<Rightarrow> Inl (DecodeManifest err)
      | Inr fixtures \<Rightarrow> if length fixtures = 0 then Inl NoFixtures else Inr fixtures))"

text \<open>\<open>call i\<close> is the outcome of the \<open>i\<close>-th query.\<close>

fun solvePaths :: "(string \<Rightarrow> string) \<Rightarrow> (nat \<Rightarrow> z3_call) \<Rightarrow> nat \<Rightarrow> pathQuery list \<Rightarrow> int \<Rightarrow> DCache \<Rightarrow> (z3_error + int) \<times> DCache" where
  "solvePaths hash call i [] feasible c = (Inr feasible, c)"
| "solvePaths hash call i (path # paths) feasible c =
     (case SolveConstraintsCtx hash (call i) (pq_Constraints path) (symbols_of (pq_Model path)) c of
        (Inl err, c) \<Rightarrow> (Inl err, c)
      | (Inr solution, c) \<Rightarrow>
          solvePaths hash call (i + 1) paths (if sol_Sat solution = ''sat'' then feasible + 1 else feasible) c)"

definition runFixture :: "bench_env \<Rightarrow> (string \<Rightarrow> string) \<Rightarrow> (nat \<Rightarrow> z3_call) \<Rightarrow> duration \<Rightarrow> string \<Rightarrow> fixture \<Rightarrow> DCache \<Rightarrow>
    (bench_error + BenchResult) \<times> DCache" where
  "runFixture env hash call solverTime dir f c =
     (if fx_Name f = [] \<or> fx_Module f = [] \<or> fx_Entry f = [] \<or> length (fx_Paths f) = 0 then (Inl IncompleteFixture, c)
      else if fx_BranchPoints f < 0 \<or> fx_BranchPoints f \<ge> 63 then (Inl BranchPointsRange, c)
      else case executeModule env (PathJoin env dir (fx_Module f)) (fx_Entry f) (fx_Arguments f) of
        Some err \<Rightarrow> (Inl (ModuleError err), c)
      | None \<Rightarrow>
          (case solvePaths hash call 0 (fx_Paths f) 0 c of (Inl err, c1) \<Rightarrow> (Inl (SolveError err), c1)
           | (Inr feasible, c1) \<Rightarrow>
               (case solvePaths hash call (length (fx_Paths f)) (fx_Paths f) 0 c1 of (Inl err, c2) \<Rightarrow> (Inl (SolveError err), c2)
                | (Inr _, c2) \<Rightarrow>
                   (let potentialPaths = 2 ^ nat (fx_BranchPoints f);
                        accesses = hits c2 - hits c + misses c2 - misses c;
                        cacheHits = hits c2 - hits c;
                        cacheHitRatio = (if accesses > 0 then of_nat (unat cacheHits) / of_nat (unat accesses) else 0)
                    in (Inr \<lparr>br_Fixture = fx_Name f, ExploredPaths = feasible, PotentialPaths = potentialPaths,
                          PathExplosionRate = of_int feasible / of_int potentialPaths, SolverTime = solverTime,
                          CacheHitRatio = cacheHitRatio\<rparr>, c2)))))"

text \<open>The loop over the corpus; \<open>call k\<close> and \<open>t k\<close> are the queries and the solver time of the \<open>k\<close>-th fixture.\<close>

fun runFixtures :: "bench_env \<Rightarrow> (string \<Rightarrow> string) \<Rightarrow> (nat \<Rightarrow> nat \<Rightarrow> z3_call) \<Rightarrow> (nat \<Rightarrow> duration) \<Rightarrow> string \<Rightarrow> nat \<Rightarrow>
    BenchResult list \<Rightarrow> fixture list \<Rightarrow> DCache \<Rightarrow> (run_error + BenchResult list) \<times> DCache" where
  "runFixtures env hash call t dir k results [] c = (Inr results, c)"
| "runFixtures env hash call t dir k results (f # fs) c = (case runFixture env hash (call k) (t k) dir f c of
     (Inl err, c) \<Rightarrow> (Inl (FixtureFailed (fx_Name f) err), c)
   | (Inr result, c) \<Rightarrow> runFixtures env hash call t dir (k + 1) (results @ [result]) fs c)"

definition bench_Run :: "bench_env \<Rightarrow> (string \<Rightarrow> string) \<Rightarrow> (nat \<Rightarrow> nat \<Rightarrow> z3_call) \<Rightarrow> (nat \<Rightarrow> duration) \<Rightarrow> string \<Rightarrow> DCache \<Rightarrow>
    (run_error + BenchResult list) \<times> DCache" where
  "bench_Run env hash call t dir c = (case loadManifest env dir of Inl err \<Rightarrow> (Inl err, c)
     | Inr fixtures \<Rightarrow> runFixtures env hash call t dir 0 [] fixtures c)"

datatype invalid_result = InvalidBenchmark | PathsOutOfRange | InvalidExplosionRate | InvalidHitRatio

definition ValidateResult :: "BenchResult \<Rightarrow> invalid_result option" where
  "ValidateResult r =
     (if br_Fixture r = [] \<or> PotentialPaths r < 1 then Some InvalidBenchmark
      else if ExploredPaths r < 0 \<or> ExploredPaths r > PotentialPaths r then Some PathsOutOfRange
      else if PathExplosionRate r < 0 \<or> PathExplosionRate r > 1 then Some InvalidExplosionRate
      else if CacheHitRatio r < 0 \<or> CacheHitRatio r > 1 then Some InvalidHitRatio
      else None)"

section \<open>The report of a run is valid\<close>

text \<open>How far a part of a run moves the counters of the cache.\<close>

definition counts :: "DCache \<Rightarrow> nat \<Rightarrow> nat \<Rightarrow> DCache \<Rightarrow> bool" where
  "counts c h m c' \<longleftrightarrow> hits c' = hits c + of_nat h \<and> misses c' = misses c + of_nat m"

lemma counts_refl: "counts c 0 0 c"
  by (simp add: counts_def)

lemma counts_trans: "counts c h m c1 \<Longrightarrow> counts c1 h' m' c2 \<Longrightarrow> counts c (h + h') (m + m') c2"
  by (simp add: counts_def algebra_simps)

lemma counts_Get: "\<exists>h m. h + m = 1 \<and> counts c h m (snd (GetByHash k c))"
proof (cases "entries c k")
  case None
  then have "counts c 0 1 (snd (GetByHash k c))" by (simp add: GetByHash_def counts_def)
  then show ?thesis by (intro exI [of _ 0] exI [of _ 1]) simp
next
  case (Some e)
  then have "counts c 1 0 (snd (GetByHash k c))" by (simp add: GetByHash_def counts_def MoveToFront_def Let_def)
  then show ?thesis by (intro exI [of _ 1] exI [of _ 0]) simp
qed

lemma SetByHash_counters: "hits (SetByHash k d c) = hits c" "misses (SetByHash k d c) = misses c"
  by (auto simp: SetByHash_def MoveToFront_def PushFront_def list_Remove_def Let_def split: option.splits)

lemma counts_solve:
  assumes "SolveConstraintsCtx hash call cs model c = (r, c')"
  shows "\<exists>h m. h + m \<le> 1 \<and> counts c h m c'"
proof -
  have "solve_query hash (call, cs, model) c = (r, c')" using assms by simp
  then show ?thesis
  proof (cases rule: SolveConstraintsCtx_cases)
    case undecided
    from this(2) show ?thesis
    proof
      assume "c' = c"
      then show ?thesis using counts_refl by (intro exI [of _ 0]) simp
    next
      assume "c' = snd (GetByHash (hash (script (call, cs, model))) c)"
      then show ?thesis using counts_Get by (metis order_refl)
    qed
  next
    case (hit d t)
    then show ?thesis using counts_Get by (metis order_refl)
  next
    case (fresh sol)
    obtain h m where "h + m = 1" "counts c h m (snd (GetByHash (hash (script (call, cs, model))) c))" using counts_Get by metis
    then show ?thesis using fresh(3) SetByHash_counters by (intro exI [of _ h] exI [of _ m]) (simp add: counts_def)
  qed
qed

lemma solvePaths_spec:
  "solvePaths hash call i paths n c = (r, c') \<Longrightarrow>
   (\<exists>h m. h + m \<le> length paths \<and> counts c h m c') \<and> (\<forall>k. r = Inr k \<longrightarrow> n \<le> k \<and> k \<le> n + int (length paths))"
proof (induction paths arbitrary: i n c)
  case Nil
  then show ?case using counts_refl by auto
next
  case (Cons p paths)
  obtain s c1 where s: "SolveConstraintsCtx hash (call i) (pq_Constraints p) (symbols_of (pq_Model p)) c = (s, c1)"
    by (cases "SolveConstraintsCtx hash (call i) (pq_Constraints p) (symbols_of (pq_Model p)) c")
  obtain h m where hm: "h + m \<le> 1" "counts c h m c1" using counts_solve [OF s] by blast
  show ?case
  proof (cases s)
    case (Inl err)
    with Cons.prems s have "r = Inl err" "c' = c1" by auto
    moreover have "h + m \<le> length (p # paths)" using hm(1) by simp
    ultimately show ?thesis using hm(2) by blast
  next
    case (Inr sol)
    let ?n = "if sol_Sat sol = ''sat'' then n + 1 else n"
    from Inr Cons.prems s have "solvePaths hash call (i + 1) paths ?n c1 = (r, c')" by simp
    note IH = Cons.IH [OF this]
    then obtain h' m' where "h' + m' \<le> length paths" "counts c1 h' m' c'" by blast
    then have "(h + h') + (m + m') \<le> length (p # paths) \<and> counts c (h + h') (m + m') c'" using hm counts_trans by fastforce
    moreover have "\<forall>k. r = Inr k \<longrightarrow> n \<le> k \<and> k \<le> n + int (length (p # paths))" using IH by (auto split: if_splits)
    ultimately show ?thesis by blast
  qed
qed

lemma hit_ratio:
  assumes "counts c h m c'" and "h + m < 2 ^ 64"
  shows "unat (hits c' - hits c) = h" "unat (hits c' - hits c + misses c' - misses c) = h + m"
proof -
  have "hits c' - hits c = of_nat h" "hits c' - hits c + misses c' - misses c = of_nat (h + m)"
    using assms(1) by (simp_all add: counts_def)
  moreover have "h < 2 ^ 64" using assms(2) by simp
  ultimately show "unat (hits c' - hits c) = h" "unat (hits c' - hits c + misses c' - misses c) = h + m"
    using assms(2) by (simp_all add: unat_of_nat take_bit_nat_eq_self del: of_nat_add)
qed

lemma quotient_le_1: "0 \<le> of_nat a / (of_nat (a + b) :: rat) \<and> of_nat a / (of_nat (a + b) :: rat) \<le> 1"
proof (cases "a + b = 0")
  case False
  then have "0 < (of_nat (a + b) :: rat)" by (simp only: of_nat_0_less_iff)
  then show ?thesis by (simp add: divide_le_eq_1_pos del: of_nat_add)
qed simp

text \<open>The report of one fixture.\<close>

lemma runFixture_valid:
  assumes "runFixture env hash call t dir f c = (Inr res, c')"
    and "int (length (fx_Paths f)) \<le> 2 ^ nat (fx_BranchPoints f)" and "2 * length (fx_Paths f) < 2 ^ 64"
  shows "ValidateResult res = None" and "br_Fixture res = fx_Name f"
proof -
  let ?n = "length (fx_Paths f)" and ?P = "2 ^ nat (fx_BranchPoints f) :: int"
  obtain k c1 j where r: "solvePaths hash call 0 (fx_Paths f) 0 c = (Inr k, c1)" "solvePaths hash call ?n (fx_Paths f) 0 c1 = (Inr j, c')"
    and res: "br_Fixture res = fx_Name f" "ExploredPaths res = k" "PotentialPaths res = ?P" "PathExplosionRate res = of_int k / of_int ?P"
      "CacheHitRatio res = (if hits c' - hits c + misses c' - misses c > 0
         then of_nat (unat (hits c' - hits c)) / of_nat (unat (hits c' - hits c + misses c' - misses c)) else 0)"
    and name: "fx_Name f \<noteq> []"
    using assms(1) by (auto simp: runFixture_def Let_def split: if_splits option.splits prod.splits sum.splits)
  show "br_Fixture res = fx_Name f" by (fact res(1))
  obtain h m h' m' where "h + m \<le> ?n" "counts c h m c1" "h' + m' \<le> ?n" "counts c1 h' m' c'"
    using solvePaths_spec [OF r(1)] solvePaths_spec [OF r(2)] by blast
  then have "counts c (h + h') (m + m') c'" "(h + h') + (m + m') < 2 ^ 64" using counts_trans assms(3) by auto
  from hit_ratio [OF this] have ratio: "0 \<le> CacheHitRatio res \<and> CacheHitRatio res \<le> 1"
    unfolding res(5) using quotient_le_1 [of "h + h'" "m + m'"] by simp
  have "0 \<le> k" "k \<le> int ?n" using solvePaths_spec [OF r(1)] by simp_all
  then have k: "0 \<le> k" "k \<le> ?P" using assms(2) by linarith+
  have "(of_int k :: rat) \<le> of_int ?P" using k(2) by (simp only: of_int_le_iff)
  then have rate: "0 \<le> PathExplosionRate res \<and> PathExplosionRate res \<le> 1" unfolding res(4) using k(1) by (simp add: divide_le_eq_1)
  show "ValidateResult res = None" using res(1-3) name k rate ratio by (simp add: ValidateResult_def not_less)
qed

text \<open>A fixture declares no more paths than its branches allow.\<close>

definition paths_bounded :: "fixture \<Rightarrow> bool" where
  "paths_bounded f \<longleftrightarrow> int (length (fx_Paths f)) \<le> 2 ^ nat (fx_BranchPoints f) \<and> 2 * length (fx_Paths f) < 2 ^ 64"

lemma runFixtures_valid:
  "runFixtures env hash call t dir k results fs c = (Inr rs, c') \<Longrightarrow> list_all paths_bounded fs \<Longrightarrow>
   \<exists>new. rs = results @ new \<and> map br_Fixture new = map fx_Name fs \<and> list_all (\<lambda>r. ValidateResult r = None) new"
proof (induction fs arbitrary: k results c)
  case Nil
  then show ?case by simp
next
  case (Cons f fs)
  obtain res c1 where res: "runFixture env hash (call k) (t k) dir f c = (Inr res, c1)"
    and rest: "runFixtures env hash call t dir (k + 1) (results @ [res]) fs c1 = (Inr rs, c')"
    using Cons.prems(1) by (auto split: prod.splits sum.splits)
  obtain new where "rs = (results @ [res]) @ new" "map br_Fixture new = map fx_Name fs" "list_all (\<lambda>r. ValidateResult r = None) new"
    using Cons.IH [OF rest] Cons.prems(2) by auto
  moreover have "ValidateResult res = None" "br_Fixture res = fx_Name f"
    using runFixture_valid [OF res] Cons.prems(2) by (simp_all add: paths_bounded_def)
  ultimately show ?case by (intro exI [of _ "res # new"]) simp
qed

text \<open>a benchmark run that returns has one row per fixture of the corpus, in its order, and where the fixtures
  declare no more paths than their branches allow every row passes the validation: the explored paths are in range and
  both rates are between 0 and 1, however the counters of the shared cache have wrapped.\<close>

theorem bench_result_valid:
  assumes "loadManifest env dir = Inr fixtures" and "list_all paths_bounded fixtures"
    and "bench_Run env hash call t dir c = (Inr rs, c')"
  shows "map br_Fixture rs = map fx_Name fixtures \<and> list_all (\<lambda>r. ValidateResult r = None) rs"
proof -
  have "runFixtures env hash call t dir 0 [] fixtures c = (Inr rs, c')" using assms(1,3) by (simp add: bench_Run_def)
  from runFixtures_valid [OF this assms(2)] show ?thesis by auto
qed

definition demo_fixture :: fixture where
  "demo_fixture = \<lparr>fx_Name = ''f'', fx_Module = ''m'', fx_Entry = ''main'', fx_Arguments = [], fx_BranchPoints = 1,
     fx_Paths = [\<lparr>pq_Constraints = ''(assert true)'', pq_Model = []\<rparr>]\<rparr>"

definition demo_env :: bench_env where
  "demo_env = \<lparr>ReadFile = Inr, PathJoin = (\<lambda>a b. a @ ''/'' @ b), Base64 = Inr,
     Instantiate = (\<lambda>_. Inr (\<lambda>e. if e = ''main'' then Some Inr else None)), UnmarshalManifest = (\<lambda>_. Inr [demo_fixture])\<rparr>"

definition demo_run :: "(run_error + BenchResult list) \<times> DCache" where
  "demo_run = bench_Run demo_env id (\<lambda>_ _. \<lparr>ctx_before = False, z3_run = (\<lambda>_. (False, ''sat'')), ctx_after = False, lookup_time = 0, run_time = 0\<rparr>)
     (\<lambda>_. 0) ''r'' (NewDCache 10)"

theorem bench_result_valid_witness:
  "\<exists>res. fst demo_run = Inr [res] \<and> br_Fixture res = ''f'' \<and> ExploredPaths res = 1 \<and> ValidateResult res = None"
proof -
  have "(case fst demo_run of Inl _ \<Rightarrow> False | Inr rs \<Rightarrow> map ExploredPaths rs = [1])" by code_simp
  then obtain res where res: "fst demo_run = Inr [res]" "ExploredPaths res = 1" by (cases "fst demo_run") auto
  have "loadManifest demo_env ''r'' = Inr [demo_fixture]" by (simp add: loadManifest_def demo_env_def)
  moreover have "list_all paths_bounded [demo_fixture]" by (simp add: paths_bounded_def demo_fixture_def)
  moreover have "demo_run = (Inr [res], snd demo_run)" using res(1) by (simp add: prod_eq_iff)
  ultimately have "map br_Fixture [res] = map fx_Name [demo_fixture] \<and> list_all (\<lambda>r. ValidateResult r = None) [res]"
    unfolding demo_run_def by (rule bench_result_valid)
  with res show ?thesis by (simp add: demo_fixture_def)
qed

end
