(* ===== verification/SymExec.thy ===== *)
theory SymExec
  imports Complex_Main WasmBinary Z3Bridge
begin

text \<open>
  The symbolic executor (\<open>src/internal/verify/symbolic.go\<close>): symbolic values with their SMT-LIB expression
  and, when known, their constant; states; the instructions; the exploration of both branches of a
  conditional with its limits; and \<open>Run\<close>. An \<open>int64\<close> is a 64-bit word. A stack is a slice with its top
  at the end. Reading the context and calling the solver consume inputs: \<open>ctx_err\<close> and \<open>z3_calls\<close> give
  the outcome of each read and call by its number.
\<close>

unbundle bit_operations_syntax

section \<open>Symbolic values\<close>

record symbolicValue =
  expr :: string
  known :: "u64 option"
  boolean :: bool
  bits :: nat

definition wrapSigned :: "u64 \<Rightarrow> nat \<Rightarrow> u64" where
  "wrapSigned v n = (if n = 32 then scast (ucast v :: 32 word) else v)"

definition bv_literal :: "u64 \<Rightarrow> nat \<Rightarrow> string" where
  "bv_literal u n = ''(_ bv'' @ Itoa (uint u) @ '' '' @ Itoa (int n) @ '')''"

definition typedConstant :: "u64 \<Rightarrow> nat \<Rightarrow> symbolicValue" where
  "typedConstant v n = (let v' = wrapSigned v n;
       unsigned = (if n < 64 then v' AND (push_bit n 1 - 1) else v')
     in \<lparr>expr = bv_literal unsigned n, known = Some v', boolean = False, bits = n\<rparr>)"

definition zeroExpr :: "symbolicValue \<Rightarrow> string" where
  "zeroExpr v = ''(_ bv0 '' @ Itoa (int (bits v)) @ '')''"

definition condition :: "symbolicValue \<Rightarrow> string" where
  "condition v = (if boolean v then
       (case known v of Some k \<Rightarrow> if k = 0 then ''false'' else ''true'' | None \<Rightarrow> expr v)
     else (case known v of Some k \<Rightarrow> if k = 0 then ''false'' else ''true''
       | None \<Rightarrow> ''(not (= '' @ expr v @ '' '' @ zeroExpr v @ ''))''))"

definition boolValue :: "string \<Rightarrow> bool option \<Rightarrow> symbolicValue" where
  "boolValue e b = (case b of
     Some b \<Rightarrow> \<lparr>expr = (if b then ''true'' else ''false''), known = Some (if b then 1 else 0), boolean = True, bits = 0\<rparr>
   | None \<Rightarrow> \<lparr>expr = e, known = None, boolean = True, bits = 0\<rparr>)"

section \<open>Operators\<close>

definition wrappedArithmetic :: "u64 \<Rightarrow> u64 \<Rightarrow> byte \<Rightarrow> nat \<Rightarrow> u64" where
  "wrappedArithmetic a b op n = (let value = (if op = 0x6a \<or> op = 0x7c then a + b else if op = 0x6b \<or> op = 0x7d then a - b else a * b)
     in if n = 32 then scast (ucast value :: 32 word) else value)"

definition comparisonOperator :: "byte \<Rightarrow> string option" where
  "comparisonOperator op = map_of
     [(0x46, ''=''), (0x47, ''distinct''), (0x48, ''bvslt''), (0x49, ''bvult''),
      (0x4a, ''bvsgt''), (0x4b, ''bvugt''), (0x4c, ''bvsle''), (0x4d, ''bvule''),
      (0x4e, ''bvsge''), (0x4f, ''bvuge''), (0x51, ''=''), (0x52, ''distinct''),
      (0x53, ''bvslt''), (0x54, ''bvult''), (0x55, ''bvsgt''), (0x56, ''bvugt''),
      (0x57, ''bvsle''), (0x58, ''bvule''), (0x59, ''bvsge''), (0x5a, ''bvuge'')] op"

definition arithmeticWidth :: "byte \<Rightarrow> nat option" where
  "arithmeticWidth op = (if op \<in> {0x6a, 0x6b, 0x6c} then Some 32 else if op \<in> {0x7c, 0x7d, 0x7e} then Some 64 else None)"

definition arithmeticOperator :: "byte \<Rightarrow> string" where
  "arithmeticOperator op = (if op = 0x6a \<or> op = 0x7c then ''bvadd'' else if op = 0x6b \<or> op = 0x7d then ''bvsub'' else ''bvmul'')"

definition compare :: "byte \<Rightarrow> u64 \<Rightarrow> u64 \<Rightarrow> nat \<Rightarrow> bool" where
  "compare op a b n = (let m = push_bit n 1 - 1;
       ua = (if n < 64 then a AND m else a); ub = (if n < 64 then b AND m else b) in
     if op = 0x46 \<or> op = 0x51 then a = b
     else if op = 0x47 \<or> op = 0x52 then a \<noteq> b
     else if op = 0x48 \<or> op = 0x53 then sint a < sint b
     else if op = 0x49 \<or> op = 0x54 then ua < ub
     else if op = 0x4a \<or> op = 0x55 then sint a > sint b
     else if op = 0x4b \<or> op = 0x56 then ua > ub
     else if op = 0x4c \<or> op = 0x57 then sint a \<le> sint b
     else if op = 0x4d \<or> op = 0x58 then ua \<le> ub
     else if op = 0x4e \<or> op = 0x59 then sint a \<ge> sint b
     else ua \<ge> ub)"

definition valueI32 :: byte where "valueI32 = 0x7f"
definition valueI64 :: byte where "valueI64 = 0x7e"

definition wasmIntegerWidth :: "byte \<Rightarrow> nat option" where
  "wasmIntegerWidth ty = (if ty = valueI32 then Some 32 else if ty = valueI64 then Some 64 else None)"

section \<open>States and instructions\<close>

record symbolicState =
  slocals :: "symbolicValue list"
  stack :: "symbolicValue list"
  constraints :: "string list"
  depth :: int

datatype exec_error =
    StackUnderflow | LocalOutOfRange u32 | EqzWidth nat | ComparisonWidths nat nat | UnsupportedComparison byte
  | ArithmeticWidths nat nat | UnsupportedOpcode byte
  | Cancelled | PathLimit | Feasibility z3_error | SolverReturned string
  | Wasm wasm_error | RunInput string | BadArgument nat | UnsupportedParam nat byte | UnsupportedLocal nat byte | MissingResults string

definition pop :: "symbolicState \<Rightarrow> exec_error + symbolicValue \<times> symbolicState" where
  "pop s = (if stack s = [] then Inl StackUnderflow else Inr (last (stack s), s\<lparr>stack := butlast (stack s)\<rparr>))"

definition push :: "symbolicValue \<Rightarrow> symbolicState \<Rightarrow> symbolicState" where
  "push v s = s\<lparr>stack := stack s @ [v]\<rparr>"

definition executeLocal :: "symbolicState \<Rightarrow> instruction \<Rightarrow> exec_error + symbolicState" where
  "executeLocal s ins =
     (if opcode ins = 0x20 then
        (if unat (index ins) \<ge> length (slocals s) then Inl (LocalOutOfRange (index ins))
         else Inr (push (slocals s ! unat (index ins)) s))
      else (case pop s of Inl e \<Rightarrow> Inl e
        | Inr (v, s) \<Rightarrow>
            if unat (index ins) \<ge> length (slocals s) then Inl (LocalOutOfRange (index ins))
            else (let s = s\<lparr>slocals := (slocals s)[unat (index ins) := v]\<rparr> in
              Inr (if opcode ins = 0x22 then push v s else s))))"

definition executeEqz :: "symbolicState \<Rightarrow> byte \<Rightarrow> exec_error + symbolicState" where
  "executeEqz s op = (case pop s of Inl e \<Rightarrow> Inl e
     | Inr (v, s) \<Rightarrow>
         if (op = 0x45 \<and> bits v \<noteq> 32) \<or> (op = 0x50 \<and> bits v \<noteq> 64) then Inl (EqzWidth (bits v))
         else Inr (push (boolValue (''(= '' @ expr v @ '' '' @ zeroExpr v @ '')'') (map_option (\<lambda>k. k = 0) (known v))) s))"

definition executeCompare :: "symbolicState \<Rightarrow> byte \<Rightarrow> exec_error + symbolicState" where
  "executeCompare s op = (case pop s of Inl e \<Rightarrow> Inl e
     | Inr (b, s) \<Rightarrow> (case pop s of Inl e \<Rightarrow> Inl e
       | Inr (a, s) \<Rightarrow>
           if bits a = 0 \<or> bits a \<noteq> bits b then Inl (ComparisonWidths (bits a) (bits b))
           else (case comparisonOperator op of None \<Rightarrow> Inl (UnsupportedComparison op)
             | Some opr \<Rightarrow>
                 Inr (push (boolValue (''('' @ opr @ '' '' @ expr a @ '' '' @ expr b @ '')'')
                   (case (known a, known b) of (Some x, Some y) \<Rightarrow> Some (compare op x y (bits a)) | _ \<Rightarrow> None)) s))))"

definition executeArithmetic :: "symbolicState \<Rightarrow> byte \<Rightarrow> exec_error + symbolicState" where
  "executeArithmetic s op = (case pop s of Inl e \<Rightarrow> Inl e
     | Inr (b, s) \<Rightarrow> (case pop s of Inl e \<Rightarrow> Inl e
       | Inr (a, s) \<Rightarrow>
           (case arithmeticWidth op of None \<Rightarrow> Inl (ArithmeticWidths (bits a) (bits b))
            | Some n \<Rightarrow>
                if bits a \<noteq> n \<or> bits b \<noteq> n then Inl (ArithmeticWidths (bits a) (bits b))
                else Inr (push (case (known a, known b) of
                    (Some x, Some y) \<Rightarrow> typedConstant (wrappedArithmetic x y op n) n
                  | _ \<Rightarrow> \<lparr>expr = ''('' @ arithmeticOperator op @ '' '' @ expr a @ '' '' @ expr b @ '')'', known = None, boolean = False, bits = n\<rparr>) s))))"

definition compare_ops :: "byte list" where
  "compare_ops = [0x46, 0x47, 0x48, 0x49, 0x4a, 0x4b, 0x4c, 0x4d, 0x4e, 0x4f, 0x51, 0x52, 0x53, 0x54, 0x55, 0x56, 0x57, 0x58, 0x59, 0x5a]"

definition executeInstruction :: "symbolicState \<Rightarrow> instruction \<Rightarrow> exec_error + symbolicState" where
  "executeInstruction s ins = (let op = opcode ins in
     if op = 0x20 \<or> op = 0x21 \<or> op = 0x22 then executeLocal s ins
     else if op = 0x41 then Inr (push (typedConstant (ivalue ins) 32) s)
     else if op = 0x42 then Inr (push (typedConstant (ivalue ins) 64) s)
     else if op = 0x45 \<or> op = 0x50 then executeEqz s op
     else if op \<in> set compare_ops then executeCompare s op
     else if op \<in> {0x6a, 0x6b, 0x6c, 0x7c, 0x7d, 0x7e} then executeArithmetic s op
     else if op = 0x1a then (case pop s of Inl e \<Rightarrow> Inl e | Inr (_, s) \<Rightarrow> Inr s)
     else Inl (UnsupportedOpcode op))"

section \<open>The executor\<close>

text \<open>The inputs from outside: the context, the solver process and the hash of the decision cache.\<close>

record sym_env =
  ctx_err :: "nat \<Rightarrow> bool"
  z3_calls :: "nat \<Rightarrow> z3_call"
  sha :: "string \<Rightarrow> string"

text \<open>\<open>asked\<close> lists the programs that the solver was asked about; their number is the number of the next call.\<close>

record executor =
  maxDepth :: int
  prune :: bool
  symbols :: symbols
  explored :: int
  pruned :: int
  polls :: nat
  asked :: "string list"
  dcache :: DCache

definition maxSymbolicExplored :: int where
  "maxSymbolicExplored = 4096"

definition smt2Assertions :: "string list \<Rightarrow> string" where
  "smt2Assertions cs = concat (map (\<lambda>c. ''(assert '' @ c @ '')'' @ newline) cs)"

definition feasibility :: "sym_env \<Rightarrow> string list \<Rightarrow> executor \<Rightarrow> (exec_error + bool \<times> (string \<times> string) list option) \<times> executor" where
  "feasibility env cs e =
     (if cs = [] then (Inr (True, None), e)
      else (let (r, c) = SolveConstraintsCtx (sha env) (z3_calls env (length (asked e))) (smt2Assertions cs) (symbols e) (dcache e);
                e = e\<lparr>asked := asked e @ [buildSMT2 (smt2Assertions cs) (symbols e)], dcache := c\<rparr>
            in case r of
              Inl err \<Rightarrow> (Inl (Feasibility err), e)
            | Inr sol \<Rightarrow>
                if sol_Sat sol = ''sat'' then (Inr (True, sol_Model sol), e)
                else if sol_Sat sol = ''unsat'' then (Inr (False, None), e)
                else (Inl (SolverReturned (sol_Sat sol)), e)))"

text \<open>
  One branch of a conditional up to the recursive call: the clone with its constraint, or \<open>None\<close> when
  the branch is pruned.
\<close>

definition enterBranch :: "sym_env \<Rightarrow> bool \<Rightarrow> symbolicValue \<Rightarrow> symbolicState \<Rightarrow> executor \<Rightarrow> exec_error + symbolicState option \<times> executor" where
  "enterBranch env yes cond st e =
     (let c = (if yes then condition cond else ''(not '' @ condition cond @ '')'');
          candidate = st\<lparr>constraints := constraints st @ [c]\<rparr>
      in if explored e \<ge> maxSymbolicExplored then Inl PathLimit
         else (let e = e\<lparr>explored := explored e + 1\<rparr> in
           if prune e then
             (case feasibility env (constraints candidate) e of
                (Inl err, e) \<Rightarrow> Inl err
              | (Inr (ok, _), e) \<Rightarrow> if ok then Inr (Some candidate, e) else Inr (None, e\<lparr>pruned := pruned e + 1\<rparr>))
           else Inr (Some candidate, e)))"

fun instr_size :: "instruction \<Rightarrow> nat" where
  "instr_size (Instr op i v t f) = Suc (sum_list (map instr_size t) + sum_list (map instr_size f))"

lemma instr_size_branches:
  "sum_list (map instr_size (thenB ins)) < instr_size ins" "sum_list (map instr_size (otherwiseB ins)) < instr_size ins"
  by (cases ins; simp)+

lemma instr_size_pos: "0 < instr_size ins"
  by (cases ins) simp

text \<open>
  \<open>run\<close>: the outer loop over the program and the inner loop over the states. \<open>stepStates\<close> is the inner
  loop for one instruction; it returns the states of \<open>next\<close> in order.
\<close>

function (sequential) run :: "sym_env \<Rightarrow> instruction list \<Rightarrow> symbolicState list \<Rightarrow> executor \<Rightarrow> exec_error + symbolicState list \<times> executor"
  and stepStates :: "sym_env \<Rightarrow> instruction \<Rightarrow> symbolicState list \<Rightarrow> executor \<Rightarrow> exec_error + symbolicState list \<times> executor" where
  "run env [] states e = Inr (states, e)"
| "run env (ins # program) states e = (case stepStates env ins states e of
     Inl err \<Rightarrow> Inl err
   | Inr (states', e) \<Rightarrow> run env program states' e)"
| "stepStates env ins [] e = Inr ([], e)"
| "stepStates env ins (st0 # states) e0 =
     (if ctx_err env (polls e0) then Inl Cancelled
      else (let e = e0\<lparr>polls := polls e0 + 1\<rparr>; st = st0\<lparr>depth := depth st0 + 1\<rparr> in
        if depth st > maxDepth e then stepStates env ins states (e\<lparr>pruned := pruned e + 1\<rparr>)
        else if opcode ins = 0x04 then
          (case pop st of Inl err \<Rightarrow> Inl err
           | Inr (cond, st) \<Rightarrow>
               (case enterBranch env True cond st e of Inl err \<Rightarrow> Inl err
                | Inr (c1, e) \<Rightarrow>
                    (case (case c1 of None \<Rightarrow> Inr ([], e) | Some cand \<Rightarrow> run env (thenB ins) [cand] e) of
                       Inl err \<Rightarrow> Inl err
                     | Inr (finished1, e) \<Rightarrow>
                         (case enterBranch env False cond st e of Inl err \<Rightarrow> Inl err
                          | Inr (c2, e) \<Rightarrow>
                              (case (case c2 of None \<Rightarrow> Inr ([], e) | Some cand \<Rightarrow> run env (otherwiseB ins) [cand] e) of
                                 Inl err \<Rightarrow> Inl err
                               | Inr (finished2, e) \<Rightarrow>
                                   (case stepStates env ins states e of Inl err \<Rightarrow> Inl err
                                    | Inr (rest, e) \<Rightarrow> Inr (finished1 @ finished2 @ rest, e)))))))
        else (case executeInstruction st ins of Inl err \<Rightarrow> Inl err
              | Inr st \<Rightarrow> (case stepStates env ins states e of Inl err \<Rightarrow> Inl err
                           | Inr (rest, e) \<Rightarrow> Inr (st # rest, e)))))"
  by pat_completeness auto
termination
  by (relation "inv_image (less_than <*lex*> less_than <*lex*> less_than)
        (\<lambda>x. case x of Inl (env, program, states, e) \<Rightarrow> (sum_list (map instr_size program), 1 :: nat, 0)
           | Inr (env, ins, states, e) \<Rightarrow> (instr_size ins, 0, length states))")
    (auto simp: instr_size_branches instr_size_pos)

declare run.simps [simp del] stepStates.simps [simp del]

section \<open>Run\<close>

text \<open>
  \<open>base64.StdEncoding.DecodeString\<close>: carriage returns and line feeds are skipped; groups of four characters
  of the alphabet, the last one padded.
\<close>

definition sextet :: "char \<Rightarrow> nat option" where
  "sextet c = (let n = of_char c :: nat in
     if 65 \<le> n \<and> n \<le> 90 then Some (n - 65)
     else if 97 \<le> n \<and> n \<le> 122 then Some (n - 71)
     else if 48 \<le> n \<and> n \<le> 57 then Some (n + 4)
     else if n = 43 then Some 62 else if n = 47 then Some 63 else None)"

definition pad :: char where
  "pad = CHR ''=''"

fun decode64 :: "string \<Rightarrow> byte list option" where
  "decode64 [] = Some []"
| "decode64 (a # b # c # d # s) = (case (sextet a, sextet b) of
     (Some x, Some y) \<Rightarrow>
       if c = pad then (if d = pad \<and> s = [] then Some [of_nat (4 * x + y div 16)] else None)
       else (case sextet c of None \<Rightarrow> None
         | Some z \<Rightarrow>
             if d = pad then (if s = [] then Some [of_nat (4 * x + y div 16), of_nat (16 * (y mod 16) + z div 4)] else None)
             else (case (sextet d, decode64 s) of
                 (Some w, Some bs) \<Rightarrow> Some ([of_nat (4 * x + y div 16), of_nat (16 * (y mod 16) + z div 4), of_nat (64 * (z mod 4) + w)] @ bs)
               | _ \<Rightarrow> None))
   | _ \<Rightarrow> None)"
| "decode64 s = None"

definition DecodeString :: "string \<Rightarrow> byte list option" where
  "DecodeString s = decode64 (filter (\<lambda>c. (of_char c :: nat) \<noteq> 10 \<and> (of_char c :: nat) \<noteq> 13) s)"

text \<open>
  An element of \<open>Args\<close>: nil, a Go integer, a float64 (a rational, or nothing for NaN and the infinities),
  a \<open>json.Number\<close>, or any other value.
\<close>

datatype goarg = ANil | AInt int | AFloat "rat option" | ANumber string | AOther

definition ParseUint :: "string \<Rightarrow> int option" where
  "ParseUint s = (if s = [] \<or> (\<exists>c \<in> set s. \<not> (48 \<le> (of_char c :: nat) \<and> (of_char c :: nat) \<le> 57)) \<or> 2 ^ 64 \<le> int (undigits s)
     then None else Some (int (undigits s)))"

definition argumentNumber :: "goarg \<Rightarrow> u64 option" where
  "argumentNumber value = (case value of
     AInt v \<Rightarrow> Some (of_int v)
   | AFloat None \<Rightarrow> None
   | AFloat (Some v) \<Rightarrow> if of_int \<lfloor>v\<rfloor> \<noteq> v \<or> v < - (2 ^ 63) \<or> v \<ge> 2 ^ 63 then None else Some (of_int \<lfloor>v\<rfloor>)
   | ANumber s \<Rightarrow> (case Atoi s of Some n \<Rightarrow> Some (of_int n)
       | None \<Rightarrow> (case ParseUint s of Some n \<Rightarrow> Some (of_int n) | None \<Rightarrow> None))
   | _ \<Rightarrow> None)"

definition concreteArgument :: "goarg \<Rightarrow> nat \<Rightarrow> symbolicValue option" where
  "concreteArgument value n = map_option (\<lambda>v. typedConstant v n) (argumentNumber value)"

record SymbolicInput =
  Module :: string
  Entrypoint :: string
  MaxDepth :: int
  PruneInfeasible :: bool
  WasmBinary :: string
  Entry :: string
  Args :: "goarg list"

datatype output_value = OInt int | OExpr string

text \<open>\<open>output\<close>: no value, one, or several.\<close>

definition state_output :: "byte list \<Rightarrow> symbolicState \<Rightarrow> output_value list" where
  "state_output rs s = map (\<lambda>i. (let v = stack s ! (length (stack s) - length rs + i) in
     case known v of
       Some k \<Rightarrow> if rs ! i = valueI32 then OInt (sint (ucast k :: 32 word)) else OInt (sint k)
     | None \<Rightarrow> OExpr (expr v))) [0..<length rs]"

record SymbolicPath =
  Constraints :: string
  path_Model :: "(string \<times> string) list option"
  path_ID :: string
  Feasible :: bool
  Output :: "output_value list"
  path_constraints :: "string list"

record SymbolicResult =
  Paths :: "SymbolicPath list"
  Explored :: int
  Pruned :: int
  DecisionID :: string

text \<open>The initial locals: parameters bound to concrete arguments or to symbols, other locals zero.\<close>

fun bindParams :: "nat \<Rightarrow> byte list \<Rightarrow> goarg list \<Rightarrow> exec_error + symbolicValue list \<times> symbols" where
  "bindParams i [] args = Inr ([], [])"
| "bindParams i (ty # tys) args = (case wasmIntegerWidth ty of
     None \<Rightarrow> Inl (UnsupportedParam i ty)
   | Some n \<Rightarrow>
       if i < length args \<and> args ! i \<noteq> ANil then
         (case concreteArgument (args ! i) n of
            None \<Rightarrow> Inl (BadArgument i)
          | Some v \<Rightarrow> (case bindParams (i + 1) tys args of Inl e \<Rightarrow> Inl e | Inr (vs, m) \<Rightarrow> Inr (v # vs, m)))
       else (let name = ''arg'' @ Itoa (int i) in
         (case bindParams (i + 1) tys args of Inl e \<Rightarrow> Inl e
          | Inr (vs, m) \<Rightarrow> Inr (\<lparr>expr = name, known = None, boolean = False, bits = n\<rparr> # vs,
              (name, GString (''BitVec_'' @ Itoa (int n))) # m))))"

fun zeroLocals :: "nat \<Rightarrow> byte list \<Rightarrow> exec_error + symbolicValue list" where
  "zeroLocals i [] = Inr []"
| "zeroLocals i (ty # tys) = (case wasmIntegerWidth ty of
     None \<Rightarrow> Inl (UnsupportedLocal i ty)
   | Some n \<Rightarrow> (case zeroLocals (i + 1) tys of Inl e \<Rightarrow> Inl e | Inr vs \<Rightarrow> Inr (typedConstant 0 n # vs)))"

text \<open>The loop that turns terminal states into paths.\<close>

fun collectPaths :: "sym_env \<Rightarrow> (nat \<Rightarrow> string) \<Rightarrow> string \<Rightarrow> byte list \<Rightarrow> bool \<Rightarrow> symbolicState list \<Rightarrow> executor \<Rightarrow>
    exec_error + SymbolicPath list \<times> executor" where
  "collectPaths env uuid entry rs pr [] e = Inr ([], e)"
| "collectPaths env uuid entry rs pr (st # states) e = (case feasibility env (constraints st) e of
     (Inl err, e) \<Rightarrow> Inl err
   | (Inr (feasible, model), e) \<Rightarrow>
       if \<not> feasible \<and> pr then collectPaths env uuid entry rs pr states (e\<lparr>pruned := pruned e + 1\<rparr>)
       else if length (stack st) < length rs then Inl (MissingResults entry)
       else (case collectPaths env uuid entry rs pr states e of
           Inl err \<Rightarrow> Inl err
         | Inr (paths, e) \<Rightarrow> Inr (\<lparr>Constraints = smt2Assertions (constraints st), path_Model = model,
             path_ID = uuid (length states), Feasible = feasible, Output = state_output rs st,
             path_constraints = constraints st\<rparr> # paths, e)))"

definition defaultSymbolicMaxDepth :: int where "defaultSymbolicMaxDepth = 100"
definition maxSymbolicMaxDepth :: int where "maxSymbolicMaxDepth = 256"
definition maxSymbolicModuleBytes :: int where "maxSymbolicModuleBytes = 1048576"
definition maxSymbolicEntrypointLen :: int where "maxSymbolicEntrypointLen = 256"

text \<open>One of the two names of a field, which must agree when both are given.\<close>

definition either_name :: "string \<Rightarrow> string \<Rightarrow> string \<Rightarrow> exec_error + string" where
  "either_name what new old = (let n = TrimSpace new; l = TrimSpace old in
     if n \<noteq> [] \<and> l \<noteq> [] \<and> l \<noteq> n then Inl (RunInput (what @ '' names disagree''))
     else if n = [] \<and> l = [] then Inl (RunInput (what @ '' is required''))
     else Inr (if n = [] then l else n))"

definition runFunction :: "sym_env \<Rightarrow> (nat \<Rightarrow> string) \<Rightarrow> string \<Rightarrow> int \<Rightarrow> bool \<Rightarrow> goarg list \<Rightarrow> wasmFunction \<Rightarrow> nat \<Rightarrow> DCache \<Rightarrow>
    exec_error + SymbolicResult" where
  "runFunction env uuid entry md pr args fn p0 c =
     (case bindParams 0 (params fn) args of Inl e \<Rightarrow> Inl e
      | Inr (ps, model) \<Rightarrow> (case zeroLocals 0 (locals fn) of Inl e \<Rightarrow> Inl e
        | Inr zs \<Rightarrow>
            (let initial = \<lparr>slocals = ps @ zs, stack = [], constraints = [], depth = 0\<rparr>;
                 exec = \<lparr>maxDepth = md, prune = pr, symbols = model, explored = 1, pruned = 0, polls = p0, asked = [], dcache = c\<rparr>
             in case run env (body fn) [initial] exec of Inl e \<Rightarrow> Inl e
                | Inr (states, exec) \<Rightarrow> (case collectPaths env uuid entry (results fn) pr states exec of Inl e \<Rightarrow> Inl e
                  | Inr (paths, exec) \<Rightarrow> Inr \<lparr>Paths = paths, Explored = explored exec, Pruned = pruned exec,
                      DecisionID = uuid (length states)\<rparr>))))"

definition Run :: "sym_env \<Rightarrow> (nat \<Rightarrow> string) \<Rightarrow> DCache \<Rightarrow> SymbolicInput \<Rightarrow> exec_error + SymbolicResult" where
  "Run env uuid c inp = (case either_name ''module'' (Module inp) (WasmBinary inp) of Inl e \<Rightarrow> Inl e
     | Inr mod64 \<Rightarrow> (case either_name ''entrypoint'' (Entrypoint inp) (Entry inp) of Inl e \<Rightarrow> Inl e
       | Inr entry \<Rightarrow>
           if int (length entry) > maxSymbolicEntrypointLen then Inl (RunInput ''entrypoint exceeds 256 bytes'')
           else if ctx_err env 0 then Inl Cancelled
           else if MaxDepth inp < 0 then Inl (RunInput ''maxDepth must not be negative'')
           else (let md = (if MaxDepth inp = 0 then defaultSymbolicMaxDepth else MaxDepth inp) in
             if md > maxSymbolicMaxDepth then Inl (RunInput ''maxDepth must not exceed 256'')
             else if int (length mod64) > 4 * ((maxSymbolicModuleBytes + 2) div 3) then Inl (RunInput ''module too long'')
             else (case DecodeString mod64 of None \<Rightarrow> Inl (RunInput ''decode module'')
               | Some wasm \<Rightarrow>
                   if int (length wasm) > maxSymbolicModuleBytes then Inl (RunInput ''module too long'')
                   else (case parseExportedFunction wasm (map (\<lambda>ch. of_nat (of_char ch)) entry) of Inl e \<Rightarrow> Inl (Wasm e)
                     | Inr fn \<Rightarrow> runFunction env uuid entry md (PruneInfeasible inp) (Args inp) fn 1 c)))))"

end
