(* ===== verification/SmtTerm.thy ===== *)
theory SmtTerm
  imports SymExec
begin

text \<open>
  The meaning of the SMT-LIB expressions that the executor prints: terms over the symbols
  \<open>arg0, arg1, ...\<close>, their printed form, which determines the term, and their value under an assignment
  of 32-bit and 64-bit values to the symbols, following the SMT-LIB theory of bit-vectors.
\<close>

section \<open>Values and terms\<close>

datatype wval = I32 "32 word" | I64 "64 word"

datatype sval = SB bool | SV wval

fun width :: "wval \<Rightarrow> nat" where
  "width (I32 _) = 32"
| "width (I64 _) = 64"

datatype smt = TArg nat | TLit u64 nat | TBool bool | TNot smt | TOp string smt smt

definition bv_ops :: "string list" where
  "bv_ops = [''bvadd'', ''bvsub'', ''bvmul'']"

definition rel_ops :: "string list" where
  "rel_ops = [''='', ''distinct'', ''bvslt'', ''bvult'', ''bvsgt'', ''bvugt'', ''bvsle'', ''bvule'', ''bvsge'', ''bvuge'']"

fun wf_smt :: "smt \<Rightarrow> bool" where
  "wf_smt (TOp opr a b) \<longleftrightarrow> opr \<in> set (bv_ops @ rel_ops) \<and> wf_smt a \<and> wf_smt b"
| "wf_smt (TNot a) \<longleftrightarrow> wf_smt a"
| "wf_smt _ \<longleftrightarrow> True"

fun render :: "smt \<Rightarrow> string" where
  "render (TArg i) = ''arg'' @ Itoa (int i)"
| "render (TLit u n) = bv_literal u n"
| "render (TBool b) = (if b then ''true'' else ''false'')"
| "render (TNot a) = ''(not '' @ render a @ '')''"
| "render (TOp opr a b) = ''('' @ opr @ '' '' @ render a @ '' '' @ render b @ '')''"

definition bv_fun :: "string \<Rightarrow> 'a :: len word \<Rightarrow> 'a word \<Rightarrow> 'a word" where
  "bv_fun opr x y = (if opr = ''bvadd'' then x + y else if opr = ''bvsub'' then x - y else x * y)"

definition bv_rel :: "string \<Rightarrow> 'a :: len word \<Rightarrow> 'a word \<Rightarrow> bool" where
  "bv_rel opr x y =
     (if opr = ''='' then x = y else if opr = ''distinct'' then x \<noteq> y
      else if opr = ''bvslt'' then sint x < sint y else if opr = ''bvult'' then x < y
      else if opr = ''bvsgt'' then sint x > sint y else if opr = ''bvugt'' then x > y
      else if opr = ''bvsle'' then sint x \<le> sint y else if opr = ''bvule'' then x \<le> y
      else if opr = ''bvsge'' then sint x \<ge> sint y else x \<ge> y)"

text \<open>No value: the term is not well sorted.\<close>

fun eval :: "(nat \<Rightarrow> wval) \<Rightarrow> smt \<Rightarrow> sval option" where
  "eval \<rho> (TArg i) = Some (SV (\<rho> i))"
| "eval \<rho> (TLit u n) = (if n = 32 then Some (SV (I32 (ucast u))) else if n = 64 then Some (SV (I64 u)) else None)"
| "eval \<rho> (TBool b) = Some (SB b)"
| "eval \<rho> (TNot a) = (case eval \<rho> a of Some (SB b) \<Rightarrow> Some (SB (\<not> b)) | _ \<Rightarrow> None)"
| "eval \<rho> (TOp opr a b) = (case (eval \<rho> a, eval \<rho> b) of
     (Some (SV (I32 x)), Some (SV (I32 y))) \<Rightarrow> Some (if opr \<in> set bv_ops then SV (I32 (bv_fun opr x y)) else SB (bv_rel opr x y))
   | (Some (SV (I64 x)), Some (SV (I64 y))) \<Rightarrow> Some (if opr \<in> set bv_ops then SV (I64 (bv_fun opr x y)) else SB (bv_rel opr x y))
   | _ \<Rightarrow> None)"

text \<open>A printed expression denotes a value; an assertion holds when it denotes true.\<close>

definition denotes :: "(nat \<Rightarrow> wval) \<Rightarrow> string \<Rightarrow> sval \<Rightarrow> bool" where
  "denotes \<rho> s v \<longleftrightarrow> (\<exists>t. wf_smt t \<and> s = render t \<and> eval \<rho> t = Some v)"

definition asserts :: "(nat \<Rightarrow> wval) \<Rightarrow> string list \<Rightarrow> bool" where
  "asserts \<rho> cs \<longleftrightarrow> (\<forall>c \<in> set cs. denotes \<rho> c (SB True))"

section \<open>The printed form determines the term\<close>

text \<open>An operator or a symbol ends at the first blank or closing parenthesis.\<close>

definition ends :: "string \<Rightarrow> bool" where
  "ends r \<longleftrightarrow> r = [] \<or> hd r = CHR '' '' \<or> hd r = CHR '')''"

lemma ends_simps [simp]: "ends (CHR '' '' # r)" "ends (CHR '')'' # r)" "ends []"
  by (simp_all add: ends_def)

lemma atom_unique:
  assumes "a @ r = a' @ r'" "ends r" "ends r'"
    "\<forall>c \<in> set a. c \<noteq> CHR '' '' \<and> c \<noteq> CHR '')''" "\<forall>c \<in> set a'. c \<noteq> CHR '' '' \<and> c \<noteq> CHR '')''"
  shows "a = a' \<and> r = r'"
proof -
  let ?P = "\<lambda>c. c \<noteq> CHR '' '' \<and> c \<noteq> CHR '')''"
  have tw: "takeWhile ?P (b @ s) = b" if "ends s" "\<forall>c \<in> set b. ?P c" for b s
    using that by (cases s) (auto simp: ends_def takeWhile_append)
  from tw [OF assms(2,4)] tw [OF assms(3,5)] assms(1) have "a = a'" by simp
  with assms(1) show ?thesis by simp
qed

lemma Itoa_atom: "\<forall>c \<in> set (Itoa i). c \<noteq> CHR '' '' \<and> c \<noteq> CHR '')''"
  using Itoa_no_char [of "CHR '' ''" i] Itoa_no_char [of "CHR '')''" i] by auto

lemma op_atom: "opr \<in> set (bv_ops @ rel_ops) \<Longrightarrow> \<forall>c \<in> set opr. c \<noteq> CHR '' '' \<and> c \<noteq> CHR '')''"
  by (auto simp: bv_ops_def rel_ops_def)

lemma op_heads: "opr \<in> set (bv_ops @ rel_ops) \<Longrightarrow> opr \<noteq> ''not'' \<and> opr \<noteq> ''_''"
  by (auto simp: bv_ops_def rel_ops_def)

lemma bv_literal_unique:
  assumes "bv_literal u n @ r = bv_literal u' n' @ r'"
  shows "u = u' \<and> n = n' \<and> r = r'"
proof -
  have "Itoa (uint u) @ CHR '' '' # Itoa (int n) @ CHR '')'' # r = Itoa (uint u') @ CHR '' '' # Itoa (int n') @ CHR '')'' # r'"
    using assms by (simp add: bv_literal_def)
  from atom_unique [OF this ends_simps(1) ends_simps(1) Itoa_atom Itoa_atom]
  have u: "u = u'" and *: "Itoa (int n) @ CHR '')'' # r = Itoa (int n') @ CHR '')'' # r'"
    by (simp_all add: Itoa_inj word_uint_eq_iff)
  from atom_unique [OF * ends_simps(2) ends_simps(2) Itoa_atom Itoa_atom] u show ?thesis
    by (simp add: Itoa_inj)
qed

text \<open>A term is an atom, or a parenthesis, a head word and the rest.\<close>

fun head_word :: "smt \<Rightarrow> string option" where
  "head_word (TLit u n) = Some ''_''"
| "head_word (TNot a) = Some ''not''"
| "head_word (TOp opr a b) = Some opr"
| "head_word _ = None"

fun tail_part :: "smt \<Rightarrow> string" where
  "tail_part (TLit u n) = ''bv'' @ Itoa (uint u) @ '' '' @ Itoa (int n) @ '')''"
| "tail_part (TNot a) = render a @ '')''"
| "tail_part (TOp opr a b) = render a @ '' '' @ render b @ '')''"
| "tail_part _ = []"

lemma render_head: "head_word t = Some h \<Longrightarrow> render t = CHR ''('' # h @ CHR '' '' # tail_part t"
  by (cases t) (auto simp: bv_literal_def)

lemma render_atom: "head_word t = None \<Longrightarrow> (\<forall>c \<in> set (render t). c \<noteq> CHR '' '' \<and> c \<noteq> CHR '')'') \<and> render t \<noteq> [] \<and> hd (render t) \<noteq> CHR ''(''"
  using Itoa_atom by (cases t) auto

lemma head_atom: "wf_smt t \<Longrightarrow> head_word t = Some h \<Longrightarrow> \<forall>c \<in> set h. c \<noteq> CHR '' '' \<and> c \<noteq> CHR '')''"
  using op_atom by (cases t) auto

lemma render_heads:
  assumes "render t @ r = render t' @ r'" "wf_smt t" "wf_smt t'" "ends r" "ends r'"
  shows "head_word t = head_word t'" and "head_word t = Some h \<Longrightarrow> tail_part t @ r = tail_part t' @ r'"
    and "head_word t = None \<Longrightarrow> render t = render t' \<and> r = r'"
proof -
  have mixed: False if eq: "render a @ s = render b @ s'" and a: "head_word a = None" and b: "head_word b \<noteq> None" for a b s s'
  proof -
    obtain h where "head_word b = Some h" using b by blast
    then have "hd (render b @ s') = CHR ''(''" by (simp add: render_head)
    moreover have "hd (render a @ s) \<noteq> CHR ''(''" using render_atom [OF a] by simp
    ultimately show False using eq by simp
  qed
  show heads: "head_word t = head_word t'"
  proof (cases "head_word t")
    case None
    then show ?thesis using mixed [OF assms(1)] by (cases "head_word t'") auto
  next
    case (Some h)
    then obtain h' where h': "head_word t' = Some h'" using mixed [OF assms(1) [symmetric]] by auto
    have "h @ CHR '' '' # tail_part t @ r = h' @ CHR '' '' # tail_part t' @ r'"
      using assms(1) render_head [OF Some] render_head [OF h'] by simp
    from atom_unique [OF this ends_simps(1) ends_simps(1) head_atom [OF assms(2) Some] head_atom [OF assms(3) h']]
    show ?thesis using Some h' by simp
  qed
  show "tail_part t @ r = tail_part t' @ r'" if "head_word t = Some h"
    using assms(1) render_head [OF that] render_head [of t' h] heads that by simp
  show "render t = render t' \<and> r = r'" if "head_word t = None"
    using atom_unique [OF assms(1,4,5)] render_atom that heads by metis
qed

lemma render_unique:
  "render t @ r = render t' @ r' \<Longrightarrow> wf_smt t \<Longrightarrow> wf_smt t' \<Longrightarrow> ends r \<Longrightarrow> ends r' \<Longrightarrow> t = t' \<and> r = r'"
proof (induction t arbitrary: t' r r')
  case (TArg i)
  from render_heads [OF TArg] show ?case by (cases t') (auto simp: Itoa_inj split: if_splits)
next
  case (TLit u n)
  from render_heads(1) [OF TLit] show ?case
  proof (cases t')
    case (TLit u' n')
    with TLit.prems(1) bv_literal_unique [of u n r u' n' r'] show ?thesis by simp
  qed (use op_heads TLit.prems in auto)
next
  case (TBool b)
  from render_heads [OF TBool] show ?case by (cases t') (auto simp: Itoa_inj split: if_splits)
next
  case (TNot a)
  note prems = TNot.prems
  from render_heads(1) [OF prems] obtain a' where t': "t' = TNot a'"
    using op_heads prems(3) by (cases t') auto
  have "render a @ '')'' @ r = render a' @ '')'' @ r'" using prems(1) by (simp add: t')
  from TNot.IH [OF this] prems show ?case by (auto simp: t')
next
  case (TOp opr a b)
  note prems = TOp.prems
  from render_heads(1) [OF prems] obtain a' b' where t': "t' = TOp opr a' b'"
    using op_heads prems(2,3) by (cases t') auto
  have "render a @ '' '' @ render b @ '')'' @ r = render a' @ '' '' @ render b' @ '')'' @ r'" using prems(1) by (simp add: t')
  from TOp.IH(1) [OF this] prems have "a = a'" and *: "render b @ '')'' @ r = render b' @ '')'' @ r'" by (auto simp: t')
  from TOp.IH(2) [OF *] prems \<open>a = a'\<close> show ?case by (auto simp: t')
qed

lemma render_inj: "wf_smt t \<Longrightarrow> wf_smt t' \<Longrightarrow> render t = render t' \<longleftrightarrow> t = t'"
  using render_unique [of t "[]" t' "[]"] by auto

lemma denotes_unique: "denotes \<rho> s v \<Longrightarrow> denotes \<rho> s w \<Longrightarrow> v = w"
  unfolding denotes_def by (metis option.inject render_inj)

end
