(* ===== verification/SymSound.thy ===== *)
theory SymSound
  imports SmtTerm
begin

text \<open>
  The symbolic executor against the semantics of WebAssembly: a reference interpreter for the supported
  instructions on 32-bit and 64-bit values, what it means that a symbolic state represents a concrete
  one under an assignment of the symbols, and the theorems that the explored paths are sound and, within the
  depth limit and for a truthful solver, complete.
\<close>

unbundle bit_operations_syntax

section \<open>The reference semantics\<close>

type_synonym wstate = "wval list \<times> wval list"

definition wbool :: "bool \<Rightarrow> wval" where
  "wbool b = I32 (if b then 1 else 0)"

text \<open>The relational operators in the order of their opcodes: eq, ne, lt\_s, lt\_u, gt\_s, gt\_u, le\_s, le\_u, ge\_s, ge\_u.\<close>

definition wcompare :: "nat \<Rightarrow> 'a :: len word \<Rightarrow> 'a word \<Rightarrow> bool" where
  "wcompare k x y = [x = y, x \<noteq> y, sint x < sint y, x < y, sint x > sint y, x > y, sint x \<le> sint y, x \<le> y, sint x \<ge> sint y, x \<ge> y] ! k"

definition warith :: "nat \<Rightarrow> 'a :: len word \<Rightarrow> 'a word \<Rightarrow> 'a word" where
  "warith k x y = [x + y, x - y, x * y] ! k"

text \<open>The instructions other than \<open>if\<close>, on the locals and the stack, with its top at the end.\<close>

definition wbinary :: "nat \<Rightarrow> wval \<Rightarrow> wval \<Rightarrow> wval option" where
  "wbinary op a b = (case (a, b) of
     (I32 x, I32 y) \<Rightarrow>
       if 0x46 \<le> op \<and> op \<le> 0x4f then Some (wbool (wcompare (op - 0x46) x y))
       else if 0x6a \<le> op \<and> op \<le> 0x6c then Some (I32 (warith (op - 0x6a) x y)) else None
   | (I64 x, I64 y) \<Rightarrow>
       if 0x51 \<le> op \<and> op \<le> 0x5a then Some (wbool (wcompare (op - 0x51) x y))
       else if 0x7c \<le> op \<and> op \<le> 0x7e then Some (I64 (warith (op - 0x7c) x y)) else None
   | _ \<Rightarrow> None)"

definition weqz :: "nat \<Rightarrow> wval \<Rightarrow> wval option" where
  "weqz op a = (case a of I32 x \<Rightarrow> if op = 0x45 then Some (wbool (x = 0)) else None
     | I64 x \<Rightarrow> if op = 0x50 then Some (wbool (x = 0)) else None)"

definition wstep :: "instruction \<Rightarrow> wstate \<Rightarrow> wstate option" where
  "wstep ins c = (let (ls, st) = c; op = unat (opcode ins); i = unat (index ins) in
     if op = 0x20 then (if i < length ls then Some (ls, st @ [ls ! i]) else None)
     else if op = 0x21 then (if st \<noteq> [] \<and> i < length ls then Some (ls[i := last st], butlast st) else None)
     else if op = 0x22 then (if st \<noteq> [] \<and> i < length ls then Some (ls[i := last st], st) else None)
     else if op = 0x41 then Some (ls, st @ [I32 (ucast (ivalue ins))])
     else if op = 0x42 then Some (ls, st @ [I64 (ivalue ins)])
     else if op = 0x1a then (if st \<noteq> [] then Some (ls, butlast st) else None)
     else if op = 0x45 \<or> op = 0x50 then
       (if st \<noteq> [] then map_option (\<lambda>v. (ls, butlast st @ [v])) (weqz op (last st)) else None)
     else if length st \<ge> 2 then
       map_option (\<lambda>v. (ls, take (length st - 2) st @ [v])) (wbinary op (st ! (length st - 2)) (last st))
     else None)"

definition wpop_i32 :: "wstate \<Rightarrow> (32 word \<times> wstate) option" where
  "wpop_i32 c = (if snd c = [] then None else case last (snd c) of I32 x \<Rightarrow> Some (x, fst c, butlast (snd c)) | I64 _ \<Rightarrow> None)"

function wexec :: "instruction list \<Rightarrow> wstate \<Rightarrow> wstate option" where
  "wexec [] c = Some c"
| "wexec (ins # program) c =
     (if opcode ins = 0x04 then
        (case wpop_i32 c of None \<Rightarrow> None
         | Some (x, c1) \<Rightarrow> (case wexec (if x \<noteq> 0 then thenB ins else otherwiseB ins) c1 of None \<Rightarrow> None | Some c2 \<Rightarrow> wexec program c2))
      else (case wstep ins c of None \<Rightarrow> None | Some c2 \<Rightarrow> wexec program c2))"
  by pat_completeness auto
termination
  by (relation "measure (\<lambda>(program, c). sum_list (map instr_size program))")
    (auto simp: instr_size_pos intro: less_le_trans [OF instr_size_branches(1)] less_le_trans [OF instr_size_branches(2)])

section \<open>Sign extension\<close>

lemma ucast_scast32: "(ucast (scast (x :: 32 word) :: u64) :: 32 word) = x"
  by (rule bit_word_eqI) (simp add: bit_simps)

lemma sint_scast32: "sint (scast (x :: 32 word) :: u64) = sint x"
proof -
  have "- (2 ^ 63) \<le> sint x" "sint x < 2 ^ 63"
    using sint_greater_eq [of x] sint_less [of x] by simp_all
  then show ?thesis by (simp add: signed_scast_eq signed_take_bit_int_eq_self)
qed

lemma scast32_inj: "(scast (x :: 32 word) :: u64) = scast y \<longleftrightarrow> x = y"
  by (metis ucast_scast32)

lemma mask32: "(push_bit 32 1 - 1 :: u64) = mask 32"
  by (simp add: mask_eq_exp_minus_1)

lemma scast32_mask: "(scast (x :: 32 word) :: u64) AND (push_bit 32 1 - 1) = ucast x"
  unfolding mask32
proof (rule bit_word_eqI)
  fix n
  show "bit ((scast x :: u64) AND mask 32) n = bit (ucast x :: u64) n"
  proof (cases "n < 32")
    case True
    then have "min 31 n = n" by simp
    then show ?thesis using True by (simp add: bit_simps)
  next
    case False
    then show ?thesis using bit_imp_le_length [of x n] by (auto simp: bit_simps)
  qed
qed

lemma ucast32_mono: "(ucast (x :: 32 word) :: u64) < ucast y \<longleftrightarrow> x < y" "(ucast (x :: 32 word) :: u64) \<le> ucast y \<longleftrightarrow> x \<le> y"
proof -
  have "take_bit 64 (uint z) = uint z" for z :: "32 word"
  proof -
    have "uint z < 2 ^ LENGTH(32)" by (rule unsigned_less)
    then show ?thesis by (simp add: take_bit_int_eq_self)
  qed
  then show "(ucast x :: u64) < ucast y \<longleftrightarrow> x < y" "(ucast x :: u64) \<le> ucast y \<longleftrightarrow> x \<le> y"
    by (simp_all add: word_less_def word_le_def unsigned_ucast_eq)
qed

lemma ucast_mask32: "(ucast (a AND (push_bit 32 1 - 1) :: u64) :: 32 word) = ucast a"
  unfolding mask32 by (rule bit_word_eqI) (auto simp: bit_simps)

lemma of_int_mod64: "(of_int (k mod 2 ^ 64) :: 32 word) = of_int k"
  unfolding take_bit_eq_mod [symmetric] by (rule bit_word_eqI) (simp add: bit_simps)

lemma ucast_of_int: "(ucast (w :: u64) :: 32 word) = of_int (uint w)"
  by (rule bit_word_eqI) (simp add: bit_simps)

lemma ucast_down:
  fixes a b :: u64
  shows "(ucast (a + b) :: 32 word) = ucast a + ucast b" "(ucast (a - b) :: 32 word) = ucast a - ucast b"
    "(ucast (a * b) :: 32 word) = ucast a * ucast b"
  unfolding ucast_of_int uint_word_ariths by (simp_all add: of_int_mod64 [simplified])

lemmas ucast32_arith = ucast_down [of "scast (x :: 32 word)" "scast (y :: 32 word)" for x y, unfolded ucast_scast32]

section \<open>Symbolic values represent concrete ones\<close>

fun extend :: "wval \<Rightarrow> u64" where
  "extend (I32 x) = scast x"
| "extend (I64 x) = x"

text \<open>
  A value that is no comparison result denotes the concrete value, has its width, and its known
  constant is the sign-extended value; a comparison result denotes a truth value and stands for 0 or 1.
\<close>

definition repr :: "(nat \<Rightarrow> wval) \<Rightarrow> symbolicValue \<Rightarrow> wval \<Rightarrow> bool" where
  "repr \<rho> v w \<longleftrightarrow> (if boolean v
     then bits v = 0 \<and> (\<exists>b. denotes \<rho> (expr v) (SB b) \<and> w = wbool b \<and> (\<forall>k. known v = Some k \<longrightarrow> k = (if b then 1 else 0)))
     else denotes \<rho> (expr v) (SV w) \<and> bits v = width w \<and> (\<forall>k. known v = Some k \<longrightarrow> k = extend w))"

lemma width_pos: "width w \<noteq> 0"
  by (cases w) auto

lemma repr_numeric:
  assumes "repr \<rho> v w" "bits v \<noteq> 0"
  shows "\<not> boolean v" "denotes \<rho> (expr v) (SV w)" "bits v = width w" "known v = Some k \<Longrightarrow> k = extend w"
  using assms by (auto simp: repr_def split: if_splits)

lemma repr_boolValue:
  assumes "denotes \<rho> e (SB b)" "\<And>c. kb = Some c \<Longrightarrow> c = b"
  shows "repr \<rho> (boolValue e kb) (wbool b)"
proof (cases kb)
  case None
  then show ?thesis using assms(1) by (auto simp: repr_def boolValue_def)
next
  case (Some c)
  have "denotes \<rho> (if b then ''true'' else ''false'') (SB b)"
    unfolding denotes_def by (rule exI [of _ "TBool b"]) simp
  then show ?thesis
    unfolding Some assms(2) [OF Some] repr_def boolValue_def by (auto intro!: exI [of _ b] split: if_splits)
qed

lemma repr_typedConstant: "repr \<rho> (typedConstant v 32) (I32 (ucast v))" "repr \<rho> (typedConstant v 64) (I64 v)"
proof -
  let ?u = "(scast (ucast v :: 32 word) :: u64) AND (push_bit 32 1 - 1)"
  have "denotes \<rho> (bv_literal ?u 32) (SV (I32 (ucast v)))"
    unfolding denotes_def by (rule exI [of _ "TLit ?u 32"]) (simp add: ucast_mask32 ucast_scast32 del: push_bit_of_1)
  then show "repr \<rho> (typedConstant v 32) (I32 (ucast v))"
    by (simp add: repr_def typedConstant_def wrapSigned_def Let_def del: push_bit_of_1)
  have "denotes \<rho> (bv_literal v 64) (SV (I64 v))"
    unfolding denotes_def by (rule exI [of _ "TLit v 64"]) simp
  then show "repr \<rho> (typedConstant v 64) (I64 v)"
    by (simp add: repr_def typedConstant_def wrapSigned_def Let_def)
qed

lemma zeroExpr_literal: "zeroExpr v = bv_literal 0 (bits v)"
proof -
  have "Itoa 0 = ''0''" by code_simp
  then show ?thesis by (simp add: zeroExpr_def bv_literal_def)
qed

lemma denotes_op:
  assumes "denotes \<rho> a (SV x)" "denotes \<rho> b (SV y)" "opr \<in> set (bv_ops @ rel_ops)"
    and "eval \<rho> (TOp opr (TLit (extend x) (width x)) (TLit (extend y) (width y))) = Some v"
  shows "denotes \<rho> (''('' @ opr @ '' '' @ a @ '' '' @ b @ '')'') v"
proof -
  obtain s t where st: "wf_smt s" "a = render s" "eval \<rho> s = Some (SV x)" "wf_smt t" "b = render t" "eval \<rho> t = Some (SV y)"
    using assms(1,2) by (auto simp: denotes_def)
  have "eval \<rho> (TOp opr s t) = Some v"
    using st assms(4) by (cases x; cases y) (simp_all add: ucast_scast32)
  then show ?thesis
    unfolding denotes_def using st assms(3) by (intro exI [of _ "TOp opr s t"]) simp
qed

lemma denotes_not: "denotes \<rho> s (SB b) \<Longrightarrow> denotes \<rho> (''(not '' @ s @ '')'') (SB (\<not> b))"
  unfolding denotes_def by (metis (no_types, lifting) eval.simps(4) option.simps(5) render.simps(4) sval.simps(5) wf_smt.simps(2))

lemma denotes_zero_test:
  assumes "denotes \<rho> (expr v) (SV w)" "bits v = width w"
  shows "denotes \<rho> (''(= '' @ expr v @ '' '' @ zeroExpr v @ '')'') (SB (extend w = 0))"
proof -
  have z: "denotes \<rho> (zeroExpr v) (SV (case w of I32 _ \<Rightarrow> I32 0 | I64 _ \<Rightarrow> I64 0))"
    unfolding denotes_def zeroExpr_literal assms(2) by (rule exI [of _ "TLit 0 (width w)"]) (cases w; simp)
  have "extend (I32 x) = 0 \<longleftrightarrow> x = 0" for x using scast32_inj [of x 0] by simp
  with denotes_op [OF assms(1) z, of "''=''"] show ?thesis
    by (cases w) (auto simp: rel_ops_def bv_ops_def bv_rel_def ucast_scast32)
qed

text \<open>The condition of a branch denotes whether the concrete condition is not zero.\<close>

lemma denotes_condition:
  assumes "repr \<rho> v (I32 x)"
  shows "denotes \<rho> (condition v) (SB (x \<noteq> 0))"
proof -
  have lit: "denotes \<rho> (if b then ''true'' else ''false'') (SB b)" for b
    unfolding denotes_def by (rule exI [of _ "TBool b"]) simp
  have ext: "extend (I32 x) = 0 \<longleftrightarrow> x = 0" using scast32_inj [of x 0] by simp
  show ?thesis
  proof (cases "boolean v")
    case True
    then obtain b where b: "denotes \<rho> (expr v) (SB b)" "x = (if b then 1 else 0)" "\<forall>k. known v = Some k \<longrightarrow> k = (if b then 1 else 0)"
      using assms by (auto simp: repr_def wbool_def)
    then show ?thesis using True lit [of b] by (cases "known v") (auto simp: condition_def)
  next
    case False
    then have n: "denotes \<rho> (expr v) (SV (I32 x))" "bits v = width (I32 x)" "\<forall>k. known v = Some k \<longrightarrow> k = extend (I32 x)"
      using assms by (auto simp: repr_def)
    show ?thesis
    proof (cases "known v")
      case None
      then show ?thesis using False denotes_not [OF denotes_zero_test [OF n(1,2)]] ext by (simp add: condition_def)
    next
      case (Some k)
      then show ?thesis using False n(3) ext lit [of "x \<noteq> 0"] by (auto simp: condition_def)
    qed
  qed
qed

section \<open>Instructions\<close>

lemma i32_compare:
  assumes "op \<in> set compare_ops" "unat op \<le> 0x4f"
  obtains opr where "comparisonOperator op = Some opr" "opr \<in> set rel_ops"
    "\<And>x y :: 32 word. bv_rel opr x y = wcompare (unat op - 0x46) x y"
    "\<And>x y :: 32 word. compare op (scast x) (scast y) 32 = wcompare (unat op - 0x46) x y"
  using assms
  by (auto simp: compare_ops_def comparisonOperator_def rel_ops_def bv_rel_def wcompare_def compare_def Let_def
      scast32_inj sint_scast32 scast32_mask ucast32_mono simp del: push_bit_of_1)

lemma i64_compare:
  assumes "op \<in> set compare_ops" "0x51 \<le> unat op"
  obtains opr where "comparisonOperator op = Some opr" "opr \<in> set rel_ops"
    "\<And>x y :: 64 word. bv_rel opr x y = wcompare (unat op - 0x51) x y"
    "\<And>x y. compare op x y 64 = wcompare (unat op - 0x51) x y"
  using assms
  by (auto simp: compare_ops_def comparisonOperator_def rel_ops_def bv_rel_def wcompare_def compare_def Let_def)

lemma rel_not_bv: "opr \<in> set rel_ops \<Longrightarrow> opr \<notin> set bv_ops"
  by (auto simp: rel_ops_def bv_ops_def)

lemma compare_value:
  assumes a: "repr \<rho> a wa" and b: "repr \<rho> b wb" and op: "op \<in> set compare_ops"
    and bits: "bits a \<noteq> 0" "bits a = bits b" and w: "wbinary (unat op) wa wb = Some w"
    and opr: "comparisonOperator op = Some opr"
  shows "repr \<rho> (boolValue (''('' @ opr @ '' '' @ expr a @ '' '' @ expr b @ '')'')
    (case (known a, known b) of (Some x, Some y) \<Rightarrow> Some (compare op x y (bits a)) | _ \<Rightarrow> None)) w"
proof -
  have bb: "bits b \<noteq> 0" using bits by simp
  note A = repr_numeric [OF a bits(1)] and B = repr_numeric [OF b bb]
  have not_arith: "\<not> (0x6a \<le> unat op \<and> unat op \<le> 0x6c)" "\<not> (0x7c \<le> unat op \<and> unat op \<le> 0x7e)"
    using op by (auto simp: compare_ops_def)
  obtain r where r: "w = wbool r" "opr \<in> set rel_ops"
    "eval \<rho> (TOp opr (TLit (extend wa) (width wa)) (TLit (extend wb) (width wb))) = Some (SB r)"
    "compare op (extend wa) (extend wb) (width wa) = r"
  proof (cases wa)
    case (I32 x)
    then obtain y where y: "wb = I32 y" using A(3) B(3) bits(2) by (cases wb) auto
    then have op32: "unat op \<le> 0x4f" and w': "w = wbool (wcompare (unat op - 0x46) x y)"
      using w I32 not_arith by (auto simp: wbinary_def split: if_splits)
    from i32_compare [OF op op32] opr I32 y w' rel_not_bv [of opr] show thesis
      by (intro that [of "wcompare (unat op - 0x46) x y"]) (auto simp: ucast_scast32)
  next
    case (I64 x)
    then obtain y where y: "wb = I64 y" using A(3) B(3) bits(2) by (cases wb) auto
    then have op64: "0x51 \<le> unat op" and w': "w = wbool (wcompare (unat op - 0x51) x y)"
      using w I64 not_arith by (auto simp: wbinary_def split: if_splits)
    from i64_compare [OF op op64] opr I64 y w' rel_not_bv [of opr] show thesis
      by (intro that [of "wcompare (unat op - 0x51) x y"]) auto
  qed
  have "denotes \<rho> (''('' @ opr @ '' '' @ expr a @ '' '' @ expr b @ '')'') (SB r)"
    by (rule denotes_op [OF A(2) B(2) _ r(3)]) (use r(2) in simp)
  then show ?thesis
    unfolding r(1) by (rule repr_boolValue) (use r(4) A(3,4) B(4) in \<open>auto split: option.splits\<close>)
qed

lemma wrap_arith:
  assumes "op \<in> {0x6a, 0x6b, 0x6c}"
  shows "(ucast (wrappedArithmetic (scast x) (scast y) op 32) :: 32 word) = warith (unat op - 0x6a) x y"
    "bv_fun (arithmeticOperator op) x y = warith (unat op - 0x6a) x y" "arithmeticOperator op \<in> set bv_ops"
  using assms
  by (auto simp: wrappedArithmetic_def warith_def bv_fun_def arithmeticOperator_def bv_ops_def Let_def ucast_scast32 ucast32_arith)

lemma wrap_arith64:
  assumes "op \<in> {0x7c, 0x7d, 0x7e}"
  shows "wrappedArithmetic x y op 64 = warith (unat op - 0x7c) x y"
    "bv_fun (arithmeticOperator op) x y = warith (unat op - 0x7c) x y" "arithmeticOperator op \<in> set bv_ops"
  using assms by (auto simp: wrappedArithmetic_def warith_def bv_fun_def arithmeticOperator_def bv_ops_def Let_def)

lemma arithmetic_value:
  assumes a: "repr \<rho> a wa" and b: "repr \<rho> b wb" and n: "arithmeticWidth op = Some n" "bits a = n" "bits b = n"
    and w: "wbinary (unat op) wa wb = Some w"
  shows "repr \<rho> (case (known a, known b) of
      (Some x, Some y) \<Rightarrow> typedConstant (wrappedArithmetic x y op n) n
    | _ \<Rightarrow> \<lparr>expr = ''('' @ arithmeticOperator op @ '' '' @ expr a @ '' '' @ expr b @ '')'', known = None, boolean = False, bits = n\<rparr>) w"
proof -
  have pos: "bits a \<noteq> 0" "bits b \<noteq> 0" using n by (auto simp: arithmeticWidth_def split: if_splits)
  note A = repr_numeric [OF a pos(1)] and B = repr_numeric [OF b pos(2)]
  have den: "denotes \<rho> (''('' @ arithmeticOperator op @ '' '' @ expr a @ '' '' @ expr b @ '')'') (SV w) \<and> width w = n \<and>
      (\<forall>x y. known a = Some x \<longrightarrow> known b = Some y \<longrightarrow> repr \<rho> (typedConstant (wrappedArithmetic x y op n) n) w)"
  proof (cases "n = 32")
    case True
    then have op: "op \<in> {0x6a, 0x6b, 0x6c}" using n(1) by (auto simp: arithmeticWidth_def split: if_splits)
    obtain x y where xy: "wa = I32 x" "wb = I32 y" using A(3) B(3) n True by (cases wa; cases wb) auto
    have w': "w = I32 (warith (unat op - 0x6a) x y)" using w op xy by (auto simp: wbinary_def)
    note ar = wrap_arith(1,2) [OF op, of x y] wrap_arith(3) [OF op]
    have "denotes \<rho> (''('' @ arithmeticOperator op @ '' '' @ expr a @ '' '' @ expr b @ '')'') (SV w)"
      by (rule denotes_op [OF A(2) B(2)]) (use ar xy w' in \<open>auto simp: ucast_scast32\<close>)
    moreover have "repr \<rho> (typedConstant (wrappedArithmetic (scast x) (scast y) op 32) 32) w"
      using repr_typedConstant(1) [of \<rho> "wrappedArithmetic (scast x) (scast y) op 32"] ar(1) w' by simp
    ultimately show ?thesis using A(4) B(4) xy w' True by auto
  next
    case False
    then have op: "op \<in> {0x7c, 0x7d, 0x7e}" and n64: "n = 64" using n(1) by (auto simp: arithmeticWidth_def split: if_splits)
    obtain x y where xy: "wa = I64 x" "wb = I64 y" using A(3) B(3) n n64 by (cases wa; cases wb) auto
    have w': "w = I64 (warith (unat op - 0x7c) x y)" using w op xy by (auto simp: wbinary_def)
    note ar = wrap_arith64(1,2) [OF op, of x y] wrap_arith64(3) [OF op]
    have "denotes \<rho> (''('' @ arithmeticOperator op @ '' '' @ expr a @ '' '' @ expr b @ '')'') (SV w)"
      by (rule denotes_op [OF A(2) B(2)]) (use ar xy w' in auto)
    moreover have "repr \<rho> (typedConstant (wrappedArithmetic x y op 64) 64) w"
      using repr_typedConstant(2) [of \<rho> "wrappedArithmetic x y op 64"] ar(1) w' by simp
    ultimately show ?thesis using A(4) B(4) xy w' n64 by auto
  qed
  let ?e = "\<lparr>expr = ''('' @ arithmeticOperator op @ '' '' @ expr a @ '' '' @ expr b @ '')'', known = None, boolean = False, bits = n\<rparr>"
  have "repr \<rho> ?e w" using den by (simp add: repr_def)
  then show ?thesis using den by (cases "known a"; cases "known b") simp_all
qed

lemma eqz_value:
  assumes v: "repr \<rho> v wv" and width: "\<not> ((op = 0x45 \<and> bits v \<noteq> 32) \<or> (op = 0x50 \<and> bits v \<noteq> 64))"
    and op: "op = 0x45 \<or> op = 0x50" and w: "weqz (unat op) wv = Some w"
  shows "repr \<rho> (boolValue (''(= '' @ expr v @ '' '' @ zeroExpr v @ '')'') (map_option (\<lambda>k. k = 0) (known v))) w"
proof -
  have pos: "bits v \<noteq> 0" using width op by auto
  note V = repr_numeric [OF v pos]
  have "extend (I32 x) = 0 \<longleftrightarrow> x = 0" for x using scast32_inj [of x 0] by simp
  then have w': "w = wbool (extend wv = 0)" using w by (cases wv) (auto simp: weqz_def split: if_splits)
  show ?thesis
    unfolding w' by (rule repr_boolValue [OF denotes_zero_test [OF V(2,3)]]) (use V(4) in auto)
qed

section \<open>States\<close>

definition srepr :: "(nat \<Rightarrow> wval) \<Rightarrow> symbolicState \<Rightarrow> wstate \<Rightarrow> bool" where
  "srepr \<rho> s c \<longleftrightarrow> list_all2 (repr \<rho>) (slocals s) (fst c) \<and> list_all2 (repr \<rho>) (stack s) (snd c)"

lemma srepr_push: "srepr \<rho> s (ls, st) \<Longrightarrow> repr \<rho> v w \<Longrightarrow> srepr \<rho> (push v s) (ls, st @ [w])"
  by (simp add: srepr_def push_def list_all2_appendI)

lemma srepr_pop:
  assumes "srepr \<rho> s (ls, st)" "pop s = Inr (v, s1)"
  shows "st \<noteq> []" "repr \<rho> v (last st)" "srepr \<rho> s1 (ls, butlast st)" "constraints s1 = constraints s" "depth s1 = depth s"
proof -
  have s: "stack s \<noteq> []" "v = last (stack s)" "s1 = s\<lparr>stack := butlast (stack s)\<rparr>"
    using assms(2) by (auto simp: pop_def split: if_splits)
  then obtain vs where vs: "stack s = vs @ [v]" by (metis append_butlast_last_id)
  then obtain ws w where ws: "st = ws @ [w]" "list_all2 (repr \<rho>) vs ws" "repr \<rho> v w"
    using assms(1) by (auto simp: srepr_def list_all2_append1 list_all2_Cons1)
  show "st \<noteq> []" "repr \<rho> v (last st)" "srepr \<rho> s1 (ls, butlast st)" "constraints s1 = constraints s" "depth s1 = depth s"
    using assms(1) s(3) vs ws by (simp_all add: srepr_def)
qed

lemma exec_local:
  assumes "srepr \<rho> s c" "executeLocal s ins = Inr s'" "opcode ins = 0x20 \<or> opcode ins = 0x21 \<or> opcode ins = 0x22" "wstep ins c = Some c'"
  shows "srepr \<rho> s' c' \<and> constraints s' = constraints s \<and> depth s' = depth s"
proof -
  obtain ls st where c: "c = (ls, st)" by (cases c)
  let ?i = "unat (index ins)"
  have len: "length (slocals s) = length ls" using assms(1) by (auto simp: srepr_def c dest: list_all2_lengthD)
  show ?thesis
  proof (cases "opcode ins = 0x20")
    case True
    have i: "?i < length ls" "c' = (ls, st @ [ls ! ?i])" "s' = push (slocals s ! ?i) s"
      using assms True len by (auto simp: executeLocal_def wstep_def c split: if_splits)
    then have "repr \<rho> (slocals s ! ?i) (ls ! ?i)" using assms(1) len by (auto simp: srepr_def c list_all2_conv_all_nth)
    then show ?thesis using srepr_push [OF assms(1) [unfolded c]] i by (simp add: push_def)
  next
    case False
    with assms(2) obtain v s1 where p: "pop s = Inr (v, s1)" by (auto simp: executeLocal_def split: sum.splits)
    note P = srepr_pop [OF assms(1) [unfolded c] p]
    have len1: "length (slocals s1) = length ls" using P(3) by (auto simp: srepr_def dest: list_all2_lengthD)
    let ?s2 = "s1\<lparr>slocals := (slocals s1)[?i := v]\<rparr>"
    have i: "?i < length ls" "s' = (if opcode ins = 0x22 then push v ?s2 else ?s2)"
      using assms(2) False p len1 by (auto simp: executeLocal_def Let_def split: if_splits)
    have s2: "srepr \<rho> ?s2 (ls[?i := last st], butlast st)"
      using P(2,3) by (simp add: srepr_def list_all2_update_cong)
    have "st = butlast st @ [last st]" using P(1) by simp
    then have "srepr \<rho> (push v ?s2) (ls[?i := last st], st)" using srepr_push [OF s2 P(2)] by metis
    then show ?thesis
      using s2 i assms(3,4) False P by (auto simp: wstep_def c push_def split: if_splits)
  qed
qed

lemma exec_const:
  assumes "srepr \<rho> s c" "opcode ins = 0x41 \<or> opcode ins = 0x42" "executeInstruction s ins = Inr s'" "wstep ins c = Some c'"
  shows "srepr \<rho> s' c' \<and> constraints s' = constraints s \<and> depth s' = depth s"
  using assms srepr_push [OF _ repr_typedConstant(1)] srepr_push [OF _ repr_typedConstant(2)]
  by (cases c) (auto simp: executeInstruction_def wstep_def push_def)

lemma exec_eqz:
  assumes "srepr \<rho> s c" "op = 0x45 \<or> op = 0x50" "opcode ins = op" "executeEqz s op = Inr s'" "wstep ins c = Some c'"
  shows "srepr \<rho> s' c' \<and> constraints s' = constraints s \<and> depth s' = depth s"
proof -
  obtain ls st where c: "c = (ls, st)" by (cases c)
  obtain v s1 where p: "pop s = Inr (v, s1)" using assms(4) by (auto simp: executeEqz_def split: sum.splits)
  note P = srepr_pop [OF assms(1) [unfolded c] p]
  let ?v = "boolValue (''(= '' @ expr v @ '' '' @ zeroExpr v @ '')'') (map_option (\<lambda>k. k = 0) (known v))"
  have s': "\<not> ((op = 0x45 \<and> bits v \<noteq> 32) \<or> (op = 0x50 \<and> bits v \<noteq> 64))" "s' = push ?v s1"
    using assms(4) p by (auto simp: executeEqz_def split: if_splits)
  obtain w where w: "weqz (unat op) (last st) = Some w" "c' = (ls, butlast st @ [w])"
    using assms(2,3,5) by (auto simp: wstep_def c split: if_splits)
  show ?thesis
    using srepr_push [OF P(3) eqz_value [OF P(2) s'(1) assms(2) w(1)]] s'(2) w(2) P(4,5) by (simp add: push_def)
qed

lemma srepr_pop2:
  assumes "srepr \<rho> s (ls, st)" "pop s = Inr (b, s1)" "pop s1 = Inr (a, s2)"
  shows "length st \<ge> 2" "repr \<rho> b (last st)" "repr \<rho> a (st ! (length st - 2))" "srepr \<rho> s2 (ls, take (length st - 2) st)"
    "constraints s2 = constraints s" "depth s2 = depth s"
proof -
  note P = srepr_pop [OF assms(1,2)]
  note Q = srepr_pop [OF P(3) assms(3)]
  obtain zs y z where st: "st = zs @ [y, z]"
    using P(1) Q(1) by (metis append.assoc append_Cons append_butlast_last_id append_Nil)
  show "length st \<ge> 2" "repr \<rho> b (last st)" "repr \<rho> a (st ! (length st - 2))" "srepr \<rho> s2 (ls, take (length st - 2) st)"
    "constraints s2 = constraints s" "depth s2 = depth s"
    using P Q by (auto simp: st nth_append butlast_append)
qed

lemma exec_binary:
  assumes "srepr \<rho> s c" "opcode ins = op" "wstep ins c = Some c'"
    and "(op \<in> set compare_ops \<and> executeCompare s op = Inr s') \<or> (op \<in> {0x6a, 0x6b, 0x6c, 0x7c, 0x7d, 0x7e} \<and> executeArithmetic s op = Inr s')"
  shows "srepr \<rho> s' c' \<and> constraints s' = constraints s \<and> depth s' = depth s"
proof -
  obtain ls st where c: "c = (ls, st)" by (cases c)
  obtain b s1 a s2 where p: "pop s = Inr (b, s1)" "pop s1 = Inr (a, s2)"
    using assms(4) by (auto simp: executeCompare_def executeArithmetic_def split: sum.splits)
  note P = srepr_pop2 [OF assms(1) [unfolded c] p]
  have small: "unat op \<notin> {0x20, 0x21, 0x22, 0x41, 0x42, 0x1a, 0x45, 0x50}" using assms(4) by (auto simp: compare_ops_def)
  then obtain w where w: "wbinary (unat op) (st ! (length st - 2)) (last st) = Some w" "c' = (ls, take (length st - 2) st @ [w])"
    using assms(2,3) by (auto simp: wstep_def c split: if_splits)
  from assms(4) show ?thesis
  proof
    assume C: "op \<in> set compare_ops \<and> executeCompare s op = Inr s'"
    then obtain opr where opr: "bits a \<noteq> 0" "bits a = bits b" "comparisonOperator op = Some opr"
      "s' = push (boolValue (''('' @ opr @ '' '' @ expr a @ '' '' @ expr b @ '')'')
         (case (known a, known b) of (Some x, Some y) \<Rightarrow> Some (compare op x y (bits a)) | _ \<Rightarrow> None)) s2"
      using p by (auto simp: executeCompare_def split: if_splits option.splits)
    show ?thesis
      using srepr_push [OF P(4) compare_value [OF P(3) P(2) conjunct1 [OF C] opr(1,2) w(1) opr(3)]] opr(4) w(2) P(5,6)
      by (simp add: push_def)
  next
    assume A: "op \<in> {0x6a, 0x6b, 0x6c, 0x7c, 0x7d, 0x7e} \<and> executeArithmetic s op = Inr s'"
    then obtain n where n: "arithmeticWidth op = Some n" "bits a = n" "bits b = n"
      "s' = push (case (known a, known b) of
          (Some x, Some y) \<Rightarrow> typedConstant (wrappedArithmetic x y op n) n
        | _ \<Rightarrow> \<lparr>expr = ''('' @ arithmeticOperator op @ '' '' @ expr a @ '' '' @ expr b @ '')'', known = None, boolean = False, bits = n\<rparr>) s2"
      using p by (auto simp: executeArithmetic_def split: if_splits option.splits)
    show ?thesis
      using srepr_push [OF P(4) arithmetic_value [OF P(3) P(2) n(1-3) w(1)]] n(4) w(2) P(5,6) by (simp add: push_def)
  qed
qed

lemma executeInstruction_keeps:
  "executeInstruction s ins = Inr s' \<Longrightarrow> constraints s' = constraints s \<and> depth s' = depth s"
  by (auto simp: executeInstruction_def executeLocal_def executeEqz_def executeCompare_def executeArithmetic_def pop_def push_def Let_def
      split: if_splits option.splits sum.splits)

lemma exec_sim:
  assumes "srepr \<rho> s c" "executeInstruction s ins = Inr s'" "wstep ins c = Some c'"
  shows "srepr \<rho> s' c'"
proof -
  let ?op = "opcode ins"
  consider (local) "?op = 0x20 \<or> ?op = 0x21 \<or> ?op = 0x22" "executeLocal s ins = Inr s'"
    | (const) "?op = 0x41 \<or> ?op = 0x42"
    | (eqz) "?op = 0x45 \<or> ?op = 0x50" "executeEqz s ?op = Inr s'"
    | (binary) "(?op \<in> set compare_ops \<and> executeCompare s ?op = Inr s') \<or> (?op \<in> {0x6a, 0x6b, 0x6c, 0x7c, 0x7d, 0x7e} \<and> executeArithmetic s ?op = Inr s')"
    | (drop) v s1 where "?op = 0x1a" "pop s = Inr (v, s1)" "s' = s1"
    using assms(2) by (auto simp: executeInstruction_def Let_def split: if_splits sum.splits)
  then show ?thesis
  proof cases
    case local
    then show ?thesis using exec_local [OF assms(1) local(2,1) assms(3)] by simp
  next
    case const
    then show ?thesis using exec_const [OF assms(1) const assms(2,3)] by simp
  next
    case eqz
    then show ?thesis using exec_eqz [OF assms(1) eqz(1) refl eqz(2) assms(3)] by simp
  next
    case binary
    then show ?thesis using exec_binary [OF assms(1) refl assms(3) binary] by simp
  next
    case drop
    obtain ls st where c: "c = (ls, st)" by (cases c)
    have "c' = (ls, butlast st)" using drop(1) assms(3) by (auto simp: wstep_def c split: if_splits)
    then show ?thesis using srepr_pop(3) [OF assms(1) [unfolded c] drop(2)] drop(3) by simp
  qed
qed

end
