(* ===== verification/SymPaths.thy ===== *)
theory SymPaths
  imports SymSound "HOL-Library.Sublist"
begin

text \<open>
  The exploration of \<open>run\<close>: every state it returns comes from one of its initial states and represents the
  concrete execution of every assignment that satisfies its constraints; and no concrete execution that fits
  the depth limit is lost, if the solver only calls unsatisfiable what is.
\<close>

section \<open>What one step of the inner loop does\<close>

definition branch_run :: "sym_env \<Rightarrow> instruction list \<Rightarrow> symbolicState option \<Rightarrow> executor \<Rightarrow> symbolicState list \<Rightarrow> executor \<Rightarrow> bool" where
  "branch_run env code c e out e' \<longleftrightarrow> (case c of None \<Rightarrow> out = [] \<and> e' = e | Some cand \<Rightarrow> run env code [cand] e = Inr (out, e'))"

abbreviation deeper :: "symbolicState \<Rightarrow> symbolicState" where
  "deeper st \<equiv> st\<lparr>depth := depth st + 1\<rparr>"

abbreviation polled :: "executor \<Rightarrow> executor" where
  "polled e \<equiv> e\<lparr>polls := polls e + 1\<rparr>"

lemma stepStates_elim:
  assumes "stepStates env ins (st0 # states) e0 = Inr (out, e')"
  obtains (deep) "depth st0 + 1 > maxDepth e0" "stepStates env ins states ((polled e0)\<lparr>pruned := pruned e0 + 1\<rparr>) = Inr (out, e')"
    | (cond) v st c1 e1 f1 e2 c2 e3 f2 e4 rest where
        "depth st0 + 1 \<le> maxDepth e0" "opcode ins = 0x04" "pop (deeper st0) = Inr (v, st)"
        "enterBranch env True v st (polled e0) = Inr (c1, e1)" "branch_run env (thenB ins) c1 e1 f1 e2"
        "enterBranch env False v st e2 = Inr (c2, e3)" "branch_run env (otherwiseB ins) c2 e3 f2 e4"
        "stepStates env ins states e4 = Inr (rest, e')" "out = f1 @ f2 @ rest"
    | (plain) st rest where "depth st0 + 1 \<le> maxDepth e0" "opcode ins \<noteq> 0x04" "executeInstruction (deeper st0) ins = Inr st"
        "stepStates env ins states (polled e0) = Inr (rest, e')" "out = st # rest"
proof (cases "ctx_err env (polls e0) \<or> depth st0 + 1 > maxDepth e0")
  case True
  then show thesis using assms deep by (auto simp: stepStates.simps Let_def split: if_splits)
next
  case ok: False
  show thesis
  proof (cases "opcode ins = 0x04")
    case False
    with ok assms show thesis
      by (auto simp: stepStates.simps Let_def split: sum.splits intro: plain)
  next
    case True
    with ok assms obtain v st where p: "pop (deeper st0) = Inr (v, st)"
      by (auto simp: stepStates.simps Let_def split: sum.splits)
    with True ok assms obtain c1 e1 where b1: "enterBranch env True v st (polled e0) = Inr (c1, e1)"
      by (auto simp: stepStates.simps Let_def split: sum.splits)
    with True ok assms p obtain f1 e2 where r1: "branch_run env (thenB ins) c1 e1 f1 e2"
      "(case c1 of None \<Rightarrow> Inr ([], e1) | Some cand \<Rightarrow> run env (thenB ins) [cand] e1) = Inr (f1, e2)"
      by (cases c1) (auto simp: stepStates.simps Let_def branch_run_def split: sum.splits)
    with True ok assms p b1 obtain c2 e3 where b2: "enterBranch env False v st e2 = Inr (c2, e3)"
      by (auto simp: stepStates.simps Let_def split: sum.splits)
    with True ok assms p b1 r1 obtain f2 e4 where r2: "branch_run env (otherwiseB ins) c2 e3 f2 e4"
      "(case c2 of None \<Rightarrow> Inr ([], e3) | Some cand \<Rightarrow> run env (otherwiseB ins) [cand] e3) = Inr (f2, e4)"
      by (cases c2) (auto simp: stepStates.simps Let_def branch_run_def split: sum.splits)
    with True ok assms p b1 r1 b2 obtain rest where "stepStates env ins states e4 = Inr (rest, e')" "out = f1 @ f2 @ rest"
      by (auto simp: stepStates.simps Let_def split: sum.splits)
    with True ok p b1 r1 b2 r2 show thesis by (intro cond) auto
  qed
qed

definition branch_constraint :: "bool \<Rightarrow> symbolicValue \<Rightarrow> string" where
  "branch_constraint yes v = (if yes then condition v else ''(not '' @ condition v @ '')'')"

lemma enterBranch_candidate:
  "enterBranch env yes v st e = Inr (Some cand, e') \<Longrightarrow> cand = st\<lparr>constraints := constraints st @ [branch_constraint yes v]\<rparr>"
  by (auto simp: enterBranch_def branch_constraint_def Let_def split: if_splits prod.splits sum.splits)

lemma denotes_branch:
  assumes "repr \<rho> v (I32 x)"
  shows "denotes \<rho> (branch_constraint yes v) (SB True) \<longleftrightarrow> (x \<noteq> 0) = yes"
proof -
  have "denotes \<rho> (branch_constraint yes v) (SB ((x \<noteq> 0) = yes))"
    using denotes_condition [OF assms] denotes_not [OF denotes_condition [OF assms]] by (auto simp: branch_constraint_def)
  then show ?thesis using denotes_unique by force
qed

lemma asserts_snoc: "asserts \<rho> (cs @ [c]) \<longleftrightarrow> asserts \<rho> cs \<and> denotes \<rho> c (SB True)"
  by (auto simp: asserts_def)

lemma asserts_prefix: "asserts \<rho> cs' \<Longrightarrow> prefix cs cs' \<Longrightarrow> asserts \<rho> cs"
  by (auto simp: asserts_def prefix_def)

lemma wexec_Cons: "wexec (ins # program) c = (case wexec [ins] c of None \<Rightarrow> None | Some c' \<Rightarrow> wexec program c')"
  by (auto split: option.splits)

lemma srepr_wpop:
  assumes "srepr \<rho> s c" "pop s = Inr (v, s1)" "wpop_i32 c = Some (x, c1)"
  shows "repr \<rho> v (I32 x)" "srepr \<rho> s1 c1"
proof -
  obtain ls st where c: "c = (ls, st)" by (cases c)
  note P = srepr_pop [OF assms(1) [unfolded c] assms(2)]
  show "repr \<rho> v (I32 x)" "srepr \<rho> s1 c1"
    using P assms(3) by (auto simp: wpop_i32_def c split: if_splits wval.splits)
qed

lemma srepr_deeper [simp]: "srepr \<rho> (st\<lparr>depth := d\<rparr>) c = srepr \<rho> st c" "srepr \<rho> (st\<lparr>constraints := cs\<rparr>) c = srepr \<rho> st c"
  by (simp_all add: srepr_def)

section \<open>Soundness\<close>

text \<open>A state comes from another by a program: its constraints extend the other's, and it represents what the program computes.\<close>

definition origin :: "instruction list \<Rightarrow> symbolicState \<Rightarrow> symbolicState \<Rightarrow> bool" where
  "origin program st st' \<longleftrightarrow> prefix (constraints st) (constraints st') \<and>
     (\<forall>\<rho> c c'. asserts \<rho> (constraints st') \<longrightarrow> srepr \<rho> st c \<longrightarrow> wexec program c = Some c' \<longrightarrow> srepr \<rho> st' c')"

definition run_sound :: "instruction list \<Rightarrow> bool" where
  "run_sound program \<longleftrightarrow> (\<forall>env states e out e'. run env program states e = Inr (out, e') \<longrightarrow>
     (\<forall>st' \<in> set out. \<exists>st \<in> set states. origin program st st'))"

definition step_sound :: "instruction \<Rightarrow> bool" where
  "step_sound ins \<longleftrightarrow> (\<forall>env states e out e'. stepStates env ins states e = Inr (out, e') \<longrightarrow>
     (\<forall>st' \<in> set out. \<exists>st \<in> set states. origin [ins] st st'))"

lemma run_soundD: "run_sound program \<Longrightarrow> run env program states e = Inr (out, e') \<Longrightarrow> st' \<in> set out \<Longrightarrow> \<exists>st \<in> set states. origin program st st'"
  unfolding run_sound_def by blast

lemma step_soundD: "step_sound ins \<Longrightarrow> stepStates env ins states e = Inr (out, e') \<Longrightarrow> st' \<in> set out \<Longrightarrow> \<exists>st \<in> set states. origin [ins] st st'"
  unfolding step_sound_def by blast

lemma originD:
  assumes "origin program st st'"
  shows "prefix (constraints st) (constraints st')"
    and "asserts \<rho> (constraints st') \<Longrightarrow> srepr \<rho> st c \<Longrightarrow> wexec program c = Some c' \<Longrightarrow> srepr \<rho> st' c'"
  using assms unfolding origin_def by blast+

lemma origin_trans:
  assumes "origin [ins] st st1" "origin program st1 st2" shows "origin (ins # program) st st2"
  unfolding origin_def
proof (intro conjI allI impI)
  show "prefix (constraints st) (constraints st2)"
    using originD(1) [OF assms(1)] originD(1) [OF assms(2)] by simp
  fix \<rho> c c'
  assume a: "asserts \<rho> (constraints st2)" and r: "srepr \<rho> st c" and w: "wexec (ins # program) c = Some c'"
  then obtain c1 where c1: "wexec [ins] c = Some c1" "wexec program c1 = Some c'"
    unfolding wexec_Cons [of ins program] by (auto split: option.splits)
  have "asserts \<rho> (constraints st1)" by (rule asserts_prefix [OF a originD(1) [OF assms(2)]])
  from originD(2) [OF assms(1) this r c1(1)] show "srepr \<rho> st2 c'" by (rule originD(2) [OF assms(2) a _ c1(2)])
qed

lemma run_sound_steps: "(\<And>ins. ins \<in> set program \<Longrightarrow> step_sound ins) \<Longrightarrow> run_sound program"
proof (induction program)
  case Nil
  then show ?case by (auto simp: run_sound_def run.simps origin_def)
next
  case (Cons ins program)
  show ?case
    unfolding run_sound_def
  proof (intro allI impI ballI)
    fix env states e out e' st'
    assume "run env (ins # program) states e = Inr (out, e')" and st': "st' \<in> set out"
    then obtain mid e1 where m: "stepStates env ins states e = Inr (mid, e1)" "run env program mid e1 = Inr (out, e')"
      by (auto simp: run.simps split: sum.splits)
    have "run_sound program" using Cons by simp
    from run_soundD [OF this m(2) st'] obtain st1 where st1: "st1 \<in> set mid" "origin program st1 st'" by blast
    moreover have "step_sound ins" using Cons.prems by simp
    from step_soundD [OF this m(1) st1(1)] obtain st where "st \<in> set states" "origin [ins] st st1" by blast
    ultimately show "\<exists>st \<in> set states. origin (ins # program) st st'" using origin_trans by blast
  qed
qed

lemma branch_origin:
  assumes "run_sound code" "code = (if yes then thenB ins else otherwiseB ins)" "opcode ins = 0x04"
    and "pop (deeper st0) = Inr (v, st)" "enterBranch env yes v st e = Inr (c1, e1)" "branch_run env code c1 e1 out e2" "st' \<in> set out"
  shows "origin [ins] st0 st'"
proof -
  obtain cand where cand: "c1 = Some cand" "run env code [cand] e1 = Inr (out, e2)"
    using assms(6,7) by (auto simp: branch_run_def split: option.splits)
  have cc: "cand = st\<lparr>constraints := constraints st @ [branch_constraint yes v]\<rparr>"
    using assms(5) cand(1) by (simp add: enterBranch_candidate)
  have o: "origin code cand st'" using run_soundD [OF assms(1) cand(2) assms(7)] by simp
  have st: "constraints st = constraints st0"
    using assms(4) by (auto simp: pop_def split: if_splits)
  show ?thesis
    unfolding origin_def
  proof (intro conjI allI impI)
    show "prefix (constraints st0) (constraints st')"
      using originD(1) [OF o] cc st by (auto simp: prefix_def)
    fix \<rho> c c'
    assume a: "asserts \<rho> (constraints st')" and r: "srepr \<rho> st0 c" and w: "wexec [ins] c = Some c'"
    obtain x c1' where x: "wpop_i32 c = Some (x, c1')" "wexec (if x \<noteq> 0 then thenB ins else otherwiseB ins) c1' = Some c'"
      using w assms(3) by (auto split: option.splits)
    have rv: "repr \<rho> v (I32 x)" "srepr \<rho> st c1'"
      using srepr_wpop [OF _ assms(4) x(1), of \<rho>] r by simp_all
    have "asserts \<rho> (constraints cand)" by (rule asserts_prefix [OF a originD(1) [OF o]])
    then have "(x \<noteq> 0) = yes" using denotes_branch [OF rv(1)] by (auto simp: cc asserts_snoc)
    then have "wexec code c1' = Some c'" using x(2) assms(2) by auto
    moreover have "srepr \<rho> cand c1'" using rv(2) cc by simp
    ultimately show "srepr \<rho> st' c'" by (intro originD(2) [OF o a])
  qed
qed

lemma step_sound_branches:
  assumes "run_sound (thenB ins)" "run_sound (otherwiseB ins)"
  shows "stepStates env ins states e = Inr (out, e') \<Longrightarrow> st' \<in> set out \<Longrightarrow> \<exists>st \<in> set states. origin [ins] st st'"
proof (induction states arbitrary: e out)
  case Nil
  then show ?case by (simp add: stepStates.simps)
next
  case (Cons st0 states)
  from Cons.prems(1) show ?case
  proof (cases rule: stepStates_elim)
    case deep
    then show ?thesis using Cons.IH Cons.prems(2) by auto
  next
    case (cond v st c1 e1 f1 e2 c2 e3 f2 e4 rest)
    consider "st' \<in> set f1" | "st' \<in> set f2" | "st' \<in> set rest" using Cons.prems(2) cond(9) by auto
    then show ?thesis
    proof cases
      case 1
      from branch_origin [OF assms(1) _ cond(2,3,4,5) this] show ?thesis by auto
    next
      case 2
      from branch_origin [OF assms(2) _ cond(2,3,6,7) this] show ?thesis by auto
    next
      case 3
      then show ?thesis using Cons.IH cond(8) by auto
    qed
  next
    case (plain st rest)
    show ?thesis
    proof (cases "st' = st")
      case True
      have "origin [ins] st0 st"
        using executeInstruction_keeps [OF plain(3)] exec_sim [OF _ plain(3)] plain(2)
        by (auto simp: origin_def split: option.splits)
      with True show ?thesis by auto
    next
      case False
      then show ?thesis using Cons.IH plain(4,5) Cons.prems(2) by auto
    qed
  qed
qed

lemma step_sound_all: "step_sound ins"
proof (induction ins)
  case (Instr op i v t f)
  then have "run_sound t" "run_sound f" by (auto intro: run_sound_steps)
  then show ?case
    using step_sound_branches [of "Instr op i v t f"] unfolding step_sound_def by simp
qed

lemma run_sound_all: "run_sound program"
  by (rule run_sound_steps) (rule step_sound_all)

section \<open>A program determines its assertions\<close>

text \<open>The symbols are declared as bit-vectors, each once, and the assignment gives each a value of its declared width.\<close>

definition typed :: "symbols \<Rightarrow> (nat \<Rightarrow> wval) \<Rightarrow> bool" where
  "typed m \<rho> \<longleftrightarrow> distinct (map fst m) \<and>
     (\<forall>(x, v) \<in> set m. \<exists>i. x = ''arg'' @ Itoa (int i) \<and> v = GString (''BitVec_'' @ Itoa (int (width (\<rho> i)))))"

text \<open>Lines are separated by line feeds, and the line behind the assertions is empty.\<close>

definition inline :: "string \<Rightarrow> bool" where
  "inline l \<longleftrightarrow> l \<noteq> [] \<and> CHR 10 \<notin> set l"

lemma first_unique: "a @ x # r = a' @ x # r' \<Longrightarrow> x \<notin> set a \<Longrightarrow> x \<notin> set a' \<Longrightarrow> a = a' \<and> r = r'"
  by (induction a arbitrary: a') (auto simp: Cons_eq_append_conv)

lemma lines_unique:
  assumes "concat (map (\<lambda>l. l @ newline) ls) @ newline @ r = concat (map (\<lambda>l. l @ newline) ls') @ newline @ r'"
    and "list_all inline ls" "list_all inline ls'"
  shows "ls = ls' \<and> r = r'"
  using assms
proof (induction ls arbitrary: ls')
  case Nil
  then show ?case by (cases ls') (auto simp: newline_def inline_def Cons_eq_append_conv)
next
  case (Cons l ls)
  have nl: "l \<noteq> []" "CHR 10 \<notin> set l" using Cons.prems(2) by (auto simp: inline_def)
  show ?case
  proof (cases ls')
    case Nil
    then show ?thesis using Cons.prems(1) nl by (cases l) (auto simp: newline_def)
  next
    case (Cons l' ls'')
    have nl': "CHR 10 \<notin> set l'" using Cons.prems(3) Cons by (auto simp: inline_def)
    let ?f = "\<lambda>ls r. concat (map (\<lambda>l. l @ newline) ls) @ newline @ r"
    have "l @ CHR 10 # ?f ls r = l' @ CHR 10 # ?f ls'' r'" using Cons.prems(1) Cons by (simp add: newline_def)
    then have "l = l' \<and> ?f ls r = ?f ls'' r'" by (rule first_unique [OF _ nl(2) nl'])
    with Cons.IH [of ls''] Cons.prems(2,3) Cons show ?thesis by simp
  qed
qed

text \<open>The characters of printed expressions.\<close>

definition plain_text :: "string \<Rightarrow> bool" where
  "plain_text s \<longleftrightarrow> CHR 10 \<notin> set s \<and> CHR '':'' \<notin> set s"

lemma plain_Itoa: "plain_text (Itoa n)"
  unfolding plain_text_def using Itoa_no_char [of "CHR 10" n] Itoa_no_char [of "CHR '':''" n] by simp

lemma plain_render: "wf_smt t \<Longrightarrow> plain_text (render t)"
proof (induction t)
  case (TOp opr a b)
  moreover have "plain_text opr" using TOp.prems by (auto simp: plain_text_def bv_ops_def rel_ops_def)
  ultimately show ?case by (auto simp: plain_text_def)
qed (use plain_Itoa in \<open>auto simp: plain_text_def bv_literal_def\<close>)

lemma plain_denotes: "denotes \<rho> s v \<Longrightarrow> plain_text s"
  using plain_render by (auto simp: denotes_def)

lemma Contains_char: "Contains s p \<Longrightarrow> c \<in> set p \<Longrightarrow> c \<in> set s"
proof (induction s)
  case (Cons a s)
  have "take (length p) (a # s) = p \<Longrightarrow> c \<in> set (a # s)" using Cons.prems(2) by (metis in_set_takeD)
  with Cons show ?case by (auto simp: HasPrefix_def)
qed simp

lemma plain_unnamed: "list_all plain_text cs \<Longrightarrow> \<not> hasNamedAssertions (smt2Assertions cs)"
proof
  assume cs: "list_all plain_text cs" and "hasNamedAssertions (smt2Assertions cs)"
  then have "CHR '':'' \<in> set (smt2Assertions cs)" using Contains_char [of "smt2Assertions cs" "'':named''"] by (simp add: hasNamedAssertions_def)
  then show False using cs by (auto simp: smt2Assertions_def list_all_iff plain_text_def newline_def split: if_splits)
qed

text \<open>The lines of a program up to its empty line.\<close>

definition decl_line :: "symbols \<Rightarrow> string \<Rightarrow> string" where
  "decl_line m x = ''(declare-const '' @ x @ '' '' @ inferSort (the (map_of m x)) @ '')''"

definition assert_line :: "string \<Rightarrow> string" where
  "assert_line c = ''(assert '' @ c @ '')''"

definition program_lines :: "string list \<Rightarrow> symbols \<Rightarrow> string list" where
  "program_lines cs m = map (decl_line m) (sort (map fst m)) @ map assert_line cs"

lemma buildSMT2_lines:
  assumes "list_all plain_text cs"
  shows "buildSMT2 (smt2Assertions cs) m = concat (map (\<lambda>l. l @ newline) (program_lines cs m)) @ newline @
    ''(check-sat)'' @ newline @ ''(get-model)'' @ newline @ ''(exit)'' @ newline"
proof -
  have "declare_const m = (\<lambda>x. decl_line m x @ newline)" by (simp add: declare_const_def decl_line_def fun_eq_iff)
  moreover have "smt2Assertions cs = concat (map (\<lambda>l. l @ newline) (map assert_line cs))"
    by (simp add: smt2Assertions_def assert_line_def comp_def)
  ultimately show ?thesis
    using plain_unnamed [OF assms] by (simp add: buildSMT2_def program_lines_def comp_def)
qed

lemma typedD: "typed m \<rho> \<Longrightarrow> (x, v) \<in> set m \<Longrightarrow> \<exists>i. x = ''arg'' @ Itoa (int i) \<and> v = GString (''BitVec_'' @ Itoa (int (width (\<rho> i))))"
  unfolding typed_def by blast

lemma typed_decl_line:
  assumes "typed m \<rho>" "x \<in> fst ` set m"
  obtains i where "x = ''arg'' @ Itoa (int i)" "decl_line m x = ''(declare-const arg'' @ Itoa (int i) @ '' (_ BitVec '' @ Itoa (int (width (\<rho> i))) @ ''))''"
proof -
  obtain v where v: "(x, v) \<in> set m" using assms(2) by auto
  then obtain i where i: "x = ''arg'' @ Itoa (int i)" "v = GString (''BitVec_'' @ Itoa (int (width (\<rho> i))))"
    using typedD [OF assms(1)] by blast
  have "map_of m x = Some v" using v assms(1) by (simp add: typed_def)
  then have "decl_line m x = ''(declare-const arg'' @ Itoa (int i) @ '' (_ BitVec '' @ Itoa (int (width (\<rho> i))) @ ''))''"
    using i by (simp add: decl_line_def inferSort_def HasPrefix_def TrimPrefix_def)
  with i(1) show thesis by (rule that)
qed

lemma program_lines_inline: "typed m \<rho> \<Longrightarrow> list_all plain_text cs \<Longrightarrow> list_all inline (program_lines cs m)"
proof -
  assume t: "typed m \<rho>" and cs: "list_all plain_text cs"
  have "inline (decl_line m x)" if "x \<in> fst ` set m" for x
  proof (rule typed_decl_line [OF t that])
    fix i
    assume "decl_line m x = ''(declare-const arg'' @ Itoa (int i) @ '' (_ BitVec '' @ Itoa (int (width (\<rho> i))) @ ''))''"
    then show ?thesis using plain_Itoa [of "int i"] plain_Itoa [of "int (width (\<rho> i))"] by (simp add: inline_def plain_text_def)
  qed
  moreover have "inline (assert_line c)" if "c \<in> set cs" for c
    using cs that by (auto simp: inline_def assert_line_def plain_text_def list_all_iff)
  ultimately show ?thesis by (auto simp: program_lines_def list_all_iff)
qed

text \<open>Two programs with the same text assert the same and declare the same symbols.\<close>

lemma program_unique:
  assumes "buildSMT2 (smt2Assertions cs) m = buildSMT2 (smt2Assertions cs') m'" "typed m \<rho>" "typed m' \<rho>'"
    and "list_all plain_text cs" "list_all plain_text cs'"
  shows "cs = cs' \<and> typed m \<rho>'"
proof -
  have "program_lines cs m = program_lines cs' m'"
    using lines_unique [OF assms(1) [unfolded buildSMT2_lines [OF assms(4)] buildSMT2_lines [OF assms(5)]]
        program_lines_inline [OF assms(2,4)] program_lines_inline [OF assms(3,5)]] by blast
  moreover have "filter (\<lambda>l. take 2 l = ''(a'') (program_lines ds k) = map assert_line ds"
    "filter (\<lambda>l. take 2 l = ''(d'') (program_lines ds k) = map (decl_line k) (sort (map fst k))" for ds k
    by (simp_all add: program_lines_def filter_map comp_def assert_line_def decl_line_def)
  ultimately have c: "map assert_line cs = map assert_line cs'"
    and d: "map (decl_line m) (sort (map fst m)) = map (decl_line m') (sort (map fst m'))" by metis+
  have "inj assert_line" by (simp add: inj_def assert_line_def)
  then have "cs = cs'" using c by (simp add: inj_map_eq_map)
  moreover have "typed m \<rho>'"
    unfolding typed_def
  proof (intro conjI ballI)
    show "distinct (map fst m)" using assms(2) by (simp add: typed_def)
    fix xv assume xv: "xv \<in> set m"
    then have "(fst xv, snd xv) \<in> set m" by simp
    from typedD [OF assms(2) this] obtain i where "fst xv = ''arg'' @ Itoa (int i)" "snd xv = GString (''BitVec_'' @ Itoa (int (width (\<rho> i))))" by blast
    then have i: "xv = (''arg'' @ Itoa (int i), GString (''BitVec_'' @ Itoa (int (width (\<rho> i)))))" by (simp only: prod_eq_iff fst_conv snd_conv simp_thms)
    have "decl_line m (fst xv) \<in> set (map (decl_line m') (sort (map fst m')))" using xv unfolding d [symmetric] by simp
    then obtain x' where x': "x' \<in> fst ` set m'" "decl_line m' x' = decl_line m (fst xv)"
      unfolding set_map set_sort by (metis imageE)
    obtain j where j: "decl_line m (fst xv) = ''(declare-const arg'' @ Itoa (int j) @ '' (_ BitVec '' @ Itoa (int (width (\<rho> j))) @ ''))''" "fst xv = ''arg'' @ Itoa (int j)"
      by (rule typed_decl_line [OF assms(2), of "fst xv"]) (use xv in auto)
    obtain k where k: "decl_line m' x' = ''(declare-const arg'' @ Itoa (int k) @ '' (_ BitVec '' @ Itoa (int (width (\<rho>' k))) @ ''))''"
      by (rule typed_decl_line [OF assms(3) x'(1)])
    have "i = j" using i j(2) by (simp add: Itoa_inj)
    have "Itoa (int i) @ CHR '' '' # ''(_ BitVec '' @ Itoa (int (width (\<rho> i))) @ ''))'' = Itoa (int k) @ CHR '' '' # ''(_ BitVec '' @ Itoa (int (width (\<rho>' k))) @ ''))''"
      using x'(2) j(1) k \<open>i = j\<close> by simp
    from atom_unique [OF this ends_simps(1) ends_simps(1) Itoa_atom Itoa_atom]
    have "i = k \<and> width (\<rho> i) = width (\<rho>' k)" by (auto simp: Itoa_inj)
    then show "case xv of (x, v) \<Rightarrow> \<exists>i. x = ''arg'' @ Itoa (int i) \<and> v = GString (''BitVec_'' @ Itoa (int (width (\<rho>' i))))"
      using i by auto
  qed
  ultimately show ?thesis by blast
qed

section \<open>A truthful solver\<close>

text \<open>
  A program has no model: no assignment of values to its symbols, of the declared widths, satisfies its assertions. By
  \<open>unsat_program_iff\<close> this depends on the text alone: the assertions and declarations behind it are determined by it.
\<close>

definition unsat_program :: "string \<Rightarrow> bool" where
  "unsat_program s \<longleftrightarrow> (\<forall>cs m \<rho>. s = buildSMT2 (smt2Assertions cs) m \<longrightarrow> typed m \<rho> \<longrightarrow> \<not> asserts \<rho> cs)"

lemma plain_asserts: "asserts \<rho> cs \<Longrightarrow> list_all plain_text cs"
  using plain_denotes by (auto simp: asserts_def list_all_iff)

lemma unsat_program_iff:
  assumes "typed m \<rho>0" "list_all plain_text cs"
  shows "unsat_program (buildSMT2 (smt2Assertions cs) m) \<longleftrightarrow> (\<forall>\<rho>. typed m \<rho> \<longrightarrow> \<not> asserts \<rho> cs)"
  using program_unique [OF _ assms(1) _ assms(2)] plain_asserts unfolding unsat_program_def by metis

text \<open>
  What is asked of the environment, for the programs \<open>S\<close>: when the process answers unsat, the program has no model, and
  the hash does not collide on them.
\<close>

definition truthful :: "sym_env \<Rightarrow> string set \<Rightarrow> bool" where
  "truthful env S \<longleftrightarrow> inj_on (sha env) S \<and>
     (\<forall>i. \<forall>s \<in> S. \<forall>sol. parseOutput (snd (z3_run (z3_calls env i) s)) = Inr sol \<longrightarrow> sol_Sat sol = ''unsat'' \<longrightarrow> unsat_program s)"

text \<open>No decision that the cache holds for one of the programs is a wrong unsat.\<close>

definition truthful_cache :: "sym_env \<Rightarrow> string set \<Rightarrow> DCache \<Rightarrow> bool" where
  "truthful_cache env S c \<longleftrightarrow> dcache_inv c \<and>
     (\<forall>h d. map_of (absl c) h = Some d \<longrightarrow> (\<forall>s \<in> S. h = sha env s \<longrightarrow> d_Sat d = ''unsat'' \<longrightarrow> unsat_program s))"

lemma truthful_cache_New: "truthful_cache env S (NewDCache n)"
  unfolding truthful_cache_def by (simp add: dcache_inv_New) (simp add: absl_def NewDCache_def)

lemma truthful_solve:
  assumes "truthful env S" "truthful_cache env S c" "buildSMT2 (smt2Assertions cs) m \<in> S"
    and "SolveConstraintsCtx (sha env) (z3_calls env i) (smt2Assertions cs) m c = (r, c')"
  shows "truthful_cache env S c' \<and> (\<forall>sol \<rho>. r = Inr sol \<longrightarrow> sol_Sat sol = ''unsat'' \<longrightarrow> typed m \<rho> \<longrightarrow> \<not> asserts \<rho> cs)"
proof -
  define q where "q = (z3_calls env i, smt2Assertions cs, m)"
  have q: "solve_query (sha env) q c = (r, c')" "script q = buildSMT2 (smt2Assertions cs) m" "script q \<in> S"
    using assms(3,4) by (simp_all add: q_def)
  let ?P = "\<lambda>h d. \<forall>s \<in> S. h = sha env s \<longrightarrow> d_Sat d = ''unsat'' \<longrightarrow> unsat_program s" and ?h = "sha env (script q)"
  have inv: "dcache_inv c" and P: "\<forall>h d. map_of (absl c) h = Some d \<longrightarrow> ?P h d"
    using assms(2) by (auto simp: truthful_cache_def)
  note inv' = solver_cache.get_good [OF inv, of ?h] and P' = solver_cache.get_provenance(2) [OF inv P, of ?h]
  have claim: "\<forall>sol \<rho>. r = Inr sol \<longrightarrow> sol_Sat sol = ''unsat'' \<longrightarrow> typed m \<rho> \<longrightarrow> \<not> asserts \<rho> cs"
    if "\<And>sol. r = Inr sol \<Longrightarrow> sol_Sat sol = ''unsat'' \<Longrightarrow> unsat_program (script q)"
    using that q(2) by (auto simp: unsat_program_def)
  from q(1) show ?thesis
  proof (cases rule: SolveConstraintsCtx_cases)
    case undecided
    then have "truthful_cache env S c'" using inv inv' P P' by (auto simp: truthful_cache_def)
    with undecided(1) claim show ?thesis by auto
  next
    case (hit d t)
    have "?P ?h d" by (rule solver_cache.get_provenance(1) [OF inv P hit(1)])
    then have "d_Sat d = ''unsat'' \<Longrightarrow> unsat_program (script q)" using q(3) by blast
    moreover have "truthful_cache env S c'" using hit(3) inv' P' by (auto simp: truthful_cache_def)
    ultimately show ?thesis using claim hit(2) by (auto simp: solutionFromDecision_def)
  next
    case (fresh sol)
    have u: "unsat_program (script q)" if "sol_Sat sol = ''unsat''"
    proof -
      obtain sol' where s: "parseOutput (snd (z3_run (z3_calls env i) (script q))) = Inr sol'"
        "decisionFromSolution sol' = decisionFromSolution sol"
        using fresh(1) unfolding q_def by (auto split: sum.splits)
      from s(2) that have "sol_Sat sol' = ''unsat''" by (simp add: decisionFromSolution_def)
      with s(1) assms(1) q(3) show ?thesis unfolding truthful_def by blast
    qed
    have "s = script q" if "s \<in> S" "?h = sha env s" for s
      using assms(1) q(3) that unfolding truthful_def by (metis inj_onD)
    then have "?P ?h (decisionFromSolution sol)" using u by (auto simp: decisionFromSolution_def)
    from solver_cache.put_provenance [OF inv' P' this] solver_cache.put_good [OF inv']
    have "truthful_cache env S c'" using fresh(3) by (auto simp: truthful_cache_def)
    with claim u fresh(2) show ?thesis by auto
  qed
qed

text \<open>
  What the executor keeps across calls: its limits and symbols, the programs asked so far, and a truthful cache as long as
  the programs asked are among \<open>S\<close>.
\<close>

definition keeps :: "sym_env \<Rightarrow> string set \<Rightarrow> executor \<Rightarrow> executor \<Rightarrow> bool" where
  "keeps env S e e' \<longleftrightarrow> maxDepth e' = maxDepth e \<and> symbols e' = symbols e \<and> set (asked e) \<subseteq> set (asked e') \<and>
     (set (asked e') \<subseteq> S \<longrightarrow> truthful_cache env S (dcache e) \<longrightarrow> truthful_cache env S (dcache e'))"

lemma keeps_trans: "keeps env S e e1 \<Longrightarrow> keeps env S e1 e2 \<Longrightarrow> keeps env S e e2"
  unfolding keeps_def by (metis subset_trans)

lemma keeps_counters [simp]:
  "keeps env S e (e\<lparr>polls := a\<rparr>)" "keeps env S e (e\<lparr>pruned := b\<rparr>)" "keeps env S e (e\<lparr>explored := b\<rparr>)" "keeps env S e e"
  by (simp_all add: keeps_def)

lemma keepsD: "keeps env S e e' \<Longrightarrow> set (asked e') \<subseteq> S \<Longrightarrow> set (asked e) \<subseteq> S"
  "keeps env S e e' \<Longrightarrow> set (asked e') \<subseteq> S \<Longrightarrow> truthful_cache env S (dcache e) \<Longrightarrow> truthful_cache env S (dcache e')"
  "keeps env S e e' \<Longrightarrow> symbols e' = symbols e" "keeps env S e e' \<Longrightarrow> maxDepth e' = maxDepth e"
  unfolding keeps_def by blast+

lemma feasibility_keeps:
  assumes "truthful env S" "feasibility env cs e = (r, e')"
  shows "keeps env S e e' \<and> (set (asked e') \<subseteq> S \<longrightarrow>
    truthful_cache env S (dcache e) \<longrightarrow> (\<forall>m \<rho>. r = Inr (False, m) \<longrightarrow> typed (symbols e) \<rho> \<longrightarrow> \<not> asserts \<rho> cs))"
proof (cases "cs = []")
  case True
  with assms(2) show ?thesis by (auto simp: feasibility_def)
next
  case False
  let ?s = "buildSMT2 (smt2Assertions cs) (symbols e)"
  obtain r0 c where s: "SolveConstraintsCtx (sha env) (z3_calls env (length (asked e))) (smt2Assertions cs) (symbols e) (dcache e) = (r0, c)"
    by fastforce
  have e': "e' = e\<lparr>asked := asked e @ [?s], dcache := c\<rparr>"
    and r: "\<And>m. r = Inr (False, m) \<Longrightarrow> \<exists>sol. r0 = Inr sol \<and> sol_Sat sol = ''unsat''"
    using assms(2) s False by (auto simp: feasibility_def Let_def split: sum.splits if_splits)
  show ?thesis
    using truthful_solve [OF assms(1) _ _ s] e' r by (auto simp: keeps_def)
qed

lemma enterBranch_keeps:
  assumes "truthful env S" "enterBranch env yes v st e = Inr (c, e')"
  shows "keeps env S e e' \<and> (c = None \<longrightarrow> set (asked e') \<subseteq> S \<longrightarrow> truthful_cache env S (dcache e) \<longrightarrow>
    (\<forall>\<rho>. typed (symbols e) \<rho> \<longrightarrow> \<not> asserts \<rho> (constraints st @ [branch_constraint yes v])))"
proof -
  let ?cs = "constraints st @ [branch_constraint yes v]" and ?e = "e\<lparr>explored := explored e + 1\<rparr>"
  show ?thesis
  proof (cases "prune e")
    case False
    then show ?thesis using assms(2) by (auto simp: enterBranch_def Let_def split: if_splits)
  next
    case True
    obtain r e1 where f: "feasibility env ?cs ?e = (r, e1)" by fastforce
    note F = feasibility_keeps [OF assms(1) f]
    have "keeps env S e e1" using F keeps_trans [OF keeps_counters(3)] by blast
    moreover have "keeps env S e (e1\<lparr>pruned := pruned e1 + 1\<rparr>)" by (rule keeps_trans [OF calculation keeps_counters(2)])
    moreover have "(\<exists>m. r = Inr (True, m) \<and> c \<noteq> None \<and> e' = e1) \<or> (\<exists>m. r = Inr (False, m) \<and> c = None \<and> e' = e1\<lparr>pruned := pruned e1 + 1\<rparr>)"
      using assms(2) f True by (auto simp: enterBranch_def branch_constraint_def Let_def split: if_splits sum.splits)
    ultimately show ?thesis using F by auto
  qed
qed

section \<open>Completeness\<close>

definition program_size :: "instruction list \<Rightarrow> int" where
  "program_size program = int (sum_list (map instr_size program))"

lemma program_size_simps [simp]:
  "program_size [] = 0" "program_size (ins # program) = int (instr_size ins) + program_size program"
  "0 \<le> program_size program"
  by (simp_all add: program_size_def)

lemma program_size_branches:
  "program_size (thenB ins) + 1 \<le> int (instr_size ins)" "program_size (otherwiseB ins) + 1 \<le> int (instr_size ins)"
  using instr_size_branches [of ins] by (simp_all add: program_size_def)

text \<open>An assignment whose concrete execution starts in \<open>st\<close> and fits the depth limit ends in one of the states \<open>out\<close>.\<close>

definition covered :: "sym_env \<Rightarrow> string set \<Rightarrow> instruction list \<Rightarrow> symbolicState \<Rightarrow> executor \<Rightarrow> symbolicState list \<Rightarrow> bool" where
  "covered env S program st e out \<longleftrightarrow> (\<forall>\<rho> c c'. truthful_cache env S (dcache e) \<longrightarrow> typed (symbols e) \<rho> \<longrightarrow>
     asserts \<rho> (constraints st) \<longrightarrow> srepr \<rho> st c \<longrightarrow> wexec program c = Some c' \<longrightarrow> depth st + program_size program \<le> maxDepth e \<longrightarrow>
     (\<exists>st' \<in> set out. asserts \<rho> (constraints st') \<and> srepr \<rho> st' c' \<and> depth st' \<le> depth st + program_size program))"

lemma coveredD:
  assumes "covered env S program st e out" "truthful_cache env S (dcache e)" "typed (symbols e) \<rho>" "asserts \<rho> (constraints st)"
    "srepr \<rho> st c" "wexec program c = Some c'" "depth st + program_size program \<le> maxDepth e"
  obtains st' where "st' \<in> set out" "asserts \<rho> (constraints st')" "srepr \<rho> st' c'" "depth st' \<le> depth st + program_size program"
  using assms unfolding covered_def by blast

lemma covered_mono: "covered env S program st e out \<Longrightarrow> set out \<subseteq> set out' \<Longrightarrow> covered env S program st e out'"
  unfolding covered_def by blast

lemma covered_keeps:
  assumes "covered env S program st e1 out" "keeps env S e e1" "set (asked e1) \<subseteq> S" shows "covered env S program st e out"
  using assms(1) keepsD(2) [OF assms(2,3)] unfolding covered_def keepsD(3,4) [OF assms(2)] by blast

definition run_complete :: "sym_env \<Rightarrow> string set \<Rightarrow> instruction list \<Rightarrow> bool" where
  "run_complete env S program \<longleftrightarrow> (\<forall>states e out e'. run env program states e = Inr (out, e') \<longrightarrow>
     keeps env S e e' \<and> (set (asked e') \<subseteq> S \<longrightarrow> (\<forall>st \<in> set states. covered env S program st e out)))"

definition step_complete :: "sym_env \<Rightarrow> string set \<Rightarrow> instruction \<Rightarrow> bool" where
  "step_complete env S ins \<longleftrightarrow> (\<forall>states e out e'. stepStates env ins states e = Inr (out, e') \<longrightarrow>
     keeps env S e e' \<and> (set (asked e') \<subseteq> S \<longrightarrow> (\<forall>st \<in> set states. covered env S [ins] st e out)))"

lemma run_completeD: "run_complete env S program \<Longrightarrow> run env program states e = Inr (out, e') \<Longrightarrow>
    keeps env S e e' \<and> (set (asked e') \<subseteq> S \<longrightarrow> (\<forall>st \<in> set states. covered env S program st e out))"
  unfolding run_complete_def by blast

lemma step_completeD: "step_complete env S ins \<Longrightarrow> stepStates env ins states e = Inr (out, e') \<Longrightarrow>
    keeps env S e e' \<and> (set (asked e') \<subseteq> S \<longrightarrow> (\<forall>st \<in> set states. covered env S [ins] st e out))"
  unfolding step_complete_def by blast

lemma covered_seq:
  assumes "covered env S [ins] st e mid" "\<forall>st1 \<in> set mid. covered env S program st1 e1 out" "keeps env S e e1" "set (asked e1) \<subseteq> S"
  shows "covered env S (ins # program) st e out"
  unfolding covered_def
proof (intro allI impI)
  fix \<rho> c c'
  assume t: "truthful_cache env S (dcache e)" and ty: "typed (symbols e) \<rho>" and a: "asserts \<rho> (constraints st)"
    and r: "srepr \<rho> st c" and w: "wexec (ins # program) c = Some c'" and d: "depth st + program_size (ins # program) \<le> maxDepth e"
  obtain c1 where c1: "wexec [ins] c = Some c1" "wexec program c1 = Some c'"
    using w unfolding wexec_Cons [of ins program] by (auto split: option.splits)
  have "depth st + program_size [ins] \<le> maxDepth e"
    using d program_size_simps(3) [of program] unfolding program_size_simps(1,2) by linarith
  from coveredD [OF assms(1) t ty a r c1(1) this] obtain st1 where
    s1: "st1 \<in> set mid" "asserts \<rho> (constraints st1)" "srepr \<rho> st1 c1" "depth st1 \<le> depth st + program_size [ins]" by blast
  have e1: "truthful_cache env S (dcache e1)" "typed (symbols e1) \<rho>" "depth st1 + program_size program \<le> maxDepth e1"
    using keepsD(2) [OF assms(3,4) t] keepsD(3,4) [OF assms(3)] ty s1(4) d by simp_all
  from coveredD [OF bspec [OF assms(2) s1(1)] e1(1,2) s1(2,3) c1(2) e1(3)] obtain st' where
    "st' \<in> set out" "asserts \<rho> (constraints st')" "srepr \<rho> st' c'" "depth st' \<le> depth st1 + program_size program" by blast
  then show "\<exists>st' \<in> set out. asserts \<rho> (constraints st') \<and> srepr \<rho> st' c' \<and> depth st' \<le> depth st + program_size (ins # program)"
    using s1(4) by (intro bexI [of _ st']) auto
qed

lemma run_complete_steps: "(\<And>ins. ins \<in> set program \<Longrightarrow> step_complete env S ins) \<Longrightarrow> run_complete env S program"
proof (induction program)
  case Nil
  show ?case by (auto simp: run_complete_def run.simps covered_def)
next
  case (Cons ins program)
  show ?case
    unfolding run_complete_def
  proof (intro allI impI)
    fix states e out e'
    assume "run env (ins # program) states e = Inr (out, e')"
    then obtain mid e1 where m: "stepStates env ins states e = Inr (mid, e1)" "run env program mid e1 = Inr (out, e')"
      by (auto simp: run.simps split: sum.splits)
    have S: "keeps env S e e1 \<and> (set (asked e1) \<subseteq> S \<longrightarrow> (\<forall>st \<in> set states. covered env S [ins] st e mid))"
      by (rule step_completeD [OF _ m(1)]) (simp add: Cons.prems)
    have R: "keeps env S e1 e' \<and> (set (asked e') \<subseteq> S \<longrightarrow> (\<forall>st \<in> set mid. covered env S program st e1 out))"
      by (rule run_completeD [OF _ m(2)]) (simp add: Cons)
    show "keeps env S e e' \<and> (set (asked e') \<subseteq> S \<longrightarrow> (\<forall>st \<in> set states. covered env S (ins # program) st e out))"
      using S R keeps_trans covered_seq keepsD(1) [of env S e1 e'] by blast
  qed
qed

lemma branch_run_keeps:
  assumes "run_complete env S code" "branch_run env code c e out e'" shows "keeps env S e e'"
  using assms run_completeD [OF assms(1)] by (auto simp: branch_run_def split: option.splits)

lemma branch_covered:
  assumes "truthful env S" "run_complete env S code"
    and "enterBranch env yes v st e = Inr (c1, e1)" "branch_run env code c1 e1 out e2"
    and "set (asked e2) \<subseteq> S" "truthful_cache env S (dcache e)" "typed (symbols e) \<rho>" "asserts \<rho> (constraints st @ [branch_constraint yes v])"
    and "srepr \<rho> st c" "wexec code c = Some c'" "depth st + program_size code \<le> maxDepth e"
  shows "\<exists>st' \<in> set out. asserts \<rho> (constraints st') \<and> srepr \<rho> st' c' \<and> depth st' \<le> depth st + program_size code"
proof -
  note K = enterBranch_keeps [OF assms(1,3)]
  have s1: "set (asked e1) \<subseteq> S" using keepsD(1) [OF branch_run_keeps [OF assms(2,4)] assms(5)] .
  have "c1 \<noteq> None" using K s1 assms(6,7,8) by blast
  then obtain cand where c1: "c1 = Some cand" by blast
  have cand: "cand = st\<lparr>constraints := constraints st @ [branch_constraint yes v]\<rparr>"
    using enterBranch_candidate assms(3) c1 by simp
  have r: "run env code [cand] e1 = Inr (out, e2)" using assms(4) c1 by (simp add: branch_run_def)
  have cov: "covered env S code cand e1 out" using run_completeD [OF assms(2) r] assms(5) by simp
  have k: "keeps env S e e1" using K by blast
  have e1: "truthful_cache env S (dcache e1)" "typed (symbols e1) \<rho>" "depth cand + program_size code \<le> maxDepth e1"
    using keepsD(2) [OF k s1 assms(6)] keepsD(3,4) [OF k] assms(7,11) cand by simp_all
  have c: "asserts \<rho> (constraints cand)" "srepr \<rho> cand c" using assms(8,9) cand by simp_all
  from coveredD [OF cov e1(1,2) c assms(10) e1(3)] show ?thesis using cand by auto
qed

lemma cond_covered:
  assumes tr: "truthful env S" and rc: "run_complete env S (thenB ins)" "run_complete env S (otherwiseB ins)"
    and op: "opcode ins = 0x04" and p: "pop (deeper st0) = Inr (v, st)" and d0: "depth st0 + 1 \<le> maxDepth e0"
    and b: "enterBranch env True v st (polled e0) = Inr (c1, e1)" "branch_run env (thenB ins) c1 e1 f1 e2"
      "enterBranch env False v st e2 = Inr (c2, e3)" "branch_run env (otherwiseB ins) c2 e3 f2 e4"
    and asked: "set (asked e4) \<subseteq> S"
  shows "covered env S [ins] st0 e0 (f1 @ f2)"
  unfolding covered_def
proof (intro allI impI)
  fix \<rho> c c'
  assume t: "truthful_cache env S (dcache e0)" and ty: "typed (symbols e0) \<rho>" and a: "asserts \<rho> (constraints st0)"
    and r: "srepr \<rho> st0 c" and w: "wexec [ins] c = Some c'" and d: "depth st0 + program_size [ins] \<le> maxDepth e0"
  obtain x c1' where x: "wpop_i32 c = Some (x, c1')" "wexec (if x \<noteq> 0 then thenB ins else otherwiseB ins) c1' = Some c'"
    using w op by (auto split: option.splits)
  have rv: "repr \<rho> v (I32 x)" "srepr \<rho> st c1'" using srepr_wpop [OF _ p x(1), of \<rho>] r by simp_all
  have st: "constraints st = constraints st0" "depth st = depth st0 + 1"
    using p by (auto simp: pop_def split: if_splits)
  have "keeps env S (polled e0) e1" "keeps env S e1 e2" "keeps env S e2 e3" "keeps env S e3 e4"
    using enterBranch_keeps [OF tr b(1)] branch_run_keeps [OF rc(1) b(2)] enterBranch_keeps [OF tr b(3)] branch_run_keeps [OF rc(2) b(4)] by auto
  then have k: "keeps env S (polled e0) e2" and asked2: "set (asked e2) \<subseteq> S" using keeps_trans keepsD(1) asked by blast+
  have e2: "truthful_cache env S (dcache e2)" "typed (symbols e2) \<rho>" "maxDepth e2 = maxDepth e0"
    using keepsD(2) [OF k asked2] keepsD(3,4) [OF k] t ty by simp_all
  note size = program_size_branches [of ins]
  show "\<exists>st' \<in> set (f1 @ f2). asserts \<rho> (constraints st') \<and> srepr \<rho> st' c' \<and> depth st' \<le> depth st0 + program_size [ins]"
  proof (cases "x = 0")
    case False
    have ac: "asserts \<rho> (constraints st @ [branch_constraint True v])"
      using a st(1) False denotes_branch [OF rv(1), of True] by (simp add: asserts_snoc)
    have w1: "wexec (thenB ins) c1' = Some c'" "depth st + program_size (thenB ins) \<le> maxDepth (polled e0)"
      using x(2) False d size st(2) by auto
    have t0: "truthful_cache env S (dcache (polled e0))" "typed (symbols (polled e0)) \<rho>" using t ty by simp_all
    from branch_covered [OF tr rc(1) b(1,2) asked2 t0 ac rv(2) w1] obtain st' where
      "st' \<in> set f1" "asserts \<rho> (constraints st')" "srepr \<rho> st' c'" "depth st' \<le> depth st + program_size (thenB ins)" by blast
    then show ?thesis using size st(2) by (intro bexI [of _ st']) auto
  next
    case True
    have ac: "asserts \<rho> (constraints st @ [branch_constraint False v])"
      using a st(1) True denotes_branch [OF rv(1), of False] by (simp add: asserts_snoc)
    have w1: "wexec (otherwiseB ins) c1' = Some c'" "depth st + program_size (otherwiseB ins) \<le> maxDepth e2"
      using x(2) True d size st(2) e2(3) by auto
    from branch_covered [OF tr rc(2) b(3,4) asked e2(1,2) ac rv(2) w1] obtain st' where
      "st' \<in> set f2" "asserts \<rho> (constraints st')" "srepr \<rho> st' c'" "depth st' \<le> depth st + program_size (otherwiseB ins)" by blast
    then show ?thesis using size st(2) by (intro bexI [of _ st']) auto
  qed
qed

lemma plain_covered:
  assumes "opcode ins \<noteq> 0x04" "executeInstruction (deeper st0) ins = Inr st"
  shows "covered env S [ins] st0 e0 [st]"
  unfolding covered_def
proof (intro allI impI)
  fix \<rho> c c'
  assume a: "asserts \<rho> (constraints st0)" and r: "srepr \<rho> st0 c" and w: "wexec [ins] c = Some c'"
  have "wstep ins c = Some c'" using w assms(1) by (auto split: option.splits)
  with exec_sim [OF _ assms(2), of \<rho> c c'] r have "srepr \<rho> st c'" by simp
  moreover have "1 \<le> instr_size ins" using instr_size_pos [of ins] by simp
  ultimately show "\<exists>st' \<in> set [st]. asserts \<rho> (constraints st') \<and> srepr \<rho> st' c' \<and> depth st' \<le> depth st0 + program_size [ins]"
    using executeInstruction_keeps [OF assms(2)] a by simp
qed

lemma step_complete_branches:
  assumes "truthful env S" "run_complete env S (thenB ins)" "run_complete env S (otherwiseB ins)"
  shows "stepStates env ins states e = Inr (out, e') \<Longrightarrow> keeps env S e e' \<and> (set (asked e') \<subseteq> S \<longrightarrow> (\<forall>st \<in> set states. covered env S [ins] st e out))"
proof (induction states arbitrary: e out)
  case Nil
  then show ?case by (auto simp: stepStates.simps)
next
  case (Cons st0 states)
  have pos: "1 \<le> instr_size ins" using instr_size_pos [of ins] by simp
  from Cons.prems show ?case
  proof (cases rule: stepStates_elim)
    case deep
    have k: "keeps env S e ((polled e)\<lparr>pruned := pruned e + 1\<rparr>)" by (simp add: keeps_def)
    note IH = Cons.IH [OF deep(2)]
    have "covered env S [ins] st0 e out" using deep(1) pos by (auto simp: covered_def)
    moreover have "covered env S [ins] st1 e out" if "st1 \<in> set states" "set (asked e') \<subseteq> S" for st1
      using IH that keepsD(1) [OF conjunct1 [OF IH]] by (intro covered_keeps [OF _ k]) auto
    ultimately show ?thesis using keeps_trans [OF k] IH by auto
  next
    case (cond v st c1 e1 f1 e2 c2 e3 f2 e4 rest)
    note IH = Cons.IH [OF cond(8)]
    have "keeps env S (polled e) e1" "keeps env S e1 e2" "keeps env S e2 e3" "keeps env S e3 e4"
      using enterBranch_keeps [OF assms(1) cond(4)] branch_run_keeps [OF assms(2) cond(5)]
        enterBranch_keeps [OF assms(1) cond(6)] branch_run_keeps [OF assms(3) cond(7)] by auto
    then have k: "keeps env S e e4" using keeps_trans keeps_counters(1) by blast
    have "covered env S [ins] st1 e out" if st1: "st1 \<in> set (st0 # states)" and a: "set (asked e') \<subseteq> S" for st1
    proof (cases "st1 = st0")
      case True
      have "set (asked e4) \<subseteq> S" using keepsD(1) [OF conjunct1 [OF IH] a] .
      from cond_covered [OF assms cond(2,3,1,4,5,6,7) this] show ?thesis using True cond(9) by (auto intro: covered_mono)
    next
      case False
      have "covered env S [ins] st1 e rest"
        by (rule covered_keeps [OF _ k]) (use IH False st1 a keepsD(1) [OF conjunct1 [OF IH] a] in auto)
      then show ?thesis by (rule covered_mono) (auto simp: cond(9))
    qed
    then show ?thesis using keeps_trans [OF k] IH by blast
  next
    case (plain st rest)
    have k: "keeps env S e (polled e)" by simp
    note IH = Cons.IH [OF plain(4)]
    have c0: "covered env S [ins] st0 e out"
      by (rule covered_mono [OF plain_covered [OF plain(2,3)]]) (simp add: plain(5))
    have "covered env S [ins] st1 e out" if "st1 \<in> set states" "set (asked e') \<subseteq> S" for st1
      by (rule covered_mono [OF covered_keeps [OF _ k], of _ _ rest]) (use IH that plain(5) keepsD(1) [OF conjunct1 [OF IH]] in auto)
    with c0 IH show ?thesis using keeps_trans [OF k] by auto
  qed
qed

lemma step_complete_all: "truthful env S \<Longrightarrow> step_complete env S ins"
proof (induction ins)
  case (Instr op i v t f)
  then have "run_complete env S t" "run_complete env S f" by (auto intro: run_complete_steps)
  then show ?case
    using step_complete_branches [OF Instr.prems, of "Instr op i v t f"] unfolding step_complete_def by simp
qed

lemma run_complete_all: "truthful env S \<Longrightarrow> run_complete env S program"
  by (rule run_complete_steps) (rule step_complete_all)

end
