(* ===== verification/SymRun.thy ===== *)
theory SymRun
  imports SymPaths
begin

text \<open>
  The theorems about \<open>Run\<close>: the paths of its result against the WebAssembly semantics of the requested
  function, on the arguments that an assignment of the symbols describes.
\<close>

section \<open>The function and its inputs\<close>

definition requested_function :: "SymbolicInput \<Rightarrow> wasmFunction option" where
  "requested_function inp = (case (either_name ''module'' (Module inp) (WasmBinary inp), either_name ''entrypoint'' (Entrypoint inp) (Entry inp)) of
     (Inr mod64, Inr entry) \<Rightarrow> (case DecodeString mod64 of None \<Rightarrow> None
       | Some wasm \<Rightarrow> (case parseExportedFunction wasm (map (\<lambda>ch. of_nat (of_char ch)) entry) of Inl _ \<Rightarrow> None | Inr fn \<Rightarrow> Some fn))
   | _ \<Rightarrow> None)"

definition depth_limit :: "SymbolicInput \<Rightarrow> int" where
  "depth_limit inp = (if MaxDepth inp = 0 then defaultSymbolicMaxDepth else MaxDepth inp)"

lemma Run_elim:
  assumes "Run env uuid c inp = Inr res" "requested_function inp = Some fn"
  obtains entry where "either_name ''entrypoint'' (Entrypoint inp) (Entry inp) = Inr entry"
    "runFunction env uuid entry (depth_limit inp) (PruneInfeasible inp) (Args inp) fn 1 c = Inr res"
  using assms
  by (auto simp: Run_def requested_function_def depth_limit_def Let_def split: sum.splits if_splits option.splits)

text \<open>A parameter has the value of its concrete argument, if one is given, and of its symbol otherwise; the other locals are zero.\<close>

definition of_type :: "byte \<Rightarrow> u64 \<Rightarrow> wval" where
  "of_type ty v = (if ty = valueI32 then I32 (ucast v) else I64 v)"

definition param_value :: "(nat \<Rightarrow> wval) \<Rightarrow> goarg list \<Rightarrow> nat \<Rightarrow> byte \<Rightarrow> wval" where
  "param_value \<rho> args i ty = (if i < length args \<and> args ! i \<noteq> ANil then of_type ty (the (argumentNumber (args ! i))) else \<rho> i)"

fun param_values :: "(nat \<Rightarrow> wval) \<Rightarrow> goarg list \<Rightarrow> nat \<Rightarrow> byte list \<Rightarrow> wval list" where
  "param_values \<rho> args i [] = []"
| "param_values \<rho> args i (ty # tys) = param_value \<rho> args i ty # param_values \<rho> args (i + 1) tys"

definition initial_locals :: "(nat \<Rightarrow> wval) \<Rightarrow> goarg list \<Rightarrow> wasmFunction \<Rightarrow> wval list" where
  "initial_locals \<rho> args fn = param_values \<rho> args 0 (params fn) @ map (\<lambda>ty. of_type ty 0) (locals fn)"

text \<open>The symbols have values of the types of the parameters they stand for.\<close>

definition fits :: "(nat \<Rightarrow> wval) \<Rightarrow> wasmFunction \<Rightarrow> bool" where
  "fits \<rho> fn \<longleftrightarrow> (\<forall>i < length (params fn). wasmIntegerWidth (params fn ! i) = Some (width (\<rho> i)))"

lemma typedConstant_of_type: "wasmIntegerWidth ty = Some n \<Longrightarrow> repr \<rho> (typedConstant v n) (of_type ty v)"
  using repr_typedConstant by (auto simp: wasmIntegerWidth_def of_type_def valueI32_def valueI64_def split: if_splits)

lemma bindParams_repr:
  assumes "bindParams i tys args = Inr (vs, m)" "\<forall>k < length tys. wasmIntegerWidth (tys ! k) = Some (width (\<rho> (i + k)))"
  shows "list_all2 (repr \<rho>) vs (param_values \<rho> args i tys)"
    and "typed m \<rho>"
proof -
  let ?s = "\<lambda>k. (''arg'' @ Itoa (int k), GString (''BitVec_'' @ Itoa (int (width (\<rho> k)))))"
  have "list_all2 (repr \<rho>) vs (param_values \<rho> args i tys) \<and> (\<exists>ks. m = map ?s ks \<and> distinct ks \<and> (\<forall>k \<in> set ks. i \<le> k))"
    using assms
  proof (induction i tys args arbitrary: vs m rule: bindParams.induct)
    case (2 i ty tys args)
    have w: "wasmIntegerWidth ty = Some (width (\<rho> i))" using "2.prems"(2) by force
    have tl: "\<forall>k < length tys. wasmIntegerWidth (tys ! k) = Some (width (\<rho> (i + 1 + k)))" using "2.prems"(2) by force
    show ?case
    proof (cases "i < length args \<and> args ! i \<noteq> ANil")
      case True
      then obtain a vs' where v: "argumentNumber (args ! i) = Some a" "bindParams (i + 1) tys args = Inr (vs', m)"
        "vs = typedConstant a (width (\<rho> i)) # vs'"
        using "2.prems"(1) w by (auto simp: concreteArgument_def split: sum.splits option.splits)
      from "2.IH"(1) [OF w True _ v(2) tl] v(1) obtain ks where "list_all2 (repr \<rho>) vs' (param_values \<rho> args (i + 1) tys)"
        "m = map ?s ks" "distinct ks" "\<forall>k \<in> set ks. i + 1 \<le> k" by (auto simp: concreteArgument_def)
      with typedConstant_of_type [OF w, of \<rho> a] True v show ?thesis by (auto simp: param_value_def intro!: exI [of _ ks])
    next
      case False
      then obtain vs' m' where v: "bindParams (i + 1) tys args = Inr (vs', m')"
        "vs = \<lparr>expr = ''arg'' @ Itoa (int i), known = None, boolean = False, bits = width (\<rho> i)\<rparr> # vs'"
        "m = (''arg'' @ Itoa (int i), GString (''BitVec_'' @ Itoa (int (width (\<rho> i))))) # m'"
        using "2.prems"(1) w by (auto simp: Let_def split: sum.splits)
      have "denotes \<rho> (''arg'' @ Itoa (int i)) (SV (\<rho> i))"
        unfolding denotes_def by (rule exI [of _ "TArg i"]) simp
      then have r: "repr \<rho> \<lparr>expr = ''arg'' @ Itoa (int i), known = None, boolean = False, bits = width (\<rho> i)\<rparr> (param_value \<rho> args i ty)"
        using False by (auto simp: param_value_def repr_def)
      from "2.IH"(2) [OF w False _ v(1) tl] obtain ks where ks: "list_all2 (repr \<rho>) vs' (param_values \<rho> args (i + 1) tys)"
        "m' = map ?s ks" "distinct ks" "\<forall>k \<in> set ks. i + 1 \<le> k" by auto
      then have m: "m = map ?s (i # ks) \<and> distinct (i # ks) \<and> (\<forall>k \<in> set (i # ks). i \<le> k)" using v(3) by auto
      have "list_all2 (repr \<rho>) vs (param_values \<rho> args i (ty # tys))" using ks(1) r v(2) by simp
      with m show ?thesis by blast
    qed
  qed simp
  then obtain ks where r: "list_all2 (repr \<rho>) vs (param_values \<rho> args i tys)" and ks: "m = map ?s ks" "distinct ks" by blast
  have "distinct (map (\<lambda>k. ''arg'' @ Itoa (int k)) ks)" using ks(2) by (simp add: distinct_map inj_on_def Itoa_inj)
  then show "typed m \<rho>" unfolding typed_def ks(1) by (auto simp: comp_def)
  show "list_all2 (repr \<rho>) vs (param_values \<rho> args i tys)" by (rule r)
qed

lemma zeroLocals_repr: "zeroLocals i tys = Inr vs \<Longrightarrow> list_all2 (repr \<rho>) vs (map (\<lambda>ty. of_type ty 0) tys)"
  by (induction i tys arbitrary: vs rule: zeroLocals.induct)
    (auto split: option.splits sum.splits intro: typedConstant_of_type)

lemma runFunction_elim:
  assumes "runFunction env uuid entry md pr args fn p0 c = Inr res"
  obtains ps m zs states e1 e2 where "bindParams 0 (params fn) args = Inr (ps, m)" "zeroLocals 0 (locals fn) = Inr zs"
    "run env (body fn) [\<lparr>slocals = ps @ zs, stack = [], constraints = [], depth = 0\<rparr>]
       \<lparr>maxDepth = md, prune = pr, symbols = m, explored = 1, pruned = 0, polls = p0, asked = [], dcache = c\<rparr> = Inr (states, e1)"
    "collectPaths env uuid entry (results fn) pr states e1 = Inr (Paths res, e2)"
  using assms by (auto simp: runFunction_def Let_def split: sum.splits)

lemma initial_srepr:
  assumes "bindParams 0 (params fn) args = Inr (ps, m)" "zeroLocals 0 (locals fn) = Inr zs" "fits \<rho> fn"
  shows "srepr \<rho> \<lparr>slocals = ps @ zs, stack = [], constraints = [], depth = 0\<rparr> (initial_locals \<rho> args fn, [])" and "typed m \<rho>"
proof -
  have f: "\<forall>k < length (params fn). wasmIntegerWidth (params fn ! k) = Some (width (\<rho> (0 + k)))"
    using assms(3) by (simp add: fits_def)
  note B = bindParams_repr [OF assms(1) f]
  show "typed m \<rho>" by (rule B(2))
  show "srepr \<rho> \<lparr>slocals = ps @ zs, stack = [], constraints = [], depth = 0\<rparr> (initial_locals \<rho> args fn, [])"
    unfolding srepr_def initial_locals_def using list_all2_appendI [OF B(1) zeroLocals_repr [OF assms(2)]] by simp
qed

section \<open>From states to paths\<close>

lemma collectPaths_origin:
  "collectPaths env uuid entry rs pr states e = Inr (paths, e') \<Longrightarrow> path \<in> set paths \<Longrightarrow>
   \<exists>st \<in> set states. path_constraints path = constraints st \<and> Output path = state_output rs st \<and> length rs \<le> length (stack st)"
  by (induction states arbitrary: e paths) (fastforce split: prod.splits sum.splits if_splits)+

lemma collectPaths_keeps:
  "truthful env S \<Longrightarrow> collectPaths env uuid entry rs pr states e = Inr (paths, e') \<Longrightarrow> keeps env S e e'"
proof (induction states arbitrary: e paths)
  case (Cons st0 states)
  obtain r e1 where f: "feasibility env (constraints st0) e = (r, e1)" by fastforce
  then obtain ok model where r: "r = Inr (ok, model)" using Cons.prems(2) by (cases r) auto
  have k: "keeps env S e e1" using feasibility_keeps [OF Cons.prems(1) f] by blast
  have "\<exists>ps. collectPaths env uuid entry rs pr states (if \<not> ok \<and> pr then e1\<lparr>pruned := pruned e1 + 1\<rparr> else e1) = Inr (ps, e')"
    using Cons.prems(2) f r by (auto split: if_splits sum.splits)
  moreover have "keeps env S e1 (if \<not> ok \<and> pr then e1\<lparr>pruned := pruned e1 + 1\<rparr> else e1)" by simp
  ultimately obtain e2 paths2 where "keeps env S e1 e2" "collectPaths env uuid entry rs pr states e2 = Inr (paths2, e')" by blast
  with Cons.IH [OF Cons.prems(1)] k show ?case using keeps_trans by blast
qed simp

lemma collectPaths_complete:
  "truthful env S \<Longrightarrow> truthful_cache env S (dcache e) \<Longrightarrow> typed (symbols e) \<rho> \<Longrightarrow>
   collectPaths env uuid entry rs pr states e = Inr (paths, e') \<Longrightarrow> set (asked e') \<subseteq> S \<Longrightarrow> st \<in> set states \<Longrightarrow> asserts \<rho> (constraints st) \<Longrightarrow>
   \<exists>path \<in> set paths. Feasible path \<and> path_constraints path = constraints st"
proof (induction states arbitrary: e paths)
  case (Cons st0 states)
  obtain r e1 where f: "feasibility env (constraints st0) e = (r, e1)" by fastforce
  then obtain ok model where r: "r = Inr (ok, model)" using Cons.prems(4) by (cases r) auto
  note F = feasibility_keeps [OF Cons.prems(1) f]
  have next_e: "truthful_cache env S (dcache e2)" "typed (symbols e2) \<rho>" "set (asked e1) \<subseteq> S"
    if "collectPaths env uuid entry rs pr states e2 = Inr (ps, e')" "keeps env S e1 e2" for e2 ps
  proof -
    have k: "keeps env S e e2" "keeps env S e2 e'" using F that(2) keeps_trans collectPaths_keeps [OF Cons.prems(1) that(1)] by blast+
    have a: "set (asked e2) \<subseteq> S" by (rule keepsD(1) [OF k(2) Cons.prems(5)])
    show "set (asked e1) \<subseteq> S" by (rule keepsD(1) [OF that(2) a])
    show "truthful_cache env S (dcache e2)" by (rule keepsD(2) [OF k(1) a Cons.prems(2)])
    show "typed (symbols e2) \<rho>" using keepsD(3) [OF k(1)] Cons.prems(3) by simp
  qed
  show ?case
  proof (cases "\<not> ok \<and> pr")
    case True
    let ?e2 = "e1\<lparr>pruned := pruned e1 + 1\<rparr>"
    have c: "collectPaths env uuid entry rs pr states ?e2 = Inr (paths, e')" using Cons.prems(4) f r True by simp
    note n = next_e [OF c keeps_counters(2)]
    have "st \<noteq> st0" using F r n(3) Cons.prems(2,3,7) True by auto
    then show ?thesis using Cons.IH [OF Cons.prems(1) n(1,2) c Cons.prems(5)] Cons.prems(6,7) by auto
  next
    case False
    then obtain path paths' where p: "paths = path # paths'" "collectPaths env uuid entry rs pr states e1 = Inr (paths', e')"
      "Feasible path = ok" "path_constraints path = constraints st0"
      using Cons.prems(4) f r by (auto split: if_splits sum.splits)
    note n = next_e [OF p(2) keeps_counters(4)]
    show ?thesis
    proof (cases "st = st0")
      case True
      then have ok using F r n(3) Cons.prems(2,3,7) by auto
      with True p show ?thesis by auto
    next
      case other: False
      then show ?thesis using Cons.IH [OF Cons.prems(1) n(1,2) p(2) Cons.prems(5)] Cons.prems(6,7) p(1) by auto
    qed
  qed
qed simp

section \<open>Soundness of the paths\<close>

fun signed_value :: "wval \<Rightarrow> int" where
  "signed_value (I32 x) = sint x"
| "signed_value (I64 x) = sint x"

text \<open>An output value stands for a concrete result: an integer is its signed value, an expression denotes it.\<close>

fun output_repr :: "(nat \<Rightarrow> wval) \<Rightarrow> output_value \<Rightarrow> wval \<Rightarrow> bool" where
  "output_repr \<rho> (OInt n) w \<longleftrightarrow> n = signed_value w"
| "output_repr \<rho> (OExpr s) w \<longleftrightarrow> denotes \<rho> s (SV w) \<or> (\<exists>b. denotes \<rho> s (SB b) \<and> w = wbool b)"

definition results_of :: "wasmFunction \<Rightarrow> wval list \<Rightarrow> wval list" where
  "results_of fn st = drop (length st - length (results fn)) st"

definition well_typed_results :: "wasmFunction \<Rightarrow> wval list \<Rightarrow> bool" where
  "well_typed_results fn st \<longleftrightarrow> list_all2 (\<lambda>ty w. wasmIntegerWidth ty = Some (width w)) (results fn) (results_of fn st)"

lemma output_value_repr:
  assumes "repr \<rho> v w" "wasmIntegerWidth ty = Some (width w)"
  shows "output_repr \<rho> (case known v of Some k \<Rightarrow> if ty = valueI32 then OInt (sint (ucast k :: 32 word)) else OInt (sint k)
     | None \<Rightarrow> OExpr (expr v)) w"
proof (cases "known v")
  case None
  then show ?thesis using assms(1) by (auto simp: repr_def split: if_splits)
next
  case (Some k)
  have k: "k = extend w"
  proof (cases "boolean v")
    case True
    then obtain b where "w = wbool b" "k = (if b then 1 else 0)" using assms(1) Some by (auto simp: repr_def)
    moreover have "(scast (1 :: 32 word) :: u64) = 1" by code_simp
    ultimately show ?thesis by (auto simp: wbool_def)
  next
    case False
    then show ?thesis using assms(1) Some by (auto simp: repr_def)
  qed
  show ?thesis
    using assms(2) Some k
    by (cases w) (auto simp: wasmIntegerWidth_def ucast_scast32 sint_scast32 split: if_splits)
qed

lemma state_output_repr:
  assumes "list_all2 (repr \<rho>) (stack s) st" "length (results fn) \<le> length (stack s)" "well_typed_results fn st"
  shows "list_all2 (output_repr \<rho>) (state_output (results fn) s) (results_of fn st)"
proof -
  let ?n = "length (results fn)"
  have len: "length (stack s) = length st" using assms(1) by (rule list_all2_lengthD)
  have "output_repr \<rho> (state_output (results fn) s ! i) (results_of fn st ! i)" if "i < ?n" for i
  proof -
    let ?k = "length st - ?n + i"
    have "repr \<rho> (stack s ! ?k) (st ! ?k)" using assms(1,2) len that by (auto simp: list_all2_conv_all_nth)
    moreover have "results_of fn st ! i = st ! ?k" using assms(2) len that by (simp add: results_of_def)
    moreover have "wasmIntegerWidth (results fn ! i) = Some (width (results_of fn st ! i))"
      using assms(3) that by (auto simp: well_typed_results_def list_all2_conv_all_nth)
    ultimately show ?thesis
      using output_value_repr [of \<rho> "stack s ! ?k" "st ! ?k" "results fn ! i"] that len by (simp add: state_output_def Let_def cong: option.case_cong)
  qed
  then show ?thesis
    using assms(2) len by (auto simp: list_all2_conv_all_nth state_output_def results_of_def)
qed

text \<open>C2: for every path of a result and every assignment of the symbols that satisfies the path's constraints, the outputs of
  the path are the results that the requested WebAssembly function computes on those arguments.\<close>

theorem paths_sound:
  assumes "Run env uuid c inp = Inr res" and "requested_function inp = Some fn" and "fits \<rho> fn"
    and "path \<in> set (Paths res)" and "asserts \<rho> (path_constraints path)"
    and "wexec (body fn) (initial_locals \<rho> (Args inp) fn, []) = Some (ls, st)" and "well_typed_results fn st"
  shows "list_all2 (output_repr \<rho>) (Output path) (results_of fn st)"
proof -
  obtain entry where rf: "runFunction env uuid entry (depth_limit inp) (PruneInfeasible inp) (Args inp) fn 1 c = Inr res"
    by (rule Run_elim [OF assms(1,2)]) blast
  obtain ps m zs states e1 e2 where r: "bindParams 0 (params fn) (Args inp) = Inr (ps, m)" "zeroLocals 0 (locals fn) = Inr zs"
    "run env (body fn) [\<lparr>slocals = ps @ zs, stack = [], constraints = [], depth = 0\<rparr>]
       \<lparr>maxDepth = depth_limit inp, prune = PruneInfeasible inp, symbols = m, explored = 1, pruned = 0, polls = 1, asked = [], dcache = c\<rparr> = Inr (states, e1)"
    "collectPaths env uuid entry (results fn) (PruneInfeasible inp) states e1 = Inr (Paths res, e2)"
    by (rule runFunction_elim [OF rf])
  obtain s where s: "s \<in> set states" "path_constraints path = constraints s" "Output path = state_output (results fn) s"
    "length (results fn) \<le> length (stack s)"
    using collectPaths_origin [OF r(4) assms(4)] by blast
  have "origin (body fn) \<lparr>slocals = ps @ zs, stack = [], constraints = [], depth = 0\<rparr> s"
    using run_soundD [OF run_sound_all r(3) s(1)] by simp
  then have "srepr \<rho> s (ls, st)"
    using originD(2) initial_srepr(1) [OF r(1,2) assms(3)] assms(5,6) s(2) by metis
  then show ?thesis
    unfolding s(3) by (intro state_output_repr) (use s(4) assms(7) in \<open>auto simp: srepr_def\<close>)
qed

text \<open>The programs that a run asks the solver about, in order.\<close>

definition programs_asked :: "sym_env \<Rightarrow> (nat \<Rightarrow> string) \<Rightarrow> DCache \<Rightarrow> SymbolicInput \<Rightarrow> string list" where
  "programs_asked env uuid c inp = (case (requested_function inp, either_name ''entrypoint'' (Entrypoint inp) (Entry inp)) of
     (Some fn, Inr entry) \<Rightarrow> (case (bindParams 0 (params fn) (Args inp), zeroLocals 0 (locals fn)) of
       (Inr (ps, m), Inr zs) \<Rightarrow>
         (case run env (body fn) [\<lparr>slocals = ps @ zs, stack = [], constraints = [], depth = 0\<rparr>]
            \<lparr>maxDepth = depth_limit inp, prune = PruneInfeasible inp, symbols = m, explored = 1, pruned = 0, polls = 1, asked = [], dcache = c\<rparr> of
            Inl _ \<Rightarrow> []
          | Inr (states, e1) \<Rightarrow> (case collectPaths env uuid entry (results fn) (PruneInfeasible inp) states e1 of
              Inl _ \<Rightarrow> []
            | Inr (_, e2) \<Rightarrow> asked e2))
     | _ \<Rightarrow> [])
   | _ \<Rightarrow> [])"

text \<open>C3: if, on the programs that the run asks about, the process and the cache answer unsat only for programs without a
  model and the hash does not collide, and the function's body is no larger than the depth limit, then every input on which
  the function returns satisfies the constraints of a path of the result, and that path is reported as feasible.\<close>

theorem paths_complete:
  assumes "Run env uuid c inp = Inr res" and "requested_function inp = Some fn" and "fits \<rho> fn"
    and "truthful env (set (programs_asked env uuid c inp))" and "truthful_cache env (set (programs_asked env uuid c inp)) c"
    and "program_size (body fn) \<le> depth_limit inp"
    and "wexec (body fn) (initial_locals \<rho> (Args inp) fn, []) = Some final"
  shows "\<exists>path \<in> set (Paths res). Feasible path \<and> asserts \<rho> (path_constraints path)"
proof -
  let ?S = "set (programs_asked env uuid c inp)"
  obtain entry where rf: "either_name ''entrypoint'' (Entrypoint inp) (Entry inp) = Inr entry"
    "runFunction env uuid entry (depth_limit inp) (PruneInfeasible inp) (Args inp) fn 1 c = Inr res"
    by (rule Run_elim [OF assms(1,2)])
  obtain ps m zs states e1 e2 where r: "bindParams 0 (params fn) (Args inp) = Inr (ps, m)" "zeroLocals 0 (locals fn) = Inr zs"
    "run env (body fn) [\<lparr>slocals = ps @ zs, stack = [], constraints = [], depth = 0\<rparr>]
       \<lparr>maxDepth = depth_limit inp, prune = PruneInfeasible inp, symbols = m, explored = 1, pruned = 0, polls = 1, asked = [], dcache = c\<rparr> = Inr (states, e1)"
    "collectPaths env uuid entry (results fn) (PruneInfeasible inp) states e1 = Inr (Paths res, e2)"
    by (rule runFunction_elim [OF rf(2)])
  have S: "set (asked e2) \<subseteq> ?S" using rf(1) r assms(2) by (simp add: programs_asked_def)
  have S1: "set (asked e1) \<subseteq> ?S" by (rule keepsD(1) [OF collectPaths_keeps [OF assms(4) r(4)] S])
  note I = initial_srepr [OF r(1,2) assms(3)]
  note C = run_completeD [OF run_complete_all [OF assms(4)] r(3)]
  obtain s where s: "s \<in> set states" "asserts \<rho> (constraints s)"
    by (rule coveredD [OF _ _ _ _ I(1) assms(7)]) (use C S1 assms(5,6) I(2) in \<open>auto simp: asserts_def\<close>)
  have e1: "truthful_cache env ?S (dcache e1)" "typed (symbols e1) \<rho>"
    using keepsD(2) [OF conjunct1 [OF C] S1] keepsD(3) [OF conjunct1 [OF C]] assms(5) I(2) by simp_all
  from collectPaths_complete [OF assms(4) e1 r(4) S s] s(2) show ?thesis by auto
qed

section \<open>A run on a concrete module\<close>

text \<open>The module of \<open>max_module\<close>, in base64, with a process that finds every program satisfiable.\<close>

definition max_input :: SymbolicInput where
  "max_input = \<lparr>Module = ''AGFzbQEAAAABBwFgAn9/AX8DAgEABwUBAWYAAAoRAQ8AIAAgAUoEfyAABSABCws='', Entrypoint = ''f'', MaxDepth = 0,
     PruneInfeasible = True, WasmBinary = [], Entry = [], Args = []\<rparr>"

definition sat_env :: sym_env where
  "sat_env = \<lparr>ctx_err = (\<lambda>_. False), z3_calls = (\<lambda>_. \<lparr>ctx_before = False, z3_run = (\<lambda>_. (False, ''sat'')), ctx_after = False,
     lookup_time = 0, run_time = 0\<rparr>), sha = id\<rparr>"

definition max_result :: "exec_error + SymbolicResult" where
  "max_result = Run sat_env (\<lambda>i. Itoa (int i)) (NewDCache 10) max_input"

definition max_function :: wasmFunction where
  "max_function = \<lparr>params = [0x7f, 0x7f], results = [0x7f], locals = [],
     body = [Instr 0x20 0 0 [] [], Instr 0x20 1 0 [] [], Instr 0x4a 0 0 [] [],
       Instr 0x04 0 0 [Instr 0x20 0 0 [] []] [Instr 0x20 1 0 [] []]]\<rparr>"

definition five_three :: "nat \<Rightarrow> wval" where
  "five_three i = (if i = 0 then I32 5 else I32 3)"

lemma max_requested: "requested_function max_input = Some max_function"
  by code_simp

lemma max_paths:
  "\<not> isl max_result" "map path_constraints (Paths (projr max_result)) = [[''(bvsgt arg0 arg1)''], [''(not (bvsgt arg0 arg1))'']]"
  by code_simp+

lemma max_Run: "Run sat_env (\<lambda>i. Itoa (int i)) (NewDCache 10) max_input = Inr (projr max_result)"
  using max_paths(1) by (cases max_result) (simp_all add: max_result_def)

lemma max_fits: "fits five_three max_function"
  by (auto simp: fits_def max_function_def five_three_def wasmIntegerWidth_def valueI32_def less_Suc_eq numeral_2_eq_2)

lemma max_wexec: "wexec (body max_function) (initial_locals five_three (Args max_input) max_function, []) = Some ([I32 5, I32 3], [I32 5])"
  by code_simp

lemma max_asserts: "asserts five_three [''(bvsgt arg0 arg1)'']"
proof -
  have "Itoa 0 = ''0''" "Itoa 1 = ''1''" by code_simp+
  then have "denotes five_three ''(bvsgt arg0 arg1)'' (SB True)"
    unfolding denotes_def
    by (intro exI [of _ "TOp ''bvsgt'' (TArg 0) (TArg 1)"]) (simp add: rel_ops_def bv_ops_def bv_rel_def five_three_def)
  then show ?thesis by (simp add: asserts_def)
qed

theorem paths_sound_witness:
  "\<exists>path \<in> set (Paths (projr max_result)). path_constraints path = [''(bvsgt arg0 arg1)''] \<and>
     list_all2 (output_repr five_three) (Output path) [I32 5]"
proof -
  obtain path paths where p: "Paths (projr max_result) = path # paths" "path_constraints path = [''(bvsgt arg0 arg1)'']"
    using max_paths(2) by (cases "Paths (projr max_result)") auto
  have t: "well_typed_results max_function [I32 5]" "results_of max_function [I32 5] = [I32 5]"
    by (simp_all add: well_typed_results_def results_of_def max_function_def wasmIntegerWidth_def valueI32_def)
  have "list_all2 (output_repr five_three) (Output path) (results_of max_function [I32 5])"
    by (rule paths_sound [OF max_Run max_requested max_fits _ _ max_wexec t(1)]) (simp_all add: p max_asserts)
  then show ?thesis using p t(2) by auto
qed

text \<open>
  A function that tests the same condition twice, so that one of its four branches cannot be taken; a process that finds
  the program of that branch unsatisfiable, prints \<open>unsat\<close> and fails at \<open>get-model\<close>, as z3 does, and finds the others
  satisfiable; and a hash that collides, but not on the programs of the run.
\<close>

definition twice_input :: SymbolicInput where
  "twice_input = \<lparr>Module = ''AGFzbQEAAAABBwFgAn9/AX8DAgEABwUBAWYAAAocARoAIAAgAUoEfyAAIAFKBH8gAAUgAQsFIAELCw=='', Entrypoint = ''f'', MaxDepth = 0,
     PruneInfeasible = True, WasmBinary = [], Entry = [], Args = []\<rparr>"

definition twice_function :: wasmFunction where
  "twice_function = \<lparr>params = [0x7f, 0x7f], results = [0x7f], locals = [],
     body = [Instr 0x20 0 0 [] [], Instr 0x20 1 0 [] [], Instr 0x4a 0 0 [] [],
       Instr 0x04 0 0 [Instr 0x20 0 0 [] [], Instr 0x20 1 0 [] [], Instr 0x4a 0 0 [] [],
         Instr 0x04 0 0 [Instr 0x20 0 0 [] []] [Instr 0x20 1 0 [] []]] [Instr 0x20 1 0 [] []]]\<rparr>"

definition two_args :: symbols where
  "two_args = [(''arg0'', GString ''BitVec_32''), (''arg1'', GString ''BitVec_32'')]"

definition impossible :: "string list" where
  "impossible = [''(bvsgt arg0 arg1)'', ''(not (bvsgt arg0 arg1))'']"

definition pruning_env :: sym_env where
  "pruning_env = \<lparr>ctx_err = (\<lambda>_. False), z3_calls = (\<lambda>_. \<lparr>ctx_before = False,
     z3_run = (\<lambda>s. if s = buildSMT2 (smt2Assertions impossible) two_args
       then (True, ''unsat'' @ newline @ ''(error model is not available)'') else (False, ''sat'')),
     ctx_after = False, lookup_time = 0, run_time = 0\<rparr>), sha = (\<lambda>s. Itoa (int (length s)))\<rparr>"

definition twice_result :: "exec_error + SymbolicResult" where
  "twice_result = Run pruning_env (\<lambda>i. Itoa (int i)) (NewDCache 10) twice_input"

abbreviation twice_asked :: "string list" where
  "twice_asked \<equiv> programs_asked pruning_env (\<lambda>i. Itoa (int i)) (NewDCache 10) twice_input"

lemma twice_requested: "requested_function twice_input = Some twice_function"
  by code_simp

lemma twice_paths:
  "\<not> isl twice_result" "Pruned (projr twice_result) = 1"
  "map path_constraints (Paths (projr twice_result)) = [[''(bvsgt arg0 arg1)'', ''(bvsgt arg0 arg1)''], [''(not (bvsgt arg0 arg1))'']]"
  by code_simp+

lemma twice_asked:
  "twice_asked = map (\<lambda>cs. buildSMT2 (smt2Assertions cs) two_args)
     [[''(bvsgt arg0 arg1)''], [''(bvsgt arg0 arg1)'', ''(bvsgt arg0 arg1)''], impossible, [''(not (bvsgt arg0 arg1))''],
      [''(bvsgt arg0 arg1)'', ''(bvsgt arg0 arg1)''], [''(not (bvsgt arg0 arg1))'']]"
  by code_simp

lemma twice_hash: "inj_on (sha pruning_env) (set twice_asked)"
proof -
  have "distinct (map (sha pruning_env) (remdups twice_asked))" by code_simp
  then have "inj_on (sha pruning_env) (set (remdups twice_asked))" by (simp add: distinct_map)
  then show ?thesis by simp
qed

lemma impossible_unsat: "unsat_program (buildSMT2 (smt2Assertions impossible) two_args)"
proof -
  have i: "Itoa 0 = ''0''" "Itoa 1 = ''1''" "Itoa 32 = ''32''" by code_simp+
  have "\<exists>i. ''0'' = Itoa (int i)" "\<exists>i. ''1'' = Itoa (int i)" using i by (auto intro: exI [of _ 0] exI [of _ 1])
  then have "typed two_args (\<lambda>_. I32 0)" unfolding typed_def two_args_def by (simp add: i)
  moreover have "list_all plain_text impossible" by (simp add: impossible_def plain_text_def)
  moreover have "\<not> asserts \<rho> impossible" for \<rho>
  proof
    assume "asserts \<rho> impossible"
    then have d: "denotes \<rho> ''(bvsgt arg0 arg1)'' (SB True)" "denotes \<rho> ''(not (bvsgt arg0 arg1))'' (SB True)"
      by (simp_all add: asserts_def impossible_def)
    from denotes_unique [OF d(2)] denotes_not [OF d(1)] show False by auto
  qed
  ultimately show ?thesis using unsat_program_iff by blast
qed

lemma pruning_truthful: "truthful pruning_env (set twice_asked)"
proof -
  have "\<not> isl (parseOutput ''sat'') \<and> sol_Sat (projr (parseOutput ''sat'')) = ''sat''" by code_simp
  then have sat: "sol_Sat sol \<noteq> ''unsat''" if "parseOutput ''sat'' = Inr sol" for sol using that by auto
  show ?thesis
    unfolding truthful_def using twice_hash impossible_unsat sat by (auto simp: pruning_env_def split: if_splits)
qed

theorem paths_complete_witness:
  "Pruned (projr twice_result) = 1 \<and>
   (\<exists>path \<in> set (Paths (projr twice_result)). Feasible path \<and> asserts five_three (path_constraints path))"
proof
  have run: "Run pruning_env (\<lambda>i. Itoa (int i)) (NewDCache 10) twice_input = Inr (projr twice_result)"
    using twice_paths(1) by (cases twice_result) (simp_all add: twice_result_def)
  have "fits five_three twice_function"
    by (auto simp: fits_def twice_function_def five_three_def wasmIntegerWidth_def valueI32_def less_Suc_eq numeral_2_eq_2)
  moreover have "program_size (body twice_function) \<le> depth_limit twice_input"
    by (simp add: program_size_def twice_function_def depth_limit_def twice_input_def defaultSymbolicMaxDepth_def)
  moreover have "wexec (body twice_function) (initial_locals five_three (Args twice_input) twice_function, []) = Some ([I32 5, I32 3], [I32 5])"
    by code_simp
  ultimately show "\<exists>path \<in> set (Paths (projr twice_result)). Feasible path \<and> asserts five_three (path_constraints path)"
    using paths_complete [OF run twice_requested _ pruning_truthful truthful_cache_New] by blast
  show "Pruned (projr twice_result) = 1" by (rule twice_paths(2))
qed

section \<open>Comparison results as operands\<close>

text \<open>a comparison result has width 0, so an instruction that takes an \<open>i32\<close> operand rejects it, although
  WebAssembly defines comparisons to produce an \<open>i32\<close>: the reference semantics executes the same
  instruction.\<close>

theorem comparison_result_rejected:
  "executeInstruction (push (boolValue e kb) s) (Instr 0x45 0 0 [] []) = Inl (EqzWidth 0) \<and>
   executeInstruction (push (boolValue e kb) (push v s)) (Instr 0x6a 0 0 [] []) = Inl (ArithmeticWidths (bits v) 0) \<and>
   wexec [Instr 0x48 0 0 [] [], Instr 0x45 0 0 [] []] ([], [I32 1, I32 2]) = Some ([], [I32 0])"
proof (intro conjI)
  have "bits (boolValue e kb) = 0" by (simp add: boolValue_def split: option.split)
  then show "executeInstruction (push (boolValue e kb) s) (Instr 0x45 0 0 [] []) = Inl (EqzWidth 0)"
    and "executeInstruction (push (boolValue e kb) (push v s)) (Instr 0x6a 0 0 [] []) = Inl (ArithmeticWidths (bits v) 0)"
    by (simp_all add: executeInstruction_def executeEqz_def executeArithmetic_def arithmeticWidth_def compare_ops_def pop_def push_def butlast_append)
  show "wexec [Instr 0x48 0 0 [] [], Instr 0x45 0 0 [] []] ([], [I32 1, I32 2]) = Some ([], [I32 0])"
    by code_simp
qed

end
