(* ===== verification/SymService.thy ===== *)
theory SymService
  imports SymRun
begin

text \<open>
  Types and bounds of the symbolic executor, and its endpoint \<open>/v1/verify/symbolic\<close>
  (\<open>SymbolicHandler\<close> and \<open>symbolicHTTPResponse\<close> of \<open>src/internal/verify/symbolic.go\<close>).
\<close>

section \<open>Relations that a run keeps\<close>

text \<open>
  A relation between the states and the executor before a part of a run and those after it, which every
  turn of the inner loop keeps. It then holds of whole runs.
\<close>

locale run_relation =
  fixes env :: sym_env
    and R :: "symbolicState list \<Rightarrow> executor \<Rightarrow> symbolicState list \<Rightarrow> executor \<Rightarrow> bool"
  assumes R_refl: "R states e states e"
    and R_trans: "R states e mid e1 \<Longrightarrow> R mid e1 out e' \<Longrightarrow> R states e out e'"
    and R_deep: "R states ((polled e0)\<lparr>pruned := pruned e0 + 1\<rparr>) out e' \<Longrightarrow> R (st0 # states) e0 out e'"
    and R_plain: "executeInstruction (deeper st0) ins = Inr st \<Longrightarrow> R states (polled e0) rest e' \<Longrightarrow> R (st0 # states) e0 (st # rest) e'"
    and R_cond: "pop (deeper st0) = Inr (v, st) \<Longrightarrow>
      enterBranch env True v st (polled e0) = Inr (c1, e1) \<Longrightarrow> (case c1 of None \<Rightarrow> f1 = [] \<and> e2 = e1 | Some cand \<Rightarrow> R [cand] e1 f1 e2) \<Longrightarrow>
      enterBranch env False v st e2 = Inr (c2, e3) \<Longrightarrow> (case c2 of None \<Rightarrow> f2 = [] \<and> e4 = e3 | Some cand \<Rightarrow> R [cand] e3 f2 e4) \<Longrightarrow>
      R states e4 rest e' \<Longrightarrow> R (st0 # states) e0 (f1 @ f2 @ rest) e'"
begin

definition kept :: "instruction list \<Rightarrow> bool" where
  "kept program \<longleftrightarrow> (\<forall>states e out e'. run env program states e = Inr (out, e') \<longrightarrow> R states e out e')"

lemma kept_branch: "kept program \<Longrightarrow> branch_run env program c e out e' \<Longrightarrow> (case c of None \<Rightarrow> out = [] \<and> e' = e | Some cand \<Rightarrow> R [cand] e out e')"
  by (auto simp: kept_def branch_run_def split: option.splits)

lemma step_kept:
  assumes "kept (thenB ins)" "kept (otherwiseB ins)"
  shows "stepStates env ins states e = Inr (out, e') \<Longrightarrow> R states e out e'"
proof (induction states arbitrary: e out)
  case Nil
  then show ?case by (simp add: stepStates.simps R_refl)
next
  case (Cons st0 states)
  from Cons.prems show ?case
  proof (cases rule: stepStates_elim)
    case deep
    then show ?thesis using Cons.IH R_deep by blast
  next
    case (cond v st c1 e1 f1 e2 c2 e3 f2 e4 rest)
    show ?thesis unfolding cond(9)
      by (rule R_cond [OF cond(3,4) kept_branch [OF assms(1) cond(5)] cond(6) kept_branch [OF assms(2) cond(7)] Cons.IH [OF cond(8)]])
  next
    case (plain st rest)
    then show ?thesis using R_plain [OF plain(3) Cons.IH [OF plain(4)]] by simp
  qed
qed

definition step_ok :: "instruction \<Rightarrow> bool" where
  "step_ok ins \<longleftrightarrow> (\<forall>states e out e'. stepStates env ins states e = Inr (out, e') \<longrightarrow> R states e out e')"

lemma program_kept: "(\<And>ins. ins \<in> set program \<Longrightarrow> step_ok ins) \<Longrightarrow> kept program"
proof (induction program)
  case Nil
  then show ?case by (simp add: kept_def run.simps R_refl)
next
  case (Cons ins program)
  then have "kept program" "step_ok ins" by simp_all
  then show ?case
    unfolding kept_def step_ok_def by (auto simp: run.simps split: sum.splits) (meson R_trans)
qed

lemma instruction_kept: "step_ok ins"
proof (induction ins)
  case (Instr op i v t f)
  then have "kept t" "kept f" by (auto intro: program_kept)
  then show ?case using step_kept [of "Instr op i v t f"] by (simp add: step_ok_def)
qed

lemma run_kept: "run env program states e = Inr (out, e') \<Longrightarrow> R states e out e'"
  using program_kept [of program] instruction_kept unfolding kept_def by blast

end

section \<open>Types\<close>

text \<open>
  A value is a boolean of no width that is 0 or 1 if it is known, or a bit vector of 32 or 64 bits; a known
  32-bit value is kept sign-extended.
\<close>

definition wt_value :: "symbolicValue \<Rightarrow> bool" where
  "wt_value v \<longleftrightarrow> (if boolean v then bits v = 0 \<and> known v \<in> {None, Some 0, Some 1}
     else bits v \<in> {32, 64} \<and> (\<forall>k. known v = Some k \<and> bits v = 32 \<longrightarrow> scast (ucast k :: 32 word) = k))"

definition wt_state :: "nat \<Rightarrow> symbolicState \<Rightarrow> bool" where
  "wt_state n st \<longleftrightarrow> length (slocals st) = n \<and> (\<forall>v \<in> set (slocals st). wt_value v) \<and> (\<forall>v \<in> set (stack st). wt_value v)"

lemma wt_boolValue: "wt_value (boolValue e b)"
  by (auto simp: wt_value_def boolValue_def split: option.splits)

lemma wt_typedConstant: "n \<in> {32, 64} \<Longrightarrow> wt_value (typedConstant v n)"
  by (auto simp: wt_value_def typedConstant_def wrapSigned_def Let_def ucast_scast32)

lemma wt_symbol: "n \<in> {32, 64} \<Longrightarrow> wt_value \<lparr>expr = x, known = None, boolean = False, bits = n\<rparr>"
  by (simp add: wt_value_def)

lemma arithmeticWidth_cases: "arithmeticWidth op = Some n \<Longrightarrow> n \<in> {32, 64}"
  by (auto simp: arithmeticWidth_def split: if_splits)

lemma wt_pop: "pop s = Inr (v, s') \<Longrightarrow> wt_state n s \<Longrightarrow> wt_value v \<and> wt_state n s'"
  by (auto simp: pop_def wt_state_def split: if_splits) (meson in_set_butlastD)

lemma wt_push: "wt_value v \<Longrightarrow> wt_state n s \<Longrightarrow> wt_state n (push v s)"
  by (auto simp: push_def wt_state_def)

lemma wt_local: "wt_value v \<Longrightarrow> wt_state n s \<Longrightarrow> wt_state n (s\<lparr>slocals := (slocals s)[i := v]\<rparr>)"
  by (auto simp: wt_state_def dest: set_update_subset_insert [THEN subsetD])

lemma wt_depth [simp]: "wt_state n (s\<lparr>depth := d\<rparr>) = wt_state n s" "wt_state n (s\<lparr>constraints := cs\<rparr>) = wt_state n s"
  by (simp_all add: wt_state_def)

lemma wt_executeLocal:
  assumes "executeLocal s ins = Inr s'" "wt_state n s"
  shows "wt_state n s'"
proof (cases "opcode ins = 0x20")
  case True
  with assms(1) have "unat (index ins) < length (slocals s)" "s' = push (slocals s ! unat (index ins)) s"
    by (auto simp: executeLocal_def split: if_splits)
  moreover from this(1) assms(2) have "wt_value (slocals s ! unat (index ins))" by (simp add: wt_state_def)
  ultimately show ?thesis using assms(2) wt_push by blast
next
  case False
  with assms(1) obtain v s1 where p: "pop s = Inr (v, s1)"
    and s': "s' = (let s2 = s1\<lparr>slocals := (slocals s1)[unat (index ins) := v]\<rparr> in if opcode ins = 0x22 then push v s2 else s2)"
    by (auto simp: executeLocal_def Let_def split: sum.splits if_splits)
  note wt = wt_pop [OF p assms(2)]
  then have "wt_state n (s1\<lparr>slocals := (slocals s1)[unat (index ins) := v]\<rparr>)" using wt_local by blast
  with wt show ?thesis unfolding s' Let_def by (simp add: wt_push)
qed

lemma wt_executeArithmetic:
  assumes "executeArithmetic s op = Inr s'" "wt_state n s"
  shows "wt_state n s'"
proof -
  obtain a b s1 s2 w where p: "pop s = Inr (b, s1)" "pop s1 = Inr (a, s2)" "arithmeticWidth op = Some w"
    and s': "s' = push (case (known a, known b) of (Some x, Some y) \<Rightarrow> typedConstant (wrappedArithmetic x y op w) w
      | _ \<Rightarrow> \<lparr>expr = ''('' @ arithmeticOperator op @ '' '' @ expr a @ '' '' @ expr b @ '')'', known = None, boolean = False, bits = w\<rparr>) s2"
    using assms(1) by (auto simp: executeArithmetic_def split: sum.splits option.splits if_splits)
  have "wt_state n s2" using wt_pop [OF p(1) assms(2)] wt_pop [OF p(2)] by blast
  with arithmeticWidth_cases [OF p(3)] show ?thesis
    unfolding s' by (intro wt_push) (auto intro: wt_typedConstant wt_symbol split: option.splits)
qed

lemma wt_executeInstruction:
  assumes "executeInstruction s ins = Inr s'" "wt_state n s"
  shows "wt_state n s'"
proof -
  have eqz: "executeEqz s op = Inr s' \<Longrightarrow> wt_state n s'" for op
    using assms(2) by (auto simp: executeEqz_def split: sum.splits if_splits intro!: wt_push wt_boolValue dest: wt_pop)
  have comp: "executeCompare s op = Inr s' \<Longrightarrow> wt_state n s'" for op
    using assms(2) by (auto simp: executeCompare_def split: sum.splits if_splits option.splits intro!: wt_push wt_boolValue dest!: wt_pop)
  show ?thesis
    using assms by (auto simp: executeInstruction_def Let_def split: if_splits sum.splits
      intro: wt_executeLocal wt_executeArithmetic eqz comp wt_push wt_typedConstant dest: wt_pop)
qed

interpretation typed_run: run_relation env "\<lambda>states e out e'. (\<forall>st \<in> set states. wt_state n st) \<longrightarrow> (\<forall>st \<in> set out. wt_state n st)" for env n
proof
  fix st0 v st e0 c1 e1 f1 e2 c2 e3 f2 e4 and states rest :: "symbolicState list"
  assume p: "pop (deeper st0) = Inr (v, st)" and b: "enterBranch env True v st (polled e0) = Inr (c1, e1)" "enterBranch env False v st e2 = Inr (c2, e3)"
    and f: "case c1 of None \<Rightarrow> f1 = [] \<and> e2 = e1 | Some cand \<Rightarrow> (\<forall>st \<in> set [cand]. wt_state n st) \<longrightarrow> (\<forall>st \<in> set f1. wt_state n st)"
      "case c2 of None \<Rightarrow> f2 = [] \<and> e4 = e3 | Some cand \<Rightarrow> (\<forall>st \<in> set [cand]. wt_state n st) \<longrightarrow> (\<forall>st \<in> set f2. wt_state n st)"
    and r: "(\<forall>st \<in> set states. wt_state n st) \<longrightarrow> (\<forall>st \<in> set rest. wt_state n st)"
  show "(\<forall>st \<in> set (st0 # states). wt_state n st) \<longrightarrow> (\<forall>st \<in> set (f1 @ f2 @ rest). wt_state n st)"
  proof
    assume wt: "\<forall>st \<in> set (st0 # states). wt_state n st"
    then have "wt_state n st" using wt_pop [OF p] by simp
    then have "c1 = Some cand \<Longrightarrow> wt_state n cand" "c2 = Some cand \<Longrightarrow> wt_state n cand" for cand
      using enterBranch_candidate b by (metis wt_depth(2))+
    with f have "\<forall>st \<in> set f1. wt_state n st" "\<forall>st \<in> set f2. wt_state n st" by (cases c1; cases c2; simp)+
    with r wt show "\<forall>st \<in> set (f1 @ f2 @ rest). wt_state n st" by auto
  qed
qed (auto dest: wt_executeInstruction [where n = n])

lemma wt_bindParams: "bindParams i tys args = Inr (vs, m) \<Longrightarrow> length vs = length tys \<and> (\<forall>v \<in> set vs. wt_value v)"
  by (induction i tys args arbitrary: vs m rule: bindParams.induct)
    (auto simp: wasmIntegerWidth_def concreteArgument_def Let_def split: option.splits if_splits sum.splits intro: wt_typedConstant wt_symbol)

lemma wt_zeroLocals: "zeroLocals i tys = Inr vs \<Longrightarrow> length vs = length tys \<and> (\<forall>v \<in> set vs. wt_value v)"
  by (induction i tys arbitrary: vs rule: zeroLocals.induct)
    (auto simp: wasmIntegerWidth_def split: option.splits if_splits sum.splits intro: wt_typedConstant)

lemma wt_initial:
  assumes "bindParams 0 (params fn) args = Inr (ps, m)" and "zeroLocals 0 (locals fn) = Inr zs"
  shows "wt_state (length (params fn) + length (locals fn)) \<lparr>slocals = ps @ zs, stack = [], constraints = [], depth = 0\<rparr>"
  using wt_bindParams [OF assms(1)] wt_zeroLocals [OF assms(2)] by (auto simp: wt_state_def)

text \<open>C15: the executor keeps its values typed. Whatever the program, in every state that a run from the initial state of
  a function ends in, the number of locals is that of the parameters and declared locals, and every local and
  every value on the stack is a boolean without width that is 0 or 1 when known, or a bit vector of 32 or 64
  bits whose known 32-bit value is sign-extended.\<close>

theorem symbolic_run_typed:
  assumes "bindParams 0 (params fn) args = Inr (ps, m)" and "zeroLocals 0 (locals fn) = Inr zs"
    and "run env program [\<lparr>slocals = ps @ zs, stack = [], constraints = [], depth = 0\<rparr>] e = Inr (states, e')"
    and "st \<in> set states"
  shows "wt_state (length (params fn) + length (locals fn)) st"
  using typed_run.run_kept [OF assms(3), of "length (params fn) + length (locals fn)"] wt_initial [OF assms(1,2)] assms(4) by simp

definition demo_exec :: executor where
  "demo_exec = \<lparr>maxDepth = 10, prune = False, symbols = [], explored = 1, pruned = 0, polls = 0, asked = [], dcache = NewDCache 1\<rparr>"

theorem symbolic_run_typed_witness:
  "\<exists>states e'. run sat_env (body max_function)
      [\<lparr>slocals = fst (projr (bindParams 0 (params max_function) [])) @ projr (zeroLocals 0 (locals max_function)), stack = [], constraints = [], depth = 0\<rparr>]
      demo_exec = Inr (states, e') \<and> states \<noteq> [] \<and> wt_state 2 (hd states)"
proof -
  let ?ps = "fst (projr (bindParams 0 (params max_function) []))" and ?zs = "projr (zeroLocals 0 (locals max_function))"
  let ?r = "run sat_env (body max_function) [\<lparr>slocals = ?ps @ ?zs, stack = [], constraints = [], depth = 0\<rparr>] demo_exec"
  have b: "\<not> isl (bindParams 0 (params max_function) [])" "\<not> isl (zeroLocals 0 (locals max_function))" "\<not> isl ?r \<and> fst (projr ?r) \<noteq> []"
    by code_simp+
  then obtain m where "bindParams 0 (params max_function) [] = Inr (?ps, m)" by (cases "bindParams 0 (params max_function) []") auto
  moreover have "zeroLocals 0 (locals max_function) = Inr ?zs" using b(2) by (cases "zeroLocals 0 (locals max_function)") auto
  moreover obtain states e' where r: "?r = Inr (states, e')" "states \<noteq> []" using b(3) by (cases ?r) auto
  ultimately have "wt_state (length (params max_function) + length (locals max_function)) (hd states)"
    using symbolic_run_typed [of max_function "[]" ?ps m ?zs sat_env "body max_function" demo_exec states e' "hd states"] by simp
  moreover have "length (params max_function) + length (locals max_function) = 2" by (simp add: max_function_def)
  ultimately show ?thesis using r by metis
qed

section \<open>Bounds\<close>

lemma feasibility_explored: "feasibility env cs e = (r, e') \<Longrightarrow> explored e' = explored e"
  by (auto simp: feasibility_def Let_def split: if_splits prod.splits sum.splits)

lemma enterBranch_explored:
  assumes "enterBranch env yes v st e = Inr (c, e')"
  shows "explored e < maxSymbolicExplored \<and> explored e' = explored e + 1"
proof -
  let ?cs = "constraints st @ [branch_constraint yes v]"
  obtain r e1 where f: "feasibility env ?cs (e\<lparr>explored := explored e + 1\<rparr>) = (r, e1)" by fastforce
  have "explored e1 = explored e + 1" using feasibility_explored [OF f] by simp
  then show ?thesis using assms f
    by (auto simp: enterBranch_def branch_constraint_def Let_def split: if_splits sum.splits)
qed

definition in_budget :: "symbolicState list \<Rightarrow> executor \<Rightarrow> symbolicState list \<Rightarrow> executor \<Rightarrow> bool" where
  "in_budget states e out e' \<longleftrightarrow> (explored e \<le> maxSymbolicExplored \<longrightarrow> explored e' \<le> maxSymbolicExplored \<and> explored e \<le> explored e' \<and>
     int (length out) \<le> int (length states) + (explored e' - explored e))"

interpretation bounded_run: run_relation env in_budget for env
proof
  fix st0 v st e0 c1 e1 f1 e2 c2 e3 f2 e4 states rest e'
  assume b: "enterBranch env True v st (polled e0) = Inr (c1, e1)" "enterBranch env False v st e2 = Inr (c2, e3)"
    and f: "case c1 of None \<Rightarrow> f1 = [] \<and> e2 = e1 | Some cand \<Rightarrow> in_budget [cand] e1 f1 e2"
      "case c2 of None \<Rightarrow> f2 = [] \<and> e4 = e3 | Some cand \<Rightarrow> in_budget [cand] e3 f2 e4"
    and r: "in_budget states e4 rest e'"
  note n = enterBranch_explored [OF b(1)] enterBranch_explored [OF b(2)]
  show "in_budget (st0 # states) e0 (f1 @ f2 @ rest) e'"
    using f r n by (cases c1; cases c2) (auto simp: in_budget_def)
qed (auto simp: in_budget_def)

lemma collectPaths_bound:
  "collectPaths env uuid entry rs pr states e = Inr (paths, e') \<Longrightarrow> length paths \<le> length states \<and> explored e' = explored e"
proof (induction states arbitrary: e paths)
  case (Cons st states)
  obtain r e1 where f: "feasibility env (constraints st) e = (r, e1)" by fastforce
  note x = feasibility_explored [OF f]
  from Cons.prems f obtain ok model where r: "r = Inr (ok, model)" by (cases r) auto
  show ?case
  proof (cases "\<not> ok \<and> pr")
    case True
    with Cons.prems f r Cons.IH [of "e1\<lparr>pruned := pruned e1 + 1\<rparr>" paths] x show ?thesis by auto
  next
    case False
    with Cons.prems f r obtain ps where "collectPaths env uuid entry rs pr states e1 = Inr (ps, e')" "length paths = Suc (length ps)"
      by (auto split: if_splits sum.splits)
    with Cons.IH [of e1 ps] x show ?thesis by simp
  qed
qed simp

text \<open>C17: a symbolic run returns at most as many paths as it reports explored, and explores at most 4096.\<close>

theorem symbolic_paths_bounded:
  assumes "Run env uuid c inp = Inr res"
  shows "int (length (Paths res)) \<le> Explored res \<and> Explored res \<le> 4096"
proof -
  obtain entry md fn where f: "runFunction env uuid entry md (PruneInfeasible inp) (Args inp) fn 1 c = Inr res"
    using assms by (auto simp: Run_def Let_def split: sum.splits if_splits option.splits)
  then obtain ps m zs states e1 e2 where
    r: "run env (body fn) [\<lparr>slocals = ps @ zs, stack = [], constraints = [], depth = 0\<rparr>]
       \<lparr>maxDepth = md, prune = PruneInfeasible inp, symbols = m, explored = 1, pruned = 0, polls = 1, asked = [], dcache = c\<rparr> = Inr (states, e1)"
    and p: "collectPaths env uuid entry (results fn) (PruneInfeasible inp) states e1 = Inr (Paths res, e2)" "Explored res = explored e2"
    by (auto simp: runFunction_def Let_def split: sum.splits)
  from bounded_run.run_kept [OF r] collectPaths_bound [OF p(1)] p(2) show ?thesis by (simp add: in_budget_def maxSymbolicExplored_def)
qed

theorem symbolic_paths_bounded_witness: "\<exists>res. Run sat_env (\<lambda>i. Itoa (int i)) (NewDCache 10) max_input = Inr res \<and> int (length (Paths res)) \<le> Explored res"
  using symbolic_paths_bounded [OF max_Run] max_Run by blast

section \<open>The endpoint\<close>

record symbolicHTTPPath =
  hp_ID :: string
  hp_Feasible :: bool
  hp_Constraints :: "string list"
  hp_Output :: "output_value list"

record symbolicHTTPResult =
  hr_Paths :: "symbolicHTTPPath list"
  hr_Explored :: int
  hr_Pruned :: int
  hr_DecisionID :: string

definition symbolicHTTPResponse :: "SymbolicResult \<Rightarrow> symbolicHTTPResult" where
  "symbolicHTTPResponse result = \<lparr>hr_Paths = map (\<lambda>path. \<lparr>hp_ID = path_ID path, hp_Feasible = Feasible path,
       hp_Constraints = [] @ path_constraints path, hp_Output = Output path\<rparr>) (Paths result),
     hr_Explored = Explored result, hr_Pruned = Pruned result, hr_DecisionID = DecisionID result\<rparr>"

text \<open>
  The body of a request: not decodable, more than one JSON value, or an input. Bodies over the limit do not
  decode.
\<close>

datatype symbolic_body = Undecodable | MultipleValues | Decoded SymbolicInput

datatype symbolic_reply = SymbolicBadRequest string | SymbolicOK symbolicHTTPResult

definition SymbolicHandler :: "sym_env \<Rightarrow> (nat \<Rightarrow> string) \<Rightarrow> DCache \<Rightarrow> symbolic_body \<Rightarrow> symbolic_reply" where
  "SymbolicHandler env uuid c request = (case request of
     Undecodable \<Rightarrow> SymbolicBadRequest ''invalid request''
   | MultipleValues \<Rightarrow> SymbolicBadRequest ''invalid request: multiple JSON values''
   | Decoded input \<Rightarrow> (case Run env uuid c input of
       Inl err \<Rightarrow> SymbolicBadRequest ''invalid symbolic execution request''
     | Inr result \<Rightarrow> SymbolicOK (symbolicHTTPResponse result)))"

text \<open>A reply lists the constraints of each path one by one; together they are the assertions of the path.\<close>

lemma symbolic_reply_constraints:
  assumes "SymbolicHandler env uuid c (Decoded inp) = SymbolicOK reply"
  shows "\<exists>res. Run env uuid c inp = Inr res \<and> map hp_Constraints (hr_Paths reply) = map path_constraints (Paths res)"
  using assms by (auto simp: SymbolicHandler_def symbolicHTTPResponse_def split: sum.splits)

end
