(* ===== verification/Composed.thy ===== *)
theory Composed
  imports Solvers
begin

text \<open>
  The composed endpoint (\<open>src/internal/composed/handler.go\<close>): stages of CEL, SMT and Wasm, evaluated in order
  up to the first failure. The CEL library, the outcome of the Z3 process, fresh identifiers and elapsed
  times are inputs; the decision cache of the bridge is threaded through the stages.
\<close>

section \<open>Requests and reports\<close>

record StageSpec =
  ss_Expression :: string
  ss_Variables :: bindings
  ss_Constraints :: string
  ss_Model :: bindings
  ss_TimeoutMs :: int
  ss_Result :: "bool option"

record PolicyStage =
  ps_Stage :: string
  ps_Spec :: StageSpec

record ComposedRequest =
  Policies :: "PolicyStage list"
  cq_Input :: bindings

record StageReport =
  rp_Stage :: string
  rp_OK :: bool
  rp_DecisionID :: string
  rp_Hint :: string
  rp_EvalMs :: int

record ComposedResponse =
  cs_OK :: bool
  cs_Stages :: "StageReport list"
  cs_DecisionID :: string
  cs_EvalMs :: int

text \<open>What the environment supplies to one stage: a fresh identifier, the Z3 call and the elapsed time.\<close>

record stage_env =
  se_uuid :: string
  se_call :: "int \<Rightarrow> z3_call"
  se_elapsed :: duration

text \<open>
  The texts of errors that come from outside: the Go type of a value, an error of the Z3 bridge, a
  quoted string.
\<close>

record error_texts =
  et_type :: "goany \<Rightarrow> string"
  et_z3 :: "z3_error \<Rightarrow> string"
  et_quote :: "string \<Rightarrow> string"

definition ToLower :: "string \<Rightarrow> string" where
  "ToLower s = map (\<lambda>c. let n = of_char c :: nat in if 65 \<le> n \<and> n \<le> 90 then char_of (n + 32) else c) s"

fun cel_error_text :: "error_texts \<Rightarrow> cel_error \<Rightarrow> string" where
  "cel_error_text et (CreateEnv e) = ''cel: create env: '' @ e"
| "cel_error_text et (CompileError e) = ''cel: compile: '' @ e"
| "cel_error_text et (ProgramError e) = ''cel: program: '' @ e"
| "cel_error_text et (EvalError e) = ''cel: eval: '' @ e"
| "cel_error_text et EvalTimeout = ''cel: evaluation timeout: context deadline exceeded''"
| "cel_error_text et (ExpectedBool v) = ''cel: expected bool result, got '' @ et_type et v"

section \<open>The stages\<close>

definition report :: "stage_env \<Rightarrow> string \<Rightarrow> bool \<Rightarrow> string \<Rightarrow> StageReport" where
  "report env stage ok hint = \<lparr>rp_Stage = stage, rp_OK = ok, rp_DecisionID = se_uuid env, rp_Hint = hint,
     rp_EvalMs = se_elapsed env div 1000000\<rparr>"

definition mergeVars :: "bindings \<Rightarrow> bindings \<Rightarrow> bindings" where
  "mergeVars input variables = fold (\<lambda>(k, v) m. AList.update k v m) variables (fold (\<lambda>(k, v) m. AList.update k v m) input [])"

definition evalCELStage :: "('ast, 'prg) cel_lib \<Rightarrow> error_texts \<Rightarrow> stage_env \<Rightarrow> StageSpec \<Rightarrow> bindings \<Rightarrow> StageReport" where
  "evalCELStage lib et env spec input =
     (if TrimSpace (ss_Expression spec) = [] then report env ''cel'' False ''spec.expression is required for cel stage''
      else (let vars = mergeVars input (ss_Variables spec) in
        case NewEvaluator lib of
          Inl err \<Rightarrow> report env ''cel'' False (''cel: init: cel: new evaluator: '' @ err)
        | Inr ev \<Rightarrow> (case fst (evaluator_Evaluate lib (ss_Expression spec) vars ev) of
            Inl err \<Rightarrow> report env ''cel'' False (''cel: '' @ cel_error_text et err)
          | Inr ok \<Rightarrow> report env ''cel'' ok [])))"

definition mergeModel :: "bindings \<Rightarrow> bindings \<Rightarrow> bindings" where
  "mergeModel model input = fold (\<lambda>(k, v) m. if map_of m k = None then AList.update k v m else m) input
     (fold (\<lambda>(k, v) m. AList.update k v m) model [])"

definition solution_hint :: "Solution \<Rightarrow> string" where
  "solution_hint sol = (if sol_Sat sol = ''unsat'' \<and> length (sol_UnsatCore sol) > 0 then ''unsat-core: '' @ Join (sol_UnsatCore sol) '', ''
     else if sol_Sat sol = ''unknown'' then ''solver returned unknown (timeout or out-of-resources)'' else [])"

definition evalSMTStage :: "(string \<Rightarrow> string) \<Rightarrow> error_texts \<Rightarrow> stage_env \<Rightarrow> StageSpec \<Rightarrow> bindings \<Rightarrow> DCache \<Rightarrow> StageReport \<times> DCache" where
  "evalSMTStage hash et env spec input c =
     (if TrimSpace (ss_Constraints spec) = [] then (report env ''smt'' False ''spec.constraints is required for smt stage'', c)
      else (let model = mergeModel (ss_Model spec) input; timeoutMs = effective_timeout 5000 (ss_TimeoutMs spec) in
        case SolveConstraintsCtx hash (se_call env timeoutMs) (ss_Constraints spec) (symbols_of model) c of
          (Inl err, c) \<Rightarrow> (report env ''smt'' False (''smt: '' @ et_z3 et err), c)
        | (Inr sol, c) \<Rightarrow> (report env ''smt'' (sol_Sat sol = ''sat'') (solution_hint sol), c)))"

definition evalWasmStage :: "stage_env \<Rightarrow> StageSpec \<Rightarrow> StageReport" where
  "evalWasmStage env spec = (case ss_Result spec of
     Some ok \<Rightarrow> report env ''wasm'' ok (if ok then [] else ''wasm stage: result=false (pre-evaluated by caller)'')
   | None \<Rightarrow> report env ''wasm'' True ''wasm stage: no pre-evaluated result; pass-through'')"

definition evalStage :: "('ast, 'prg) cel_lib \<Rightarrow> (string \<Rightarrow> string) \<Rightarrow> error_texts \<Rightarrow> stage_env \<Rightarrow> PolicyStage \<Rightarrow> bindings \<Rightarrow> DCache \<Rightarrow>
    StageReport \<times> DCache" where
  "evalStage lib hash et env p input c = (let kind = ToLower (ps_Stage p) in
     if kind = ''cel'' then (evalCELStage lib et env (ps_Spec p) input, c)
     else if kind = ''smt'' then evalSMTStage hash et env (ps_Spec p) input c
     else if kind = ''wasm'' then (evalWasmStage env (ps_Spec p), c)
     else (report env (ps_Stage p) False (''unknown stage type '' @ et_quote et (ps_Stage p) @ ''; supported: cel, wasm, smt''), c))"

text \<open>The loop of the handler.\<close>

fun evalStages :: "('ast, 'prg) cel_lib \<Rightarrow> (string \<Rightarrow> string) \<Rightarrow> error_texts \<Rightarrow> (nat \<Rightarrow> stage_env) \<Rightarrow> bindings \<Rightarrow> nat \<Rightarrow> PolicyStage list \<Rightarrow> DCache \<Rightarrow>
    StageReport list \<times> bool \<times> DCache" where
  "evalStages lib hash et env input i [] c = ([], True, c)"
| "evalStages lib hash et env input i (p # ps) c = (case evalStage lib hash et (env i) p input c of (sr, c) \<Rightarrow>
     if \<not> rp_OK sr then ([sr], False, c)
     else (case evalStages lib hash et env input (i + 1) ps c of (srs, ok, c) \<Rightarrow> (sr # srs, ok, c)))"

definition composed_Handler :: "('ast, 'prg) cel_lib \<Rightarrow> (string \<Rightarrow> string) \<Rightarrow> error_texts \<Rightarrow> (nat \<Rightarrow> stage_env) \<Rightarrow> string \<Rightarrow> duration \<Rightarrow>
    ComposedRequest option \<Rightarrow> DCache \<Rightarrow> ComposedResponse http_reply \<times> DCache" where
  "composed_Handler lib hash et env uuid elapsed req c = (case req of None \<Rightarrow> (BadRequest ''invalid request'', c)
     | Some r \<Rightarrow> if length (Policies r) = 0 then (BadRequest ''policies must not be empty'', c)
       else (case evalStages lib hash et env (cq_Input r) 0 (Policies r) c of (reports, allOK, c) \<Rightarrow>
         (Replied \<lparr>cs_OK = allOK, cs_Stages = reports, cs_DecisionID = uuid, cs_EvalMs = elapsed div 1000000\<rparr>, c)))"

section \<open>What an accepted request means\<close>

text \<open>The query an SMT stage sends to the bridge.\<close>

definition stage_query :: "stage_env \<Rightarrow> bindings \<Rightarrow> PolicyStage \<Rightarrow> query" where
  "stage_query env input p = (se_call env (effective_timeout 5000 (ss_TimeoutMs (ps_Spec p))), ss_Constraints (ps_Spec p),
     symbols_of (mergeModel (ss_Model (ps_Spec p)) input))"

text \<open>
  A stage holds: the expression evaluates to true; a run of the process among the queries \<open>Q\<close> printed \<open>sat\<close>
  for exactly the program of the stage; the caller did not report a failed module.
\<close>

definition stage_holds :: "('ast, 'prg) cel_lib \<Rightarrow> query set \<Rightarrow> stage_env \<Rightarrow> bindings \<Rightarrow> PolicyStage \<Rightarrow> bool" where
  "stage_holds lib Q env input p \<longleftrightarrow> (let kind = ToLower (ps_Stage p) in
     kind = ''cel'' \<and> cel_value lib (ss_Expression (ps_Spec p)) (mergeVars input (ss_Variables (ps_Spec p))) = Some (ABool True) \<or>
     kind = ''smt'' \<and> (\<exists>q \<in> Q. \<exists>d. script q = script (stage_query env input p) \<and> answers q d \<and> d_Sat d = ''sat'') \<or>
     kind = ''wasm'' \<and> ss_Result (ps_Spec p) \<noteq> Some False)"

lemma rp_OK_report [simp]: "rp_OK (report env stage ok hint) = ok"
  by (simp add: report_def)

lemma evalCELStage_ok:
  assumes "rp_OK (evalCELStage lib et env spec input)"
  shows "cel_value lib (ss_Expression spec) (mergeVars input (ss_Variables spec)) = Some (ABool True)"
  using assms unfolding evaluator_value [symmetric, where ev = "\<lparr>ev_prg = None\<rparr>"]
  by (auto simp: evalCELStage_def NewEvaluator_def split: if_splits option.splits sum.splits)

lemma evalSMTStage_provenance:
  assumes "inj_on hash (script ` Q)" and "provenance hash Q c" and "stage_query env input p \<in> Q"
    and "evalSMTStage hash et env (ps_Spec p) input c = (sr, c')"
  shows "provenance hash Q c' \<and>
    (rp_OK sr \<longrightarrow> (\<exists>q \<in> Q. \<exists>d. script q = script (stage_query env input p) \<and> answers q d \<and> d_Sat d = ''sat''))"
proof (cases "TrimSpace (ss_Constraints (ps_Spec p)) = []")
  case True
  with assms(2,4) show ?thesis by (auto simp: evalSMTStage_def)
next
  case False
  let ?q = "stage_query env input p"
  obtain r c1 where s: "solve_query hash ?q c = (r, c1)" by (cases "solve_query hash ?q c")
  have Q: "insert ?q Q = Q" using assms(3) by blast
  note prov = provenance_solve [OF assms(2) s, unfolded Q]
  have res: "c' = c1" "rp_OK sr \<Longrightarrow> \<exists>sol. r = Inr sol \<and> sol_Sat sol = ''sat''"
    using assms(4) False s by (auto simp: evalSMTStage_def stage_query_def split: sum.splits)
  show ?thesis
  proof (intro conjI impI)
    show "provenance hash Q c'" using prov res(1) by simp
    assume "rp_OK sr"
    then obtain sol where sol: "r = Inr sol" "sol_Sat sol = ''sat''" using res(2) by blast
    with prov have "stored_from hash Q (hash (script ?q)) (decisionFromSolution sol)" by simp
    then obtain q where "q \<in> Q" "script q = script ?q" "answers q (decisionFromSolution sol)"
      using stored_from_same [OF _ assms(1,3)] by blast
    moreover have "d_Sat (decisionFromSolution sol) = ''sat''" using sol(2) by (simp add: decisionFromSolution_def)
    ultimately show "\<exists>q \<in> Q. \<exists>d. script q = script ?q \<and> answers q d \<and> d_Sat d = ''sat''" by blast
  qed
qed

lemma evalStage_holds:
  assumes "inj_on hash (script ` Q)" and "provenance hash Q c" and "stage_query env input p \<in> Q"
    and "evalStage lib hash et env p input c = (sr, c')"
  shows "provenance hash Q c' \<and> (rp_OK sr \<longrightarrow> stage_holds lib Q env input p)"
proof -
  consider (cel) "ToLower (ps_Stage p) = ''cel''" | (smt) "ToLower (ps_Stage p) = ''smt''" | (wasm) "ToLower (ps_Stage p) = ''wasm''"
    | (other) "ToLower (ps_Stage p) \<notin> {''cel'', ''smt'', ''wasm''}" by blast
  then show ?thesis
  proof cases
    case cel
    then show ?thesis using assms(2,4) evalCELStage_ok by (fastforce simp: evalStage_def stage_holds_def)
  next
    case smt
    then show ?thesis using evalSMTStage_provenance [OF assms(1-3)] assms(4) by (auto simp: evalStage_def stage_holds_def)
  next
    case wasm
    then show ?thesis using assms(2,4)
      by (cases "ss_Result (ps_Spec p)") (auto simp: evalStage_def stage_holds_def evalWasmStage_def Let_def)
  next
    case other
    then show ?thesis using assms(2,4) by (auto simp: evalStage_def Let_def)
  qed
qed

lemma evalStages_holds:
  assumes "inj_on hash (script ` Q)" and "provenance hash Q c" and "\<And>j. j < length ps \<Longrightarrow> stage_query (env (i + j)) input (ps ! j) \<in> Q"
    and "evalStages lib hash et env input i ps c = (srs, True, c')"
  shows "j < length ps \<Longrightarrow> stage_holds lib Q (env (i + j)) input (ps ! j)"
  using assms(2-)
proof (induction ps arbitrary: i j c srs)
  case (Cons p ps)
  obtain sr c1 where s: "evalStage lib hash et (env i) p input c = (sr, c1)" by (cases "evalStage lib hash et (env i) p input c")
  have ok: "rp_OK sr" using Cons.prems(4) s by (auto split: if_splits)
  then obtain srs1 where rest: "evalStages lib hash et env input (i + 1) ps c1 = (srs1, True, c')"
    using Cons.prems(4) s by (auto split: prod.splits)
  have "stage_query (env i) input p \<in> Q" using Cons.prems(3) [of 0] by simp
  note here = evalStage_holds [OF assms(1) Cons.prems(2) this s]
  show ?case
  proof (cases j)
    case 0
    with here ok show ?thesis by simp
  next
    case (Suc k)
    have qs: "stage_query (env (i + 1 + m)) input (ps ! m) \<in> Q" if "m < length ps" for m
      using Cons.prems(3) [of "Suc m"] that by simp
    have "stage_holds lib Q (env (i + 1 + k)) input (ps ! k)"
      by (rule Cons.IH [of k c1 "i + 1" srs1, OF _ _ qs rest]) (use here Suc Cons.prems(1) in simp_all)
    with Suc show ?thesis by simp
  qed
qed simp

text \<open>C11: a composed request is accepted only when every stage holds: each CEL expression evaluates to true, for
  each SMT stage a run of the Z3 process, in this request or in an earlier query, printed \<open>sat\<close> for exactly
  the program built from the stage's constraints and variables, and no Wasm stage carries a failed result.
  This holds for every history of the shared decision cache, as long as its hash does not collide on the programs asked.\<close>

theorem composed_ok_sound:
  assumes "inj_on hash (script ` (set qs \<union> {stage_query (env k) (cq_Input r) (Policies r ! k) | k. k < length (Policies r)}))"
    and "composed_Handler lib hash et env uuid elapsed (Some r) (solve_all hash qs (NewDCache n)) = (Replied resp, c')" and "cs_OK resp"
    and "j < length (Policies r)"
  shows "stage_holds lib (set qs \<union> {stage_query (env k) (cq_Input r) (Policies r ! k) | k. k < length (Policies r)})
    (env j) (cq_Input r) (Policies r ! j)"
proof -
  let ?Q = "set qs \<union> {stage_query (env k) (cq_Input r) (Policies r ! k) | k. k < length (Policies r)}"
  have "provenance hash {} (NewDCache n)" by (simp add: provenance_def dcache_inv_New) (simp add: absl_def NewDCache_def)
  from provenance_run [OF this, of qs] have "provenance hash (set qs) (solve_all hash qs (NewDCache n))" by simp
  then have prov: "provenance hash ?Q (solve_all hash qs (NewDCache n))"
    unfolding provenance_def stored_from_def by blast
  have run: "evalStages lib hash et env (cq_Input r) 0 (Policies r) (solve_all hash qs (NewDCache n)) = (cs_Stages resp, True, c')"
    using assms(2,3) by (auto simp: composed_Handler_def split: if_splits prod.splits)
  show ?thesis
    using evalStages_holds [OF assms(1) prov _ run assms(4)] by auto
qed

definition sat_call :: z3_call where
  "sat_call = \<lparr>ctx_before = False, z3_run = (\<lambda>_. (False, ''sat'')), ctx_after = False, lookup_time = 0, run_time = 0\<rparr>"

definition demo_env :: "nat \<Rightarrow> stage_env" where
  "demo_env i = \<lparr>se_uuid = ''id'', se_call = (\<lambda>_. sat_call), se_elapsed = 0\<rparr>"

definition demo_texts :: error_texts where
  "demo_texts = \<lparr>et_type = (\<lambda>_. []), et_z3 = (\<lambda>_. []), et_quote = id\<rparr>"

definition demo_stage :: "string \<Rightarrow> PolicyStage" where
  "demo_stage kind = \<lparr>ps_Stage = kind, ps_Spec = \<lparr>ss_Expression = ''x'', ss_Variables = [(''x'', ABool True)],
     ss_Constraints = ''(assert x)'', ss_Model = [(''x'', AString ''Bool'')], ss_TimeoutMs = 0, ss_Result = None\<rparr>\<rparr>"

definition demo_request :: ComposedRequest where
  "demo_request = \<lparr>Policies = [demo_stage ''CEL'', demo_stage ''smt'', demo_stage ''wasm''], cq_Input = []\<rparr>"

lemma demo_accepted:
  "fst (composed_Handler demo_lib id demo_texts demo_env ''id'' 0 (Some demo_request) (solve_all id [] (NewDCache 10))) =
     Replied \<lparr>cs_OK = True, cs_Stages = [report (demo_env 0) ''cel'' True [], report (demo_env 1) ''smt'' True [],
       report (demo_env 2) ''wasm'' True ''wasm stage: no pre-evaluated result; pass-through''], cs_DecisionID = ''id'', cs_EvalMs = 0\<rparr>"
  by code_simp

theorem composed_ok_sound_witness:
  "stage_holds demo_lib {stage_query (demo_env k) [] (Policies demo_request ! k) | k. k < 3} (demo_env 1) [] (demo_stage ''smt'')"
proof -
  let ?c = "solve_all id [] (NewDCache 10)"
  have "composed_Handler demo_lib id demo_texts demo_env ''id'' 0 (Some demo_request) ?c =
     (Replied \<lparr>cs_OK = True, cs_Stages = [report (demo_env 0) ''cel'' True [], report (demo_env 1) ''smt'' True [],
       report (demo_env 2) ''wasm'' True ''wasm stage: no pre-evaluated result; pass-through''], cs_DecisionID = ''id'', cs_EvalMs = 0\<rparr>,
      snd (composed_Handler demo_lib id demo_texts demo_env ''id'' 0 (Some demo_request) ?c))"
    using demo_accepted by (metis prod.collapse)
  from composed_ok_sound [OF inj_on_id this, of 1] show ?thesis
    by (simp add: demo_request_def numeral_3_eq_3)
qed

section \<open>The reports\<close>

lemma evalStages_prefix:
  assumes "evalStages lib hash et env input i ps c = (srs, ok, c')"
  shows "length srs \<le> length ps \<and> (ok \<longrightarrow> length srs = length ps \<and> (\<forall>sr \<in> set srs. rp_OK sr)) \<and>
    (\<not> ok \<longrightarrow> srs \<noteq> [] \<and> (\<forall>sr \<in> set (butlast srs). rp_OK sr) \<and> \<not> rp_OK (last srs))"
  using assms
proof (induction ps arbitrary: i c srs)
  case (Cons p ps)
  obtain sr c1 where s: "evalStage lib hash et (env i) p input c = (sr, c1)" by (cases "evalStage lib hash et (env i) p input c")
  show ?case
  proof (cases "rp_OK sr")
    case True
    obtain srs1 ok1 c2 where rest: "evalStages lib hash et env input (i + 1) ps c1 = (srs1, ok1, c2)"
      by (cases "evalStages lib hash et env input (i + 1) ps c1")
    with Cons.prems s True have "srs = sr # srs1" "ok1 = ok" "c2 = c'" by auto
    with Cons.IH [of "i + 1" c1 srs1] rest True show ?thesis by auto
  qed (use Cons.prems s in auto)
qed simp

text \<open>The documented request with \<open>tiers\<close> and \<open>mode\<close> decodes to a request without stages and is refused.\<close>

lemma tiers_request_refused:
  "composed_Handler lib hash et env uuid elapsed (Some \<lparr>Policies = [], cq_Input = []\<rparr>) c = (BadRequest ''policies must not be empty'', c)"
  by (simp add: composed_Handler_def)

end
