(* ===== verification/Orchestrator.thy ===== *)
theory Orchestrator
  imports Complex_Main GoStrings
begin

text \<open>
  The verification router (\<open>src/internal/orchestrator/orchestrator.go\<close>): the cascade of tiers, the
  selection with its reasons and alternatives, the routing counters and the three HTTP handlers. A
  request body that does not decode is \<open>None\<close>; a panic is the error \<open>Panic\<close>. The average cost
  is the quotient of two counters as a real number; both conversions to \<open>float64\<close> are exact
  below \<open>2^53\<close>.
\<close>

section \<open>Tiers and requests\<close>

type_synonym Tier = string

definition TierCEL :: Tier where "TierCEL = ''cel''"
definition TierWazero :: Tier where "TierWazero = ''wazero''"
definition TierZ3 :: Tier where "TierZ3 = ''z3''"

lemmas tier_defs = TierCEL_def TierWazero_def TierZ3_def

record Complexity =
  ConstraintCount :: int
  MaxNestingDepth :: int
  HasQuantifiers :: bool

record VerificationRequest =
  q_Complexity :: Complexity
  CostTargetMs :: int
  AccuracyRequired :: int
  MethodHint :: string

record TierAlternative =
  alt_Tier :: Tier
  alt_Reason :: string

record TierSelection =
  sel_Tier :: Tier
  sel_Reason :: string
  EstimatedCostMs :: int
  Alternatives :: "TierAlternative list"

record tierConfig =
  tc_tier :: Tier
  maxConstraintCount :: int
  maxNestingDepth :: int
  baseCostMs :: int
  accuracyCeiling :: int
  tc_label :: string

definition tierConfigs :: "tierConfig list" where
  "tierConfigs =
     [\<lparr>tc_tier = TierCEL, maxConstraintCount = 20, maxNestingDepth = 3, baseCostMs = 5, accuracyCeiling = 85,
       tc_label = ''CEL (fast expression evaluation)''\<rparr>,
      \<lparr>tc_tier = TierWazero, maxConstraintCount = 100, maxNestingDepth = 10, baseCostMs = 50, accuracyCeiling = 95,
       tc_label = ''wazero (sandboxed Wasm verification)''\<rparr>,
      \<lparr>tc_tier = TierZ3, maxConstraintCount = 2 ^ 30, maxNestingDepth = 2 ^ 30, baseCostMs = 200, accuracyCeiling = 100,
       tc_label = ''Z3 (SMT solver '' @ [CHR 0xE2, CHR 0x80, CHR 0x94] @ '' maximum accuracy)''\<rparr>]"

datatype route_error = BadAccuracy int | InvalidHint string | Panic

definition configForTier :: "Tier \<Rightarrow> tierConfig option" where
  "configForTier t = find (\<lambda>tc. tc_tier tc = t) tierConfigs"

section \<open>The selection\<close>

definition accuracyOf :: "VerificationRequest \<Rightarrow> int" where
  "accuracyOf query = (if AccuracyRequired query = 0 then 80 else AccuracyRequired query)"

text \<open>The verbs \<open>%q\<close> (of the three tier names, which need no escape) and \<open>%v\<close> of a boolean.\<close>

definition quoted :: "string \<Rightarrow> string" where
  "quoted s = [CHR 0x22] @ s @ [CHR 0x22]"

definition show_bool :: "bool \<Rightarrow> string" where
  "show_bool b = (if b then ''true'' else ''false'')"

definition fitsTier :: "Complexity \<Rightarrow> tierConfig \<Rightarrow> bool" where
  "fitsTier cx tc = (let fits = True;
     fits = (if ConstraintCount cx > 0 \<and> ConstraintCount cx > maxConstraintCount tc then False else fits);
     fits = (if MaxNestingDepth cx > 0 \<and> MaxNestingDepth cx > maxNestingDepth tc then False else fits);
     fits = (if HasQuantifiers cx \<and> tc_tier tc = TierCEL then False else fits)
   in fits)"

text \<open>The loop over the cascade; \<open>None\<close> when it runs to its end.\<close>

fun autoSelect :: "VerificationRequest \<Rightarrow> int \<Rightarrow> tierConfig list \<Rightarrow> TierSelection option" where
  "autoSelect query accuracy [] = None"
| "autoSelect query accuracy (tc # tcs) =
     (if accuracy > accuracyCeiling tc then autoSelect query accuracy tcs
      else if CostTargetMs query > 0 \<and> baseCostMs tc > CostTargetMs query then autoSelect query accuracy tcs
      else if fitsTier (q_Complexity query) tc
      then Some \<lparr>sel_Tier = tc_tier tc,
          sel_Reason = ''auto-selected '' @ tc_label tc @ '': constraint_count='' @ Itoa (ConstraintCount (q_Complexity query)) @
            '', nesting_depth='' @ Itoa (MaxNestingDepth (q_Complexity query)) @ '', quantifiers='' @
            show_bool (HasQuantifiers (q_Complexity query)) @ '', accuracy='' @ Itoa accuracy,
          EstimatedCostMs = baseCostMs tc, Alternatives = []\<rparr>
      else autoSelect query accuracy tcs)"

definition selectTier :: "VerificationRequest \<Rightarrow> route_error + TierSelection" where
  "selectTier query = (let accuracy = accuracyOf query;
     auto_select = (case autoSelect query accuracy tierConfigs of
         Some sel \<Rightarrow> Inr sel
       | None \<Rightarrow> (case configForTier TierZ3 of None \<Rightarrow> Inl Panic
           | Some tc \<Rightarrow> Inr \<lparr>sel_Tier = TierZ3, sel_Reason = ''fallback to Z3 (no other tier fits constraints and budget)'',
               EstimatedCostMs = baseCostMs tc, Alternatives = []\<rparr>))
   in if accuracy < 0 \<or> accuracy > 100 then Inl (BadAccuracy (AccuracyRequired query))
      else if MethodHint query \<noteq> [] then
        (let t = MethodHint query in
         if t \<noteq> TierCEL \<and> t \<noteq> TierWazero \<and> t \<noteq> TierZ3 then Inl (InvalidHint (MethodHint query))
         else (case configForTier t of None \<Rightarrow> Inl Panic
           | Some tc \<Rightarrow>
               if CostTargetMs query = 0 \<or> baseCostMs tc \<le> CostTargetMs query
               then Inr \<lparr>sel_Tier = t, sel_Reason = ''method_hint='' @ quoted (MethodHint query) @ '' honoured (base cost '' @
                     Itoa (baseCostMs tc) @ ''ms within budget)'', EstimatedCostMs = baseCostMs tc, Alternatives = []\<rparr>
               else auto_select))
      else auto_select)"

text \<open>The reasons against one tier, in the order of the code.\<close>

definition reasonsAgainst :: "VerificationRequest \<Rightarrow> tierConfig \<Rightarrow> string list" where
  "reasonsAgainst query tc = (let accuracy = accuracyOf query; cx = q_Complexity query in
     (if accuracy > accuracyCeiling tc
      then [''accuracy requirement '' @ Itoa accuracy @ '' exceeds ceiling '' @ Itoa (accuracyCeiling tc)] else []) @
     (if CostTargetMs query > 0 \<and> baseCostMs tc > CostTargetMs query
      then [''base cost '' @ Itoa (baseCostMs tc) @ ''ms exceeds budget '' @ Itoa (CostTargetMs query) @ ''ms''] else []) @
     (if ConstraintCount cx > 0 \<and> ConstraintCount cx > maxConstraintCount tc
      then [''constraint count '' @ Itoa (ConstraintCount cx) @ '' exceeds max '' @ Itoa (maxConstraintCount tc)] else []) @
     (if MaxNestingDepth cx > 0 \<and> MaxNestingDepth cx > maxNestingDepth tc
      then [''nesting depth '' @ Itoa (MaxNestingDepth cx) @ '' exceeds max '' @ Itoa (maxNestingDepth tc)] else []) @
     (if HasQuantifiers cx \<and> tc_tier tc = TierCEL then [''cannot handle quantifiers (forall/exists)''] else []))"



definition computeAlternatives :: "VerificationRequest \<Rightarrow> Tier \<Rightarrow> TierAlternative list" where
  "computeAlternatives query selected =
     map (\<lambda>tc. let reasons = reasonsAgainst query tc;
                   reasons = (if length reasons = 0 then [''lower priority than selected tier''] else reasons)
               in \<lparr>alt_Tier = tc_tier tc, alt_Reason = Join reasons ''; ''\<rparr>)
       (filter (\<lambda>tc. tc_tier tc \<noteq> selected) tierConfigs)"

section \<open>The router and its counters\<close>

record Router =
  routeCounts :: "Tier \<rightharpoonup> u64"
  routeLatencyMs :: "Tier \<rightharpoonup> u64"
  routeSamples :: "Tier \<rightharpoonup> u64"

definition NewRouter :: Router where
  "NewRouter = fold (\<lambda>tc r. r\<lparr>routeCounts := (routeCounts r)(tc_tier tc \<mapsto> 0),
       routeLatencyMs := (routeLatencyMs r)(tc_tier tc \<mapsto> 0), routeSamples := (routeSamples r)(tc_tier tc \<mapsto> 0)\<rparr>)
     tierConfigs \<lparr>routeCounts = Map.empty, routeLatencyMs = Map.empty, routeSamples = Map.empty\<rparr>"

text \<open>An atomic add through a nil pointer panics.\<close>

definition recordRoute :: "Tier \<Rightarrow> int \<Rightarrow> Router \<Rightarrow> Router option" where
  "recordRoute t costMs r = (case (routeCounts r t, routeLatencyMs r t, routeSamples r t) of
     (Some n, Some ms, Some k) \<Rightarrow> Some (r\<lparr>routeCounts := (routeCounts r)(t \<mapsto> n + 1),
         routeLatencyMs := (routeLatencyMs r)(t \<mapsto> ms + word_of_int costMs), routeSamples := (routeSamples r)(t \<mapsto> k + 1)\<rparr>)
   | _ \<Rightarrow> None)"

definition Route :: "VerificationRequest \<Rightarrow> Router \<Rightarrow> (route_error + TierSelection) \<times> Router" where
  "Route query r = (case selectTier query of Inl err \<Rightarrow> (Inl err, r)
     | Inr sel \<Rightarrow> (case recordRoute (sel_Tier sel) (EstimatedCostMs sel) r of None \<Rightarrow> (Inl Panic, r)
         | Some r \<Rightarrow> (Inr (sel\<lparr>Alternatives := computeAlternatives query (sel_Tier sel)\<rparr>), r)))"

record TierStats =
  RouteCount :: u64
  AvgCostMs :: real

record Stats =
  TotalRoutes :: u64
  Tiers :: "string \<rightharpoonup> TierStats"

definition addTierStats :: "Router \<Rightarrow> tierConfig \<Rightarrow> Stats \<Rightarrow> Stats" where
  "addTierStats r tc s = (let n = the (routeCounts r (tc_tier tc)); samples = the (routeSamples r (tc_tier tc));
       avg = (if samples > 0 then real (unat (the (routeLatencyMs r (tc_tier tc)))) / real (unat samples) else 0)
     in s\<lparr>Tiers := (Tiers s)(tc_tier tc \<mapsto> \<lparr>RouteCount = n, AvgCostMs = avg\<rparr>), TotalRoutes := TotalRoutes s + n\<rparr>)"

definition router_Stats :: "Router \<Rightarrow> Stats" where
  "router_Stats r = fold (addTierStats r) tierConfigs \<lparr>TotalRoutes = 0, Tiers = Map.empty\<rparr>"

section \<open>HTTP handlers\<close>

text \<open>A panic aborts the connection. \<open>decisionID\<close> comes from the request context.\<close>

datatype 'a http_response = HttpError nat | Aborted | HttpOK 'a

definition errorResponse :: "route_error \<Rightarrow> 'a http_response" where
  "errorResponse err = (if err = Panic then Aborted else HttpError 400)"

record routeResponse =
  rr_Result :: TierSelection
  rr_DecisionID :: string

definition RouteHandler :: "string \<Rightarrow> VerificationRequest option \<Rightarrow> Router \<Rightarrow> routeResponse http_response \<times> Router" where
  "RouteHandler decisionID body r = (case body of None \<Rightarrow> (HttpError 400, r)
     | Some query \<Rightarrow> (case Route query r of
         (Inl err, r) \<Rightarrow> (errorResponse err, r)
       | (Inr sel, r) \<Rightarrow> (HttpOK \<lparr>rr_Result = sel, rr_DecisionID = decisionID\<rparr>, r)))"

definition StatsHandler :: "string \<Rightarrow> Router \<Rightarrow> Stats \<times> string" where
  "StatsHandler decisionID r = (router_Stats r, decisionID)"

record orchestratedResponse =
  or_Selection :: TierSelection
  or_CriterionID :: string
  or_DecisionID :: string

definition OrchestratedVerifyHandler :: "string \<Rightarrow> (VerificationRequest \<times> string option) option \<Rightarrow> Router \<Rightarrow>
    orchestratedResponse http_response \<times> Router" where
  "OrchestratedVerifyHandler decisionID body r = (case body of None \<Rightarrow> (HttpError 400, r)
     | Some (query, criterion) \<Rightarrow> (case Route query r of
         (Inl err, r) \<Rightarrow> (errorResponse err, r)
       | (Inr sel, r) \<Rightarrow> (HttpOK \<lparr>or_Selection = sel, or_CriterionID = (case criterion of None \<Rightarrow> [] | Some i \<Rightarrow> i),
           or_DecisionID = decisionID\<rparr>, r)))"

text \<open>\<open>ParseTier\<close>. No character outside ASCII has a lower case among the letters of the tier names,
  so lowering the ASCII letters decides the comparison.\<close>

definition lowerChar :: "char \<Rightarrow> char" where
  "lowerChar c = (if 65 \<le> (of_char c :: nat) \<and> (of_char c :: nat) \<le> 90 then char_of ((of_char c :: nat) + 32) else c)"

definition ParseTier :: "string \<Rightarrow> Tier option" where
  "ParseTier s = (let l = map lowerChar s in
     if l = TierCEL then Some TierCEL else if l = TierWazero then Some TierWazero
     else if l = TierZ3 then Some TierZ3 else None)"

section \<open>Which tier is selected\<close>

definition eligible :: "VerificationRequest \<Rightarrow> tierConfig \<Rightarrow> bool" where
  "eligible query tc \<longleftrightarrow> accuracyOf query \<le> accuracyCeiling tc \<and>
     (0 < CostTargetMs query \<longrightarrow> baseCostMs tc \<le> CostTargetMs query) \<and> fitsTier (q_Complexity query) tc"

definition auto_selection :: "VerificationRequest \<Rightarrow> tierConfig \<Rightarrow> TierSelection" where
  "auto_selection query tc = the (autoSelect query (accuracyOf query) [tc])"

lemma autoSelect_find:
  "autoSelect query (accuracyOf query) tcs = map_option (auto_selection query) (find (eligible query) tcs)"
  by (induction tcs) (auto simp: eligible_def auto_selection_def)

lemma auto_selection_fields:
  "eligible query tc \<Longrightarrow> sel_Tier (auto_selection query tc) = tc_tier tc \<and> EstimatedCostMs (auto_selection query tc) = baseCostMs tc"
  by (auto simp: auto_selection_def eligible_def)

interpretation cascade: ranked_list tierConfigs baseCostMs
  by unfold_locales (simp add: tierConfigs_def)

lemma configs: "tc \<in> set tierConfigs \<Longrightarrow> configForTier (tc_tier tc) = Some tc"
  unfolding configForTier_def by (rule find_key) (simp_all add: tierConfigs_def tier_defs)

lemma configForTier_values:
  "map_option baseCostMs (configForTier TierCEL) = Some 5" "map_option baseCostMs (configForTier TierWazero) = Some 50"
  "map_option baseCostMs (configForTier TierZ3) = Some 200"
  by (simp_all add: tierConfigs_def configForTier_def tier_defs)

definition valid_request :: "VerificationRequest \<Rightarrow> bool" where
  "valid_request query \<longleftrightarrow> 0 \<le> AccuracyRequired query \<and> AccuracyRequired query \<le> 100 \<and>
     (MethodHint query = [] \<or> MethodHint query \<in> {TierCEL, TierWazero, TierZ3})"

definition hint_honoured :: "VerificationRequest \<Rightarrow> bool" where
  "hint_honoured query \<longleftrightarrow> MethodHint query \<noteq> [] \<and>
     (case configForTier (MethodHint query) of None \<Rightarrow> False
      | Some tc \<Rightarrow> CostTargetMs query = 0 \<or> baseCostMs tc \<le> CostTargetMs query)"

lemma accuracy_valid: "valid_request query \<Longrightarrow> \<not> (accuracyOf query < 0 \<or> accuracyOf query > 100)"
  by (simp add: valid_request_def accuracyOf_def)

lemma tier_nonempty: "TierCEL \<noteq> []" "TierWazero \<noteq> []" "TierZ3 \<noteq> []"
  by (simp_all add: tier_defs)

lemma selectTier_auto:
  assumes "valid_request query" "\<not> hint_honoured query"
  shows "selectTier query = (case find (eligible query) tierConfigs of
      Some tc \<Rightarrow> Inr (auto_selection query tc)
    | None \<Rightarrow> Inr \<lparr>sel_Tier = TierZ3, sel_Reason = ''fallback to Z3 (no other tier fits constraints and budget)'',
        EstimatedCostMs = 200, Alternatives = []\<rparr>)"
proof -
  obtain z where z: "configForTier TierZ3 = Some z" "baseCostMs z = 200"
    using configForTier_values(3) by blast
  let ?auto = "case map_option (auto_selection query) (find (eligible query) tierConfigs) of Some sel \<Rightarrow> Inr sel
    | None \<Rightarrow> Inr \<lparr>sel_Tier = TierZ3, sel_Reason = ''fallback to Z3 (no other tier fits constraints and budget)'',
        EstimatedCostMs = 200, Alternatives = []\<rparr>"
  have "selectTier query = ?auto"
  proof (cases "MethodHint query = []")
    case True
    then show ?thesis
      unfolding selectTier_def Let_def autoSelect_find if_not_P [OF accuracy_valid [OF assms(1)]] by (simp add: z split: option.split)
  next
    case False
    then have tier: "MethodHint query = TierCEL \<or> MethodHint query = TierWazero \<or> MethodHint query = TierZ3"
      using assms(1) by (simp add: valid_request_def)
    then obtain tc where tc: "configForTier (MethodHint query) = Some tc"
      using configForTier_values by auto
    then have "\<not> (CostTargetMs query = 0 \<or> baseCostMs tc \<le> CostTargetMs query)"
      using assms(2) False by (simp add: hint_honoured_def)
    moreover have "\<not> (MethodHint query \<noteq> TierCEL \<and> MethodHint query \<noteq> TierWazero \<and> MethodHint query \<noteq> TierZ3)"
      using tier by blast
    ultimately show ?thesis
      unfolding selectTier_def Let_def autoSelect_find if_not_P [OF accuracy_valid [OF assms(1)]]
      by (simp only: False tc option.case if_False if_True z not_False_eq_True)
  qed
  then show ?thesis by (simp split: option.split)
qed

lemma selectTier_hint:
  assumes "valid_request query" "hint_honoured query"
  shows "\<exists>sel. selectTier query = Inr sel \<and> sel_Tier sel = MethodHint query \<and>
    Some (EstimatedCostMs sel) = map_option baseCostMs (configForTier (MethodHint query))"
  unfolding selectTier_def Let_def if_not_P [OF accuracy_valid [OF assms(1)]]
  using assms by (auto simp: hint_honoured_def valid_request_def split: option.splits)

lemma selectTier_valid:
  assumes "valid_request query"
  shows "\<exists>sel. selectTier query = Inr sel \<and> configForTier (sel_Tier sel) \<noteq> None \<and>
    Some (EstimatedCostMs sel) = map_option baseCostMs (configForTier (sel_Tier sel))"
proof (cases "hint_honoured query")
  case True
  then show ?thesis using selectTier_hint [OF assms] by (auto simp: hint_honoured_def split: option.splits)
next
  case False
  show ?thesis
  proof (cases "find (eligible query) tierConfigs")
    case None
    then show ?thesis using selectTier_auto [OF assms False] configForTier_values(3) by auto
  next
    case (Some tc)
    then have "eligible query tc" "configForTier (tc_tier tc) = Some tc"
      using cascade.first_is_best [OF Some] configs by blast+
    then show ?thesis
      using selectTier_auto [OF assms False] Some auto_selection_fields [of query tc] by simp
  qed
qed

lemma selectTier_invalid: "\<not> valid_request query \<Longrightarrow> \<exists>err. selectTier query = Inl err \<and> err \<noteq> Panic"
  by (auto simp: selectTier_def valid_request_def accuracyOf_def Let_def)

text \<open>
  What each tier can do and costs, in numbers: the accuracy it reaches, the milliseconds it takes, the number of
  constraints and the nesting depth it copes with (zero is unknown, and no accuracy means 80); only CEL cannot
  decide quantifiers. A budget of zero is none.
\<close>

definition copes :: "VerificationRequest \<Rightarrow> int \<Rightarrow> int \<Rightarrow> int \<Rightarrow> int \<Rightarrow> bool" where
  "copes query accuracy cost constraints nesting \<longleftrightarrow>
     (if AccuracyRequired query = 0 then 80 else AccuracyRequired query) \<le> accuracy \<and>
     (CostTargetMs query \<le> 0 \<or> cost \<le> CostTargetMs query) \<and>
     ConstraintCount (q_Complexity query) \<le> constraints \<and> MaxNestingDepth (q_Complexity query) \<le> nesting"

definition can_verify :: "VerificationRequest \<Rightarrow> string \<Rightarrow> bool" where
  "can_verify query t \<longleftrightarrow> t = ''cel'' \<and> copes query 85 5 20 3 \<and> \<not> HasQuantifiers (q_Complexity query) \<or>
     t = ''wazero'' \<and> copes query 95 50 100 10 \<or> t = ''z3'' \<and> copes query 100 200 1073741824 1073741824"

definition tier_cost :: "string \<Rightarrow> int" where
  "tier_cost t = (if t = ''cel'' then 5 else if t = ''wazero'' then 50 else 200)"

definition hinted :: "VerificationRequest \<Rightarrow> bool" where
  "hinted query \<longleftrightarrow> MethodHint query \<noteq> [] \<and> (CostTargetMs query = 0 \<or> tier_cost (MethodHint query) \<le> CostTargetMs query)"

lemma eligible_can:
  assumes "tc \<in> set tierConfigs"
  shows "eligible query tc \<longleftrightarrow> can_verify query (tc_tier tc)" "baseCostMs tc = tier_cost (tc_tier tc)"
proof -
  define lim :: "Tier \<Rightarrow> int \<Rightarrow> int \<Rightarrow> int \<Rightarrow> int \<Rightarrow> bool" where
    "lim t n d b a \<longleftrightarrow> tc_tier tc = t \<and> maxConstraintCount tc = n \<and> maxNestingDepth tc = d \<and> baseCostMs tc = b \<and> accuracyCeiling tc = a" for t n d b a
  have "lim ''cel'' 20 3 5 85 \<or> lim ''wazero'' 100 10 50 95 \<or> lim ''z3'' 1073741824 1073741824 200 100"
    using assms unfolding tierConfigs_def tier_defs by (auto simp: lim_def)
  moreover have "eligible query tc \<longleftrightarrow> copes query a b n d \<and> \<not> (HasQuantifiers (q_Complexity query) \<and> t = ''cel'')"
    if "lim t n d b a" "0 \<le> n" "0 \<le> d" for t n d b a
    using that by (auto simp: lim_def eligible_def copes_def accuracyOf_def fitsTier_def TierCEL_def Let_def split: if_splits)
  ultimately show "eligible query tc \<longleftrightarrow> can_verify query (tc_tier tc)" "baseCostMs tc = tier_cost (tc_tier tc)"
    by (auto simp: lim_def can_verify_def tier_cost_def)
qed

lemma can_tier: "can_verify query t \<Longrightarrow> \<exists>tc \<in> set tierConfigs. tc_tier tc = t"
  by (auto simp: can_verify_def tierConfigs_def tier_defs)

lemma hinted_honoured:
  assumes "valid_request query"
  shows "hinted query \<longleftrightarrow> hint_honoured query"
proof (cases "MethodHint query = []")
  case False
  then have "MethodHint query \<in> {TierCEL, TierWazero, TierZ3}" using assms by (simp add: valid_request_def)
  then show ?thesis
    by (auto simp: hinted_def hint_honoured_def tier_cost_def configForTier_def tierConfigs_def tier_defs)
qed (simp add: hinted_def hint_honoured_def)

text \<open>C36: The router picks the cheapest tier that can do the job. Every request, with a hint or without, is rejected exactly
  when its accuracy is not between 0 and 100 or its hint names no tier. Otherwise a hint within the budget
  decides; without one the selected tier reaches the accuracy, keeps within the budget, copes with the number of constraints,
  the nesting and the quantifiers of the request and is the cheapest that does; only when no tier does is Z3 taken as a
  fallback. The estimate is the cost of the selected tier.\<close>

theorem selectTier_cheapest:
  "((\<exists>err. selectTier query = Inl err) \<longleftrightarrow>
      AccuracyRequired query < 0 \<or> 100 < AccuracyRequired query \<or> MethodHint query \<notin> {[], ''cel'', ''wazero'', ''z3''}) \<and>
   (\<forall>sel. selectTier query = Inr sel \<longrightarrow> EstimatedCostMs sel = tier_cost (sel_Tier sel) \<and>
     (if hinted query then sel_Tier sel = MethodHint query
      else if \<exists>t. can_verify query t
      then can_verify query (sel_Tier sel) \<and> (\<forall>t. can_verify query t \<longrightarrow> tier_cost (sel_Tier sel) \<le> tier_cost t)
      else sel_Tier sel = ''z3''))"
proof (intro conjI allI impI)
  show "(\<exists>err. selectTier query = Inl err) \<longleftrightarrow>
      AccuracyRequired query < 0 \<or> 100 < AccuracyRequired query \<or> MethodHint query \<notin> {[], ''cel'', ''wazero'', ''z3''}"
    using selectTier_valid [of query] selectTier_invalid [of query] by (auto simp: valid_request_def tier_defs)
next
  fix sel assume sel: "selectTier query = Inr sel"
  then have valid: "valid_request query" using selectTier_invalid by fastforce
  from selectTier_valid [OF valid] sel obtain tc where "configForTier (sel_Tier sel) = Some tc" "EstimatedCostMs sel = baseCostMs tc"
    by (auto split: option.splits)
  then have "tc \<in> set tierConfigs" "tc_tier tc = sel_Tier sel" "EstimatedCostMs sel = baseCostMs tc"
    unfolding configForTier_def by (metis (mono_tags, lifting) find_Some_iff nth_mem)+
  then show "EstimatedCostMs sel = tier_cost (sel_Tier sel)" using eligible_can(2) by simp
  show "if hinted query then sel_Tier sel = MethodHint query
      else if \<exists>t. can_verify query t
      then can_verify query (sel_Tier sel) \<and> (\<forall>t. can_verify query t \<longrightarrow> tier_cost (sel_Tier sel) \<le> tier_cost t)
      else sel_Tier sel = ''z3''"
  proof (cases "hinted query")
    case True
    then show ?thesis using selectTier_hint [OF valid] sel hinted_honoured [OF valid] by auto
  next
    case no_hint: False
    then have auto_sel: "\<not> hint_honoured query" using hinted_honoured [OF valid] by simp
    show ?thesis
    proof (cases "find (eligible query) tierConfigs")
      case None
      then have "\<not> can_verify query t" for t using can_tier eligible_can(1) cascade.first_missing by metis
      with None no_hint show ?thesis using sel selectTier_auto [OF valid auto_sel] by (auto simp: tier_defs)
    next
      case (Some tc)
      note best = cascade.first_is_best [OF Some]
      have t: "sel_Tier sel = tc_tier tc" using Some sel selectTier_auto [OF valid auto_sel] auto_selection_fields best by auto
      have "can_verify query (tc_tier tc)" using best eligible_can(1) by blast
      moreover have "tier_cost (tc_tier tc) \<le> tier_cost u" if "can_verify query u" for u
        using can_tier [OF that] best eligible_can that by metis
      ultimately show ?thesis using no_hint t by auto
    qed
  qed
qed

definition small_query :: VerificationRequest where
  "small_query = \<lparr>q_Complexity = \<lparr>ConstraintCount = 30, MaxNestingDepth = 2, HasQuantifiers = False\<rparr>,
     CostTargetMs = 60, AccuracyRequired = 0, MethodHint = []\<rparr>"

theorem selectTier_cheapest_witness:
  "\<exists>sel. selectTier small_query = Inr sel \<and> sel_Tier sel = ''wazero'' \<and> EstimatedCostMs sel = 50"
proof -
  have "\<not> (\<exists>err. selectTier small_query = Inl err)"
    unfolding conjunct1 [OF selectTier_cheapest [of small_query]] by (simp add: small_query_def)
  then obtain sel where sel: "selectTier small_query = Inr sel" by (metis sum.exhaust)
  have can: "can_verify small_query t \<longleftrightarrow> t = ''wazero''" for t
    by (auto simp: can_verify_def copes_def small_query_def)
  have "\<not> hinted small_query" by (simp add: hinted_def small_query_def)
  with spec [OF conjunct2 [OF selectTier_cheapest [of small_query]], of sel] sel have "EstimatedCostMs sel = tier_cost (sel_Tier sel)"
    "can_verify small_query (sel_Tier sel)" unfolding can by (simp_all only: if_False if_True simp_thms)
  with sel show ?thesis unfolding can by (simp add: tier_cost_def)
qed

text \<open>A budget below the cost of every tier buys the most expensive one: for every valid request with
  a budget of 1 to 4 ms the fallback selects Z3 at an estimated 200 ms, although the budget is
  documented as the maximum acceptable latency and a hint is dropped for exceeding it.\<close>

theorem tight_budget_selects_z3:
  assumes "valid_request query" and "0 < CostTargetMs query" and "CostTargetMs query < 5"
  shows "\<exists>sel. selectTier query = Inr sel \<and> sel_Tier sel = TierZ3 \<and> EstimatedCostMs sel = 200 \<and> CostTargetMs query < EstimatedCostMs sel"
proof -
  have dear: "5 \<le> baseCostMs tc" if "tc \<in> set tierConfigs" for tc
    using that by (auto simp: tierConfigs_def)
  then have "\<forall>tc \<in> set tierConfigs. \<not> eligible query tc"
    using assms(2,3) by (force simp: eligible_def)
  then have none: "find (eligible query) tierConfigs = None" by (simp add: cascade.first_missing)
  have "tc \<in> set tierConfigs" if "configForTier t = Some tc" for t tc
    using that unfolding configForTier_def by (metis find_Some_iff nth_mem)
  then have "\<not> hint_honoured query"
    using dear assms(2,3) by (fastforce simp: hint_honoured_def split: option.splits)
  from selectTier_auto [OF assms(1) this] none assms(3) show ?thesis by simp
qed

theorem tight_budget_selects_z3_witness:
  "\<exists>sel. selectTier (small_query\<lparr>CostTargetMs := 3, MethodHint := ''cel''\<rparr>) = Inr sel \<and> EstimatedCostMs sel = 200"
proof -
  have "valid_request (small_query\<lparr>CostTargetMs := 3, MethodHint := ''cel''\<rparr>)"
    by (simp add: valid_request_def small_query_def tier_defs)
  from tight_budget_selects_z3 [OF this] show ?thesis by (auto simp: small_query_def)
qed

section \<open>The counters\<close>

definition chosen :: "Tier \<Rightarrow> VerificationRequest list \<Rightarrow> nat" where
  "chosen t qs = length (filter (\<lambda>q. case selectTier q of Inr sel \<Rightarrow> sel_Tier sel = t | Inl _ \<Rightarrow> False) qs)"

definition routed :: "VerificationRequest list \<Rightarrow> Router" where
  "routed qs = fold (\<lambda>q r. snd (Route q r)) qs NewRouter"

definition counts_at :: "Router \<Rightarrow> VerificationRequest list \<Rightarrow> bool" where
  "counts_at r qs \<longleftrightarrow> (\<forall>tc \<in> set tierConfigs. routeCounts r (tc_tier tc) = Some (of_nat (chosen (tc_tier tc) qs)) \<and>
     routeLatencyMs r (tc_tier tc) = Some (of_nat (chosen (tc_tier tc) qs) * word_of_int (baseCostMs tc)) \<and>
     routeSamples r (tc_tier tc) = Some (of_nat (chosen (tc_tier tc) qs)))"

lemma chosen_snoc:
  "chosen t (qs @ [q]) = chosen t qs + (case selectTier q of Inr sel \<Rightarrow> if sel_Tier sel = t then 1 else 0 | Inl _ \<Rightarrow> 0)"
  by (auto simp: chosen_def split: sum.splits)

lemma Route_counts:
  assumes "counts_at r qs"
  shows "counts_at (snd (Route q r)) (qs @ [q]) \<and> fst (Route q r) \<noteq> Inl Panic"
proof (cases "valid_request q")
  case False
  then obtain err where "selectTier q = Inl err" "err \<noteq> Panic" using selectTier_invalid by blast
  with assms show ?thesis by (simp add: Route_def counts_at_def chosen_snoc)
next
  case True
  then obtain sel tc where sel: "selectTier q = Inr sel" "configForTier (sel_Tier sel) = Some tc" "EstimatedCostMs sel = baseCostMs tc"
    using selectTier_valid by fastforce
  then have tc: "tc \<in> set tierConfigs" "tc_tier tc = sel_Tier sel"
    unfolding configForTier_def by (metis (mono_tags, lifting) find_Some_iff nth_mem)+
  have same: "u = tc" if "u \<in> set tierConfigs" "tc_tier u = sel_Tier sel" for u
    using configs [OF that(1)] that(2) sel(2) by simp
  let ?t = "sel_Tier sel"
  let ?n = "of_nat (chosen ?t qs) :: u64" and ?b = "word_of_int (baseCostMs tc) :: u64"
  have "routeCounts r ?t = Some ?n" "routeLatencyMs r ?t = Some (?n * ?b)" "routeSamples r ?t = Some ?n"
    using assms tc by (auto simp: counts_at_def)
  moreover define r' where "r' = r\<lparr>routeCounts := (routeCounts r)(?t \<mapsto> ?n + 1),
      routeLatencyMs := (routeLatencyMs r)(?t \<mapsto> ?n * ?b + ?b), routeSamples := (routeSamples r)(?t \<mapsto> ?n + 1)\<rparr>"
  ultimately have r': "recordRoute ?t (EstimatedCostMs sel) r = Some r'"
    by (simp add: recordRoute_def sel(3))
  have one: "chosen ?t (qs @ [q]) = chosen ?t qs + 1" "u \<noteq> ?t \<Longrightarrow> chosen u (qs @ [q]) = chosen u qs" for u
    using sel(1) by (auto simp: chosen_snoc)
  have "routeCounts r' (tc_tier u) = Some (of_nat (chosen (tc_tier u) (qs @ [q]))) \<and>
      routeLatencyMs r' (tc_tier u) = Some (of_nat (chosen (tc_tier u) (qs @ [q])) * word_of_int (baseCostMs u)) \<and>
      routeSamples r' (tc_tier u) = Some (of_nat (chosen (tc_tier u) (qs @ [q])))" if u: "u \<in> set tierConfigs" for u
  proof (cases "tc_tier u = ?t")
    case True
    then show ?thesis using same [OF u True] by (simp add: one(1) distrib_right r'_def)
  next
    case False
    then show ?thesis using assms u by (simp add: one(2) counts_at_def r'_def)
  qed
  then have "counts_at r' (qs @ [q])" by (simp add: counts_at_def)
  then show ?thesis using sel r' by (simp add: Route_def)
qed

lemma counts_New: "counts_at NewRouter []"
  by (auto simp: counts_at_def NewRouter_def tierConfigs_def chosen_def tier_defs)

lemma routed_snoc: "routed (qs @ [q]) = snd (Route q (routed qs))"
  by (simp add: routed_def)

lemma routed_counts: "counts_at (routed qs) qs"
  by (induction qs rule: rev_induct) (auto simp: routed_snoc Route_counts counts_New routed_def [of "[]"])

lemma chosen_total: "(\<Sum>tc \<leftarrow> tierConfigs. chosen (tc_tier tc) qs) = length (filter valid_request qs)"
proof (induction qs rule: rev_induct)
  case (snoc q qs)
  show ?case
  proof (cases "valid_request q")
    case True
    then obtain sel where sel: "selectTier q = Inr sel" "configForTier (sel_Tier sel) \<noteq> None"
      using selectTier_valid by blast
    then have "sel_Tier sel = TierCEL \<or> sel_Tier sel = TierWazero \<or> sel_Tier sel = TierZ3"
      by (auto simp: configForTier_def tierConfigs_def split: if_splits)
    then show ?thesis
      using snoc.IH True by (auto simp: chosen_snoc sel(1) tierConfigs_def tier_defs)
  next
    case False
    then obtain err where "selectTier q = Inl err" using selectTier_invalid by blast
    then show ?thesis using snoc.IH False by (simp add: chosen_snoc tierConfigs_def)
  qed
qed (simp add: chosen_def tierConfigs_def)

lemma Stats_fields:
  "TotalRoutes (router_Stats r) = (\<Sum>tc \<leftarrow> tierConfigs. the (routeCounts r (tc_tier tc)))"
  "tc \<in> set tierConfigs \<Longrightarrow> Tiers (router_Stats r) (tc_tier tc) = Some
     \<lparr>RouteCount = the (routeCounts r (tc_tier tc)), AvgCostMs =
        (if the (routeSamples r (tc_tier tc)) > 0
         then real (unat (the (routeLatencyMs r (tc_tier tc)))) / real (unat (the (routeSamples r (tc_tier tc)))) else 0)\<rparr>"
  by (auto simp: router_Stats_def addTierStats_def tierConfigs_def tier_defs Let_def)

lemma routed_total: "TotalRoutes (router_Stats (routed qs)) = of_nat (length (filter valid_request qs))"
proof -
  have "TotalRoutes (router_Stats (routed qs)) = (\<Sum>tc \<leftarrow> tierConfigs. of_nat (chosen (tc_tier tc) qs))"
    unfolding Stats_fields(1) using routed_counts [of qs] by (intro arg_cong [of _ _ sum_list] map_cong) (auto simp: counts_at_def)
  also have "\<dots> = of_nat (\<Sum>tc \<leftarrow> tierConfigs. chosen (tc_tier tc) qs)"
    by (simp add: tierConfigs_def)
  finally show ?thesis by (simp only: chosen_total)
qed

text \<open>The routing statistics are right. After any sequence of route calls the total is the number of
  valid requests (modulo \<open>2^64\<close>), no call panicked, and, below \<open>2^53 / 200\<close> calls, the average cost
  reported for a tier that was selected is exactly its base cost.\<close>

theorem router_Stats_correct:
  assumes "200 * length qs < 2 ^ 53"
  shows "TotalRoutes (router_Stats (routed qs)) = of_nat (length (filter valid_request qs)) \<and>
    fst (Route q (routed qs)) \<noteq> Inl Panic \<and>
    (\<forall>tc \<in> set tierConfigs. \<exists>ts. Tiers (router_Stats (routed qs)) (tc_tier tc) = Some ts \<and>
       unat (RouteCount ts) = chosen (tc_tier tc) qs \<and>
       AvgCostMs ts = (if chosen (tc_tier tc) qs > 0 then real_of_int (baseCostMs tc) else 0))"
proof (intro conjI ballI)
  let ?r = "routed qs"
  have c: "counts_at ?r qs" by (rule routed_counts)
  show "fst (Route q ?r) \<noteq> Inl Panic" using Route_counts [OF c] by blast
  show "TotalRoutes (router_Stats ?r) = of_nat (length (filter valid_request qs))" by (rule routed_total)
  fix tc assume tc: "tc \<in> set tierConfigs"
  let ?n = "chosen (tc_tier tc) qs" and ?b = "nat (baseCostMs tc)"
  have "?n \<le> length qs" by (simp add: chosen_def)
  moreover have b: "?b \<le> 200" "0 < ?b" "word_of_int (baseCostMs tc) = (of_nat ?b :: u64)" "real_of_int (baseCostMs tc) = real ?b"
    using tc by (auto simp: tierConfigs_def)
  moreover have "?n * ?b \<le> length qs * 200" using calculation by (intro mult_le_mono)
  ultimately have small: "?n * ?b < 2 ^ 64" "?n < 2 ^ 64" using assms by auto
  have lat: "unat (of_nat ?n * word_of_int (baseCostMs tc) :: u64) = ?n * ?b"
    unfolding b(3) of_nat_mult [symmetric] unat_of_nat using small(1) by simp
  have cnt: "unat (of_nat ?n :: u64) = ?n" using small(2) by (simp add: unat_of_nat)
  then have pos: "(0 < (of_nat ?n :: u64)) = (0 < ?n)" by (simp add: word_less_nat_alt)
  have at: "routeCounts ?r (tc_tier tc) = Some (of_nat ?n)" "routeSamples ?r (tc_tier tc) = Some (of_nat ?n)"
    "routeLatencyMs ?r (tc_tier tc) = Some (of_nat ?n * word_of_int (baseCostMs tc))"
    using c tc unfolding counts_at_def by blast+
  show "\<exists>ts. Tiers (router_Stats ?r) (tc_tier tc) = Some ts \<and> unat (RouteCount ts) = ?n \<and>
      AvgCostMs ts = (if ?n > 0 then real_of_int (baseCostMs tc) else 0)"
    unfolding Stats_fields(2) [OF tc] at option.sel lat pos b(4) by (auto simp: cnt)
qed

theorem router_Stats_correct_witness:
  "TotalRoutes (router_Stats (routed [small_query, small_query\<lparr>AccuracyRequired := 101\<rparr>])) = 1"
  using router_Stats_correct [of "[small_query, small_query\<lparr>AccuracyRequired := 101\<rparr>]" small_query]
  by (simp add: valid_request_def small_query_def)

section \<open>Alternatives\<close>

text \<open>The alternatives are the other tiers in cascade order, and a tier gets the reason of lower priority
  exactly when it could have served the request.\<close>

lemma alternatives_tiers:
  "map alt_Tier (computeAlternatives query t) = filter (\<lambda>u. u \<noteq> t) [TierCEL, TierWazero, TierZ3]"
  by (simp add: computeAlternatives_def tierConfigs_def Let_def)

lemma reasons_eligible: "reasonsAgainst query tc = [] \<longleftrightarrow> eligible query tc"
  by (auto simp: reasonsAgainst_def eligible_def fitsTier_def Let_def)

lemma ParseTier_tiers: "tc \<in> set tierConfigs \<Longrightarrow> ParseTier (tc_tier tc) = Some (tc_tier tc)"
  by (auto simp: ParseTier_def tierConfigs_def tier_defs lowerChar_def)

end
