(* ===== verification/GoTime.thy ===== *)
theory GoTime
  imports GoStrings
begin

text \<open>
  What the sources use of Go's package \<open>time\<close> for text: the layout \<open>time.RFC3339Nano\<close> for a UTC time. An
  instant is the number of nanoseconds since the start of 1970. The calendar is computed by walking over
  the years and the months.
\<close>

section \<open>The calendar\<close>

definition leap_year :: "nat \<Rightarrow> bool" where
  "leap_year y \<longleftrightarrow> 4 dvd y \<and> (\<not> 100 dvd y \<or> 400 dvd y)"

definition year_length :: "nat \<Rightarrow> nat" where
  "year_length y = (if leap_year y then 366 else 365)"

definition month_lengths :: "nat \<Rightarrow> nat list" where
  "month_lengths y = [31, if leap_year y then 29 else 28, 31, 30, 31, 30, 31, 31, 30, 31, 30, 31]"

text \<open>The year and the day in it, counted from the first day of a year.\<close>

function civil_year :: "nat \<Rightarrow> nat \<Rightarrow> nat \<times> nat" where
  "civil_year y d = (if d < year_length y then (y, d) else civil_year (y + 1) (d - year_length y))"
  by pat_completeness auto
termination
  by (relation "measure snd") (auto simp: year_length_def)

declare civil_year.simps [simp del]

fun walk :: "nat list \<Rightarrow> nat \<Rightarrow> nat \<times> nat" where
  "walk [] d = (0, d)"
| "walk (l # ls) d = (if d < l then (0, d) else (case walk ls (d - l) of (i, r) \<Rightarrow> (i + 1, r)))"

definition days_before :: "nat \<Rightarrow> nat \<Rightarrow> nat" where
  "days_before y0 y = sum_list (map year_length [y0..<y])"

section \<open>Formatting and parsing\<close>

text \<open>A number with leading zeros.\<close>

primrec pad :: "nat \<Rightarrow> nat \<Rightarrow> string" where
  "pad 0 n = []"
| "pad (Suc w) n = pad w (n div 10) @ [char_of (48 + n mod 10)]"

definition fraction :: "nat \<Rightarrow> string" where
  "fraction ns = (if ns = 0 then [] else CHR ''.'' # trim_right (\<lambda>c. c = CHR ''0'') (pad 9 ns))"

definition year_of :: "nat \<Rightarrow> nat" where
  "year_of t = fst (civil_year 1970 (t div 10 ^ 9 div 86400))"

definition formatNano :: "nat \<Rightarrow> string" where
  "formatNano t = (let secs = t div 10 ^ 9; sod = secs mod 86400;
     (y, yd) = civil_year 1970 (secs div 86400); (m, md) = walk (month_lengths y) yd in
     pad 4 y @ CHR ''-'' # pad 2 (m + 1) @ CHR ''-'' # pad 2 (md + 1) @ CHR ''T'' #
     pad 2 (sod div 3600) @ CHR '':'' # pad 2 (sod div 60 mod 60) @ CHR '':'' # pad 2 (sod mod 60) @
     fraction (t mod 10 ^ 9) @ ''Z'')"

definition number_at :: "string \<Rightarrow> nat \<Rightarrow> nat \<Rightarrow> nat option" where
  "number_at s i w = (let d = take w (drop i s) in
     if length d = w \<and> (\<forall>c \<in> set d. 48 \<le> (of_char c :: nat) \<and> (of_char c :: nat) \<le> 57) then Some (undigits d) else None)"

definition parse_fraction :: "string \<Rightarrow> nat option" where
  "parse_fraction s = (case s of [] \<Rightarrow> Some 0
     | c # ds \<Rightarrow> if c = CHR ''.'' \<and> ds \<noteq> [] then number_at (take 9 (ds @ replicate 9 (CHR ''0''))) 0 9 else None)"

text \<open>The clock part of a time, in seconds, and the day in the year, with the checks of the ranges.\<close>

definition parse_clock :: "nat \<Rightarrow> nat \<Rightarrow> nat \<Rightarrow> nat option" where
  "parse_clock h mi s = (if h < 24 \<and> mi < 60 \<and> s < 60 then Some (h * 3600 + mi * 60 + s) else None)"

definition parse_day :: "nat \<Rightarrow> nat \<Rightarrow> nat \<Rightarrow> nat option" where
  "parse_day y m d = (if 1 \<le> m \<and> m \<le> 12 \<and> 1 \<le> d \<and> d \<le> month_lengths y ! (m - 1)
     then Some (days_before 1970 y + sum_list (take (m - 1) (month_lengths y)) + (d - 1)) else None)"

text \<open>
  \<open>time.Parse(time.RFC3339Nano, s)\<close> on a text with the zone \<open>Z\<close> from 1970 on, the only form that an entry
  of the audit log has.
\<close>

definition parseNano :: "string \<Rightarrow> nat option" where
  "parseNano s = (if length s < 20 \<or> map ((!) s) [4, 7, 10, 13, 16, length s - 1] \<noteq> ''--T::Z'' then None
     else case (number_at s 0 4, number_at s 5 2, number_at s 8 2, number_at s 11 2, number_at s 14 2, number_at s 17 2,
        parse_fraction (take (length s - 20) (drop 19 s))) of
       (Some y, Some m, Some d, Some h, Some mi, Some sec, Some ns) \<Rightarrow>
         (case (parse_day y m d, parse_clock h mi sec) of
            (Some day, Some sod) \<Rightarrow> Some ((day * 86400 + sod) * 10 ^ 9 + ns)
          | _ \<Rightarrow> None)
     | _ \<Rightarrow> None)"

section \<open>The calendar is a bijection\<close>

lemma civil_year_spec: "civil_year y d = (y', r) \<Longrightarrow> y \<le> y' \<and> r < year_length y' \<and> days_before y y' + r = d"
proof (induction y d rule: civil_year.induct)
  case (1 y d)
  show ?case
  proof (cases "d < year_length y")
    case True
    with "1.prems" show ?thesis by (subst (asm) civil_year.simps) (auto simp: days_before_def)
  next
    case False
    with "1.prems" have "civil_year (y + 1) (d - year_length y) = (y', r)" by (subst (asm) civil_year.simps) simp
    from "1.IH" [OF False this] have "y + 1 \<le> y'" "r < year_length y'" "days_before (y + 1) y' + r = d - year_length y" by auto
    moreover from this have "days_before y y' = year_length y + days_before (y + 1) y'"
      by (simp add: days_before_def upt_conv_Cons)
    ultimately show ?thesis using False by simp
  qed
qed

lemma walk_spec: "walk ls d = (i, r) \<Longrightarrow> d < sum_list ls \<Longrightarrow> i < length ls \<and> r < ls ! i \<and> sum_list (take i ls) + r = d"
proof (induction ls arbitrary: d i r)
  case (Cons l ls)
  show ?case
  proof (cases "d < l")
    case False
    obtain j s where w: "walk ls (d - l) = (j, s)" by (cases "walk ls (d - l)")
    with False Cons.prems have ij: "i = j + 1" "r = s" by auto
    have "j < length ls \<and> s < ls ! j \<and> sum_list (take j ls) + s = d - l"
      by (rule Cons.IH [OF w]) (use False Cons.prems(2) in simp)
    with ij False show ?thesis by auto
  qed (use Cons.prems in auto)
qed simp

lemma month_lengths_sum: "sum_list (month_lengths y) = year_length y"
  by (simp add: month_lengths_def year_length_def)

lemma parse_day_civil:
  assumes "civil_year 1970 n = (y, yd)" and "walk (month_lengths y) yd = (m, md)"
  shows "parse_day y (m + 1) (md + 1) = Some n" "m < 12" "md < 31"
proof -
  have y: "yd < year_length y" "days_before 1970 y + yd = n" using civil_year_spec [OF assms(1)] by auto
  have m: "m < length (month_lengths y)" "md < month_lengths y ! m" "sum_list (take m (month_lengths y)) + md = yd"
    using walk_spec [OF assms(2)] y(1) by (auto simp: month_lengths_sum)
  from m(1) show m12: "m < 12" by (simp add: month_lengths_def)
  then have "month_lengths y ! m \<le> 31"
    by (auto simp: month_lengths_def less_Suc_eq numeral_eq_Suc nth_Cons split: nat.splits)
  with m(2) show "md < 31" by simp
  show "parse_day y (m + 1) (md + 1) = Some n"
    using m m12 y(2) by (simp add: parse_day_def)
qed

section \<open>Numbers of a fixed width\<close>

lemma pad_length [simp]: "length (pad w n) = w"
  by (induction w arbitrary: n) auto

lemma pad_numeral: "pad (numeral k) n = pad (pred_numeral k) (n div 10) @ [char_of (48 + n mod 10)]"
  by (simp only: numeral_eq_Suc [of k] pad.simps)

lemma digit_chars: "char_of (48 :: nat) = CHR ''0''" "char_of (49 :: nat) = CHR ''1''" "char_of (53 :: nat) = CHR ''5''"
  "char_of (55 :: nat) = CHR ''7''" "char_of (57 :: nat) = CHR ''9''"
  by (simp_all add: char_of_def bit_iff_odd)

lemma undigits_snoc: "undigits (s @ [c]) = 10 * undigits s + (of_char c - 48)"
  by (simp add: undigits_def)

lemma undigits_pad: "n < 10 ^ w \<Longrightarrow> undigits (pad w n) = n"
proof (induction w arbitrary: n)
  case (Suc w)
  then have "undigits (pad w (n div 10)) = n div 10"
    by (intro Suc.IH) (simp add: less_mult_imp_div_less mult.commute)
  then show ?case by (simp add: undigits_snoc)
qed (simp add: undigits_def)

lemma pad_chars: "c \<in> set (pad w n) \<Longrightarrow> 48 \<le> (of_char c :: nat) \<and> (of_char c :: nat) \<le> 57"
  by (induction w arbitrary: n) auto

lemma number_at_pad:
  assumes "take w (drop i s) = pad w n" and "n < 10 ^ w"
  shows "number_at s i w = Some n"
  using assms pad_chars by (auto simp: number_at_def undigits_pad)

lemma trim_right_pads: "trim_right (\<lambda>c. c = x) s @ replicate (length s - length (trim_right (\<lambda>c. c = x) s)) x = s"
proof -
  let ?P = "\<lambda>c. c = x"
  have "rev s = takeWhile ?P (rev s) @ dropWhile ?P (rev s)" by simp
  then have s: "s = trim_right ?P s @ rev (takeWhile ?P (rev s))" unfolding trim_right_def by (metis rev_append rev_rev_ident)
  have "takeWhile ?P (rev s) = replicate (length (takeWhile ?P (rev s))) x"
    by (rule replicate_eqI) (auto dest: set_takeWhileD)
  then have "rev (takeWhile ?P (rev s)) = replicate (length (takeWhile ?P (rev s))) x" by (metis rev_replicate)
  moreover have "length s - length (trim_right ?P s) = length (takeWhile ?P (rev s))" using arg_cong [OF s, of length] by simp
  ultimately show ?thesis using s by metis
qed

lemma undigits_zeros: "undigits (replicate n (CHR ''0'')) = 0"
  by (induction n) (auto simp: undigits_def)

lemma clock_parts: "s div 3600 * 3600 + s div 60 mod 60 * 60 + s mod 60 = (s :: nat)"
proof -
  have "s div 3600 = s div 60 div 60" by (simp add: div_mult2_eq [symmetric])
  moreover have "s div 60 div 60 * 60 + s div 60 mod 60 = s div 60" and "s div 60 * 60 + s mod 60 = s" by simp_all
  ultimately show ?thesis by linarith
qed

lemma trim_right_length: "length (trim_right P s) \<le> length s"
  by (simp add: trim_right_def) (metis length_dropWhile_le length_rev)

lemma parse_fraction_fraction:
  assumes "ns < 10 ^ 9"
  shows "parse_fraction (fraction ns) = Some ns"
proof (cases "ns = 0")
  case False
  let ?t = "trim_right (\<lambda>c. c = CHR ''0'') (pad 9 ns)"
  have len: "length ?t \<le> 9" using trim_right_length [of _ "pad 9 ns"] by simp
  have t: "?t @ replicate (9 - length ?t) (CHR ''0'') = pad 9 ns" using trim_right_pads [of "CHR ''0''" "pad 9 ns"] by simp
  have "?t \<noteq> []"
  proof
    assume "?t = []"
    with t have "pad 9 ns = replicate 9 (CHR ''0'')" by (simp del: pad.simps)
    then have "undigits (pad 9 ns) = 0" by (metis undigits_zeros)
    with undigits_pad [OF assms] False show False by simp
  qed
  moreover have "take 9 (?t @ replicate 9 (CHR ''0'')) = pad 9 ns"
    using t len by (simp add: take_replicate min_def)
  ultimately show ?thesis using False number_at_pad [of 9 0 "pad 9 ns" ns] assms by (simp add: parse_fraction_def fraction_def)
qed (simp add: parse_fraction_def fraction_def)

section \<open>The round trip\<close>

lemma parseNano_parts:
  assumes "y < 10000" "m < 100" "d < 100" "h < 100" "mi < 100" "sec < 100" "ns < 10 ^ 9"
    and "parse_day y m d = Some day" and "parse_clock h mi sec = Some sod"
  shows "parseNano (pad 4 y @ CHR ''-'' # pad 2 m @ CHR ''-'' # pad 2 d @ CHR ''T'' # pad 2 h @ CHR '':'' # pad 2 mi @
    CHR '':'' # pad 2 sec @ fraction ns @ ''Z'') = Some ((day * 86400 + sod) * 10 ^ 9 + ns)" (is "parseNano ?s = _")
proof -
  have seps: "map ((!) ?s) [4, 7, 10, 13, 16, length ?s - 1] = ''--T::Z''"
    by (simp add: nth_append)
  have nums: "number_at ?s 0 4 = Some y" "number_at ?s 5 2 = Some m" "number_at ?s 8 2 = Some d"
    "number_at ?s 11 2 = Some h" "number_at ?s 14 2 = Some mi" "number_at ?s 17 2 = Some sec"
    using assms(1-6) by (auto intro!: number_at_pad)
  have "take (length ?s - 20) (drop 19 ?s) = fraction ns" by simp
  with parse_fraction_fraction [OF assms(7)] have "parse_fraction (take (length ?s - 20) (drop 19 ?s)) = Some ns" by simp
  moreover have "\<not> length ?s < 20" by simp
  ultimately show ?thesis using seps nums assms(8,9) unfolding parseNano_def by simp
qed

lemma parseNano_formatNano:
  assumes "year_of t < 10000"
  shows "parseNano (formatNano t) = Some t"
proof -
  let ?secs = "t div 10 ^ 9"
  let ?sod = "?secs mod 86400"
  obtain y yd where y: "civil_year 1970 (?secs div 86400) = (y, yd)" by (cases "civil_year 1970 (?secs div 86400)")
  obtain m md where m: "walk (month_lengths y) yd = (m, md)" by (cases "walk (month_lengths y) yd")
  note day = parse_day_civil [OF y m]
  have y4: "y < 10000" using assms y by (simp add: year_of_def)
  have h: "?sod div 3600 < 24" by (simp add: less_mult_imp_div_less)
  have clock: "parse_clock (?sod div 3600) (?sod div 60 mod 60) (?sod mod 60) = Some ?sod"
    using h clock_parts [of ?sod] by (simp only: parse_clock_def) simp
  have "parseNano (formatNano t) = Some ((?secs div 86400 * 86400 + ?sod) * 10 ^ 9 + t mod 10 ^ 9)"
    unfolding formatNano_def Let_def y m prod.case
    by (rule parseNano_parts) (use y4 day h clock in \<open>auto intro: less_trans [of _ 60]\<close>)
  also have "(?secs div 86400 * 86400 + ?sod) * 10 ^ 9 + t mod 10 ^ 9 = t" by (metis div_mult_mod_eq)
  finally show ?thesis .
qed

end
