(* ===== verification/AuditLog.thy ===== *)
theory AuditLog
  imports GoTime GoValues
begin

text \<open>
  The audit trail (\<open>src/internal/audit/audit.go\<close>) and the diagnostics store
  (\<open>src/internal/diagnostics/diagnostics.go\<close>). The clock reading of a call is an argument; \<open>Record\<close> takes it before the
  lock, so that entries are appended in an order that need not be that of their stamps. Both parsers of
  the \<open>from\<close> parameter of the export request are parameters; the entries of the log carry the text that
  \<open>Record\<close> wrote, read by the parser of \<open>GoTime\<close>. SHA-256 is a parameter.
\<close>

section \<open>Entries and the log\<close>

record Entry =
  en_DecisionID :: string
  en_InputHash :: string
  en_Tier :: string
  en_Result :: string
  en_Timestamp :: string

record Log =
  log_entries :: "Entry list"
  maxLen :: int
  rotationCount :: int

definition WithMaxLen :: "int \<Rightarrow> Log \<Rightarrow> Log" where
  "WithMaxLen n l = (if n > 0 then l\<lparr>maxLen := n\<rparr> else l)"

definition audit_New :: "(Log \<Rightarrow> Log) list \<Rightarrow> Log" where
  "audit_New opts = (fold (\<lambda>opt l. opt l) opts \<lparr>log_entries = [], maxLen = 10000, rotationCount = 0\<rparr>)\<lparr>log_entries := []\<rparr>"

definition HashInput :: "(byte list \<Rightarrow> byte list) \<Rightarrow> (byte list \<Rightarrow> string) \<Rightarrow> byte list \<Rightarrow> string" where
  "HashInput sha256 hex b = hex (sha256 b)"

definition stamp :: "nat \<Rightarrow> Entry \<Rightarrow> Entry" where
  "stamp now e = e\<lparr>en_Timestamp := formatNano now\<rparr>"

text \<open>
  \<open>Record\<close> reads the clock before it takes the lock. \<open>audit_append\<close> is what it does under the lock; \<open>now\<close> is the earlier
  reading, so that calls that overlap may append in another order than they read the clock.
\<close>

definition audit_append :: "Entry \<Rightarrow> Log \<Rightarrow> Log" where
  "audit_append entry l = (let n = int (length (log_entries l));
     l = (if n \<ge> maxLen l
          then (let k = n - maxLen l + 1 in l\<lparr>log_entries := drop (nat k) (log_entries l), rotationCount := rotationCount l + k\<rparr>)
          else l)
     in l\<lparr>log_entries := log_entries l @ [entry]\<rparr>)"

definition audit_Record :: "nat \<Rightarrow> Entry \<Rightarrow> Log \<Rightarrow> Log" where
  "audit_Record now entry l = audit_append (stamp now entry) l"

definition olderThan :: "int \<Rightarrow> Entry \<Rightarrow> bool" where
  "olderThan cutoff e = (case parseNano (en_Timestamp e) of None \<Rightarrow> False | Some t \<Rightarrow> int t < cutoff)"

text \<open>The loop of \<open>Rotate\<close>: it stops at the first entry that is not older than the cutoff.\<close>

fun rotateCut :: "int \<Rightarrow> Entry list \<Rightarrow> nat \<Rightarrow> nat \<Rightarrow> nat" where
  "rotateCut cutoff [] i n = n"
| "rotateCut cutoff (e # es) i n = (if olderThan cutoff e then rotateCut cutoff es (i + 1) (i + 1) else n)"

definition Rotate :: "nat \<Rightarrow> duration \<Rightarrow> Log \<Rightarrow> nat \<times> Log" where
  "Rotate now age l = (let n = rotateCut (int now - age) (log_entries l) 0 0 in
     (n, if n > 0 then l\<lparr>log_entries := drop n (log_entries l), rotationCount := rotationCount l + int n\<rparr> else l))"

text \<open>The zero \<open>time.Time\<close> is the start of year 1.\<close>

definition zeroTime :: int where
  "zeroTime = - 62135596800 * 10 ^ 9"

definition notBefore :: "int \<Rightarrow> Entry \<Rightarrow> bool" where
  "notBefore since e = (case parseNano (en_Timestamp e) of None \<Rightarrow> False | Some t \<Rightarrow> \<not> int t < since)"

definition Export :: "int \<Rightarrow> Log \<Rightarrow> Entry list" where
  "Export since l = filter (\<lambda>e. since = zeroTime \<or> notBefore since e) (log_entries l)"

record LogStats =
  TotalEntries :: nat
  st_RotationCount :: int
  st_MaxLen :: int
  TierBreakdown :: "string \<rightharpoonup> nat"

definition countTier :: "Entry \<Rightarrow> (string \<rightharpoonup> nat) \<Rightarrow> (string \<rightharpoonup> nat)" where
  "countTier e m = m(en_Tier e \<mapsto> (case m (en_Tier e) of None \<Rightarrow> 0 | Some n \<Rightarrow> n) + 1)"

definition audit_Stats :: "Log \<Rightarrow> LogStats" where
  "audit_Stats l = \<lparr>TotalEntries = length (log_entries l), st_RotationCount = rotationCount l, st_MaxLen = maxLen l,
     TierBreakdown = fold countTier (log_entries l) Map.empty\<rparr>"

section \<open>The export request\<close>

datatype export_reply = InvalidFrom | UnsupportedFormat string | Jsonl "Entry list"

definition exportHandler :: "(string \<Rightarrow> int option) \<Rightarrow> (string \<Rightarrow> int option) \<Rightarrow> string \<Rightarrow> string \<Rightarrow> Log \<Rightarrow> export_reply" where
  "exportHandler parse3339 parse3339Nano q_from q_format l =
     (let since = (if q_from = [] then Some zeroTime
                  else case parse3339 q_from of Some ts \<Rightarrow> Some ts | None \<Rightarrow> parse3339Nano q_from) in
      case since of None \<Rightarrow> InvalidFrom
      | Some ts \<Rightarrow> if q_format \<noteq> [] \<and> q_format \<noteq> ''jsonl'' then UnsupportedFormat q_format else Jsonl (Export ts l))"

text \<open>\<open>sort.Slice\<close> on the texts of the timestamps, and the tier counts as text.\<close>

definition sortEntriesByTimestamp :: "Entry list \<Rightarrow> Entry list" where
  "sortEntriesByTimestamp es = sortSlice (\<lambda>a b. en_Timestamp a < en_Timestamp b) es"

definition parseTierCounts :: "(string \<times> nat) list \<Rightarrow> string" where
  "parseTierCounts m = Join (map (\<lambda>k. k @ '':'' @ digits (the (map_of m k))) (sort (map fst m))) '',''"

section \<open>What the log keeps\<close>

datatype audit_op = ARecord nat Entry | ARotate nat duration

fun audit_exec :: "audit_op \<Rightarrow> Log \<Rightarrow> Log" where
  "audit_exec (ARecord now e) l = audit_Record now e l"
| "audit_exec (ARotate now age) l = snd (Rotate now age l)"

text \<open>
  An operation is what a call does once it has the lock, and a sequence of operations is the order in which calls got
  it; the reading of the clock in \<open>ARecord\<close> is from before, so that the readings of a sequence may be out of order. Every entry ever
  recorded, with its clock reading, in the order of the lock:
\<close>

fun recorded :: "audit_op list \<Rightarrow> (nat \<times> Entry) list" where
  "recorded [] = []"
| "recorded (ARecord now e # ops) = (now, stamp now e) # recorded ops"
| "recorded (ARotate now age # ops) = recorded ops"

lemma recorded_append [simp]: "recorded (xs @ ys) = recorded xs @ recorded ys"
  by (induction xs rule: recorded.induct) auto

definition trail :: "int \<Rightarrow> Entry list \<Rightarrow> Log \<Rightarrow> bool" where
  "trail n history l \<longleftrightarrow> maxLen l = n \<and> int (length (log_entries l)) \<le> n \<and>
     (\<exists>k \<le> length history. rotationCount l = int k \<and> log_entries l = drop k history)"

lemma trail_Record:
  assumes "trail n history l" and "n > 0"
  shows "trail n (history @ [stamp now e]) (audit_Record now e l)"
proof -
  obtain k where k: "maxLen l = n" "int (length (log_entries l)) \<le> n" "k \<le> length history" "rotationCount l = int k"
    "log_entries l = drop k history" using assms(1) by (auto simp: trail_def)
  show ?thesis
  proof (cases "int (length (log_entries l)) \<ge> n")
    case True
    with k have len: "int (length history - k) = n" by simp
    then have "audit_Record now e l = l\<lparr>log_entries := drop 1 (log_entries l) @ [stamp now e], rotationCount := rotationCount l + 1\<rparr>"
      using True k by (simp add: audit_Record_def audit_append_def Let_def)
    moreover have "drop 1 (log_entries l) @ [stamp now e] = drop (k + 1) (history @ [stamp now e])"
      using k(5) len assms(2) by simp
    ultimately show ?thesis using k len assms(2)
      by (auto simp: trail_def intro!: exI [of _ "k + 1"])
  next
    case False
    then show ?thesis using k by (auto simp: trail_def audit_Record_def audit_append_def Let_def intro!: exI [of _ k])
  qed
qed

lemma rotateCut_takeWhile: "rotateCut cutoff es i i = i + length (takeWhile (olderThan cutoff) es)"
  by (induction es arbitrary: i) auto

lemma Rotate_dropWhile:
  "fst (Rotate now age l) = length (takeWhile (olderThan (int now - age)) (log_entries l))"
  "log_entries (snd (Rotate now age l)) = dropWhile (olderThan (int now - age)) (log_entries l)"
  "rotationCount (snd (Rotate now age l)) = rotationCount l + int (fst (Rotate now age l))"
  "maxLen (snd (Rotate now age l)) = maxLen l"
  by (auto simp: Rotate_def Let_def rotateCut_takeWhile dropWhile_eq_drop)

lemma trail_Rotate:
  assumes "trail n history l"
  shows "trail n history (snd (Rotate now age l))"
proof -
  obtain k where k: "maxLen l = n" "int (length (log_entries l)) \<le> n" "k \<le> length history" "rotationCount l = int k"
    "log_entries l = drop k history" using assms by (auto simp: trail_def)
  let ?c = "fst (Rotate now age l)"
  have "?c \<le> length (log_entries l)" by (simp add: Rotate_dropWhile length_takeWhile_le)
  moreover have "log_entries (snd (Rotate now age l)) = drop (k + ?c) history"
    by (simp add: Rotate_dropWhile dropWhile_eq_drop k(5) add.commute)
  ultimately show ?thesis using k unfolding trail_def
    by (auto simp: Rotate_dropWhile(3,4) intro!: exI [of _ "k + ?c"])
qed

lemma trail_run:
  assumes "n > 0" and "trail n history l"
  shows "trail n (history @ map snd (recorded ops)) (fold audit_exec ops l)"
  using assms(2)
proof (induction ops arbitrary: history l)
  case (Cons op ops)
  show ?case
  proof (cases op)
    case (ARecord now e)
    with Cons.IH [OF trail_Record [OF Cons.prems assms(1)], of now e] show ?thesis by simp
  next
    case (ARotate now age)
    with Cons.IH [OF trail_Rotate [OF Cons.prems]] show ?thesis by simp
  qed
qed simp

lemma options_keep: "maxLen l > 0 \<and> rotationCount l = 0 \<Longrightarrow>
  maxLen (fold (\<lambda>opt l. opt l) (map WithMaxLen ns) l) > 0 \<and> rotationCount (fold (\<lambda>opt l. opt l) (map WithMaxLen ns) l) = 0"
  by (induction ns arbitrary: l) (auto simp: WithMaxLen_def)

lemma trail_New: "trail (maxLen (audit_New (map WithMaxLen ns))) [] (audit_New (map WithMaxLen ns))" "maxLen (audit_New (map WithMaxLen ns)) > 0"
  using options_keep [of "\<lparr>log_entries = [], maxLen = 10000, rotationCount = 0\<rparr>" ns] by (auto simp: trail_def audit_New_def)

lemma trail_of_run:
  "trail (maxLen (audit_New (map WithMaxLen ns))) (map snd (recorded ops)) (fold audit_exec ops (audit_New (map WithMaxLen ns)))"
  using trail_run [OF trail_New(2) trail_New(1)] by simp

text \<open>C20: the log is append only. After any sequence of records and rotations it holds a suffix of everything
  that was ever recorded, unchanged and in order, at most \<open>maxLen\<close> entries of it, and the rotation count is
  exactly the number of entries that are gone.\<close>

theorem audit_keeps_suffix:
  "\<exists>k \<le> length (recorded ops). let l = fold audit_exec ops (audit_New (map WithMaxLen ns)) in
     log_entries l = map snd (drop k (recorded ops)) \<and> rotationCount l = int k \<and>
     int (length (log_entries l)) \<le> maxLen l \<and> maxLen l = maxLen (audit_New (map WithMaxLen ns))"
proof -
  obtain k where "k \<le> length (map snd (recorded ops))"
    "rotationCount (fold audit_exec ops (audit_New (map WithMaxLen ns))) = int k"
    "log_entries (fold audit_exec ops (audit_New (map WithMaxLen ns))) = drop k (map snd (recorded ops))"
    using trail_of_run [of ns ops] unfolding trail_def by blast
  then show ?thesis using trail_of_run [of ns ops] by (intro exI [of _ k]) (simp add: trail_def Let_def drop_map)
qed

section \<open>Rotation and export go by the time of recording\<close>

definition readable :: "(nat \<times> Entry) list \<Rightarrow> bool" where
  "readable rs \<longleftrightarrow> (\<forall>(t, e) \<in> set rs. parseNano (en_Timestamp e) = Some t)"

lemma readable_drop: "readable rs \<Longrightarrow> readable (drop k rs)"
  unfolding readable_def by (meson in_set_dropD)

lemma readable_recorded: "\<forall>(t, e) \<in> set (recorded ops). year_of t < 10000 \<Longrightarrow> readable (recorded ops)"
  by (induction ops rule: recorded.induct) (auto simp: readable_def stamp_def parseNano_formatNano)

lemma olderThan_readable: "readable rs \<Longrightarrow> (t, e) \<in> set rs \<Longrightarrow> olderThan c e \<longleftrightarrow> int t < c"
  "readable rs \<Longrightarrow> (t, e) \<in> set rs \<Longrightarrow> notBefore c e \<longleftrightarrow> \<not> int t < c"
  by (force simp: readable_def olderThan_def notBefore_def)+





lemma dropWhile_readable:
  assumes "readable rs"
  shows "dropWhile (olderThan c) (map snd rs) = map snd (dropWhile (\<lambda>(t, e). int t < c) rs)"
    "length (takeWhile (olderThan c) (map snd rs)) = length (takeWhile (\<lambda>(t, e). int t < c) rs)"
proof -
  have "(olderThan c \<circ> snd) x \<longleftrightarrow> (\<lambda>(t, e). int t < c) x" if "x \<in> set rs" for x
    using olderThan_readable(1) [OF assms, of "fst x" "snd x"] that by (simp add: case_prod_beta)
  then show "dropWhile (olderThan c) (map snd rs) = map snd (dropWhile (\<lambda>(t, e). int t < c) rs)"
    "length (takeWhile (olderThan c) (map snd rs)) = length (takeWhile (\<lambda>(t, e). int t < c) rs)"
    by (simp_all add: dropWhile_map takeWhile_map cong: dropWhile_cong takeWhile_cong)
qed



definition demo_entry :: "string \<Rightarrow> Entry" where
  "demo_entry i = \<lparr>en_DecisionID = i, en_InputHash = [], en_Tier = ''cel'', en_Result = ''pass'', en_Timestamp = []\<rparr>"

text \<open>Four calls on a log of three entries; the call of \<open>c\<close> read the clock before that of \<open>b\<close> and appended after it.\<close>

definition demo_ops :: "audit_op list" where
  "demo_ops = [ARecord 5 (demo_entry ''a''), ARecord 1600000000 (demo_entry ''b''), ARecord 1500000000 (demo_entry ''c''), ARecord 2000000000 (demo_entry ''d'')]"


lemma demo_recorded: "recorded demo_ops = [(5, stamp 5 (demo_entry ''a'')), (1600000000, stamp 1600000000 (demo_entry ''b'')),
    (1500000000, stamp 1500000000 (demo_entry ''c'')), (2000000000, stamp 2000000000 (demo_entry ''d''))]"
  by (simp add: demo_ops_def)

lemma demo_years: "\<forall>(t, e) \<in> set (recorded demo_ops). year_of t < 10000"
proof -
  have "year_of 5 = 1970" "year_of 1600000000 = 1970" "year_of 1500000000 = 1970" "year_of 2000000000 = 1970"
    by (simp_all add: year_of_def civil_year.simps [of 1970] year_length_def)
  then show ?thesis by (simp add: demo_recorded)
qed


text \<open>Calls that overlap, on a clock that does not run backwards, can hide an old entry from a rotation: here \<open>c\<close> is older
  than the cutoff and stays behind \<open>b\<close>, which is not.\<close>

lemma overlap_survives_rotation:
  "fst (Rotate 3000000000 1450000000 (fold audit_exec demo_ops (audit_New (map WithMaxLen [3])))) = 0 \<and>
   (1500000000, stamp 1500000000 (demo_entry ''c'')) \<in> set (recorded demo_ops) \<and> (1500000000 :: int) < 3000000000 - 1450000000"
proof -
  let ?l = "fold audit_exec demo_ops (audit_New (map WithMaxLen [3]))"
  have e: "log_entries ?l = map snd (drop 1 (recorded demo_ops))"
    by (simp add: demo_ops_def audit_New_def WithMaxLen_def audit_Record_def audit_append_def)
  have r: "readable (drop 1 (recorded demo_ops))" by (rule readable_drop [OF readable_recorded [OF demo_years]])
  show ?thesis
    unfolding Rotate_dropWhile(1) e dropWhile_readable(2) [OF r] by (simp add: demo_recorded)
qed

text \<open>The order of the texts is not the order of the times, since trailing zeros of the fraction are dropped.\<close>

lemma timestamps_missorted:
  "sortEntriesByTimestamp [stamp 100000000 a, stamp 150000000 b] = [stamp 150000000 b, stamp 100000000 a]"
proof -
  have "formatNano 100000000 = ''1970-01-01T00:00:00.1Z''" "formatNano 150000000 = ''1970-01-01T00:00:00.15Z''"
    by (simp_all add: formatNano_def civil_year.simps [of 1970] year_length_def month_lengths_def fraction_def trim_right_def
      pad_numeral digit_chars)
  then show ?thesis by (simp add: sortEntriesByTimestamp_def sortSlice_def stamp_def)
qed

lemma tier_counts:
  "TierBreakdown (audit_Stats l) t =
     (let n = length (filter (\<lambda>e. en_Tier e = t) (log_entries l)) in if n = 0 then None else Some n)"
proof -
  have "fold countTier es m t = (let n = length (filter (\<lambda>e. en_Tier e = t) es) in
      if n = 0 then m t else Some ((case m t of None \<Rightarrow> 0 | Some k \<Rightarrow> k) + n))" for es m
    by (induction es arbitrary: m) (auto simp: countTier_def Let_def split: option.splits)
  then show ?thesis by (simp add: audit_Stats_def Let_def)
qed

section \<open>Diagnostics\<close>



record WhyFailed =
  Constraint :: string
  Actual :: goany
  Limit :: goany
  Remediation :: string

record DiagnosticRecord =
  dr_DecisionID :: string
  Reasons :: "WhyFailed list"

type_synonym DiagStore = "string \<rightharpoonup> WhyFailed list"

definition diag_New :: DiagStore where
  "diag_New = Map.empty"

definition diag_Record :: "string \<Rightarrow> WhyFailed list \<Rightarrow> DiagStore \<Rightarrow> DiagStore" where
  "diag_Record decisionID reasons s = s(decisionID \<mapsto> reasons)"

definition diag_Lookup :: "string \<Rightarrow> DiagStore \<Rightarrow> WhyFailed list \<times> bool" where
  "diag_Lookup decisionID s = (case s decisionID of None \<Rightarrow> ([], False) | Some reasons \<Rightarrow> (reasons, True))"

datatype diag_reply = MissingID | NotFound string | Found DiagnosticRecord

definition lookupHandler :: "string \<Rightarrow> DiagStore \<Rightarrow> diag_reply" where
  "lookupHandler decisionID s = (if decisionID = [] then MissingID
     else (let (reasons, ok) = diag_Lookup decisionID s in
       if \<not> ok then NotFound decisionID else Found \<lparr>dr_DecisionID = decisionID, Reasons = reasons\<rparr>))"

text \<open>A request is answered with the reasons recorded last for the decision, also when there are none.\<close>

lemma diagnostics_latest:
  assumes "i \<noteq> []"
  shows "lookupHandler i (fold (\<lambda>(j, rs). diag_Record j rs) recs diag_New) =
    (case map_of (rev recs) i of None \<Rightarrow> NotFound i | Some rs \<Rightarrow> Found \<lparr>dr_DecisionID = i, Reasons = rs\<rparr>)"
proof -
  have "fold (\<lambda>(j, rs). diag_Record j rs) recs s i = (case map_of (rev recs) i of None \<Rightarrow> s i | Some rs \<Rightarrow> Some rs)" for s
    by (induction recs arbitrary: s) (auto simp: diag_Record_def map_add_def split: option.splits)
  with assms show ?thesis by (auto simp: lookupHandler_def diag_Lookup_def diag_New_def split: option.splits)
qed

end
