(* ===== verification/SmtMetrics.thy ===== *)
theory SmtMetrics
  imports GoValues
begin

text \<open>
  The SMT solver metrics of \<open>src/internal/otel/metrics.go\<close>. The atomic counters are 64-bit integers, kept as
  integers that wrap around; averages are exact rational numbers. The verb \<open>%g\<close> is the parameter \<open>fmt_g\<close>.
\<close>

section \<open>Recording\<close>

record SMTMetrics =
  satCount :: int
  unsatCount :: int
  unknownCount :: int
  cacheHit :: int
  cacheMiss :: int
  durations :: "int list"
  complexity :: "rat list"

definition NewSMTMetrics :: SMTMetrics where
  "NewSMTMetrics = \<lparr>satCount = 0, unsatCount = 0, unknownCount = 0, cacheHit = 0, cacheMiss = 0, durations = [], complexity = []\<rparr>"

definition record_sample :: "int \<Rightarrow> rat \<Rightarrow> SMTMetrics \<Rightarrow> SMTMetrics" where
  "record_sample durationMs score m = m\<lparr>durations := durations m @ [durationMs], complexity := complexity m @ [score]\<rparr>"

definition RecordSat :: "int \<Rightarrow> rat \<Rightarrow> SMTMetrics \<Rightarrow> SMTMetrics" where
  "RecordSat durationMs score m = record_sample durationMs score (m\<lparr>satCount := int64 (satCount m + 1)\<rparr>)"

definition RecordUnsat :: "int \<Rightarrow> rat \<Rightarrow> SMTMetrics \<Rightarrow> SMTMetrics" where
  "RecordUnsat durationMs score m = record_sample durationMs score (m\<lparr>unsatCount := int64 (unsatCount m + 1)\<rparr>)"

definition RecordUnknown :: "int \<Rightarrow> rat \<Rightarrow> SMTMetrics \<Rightarrow> SMTMetrics" where
  "RecordUnknown durationMs score m = record_sample durationMs score (m\<lparr>unknownCount := int64 (unknownCount m + 1)\<rparr>)"

definition RecordCacheHit :: "SMTMetrics \<Rightarrow> SMTMetrics" where
  "RecordCacheHit m = m\<lparr>cacheHit := int64 (cacheHit m + 1)\<rparr>"

definition RecordCacheMiss :: "SMTMetrics \<Rightarrow> SMTMetrics" where
  "RecordCacheMiss m = m\<lparr>cacheMiss := int64 (cacheMiss m + 1)\<rparr>"

text \<open>The scan of \<open>ConstraintComplexityScore\<close>: the count, the depth and whether a top-level form is open.\<close>

type_synonym scan = "int \<times> int \<times> bool"

definition scanChar :: "char \<Rightarrow> scan \<Rightarrow> scan" where
  "scanChar ch st = (let (count, depth, topLevel) = st in
     if ch = CHR ''('' then (count, depth + 1, if depth + 1 = 1 then True else topLevel)
     else if ch = CHR '')'' then
       (if depth = 1 \<and> topLevel then (count + 1, depth - 1, False) else (count, depth - 1, topLevel))
     else (count, depth, topLevel))"

definition ConstraintComplexityScore :: "string \<Rightarrow> rat" where
  "ConstraintComplexityScore constraints = of_int (fst (fold scanChar constraints (0, 0, False)))"

definition RecordSolverResult :: "string \<Rightarrow> int \<Rightarrow> string \<Rightarrow> SMTMetrics \<Rightarrow> SMTMetrics" where
  "RecordSolverResult sat durationMs constraints m = (let score = ConstraintComplexityScore constraints in
     if sat = ''sat'' then RecordSat durationMs score m
     else if sat = ''unsat'' then RecordUnsat durationMs score m
     else RecordUnknown durationMs score m)"

section \<open>Snapshots\<close>

record SMTSnapshot =
  SatCount :: int
  UnsatCount :: int
  UnknownCount :: int
  CacheHit :: int
  CacheMiss :: int
  AvgDurationMs :: rat
  P50DurationMs :: int
  P95DurationMs :: int
  P99DurationMs :: int
  MaxDurationMs :: int
  TotalSamples :: nat
  AvgComplexity :: rat

definition smt_percentile :: "int list \<Rightarrow> nat \<Rightarrow> int" where
  "smt_percentile xs p = (if length xs = 0 then 0
     else (let idx = p * length xs div 100; idx = (if idx \<ge> length xs then length xs - 1 else idx) in xs ! idx))"

definition Snapshot :: "SMTMetrics \<Rightarrow> SMTSnapshot" where
  "Snapshot m = (let durs = durations m; comps = complexity m; sorted = sort durs; empty = (length durs = 0) in
     \<lparr>SatCount = satCount m, UnsatCount = unsatCount m, UnknownCount = unknownCount m,
      CacheHit = cacheHit m, CacheMiss = cacheMiss m,
      AvgDurationMs = (if empty then 0 else of_int (int64 (sum_list sorted)) / of_nat (length sorted)),
      P50DurationMs = (if empty then 0 else smt_percentile sorted 50),
      P95DurationMs = (if empty then 0 else smt_percentile sorted 95),
      P99DurationMs = (if empty then 0 else smt_percentile sorted 99),
      MaxDurationMs = (if empty then 0 else sorted ! (length sorted - 1)),
      TotalSamples = length durs,
      AvgComplexity = (if length comps = 0 then 0 else sum_list comps / of_nat (length comps))\<rparr>)"

text \<open>The conversion to \<open>int64\<close> cuts the fraction off.\<close>

definition truncate :: "rat \<Rightarrow> int" where
  "truncate x = (if x \<ge> 0 then \<lfloor>x\<rfloor> else \<lceil>x\<rceil>)"

definition sumInt64 :: "SMTSnapshot \<Rightarrow> int" where
  "sumInt64 s = (if TotalSamples s = 0 then 0 else truncate (AvgDurationMs s * of_nat (TotalSamples s)))"

definition line :: "string \<Rightarrow> string" where
  "line s = s @ [CHR 10]"

definition family :: "string \<Rightarrow> string \<Rightarrow> string \<Rightarrow> string" where
  "family name hlp kind = line (''# HELP '' @ name @ '' '' @ hlp) @ line (''# TYPE '' @ name @ '' '' @ kind)"

definition PrometheusText :: "(rat \<Rightarrow> string) \<Rightarrow> SMTMetrics \<Rightarrow> string" where
  "PrometheusText fmt_g m = (let snap = Snapshot m; dur = ''symkernel_smt_solver_duration_ms'' in
     family ''symkernel_smt_solver_sat_total'' ''Total number of SAT results from the SMT solver.'' ''counter'' @
     line (''symkernel_smt_solver_sat_total '' @ Itoa (SatCount snap)) @
     family ''symkernel_smt_solver_unsat_total'' ''Total number of UNSAT results from the SMT solver.'' ''counter'' @
     line (''symkernel_smt_solver_unsat_total '' @ Itoa (UnsatCount snap)) @
     family ''symkernel_smt_solver_unknown_total'' ''Total number of UNKNOWN results from the SMT solver.'' ''counter'' @
     line (''symkernel_smt_solver_unknown_total '' @ Itoa (UnknownCount snap)) @
     family dur ''SMT solver duration in milliseconds.'' ''summary'' @
     line (dur @ ''{quantile=\"0.5\"} '' @ Itoa (P50DurationMs snap)) @
     line (dur @ ''{quantile=\"0.95\"} '' @ Itoa (P95DurationMs snap)) @
     line (dur @ ''{quantile=\"0.99\"} '' @ Itoa (P99DurationMs snap)) @
     line (dur @ ''_sum '' @ Itoa (sumInt64 snap)) @
     line (dur @ ''_count '' @ Itoa (int (TotalSamples snap))) @
     family ''symkernel_smt_constraint_complexity_score_avg'' ''Average constraint complexity score (clause count proxy).'' ''gauge'' @
     line (''symkernel_smt_constraint_complexity_score_avg '' @ fmt_g (AvgComplexity snap)) @
     family ''symkernel_smt_cache_hit_total'' ''Total number of SMT result cache hits.'' ''counter'' @
     line (''symkernel_smt_cache_hit_total '' @ Itoa (CacheHit snap)) @
     family ''symkernel_smt_cache_miss_total'' ''Total number of SMT result cache misses.'' ''counter'' @
     line (''symkernel_smt_cache_miss_total '' @ Itoa (CacheMiss snap)))"

definition MetricsHandler :: "(rat \<Rightarrow> string) \<Rightarrow> SMTMetrics list \<Rightarrow> string" where
  "MetricsHandler fmt_g ms = concat (map (PrometheusText fmt_g) ms)"

section \<open>The snapshot describes the recorded results\<close>

type_synonym solver_result = "string \<times> int \<times> string"

fun record_result :: "solver_result \<Rightarrow> SMTMetrics \<Rightarrow> SMTMetrics" where
  "record_result (sat, durationMs, constraints) m = RecordSolverResult sat durationMs constraints m"

definition run_results :: "solver_result list \<Rightarrow> SMTMetrics" where
  "run_results rs = fold record_result rs NewSMTMetrics"

lemma run_results_snoc: "run_results (rs @ [r]) = record_result r (run_results rs)"
  by (simp add: run_results_def)

lemmas record_defs = RecordSolverResult_def RecordSat_def RecordUnsat_def RecordUnknown_def record_sample_def Let_def

lemma int64_small: "0 \<le> i \<Longrightarrow> i < 2 ^ 63 \<Longrightarrow> int64 i = i"
  by (simp add: int64_def)

lemma run_results_samples:
  "durations (run_results rs) = map (\<lambda>(sat, d, cs). d) rs"
  "complexity (run_results rs) = map (\<lambda>(sat, d, cs). ConstraintComplexityScore cs) rs"
  by (induction rs rule: rev_induct) (auto simp: run_results_snoc record_defs run_results_def NewSMTMetrics_def)

lemma run_results_counts:
  assumes "length rs < 2 ^ 63"
  shows "satCount (run_results rs) = int (length (filter (\<lambda>(sat, d, cs). sat = ''sat'') rs)) \<and>
    unsatCount (run_results rs) = int (length (filter (\<lambda>(sat, d, cs). sat = ''unsat'') rs)) \<and>
    unknownCount (run_results rs) = int (length (filter (\<lambda>(sat, d, cs). sat \<noteq> ''sat'' \<and> sat \<noteq> ''unsat'') rs))"
  using assms
proof (induction rs rule: rev_induct)
  case (snoc r rs)
  obtain sat d cs where r: "r = (sat, d, cs)" by (cases r)
  have "int (length (filter P rs)) + 1 < 2 ^ 63" for P
    using le_less_trans [OF length_filter_le [of P rs], of "2 ^ 63 - 1"] snoc.prems by simp
  then have "int64 (int (length (filter P rs)) + 1) = int (length (filter P rs)) + 1" for P
    by (intro int64_small) auto
  with snoc r show ?case by (auto simp: run_results_snoc record_defs)
qed (simp add: run_results_def NewSMTMetrics_def)

text \<open>At least \<open>p\<close> per cent of the samples are no greater than the percentile, and no sample set below it is larger.\<close>

lemma percentile_rank:
  assumes "xs \<noteq> []" and "p < 100"
  shows "smt_percentile (sort xs) p \<in> set xs" (is "?x \<in> _")
    and "p * length xs < 100 * length (filter (\<lambda>d. d \<le> smt_percentile (sort xs) p) xs)"
    and "100 * length (filter (\<lambda>d. d < smt_percentile (sort xs) p) xs) \<le> p * length xs"
proof -
  let ?s = "sort xs" and ?n = "length xs"
  define i where "i = p * ?n div 100"
  have n: "0 < ?n" using assms(1) by simp
  then have "p * ?n < 100 * ?n" using assms(2) by simp
  then have i: "i < ?n" unfolding i_def by (simp add: less_mult_imp_div_less mult.commute)
  then have x: "smt_percentile ?s p = ?s ! i" using n by (simp add: smt_percentile_def i_def Let_def)
  have bound: "100 * i \<le> p * ?n" "p * ?n < 100 * (i + 1)" unfolding i_def by (simp_all add: dividend_less_div_times)
  show "?x \<in> set xs" unfolding x using i by (metis length_sort nth_mem set_sort)
  have le: "length (filter P xs) = length (filter P ?s)" for P by (metis mset_filter mset_sort size_mset)
  have below: "i + 1 \<le> length (filter (\<lambda>d. d \<le> ?s ! i) ?s)"
  proof -
    have "\<forall>d \<in> set (take (i + 1) ?s). d \<le> ?s ! i"
      using i by (auto simp: in_set_conv_nth intro!: sorted_nth_mono)
    then have "filter (\<lambda>d. d \<le> ?s ! i) (take (i + 1) ?s) = take (i + 1) ?s" by simp
    moreover have "length (take (i + 1) ?s) = i + 1" using i by simp
    ultimately show ?thesis
      by (metis append_take_drop_id filter_append le_add1 length_append)
  qed
  show "p * ?n < 100 * length (filter (\<lambda>d. d \<le> ?x) xs)"
    unfolding x le by (rule less_le_trans [OF bound(2) mult_le_mono2 [OF below]])
  have "filter (\<lambda>d. d < ?s ! i) (drop i ?s) = []"
    using i by (auto simp: filter_empty_conv in_set_conv_nth not_less intro!: sorted_nth_mono)
  then have "filter (\<lambda>d. d < ?s ! i) ?s = filter (\<lambda>d. d < ?s ! i) (take i ?s)"
    by (metis append_Nil2 append_take_drop_id filter_append)
  moreover have "length (filter (\<lambda>d. d < ?s ! i) (take i ?s)) \<le> i"
    by (metis length_filter_le length_take min.bounded_iff)
  ultimately have "length (filter (\<lambda>d. d < ?s ! i) ?s) \<le> i" by simp
  then show "100 * length (filter (\<lambda>d. d < ?x) xs) \<le> p * ?n"
    unfolding x le by (rule order_trans [OF mult_le_mono2 bound(1)])
qed

lemma sum_int64:
  assumes "rs \<noteq> []" "0 \<le> sum_list xs" "sum_list xs < 2 ^ 63" "n > 0"
  shows "truncate (of_int (int64 (sum_list xs)) / of_nat n * of_nat n) = sum_list xs"
  using assms by (simp add: int64_small truncate_def)

text \<open>after fewer than \<open>2^63\<close> solver results the snapshot counts every result under its verdict, and for each
  reported percentile \<open>p\<close> the value is a recorded duration with more than \<open>p\<close> per cent of the durations at or
  below it and at most \<open>p\<close> per cent below it. The sum in the text, recomputed from the average, is exact up
  to the rounding of floating-point numbers.\<close>

theorem snapshot_correct:
  assumes "rs \<noteq> []" and "length rs < 2 ^ 63"
    and "\<forall>(sat, d, cs) \<in> set rs. 0 \<le> d" and "sum_list (map (\<lambda>(sat, d, cs). d) rs) < 2 ^ 63"
  shows "let snap = Snapshot (run_results rs); ds = map (\<lambda>(sat, d, cs). d) rs in
    SatCount snap + UnsatCount snap + UnknownCount snap = int (length rs) \<and>
    SatCount snap = int (length (filter (\<lambda>(sat, d, cs). sat = ''sat'') rs)) \<and>
    UnsatCount snap = int (length (filter (\<lambda>(sat, d, cs). sat = ''unsat'') rs)) \<and>
    (\<forall>(p, x) \<in> {(50, P50DurationMs snap), (95, P95DurationMs snap), (99, P99DurationMs snap)}. x \<in> set ds \<and>
       p * length ds < 100 * length (filter (\<lambda>d. d \<le> x) ds) \<and> 100 * length (filter (\<lambda>d. d < x) ds) \<le> p * length ds) \<and>
    sumInt64 snap = sum_list ds"
proof -
  define ds where "ds = map (\<lambda>(sat :: string, d :: int, cs :: string). d) rs"
  define m where "m = run_results rs"
  have ds: "ds \<noteq> []" "durations m = ds" using assms(1) by (simp_all add: ds_def m_def run_results_samples)
  note counts = run_results_counts [OF assms(2), folded m_def]
  have total: "satCount m + unsatCount m + unknownCount m = int (length rs)"
  proof -
    have "length (filter (\<lambda>(sat, d, cs). sat = ''sat'') rs) + length (filter (\<lambda>(sat, d, cs). sat = ''unsat'') rs) +
        length (filter (\<lambda>(sat, d, cs). sat \<noteq> ''sat'' \<and> sat \<noteq> ''unsat'') rs) = length rs" for rs :: "solver_result list"
      by (induction rs) auto
    from this [of rs] counts show ?thesis by linarith
  qed
  have pos: "0 \<le> sum_list ds" unfolding ds_def using assms(3) by (intro sum_list_nonneg) auto
  have perms: "sum_list (sort ds) = sum_list ds" "length (sort ds) = length ds"
    by (metis mset_sort sum_mset_sum_list) simp
  have snap: "P50DurationMs (Snapshot m) = smt_percentile (sort ds) 50" "P95DurationMs (Snapshot m) = smt_percentile (sort ds) 95"
    "P99DurationMs (Snapshot m) = smt_percentile (sort ds) 99" "TotalSamples (Snapshot m) = length ds"
    "AvgDurationMs (Snapshot m) = of_int (int64 (sum_list ds)) / of_nat (length ds)"
    using ds perms by (simp_all add: Snapshot_def Let_def)
  have sum: "sumInt64 (Snapshot m) = sum_list ds"
  proof -
    have "truncate (of_int (int64 (sum_list ds)) / of_nat (length ds) * of_nat (length ds)) = sum_list ds"
      using assms(4) ds(1) by (intro sum_int64 [OF assms(1) pos]) (auto simp: ds_def)
    with ds(1) show ?thesis by (simp only: sumInt64_def snap) simp
  qed
  have vals: "SatCount (Snapshot m) = satCount m" "UnsatCount (Snapshot m) = unsatCount m" "UnknownCount (Snapshot m) = unknownCount m"
    by (simp_all add: Snapshot_def Let_def)
  have rank: "\<forall>(p, x) \<in> {(50, P50DurationMs (Snapshot m)), (95, P95DurationMs (Snapshot m)), (99, P99DurationMs (Snapshot m))}. x \<in> set ds \<and>
       p * length ds < 100 * length (filter (\<lambda>d. d \<le> x) ds) \<and> 100 * length (filter (\<lambda>d. d < x) ds) \<le> p * length ds"
    unfolding snap using percentile_rank [OF ds(1), of 50] percentile_rank [OF ds(1), of 95] percentile_rank [OF ds(1), of 99] by simp
  show ?thesis
    unfolding m_def [symmetric] ds_def [symmetric] Let_def vals using total counts sum rank by simp
qed

theorem snapshot_correct_witness:
  "\<exists>snap. snap = Snapshot (run_results [(''sat'', 7, ''(a)''), (''unsat'', 3, []), (''timeout'', 5, [])]) \<and>
     SatCount snap = 1 \<and> UnsatCount snap = 1 \<and> UnknownCount snap = 1 \<and> sumInt64 snap = 15"
  using snapshot_correct [of "[(''sat'', 7, ''(a)''), (''unsat'', 3, []), (''timeout'', 5, [])]"] by (simp add: Let_def)

section \<open>The complexity score counts opened-level forms\<close>

inductive balanced :: "string \<Rightarrow> bool" where
  empty: "balanced []"
| other: "balanced s \<Longrightarrow> c \<noteq> CHR ''('' \<Longrightarrow> c \<noteq> CHR '')'' \<Longrightarrow> balanced (c # s)"
| nested: "balanced s \<Longrightarrow> balanced t \<Longrightarrow> balanced (CHR ''('' # s @ CHR '')'' # t)"

lemma balanced_plain: "list_all (\<lambda>c. c \<noteq> CHR ''('' \<and> c \<noteq> CHR '')'') s \<Longrightarrow> balanced t \<Longrightarrow> balanced (s @ t)"
  by (induction s) (auto intro: balanced.other)

lemma scan_balanced: "balanced s \<Longrightarrow> depth \<ge> 1 \<Longrightarrow> fold scanChar s (cnt, depth, opened) = (cnt, depth, opened)"
  by (induction arbitrary: cnt depth opened rule: balanced.induct) (auto simp: scanChar_def)

text \<open>A script: opened-level forms with balanced bodies, and characters that are no parentheses between them.\<close>

datatype item = Form string | Filler char

fun item_text :: "item \<Rightarrow> string" where
  "item_text (Form s) = CHR ''('' # s @ '')''"
| "item_text (Filler c) = [c]"

fun item_ok :: "item \<Rightarrow> bool" where
  "item_ok (Form s) \<longleftrightarrow> balanced s"
| "item_ok (Filler c) \<longleftrightarrow> c \<noteq> CHR ''('' \<and> c \<noteq> CHR '')''"

fun is_form :: "item \<Rightarrow> bool" where
  "is_form (Form s) \<longleftrightarrow> True"
| "is_form (Filler c) \<longleftrightarrow> False"

lemma scan_script:
  "list_all item_ok items \<Longrightarrow> fold scanChar (concat (map item_text items)) (cnt, 0, False) =
     (cnt + int (length (filter is_form items)), 0, False)"
proof (induction items arbitrary: cnt)
  case (Cons it items)
  show ?case
  proof (cases it)
    case (Form s)
    with Cons.prems have "fold scanChar (item_text it) (cnt, 0, False) = (cnt + 1, 0, False)"
      by (simp add: scanChar_def scan_balanced)
    with Cons Form show ?thesis by (simp add: algebra_simps)
  next
    case (Filler c)
    with Cons show ?thesis by (simp add: scanChar_def)
  qed
qed simp

text \<open>on a script of opened-level forms whose bodies have balanced parentheses the complexity score is the number
  of forms.\<close>

theorem complexity_counts_forms:
  assumes "list_all item_ok items"
  shows "ConstraintComplexityScore (concat (map item_text items)) = of_nat (length (filter is_form items))"
  using scan_script [OF assms, of 0] by (simp add: ConstraintComplexityScore_def)

theorem complexity_counts_forms_witness:
  "ConstraintComplexityScore ''(assert (> x 1)) (b)'' = 2"
proof -
  have "balanced ''> x 1''" "balanced ''b''"
    using balanced_plain [OF _ balanced.empty, of "''> x 1''"] balanced_plain [OF _ balanced.empty, of "''b''"] by simp_all
  moreover from this have "balanced ''assert (> x 1)''"
    using balanced_plain [OF _ nested [OF _ balanced.empty], of "''assert ''" "''> x 1''"] by simp
  ultimately show ?thesis
    using complexity_counts_forms [of "[Form ''assert (> x 1)'', Filler (CHR '' ''), Form ''b'']"] by simp
qed

text \<open>A closing parenthesis in a comment makes the scan miss every later form.\<close>

lemma complexity_stray_parenthesis:
  "ConstraintComplexityScore ([CHR '';'', CHR '')'', CHR 10] @ ''(assert a) (assert b)'') = 0"
  by code_simp

end
