(* ===== verification/Gate.thy ===== *)
theory Gate
  imports GoValues
begin

text \<open>
  The middleware chain of the daemon (\<open>src/cmd/symkerneld/main.go\<close>): tracing (\<open>src/internal/otel/otel.go\<close>),
  authentication (\<open>src/internal/auth/middleware.go\<close>) and tenant resolution (\<open>src/internal/tenant/tenant.go\<close>), and
  the policy rules consulted before a tool invocation (\<open>src/internal/policy/policyrule.go\<close>). A handler takes
  a request, the response headers set so far and the state of the server. Decoding the payload of a tokenen
  (base64 and JSON), fresh identifiers, environment variables and the hooks of rules are inputs.
\<close>

section \<open>Requests, responses and handlers\<close>

record http_request =
  rq_Method :: string
  rq_Path :: string
  rq_Header :: "string \<Rightarrow> string"
  ctx_tenantID :: "string option"
  ctx_decisionID :: "string option"

type_synonym headers = "string \<rightharpoonup> string"

text \<open>A response: the calls of \<open>WriteHeader\<close> in order, the headers and the body.\<close>

record http_response =
  rs_Codes :: "int list"
  rs_Header :: headers
  rs_Body :: string

type_synonym 's handler = "http_request \<Rightarrow> headers \<Rightarrow> 's \<Rightarrow> http_response \<times> 's"

definition http_Error :: "headers \<Rightarrow> string \<Rightarrow> int \<Rightarrow> http_response" where
  "http_Error h text code = \<lparr>rs_Codes = [code],
     rs_Header = h(''Content-Type'' \<mapsto> ''text/plain; charset=utf-8'', ''X-Content-Type-Options'' \<mapsto> ''nosniff''),
     rs_Body = text @ [CHR 10]\<rparr>"

section \<open>Authentication\<close>

definition bearerPrefix :: string where
  "bearerPrefix = ''Bearer ''"

definition auth_Middleware :: "string \<Rightarrow> 's handler \<Rightarrow> 's handler" where
  "auth_Middleware expected next r h s = (let got = rq_Header r ''Authorization'' in
     if expected = [] \<or> got \<noteq> bearerPrefix @ expected then (http_Error h ''Unauthorized'' 401, s) else next r h s)"

section \<open>Tenants\<close>

record Resolver =
  Allowed :: "string list option"

definition parseAllowlist :: "string \<Rightarrow> string list" where
  "parseAllowlist csv = remdups (filter (\<lambda>s. s \<noteq> []) (map TrimSpace (Split (CHR '','') csv)))"

definition WithAllowedTenants :: "string \<Rightarrow> Resolver \<Rightarrow> Resolver" where
  "WithAllowedTenants csv r = r\<lparr>Allowed := Some (parseAllowlist csv)\<rparr>"

definition tenant_New :: "string \<Rightarrow> (Resolver \<Rightarrow> Resolver) list \<Rightarrow> Resolver" where
  "tenant_New env opts = (let r = fold (\<lambda>opt r. opt r) opts \<lparr>Allowed = None\<rparr> in
     if Allowed r = None then r\<lparr>Allowed := Some (parseAllowlist env)\<rparr> else r)"

fun SplitN :: "nat \<Rightarrow> char \<Rightarrow> string \<Rightarrow> string list" where
  "SplitN 0 c s = []"
| "SplitN (Suc 0) c s = [s]"
| "SplitN (Suc (Suc n)) c s = (if c \<in> set s
     then takeWhile (\<lambda>x. x \<noteq> c) s # SplitN (Suc n) c (tl (dropWhile (\<lambda>x. x \<noteq> c) s)) else [s])"

text \<open>\<open>claims\<close> decodes the payload segment and gives its \<open>sub\<close>, or nothing when the decoding fails.\<close>

definition tenantFromJWT :: "(string \<Rightarrow> string option) \<Rightarrow> http_request \<Rightarrow> string" where
  "tenantFromJWT claims req = (let auth = rq_Header req ''Authorization'' in
     if \<not> HasPrefix auth bearerPrefix then []
     else (let parts = SplitN 3 (CHR ''.'') (TrimPrefix auth bearerPrefix) in
       if length parts \<noteq> 3 then [] else (case claims (parts ! 1) of None \<Rightarrow> [] | Some sub \<Rightarrow> sub)))"

definition resolve :: "(string \<Rightarrow> string option) \<Rightarrow> http_request \<Rightarrow> string" where
  "resolve claims req = (let tid = tenantFromJWT claims req in
     if tid \<noteq> [] then tid else TrimSpace (rq_Header req ''X-Tenant-ID''))"

definition isAllowed :: "Resolver \<Rightarrow> string \<Rightarrow> bool" where
  "isAllowed r tid = (case Allowed r of None \<Rightarrow> True | Some al \<Rightarrow> if length al = 0 then True else tid \<in> set al)"

definition TenantIDFromContext :: "http_request \<Rightarrow> string" where
  "TenantIDFromContext r = (case ctx_tenantID r of Some v \<Rightarrow> v | None \<Rightarrow> [])"

definition tenant_Middleware :: "(string \<Rightarrow> string option) \<Rightarrow> Resolver \<Rightarrow> 's handler \<Rightarrow> 's handler" where
  "tenant_Middleware claims rv next req h s = (let tid = resolve claims req in
     if tid \<noteq> [] \<and> \<not> isAllowed rv tid then (http_Error h ''Forbidden'' 403, s)
     else next (req\<lparr>ctx_tenantID := Some tid\<rparr>) (h(''X-Tenant-ID'' \<mapsto> tid)) s)"

section \<open>Tracing\<close>

definition DecisionIDFromContext :: "http_request \<Rightarrow> string" where
  "DecisionIDFromContext r = (case ctx_decisionID r of Some v \<Rightarrow> v | None \<Rightarrow> [])"

record statusWriter =
  sw_status :: int
  sw_wrote :: bool

definition sw_WriteHeader :: "int \<Rightarrow> statusWriter \<Rightarrow> statusWriter" where
  "sw_WriteHeader code sw = (if sw_wrote sw then sw else sw\<lparr>sw_status := code, sw_wrote := True\<rparr>)"

record span =
  sp_Name :: string
  sp_decision_id :: string
  sp_Error :: bool

definition otel_Middleware :: "string \<Rightarrow> 's handler \<Rightarrow> http_request \<Rightarrow> headers \<Rightarrow> 's \<Rightarrow> (http_response \<times> span) \<times> 's" where
  "otel_Middleware uuid next r h s =
     (let (resp, s') = next (r\<lparr>ctx_decisionID := Some uuid\<rparr>) (h(''X-Decision-Id'' \<mapsto> uuid)) s;
          sw = fold sw_WriteHeader (rs_Codes resp) \<lparr>sw_status = 200, sw_wrote = False\<rparr>
      in ((resp, \<lparr>sp_Name = rq_Method r @ '' '' @ rq_Path r, sp_decision_id = uuid, sp_Error = (sw_status sw \<ge> 400)\<rparr>), s'))"

section \<open>The chain of the daemon\<close>

definition daemon_handler :: "string \<Rightarrow> string \<Rightarrow> string \<Rightarrow> (string \<Rightarrow> string option) \<Rightarrow> 's handler \<Rightarrow> http_request \<Rightarrow> 's \<Rightarrow>
    (http_response \<times> span) \<times> 's" where
  "daemon_handler uuid tok tenants claims mux r s =
     otel_Middleware uuid (auth_Middleware tok (tenant_Middleware claims (tenant_New tenants []) mux)) r Map.empty s"

section \<open>Who reaches the routes\<close>

text \<open>The status a client sees, from the calls of \<open>WriteHeader\<close>.\<close>

definition status :: "http_response \<Rightarrow> int" where
  "status resp = (case rs_Codes resp of [] \<Rightarrow> 200 | c # _ \<Rightarrow> c)"

lemma sw_status_first: "sw_status (fold sw_WriteHeader cs \<lparr>sw_status = d, sw_wrote = False\<rparr>) = (case cs of [] \<Rightarrow> d | c # _ \<Rightarrow> c)"
proof -
  have "fold sw_WriteHeader cs sw = sw" if "sw_wrote sw" for sw
    using that by (induction cs) (auto simp: sw_WriteHeader_def)
  then show ?thesis by (cases cs) (auto simp: sw_WriteHeader_def)
qed

definition authentic :: "string \<Rightarrow> http_request \<Rightarrow> bool" where
  "authentic tok r \<longleftrightarrow> tok \<noteq> [] \<and> rq_Header r ''Authorization'' = ''Bearer '' @ tok"

text \<open>The tenant of a request: the \<open>sub\<close> claim of the daemon's own token, or else the header of the request.\<close>

definition token_tenant :: "string \<Rightarrow> (string \<Rightarrow> string option) \<Rightarrow> string" where
  "token_tenant tok claims = (let parts = SplitN 3 (CHR ''.'') tok in
     if length parts \<noteq> 3 then [] else case claims (parts ! 1) of None \<Rightarrow> [] | Some sub \<Rightarrow> sub)"

definition tenant_of :: "string \<Rightarrow> (string \<Rightarrow> string option) \<Rightarrow> http_request \<Rightarrow> string" where
  "tenant_of tok claims r = (if token_tenant tok claims \<noteq> [] then token_tenant tok claims
     else TrimSpace (rq_Header r ''X-Tenant-ID''))"

lemma resolve_authentic: "authentic tok r \<Longrightarrow> resolve claims r = tenant_of tok claims r"
  by (simp add: authentic_def resolve_def tenantFromJWT_def tenant_of_def token_tenant_def bearerPrefix_def HasPrefix_def
    TrimPrefix_def Let_def)

lemma isAllowed_env: "isAllowed (tenant_New tenants []) tid \<longleftrightarrow> parseAllowlist tenants = [] \<or> tid \<in> set (parseAllowlist tenants)"
  by (simp add: isAllowed_def tenant_New_def)

lemma mux_reached:
  assumes "authentic tok r"
    and "tenant_of tok claims r = [] \<or> parseAllowlist tenants = [] \<or> tenant_of tok claims r \<in> set (parseAllowlist tenants)"
  shows "auth_Middleware tok (tenant_Middleware claims (tenant_New tenants []) mux) (r\<lparr>ctx_decisionID := Some uuid\<rparr>) h s =
    mux (r\<lparr>ctx_decisionID := Some uuid, ctx_tenantID := Some (tenant_of tok claims r)\<rparr>) (h(''X-Tenant-ID'' \<mapsto> tenant_of tok claims r)) s"
proof -
  have a: "authentic tok (r\<lparr>ctx_decisionID := Some uuid\<rparr>)" using assms(1) by (simp add: authentic_def)
  have t: "tenant_of tok claims (r\<lparr>ctx_decisionID := Some uuid\<rparr>) = tenant_of tok claims r" by (simp add: tenant_of_def)
  show ?thesis
    using a assms(2) resolve_authentic [OF a, of claims] t
    by (auto simp: auth_Middleware_def tenant_Middleware_def isAllowed_env authentic_def bearerPrefix_def Let_def)
qed

lemma mux_refused:
  assumes "\<not> (authentic tok r \<and>
    (tenant_of tok claims r = [] \<or> parseAllowlist tenants = [] \<or> tenant_of tok claims r \<in> set (parseAllowlist tenants)))"
  shows "auth_Middleware tok (tenant_Middleware claims (tenant_New tenants []) mux) (r\<lparr>ctx_decisionID := Some uuid\<rparr>) h s =
    (if authentic tok r then http_Error h ''Forbidden'' 403 else http_Error h ''Unauthorized'' 401, s)"
proof (cases "authentic tok r")
  case True
  then have a: "authentic tok (r\<lparr>ctx_decisionID := Some uuid\<rparr>)" by (simp add: authentic_def)
  have t: "tenant_of tok claims (r\<lparr>ctx_decisionID := Some uuid\<rparr>) = tenant_of tok claims r" by (simp add: tenant_of_def)
  show ?thesis
    using True a assms resolve_authentic [OF a, of claims] t
    by (auto simp: auth_Middleware_def tenant_Middleware_def isAllowed_env authentic_def bearerPrefix_def Let_def)
qed (auto simp: auth_Middleware_def authentic_def bearerPrefix_def Let_def)

text \<open>C12: a request reaches the routes exactly when a token is configured, the request presents exactly this
  token, and its tenant is absent, unrestricted or on the allowlist. The routes then see the tenant that was
  checked, which is the \<open>sub\<close> claim of the configured token or else the header chosen by the client. Any
  other request is answered with 401 or 403, does not touch the state of the server and is traced as an error.\<close>

theorem routes_guarded:
  "let tid = tenant_of tok claims r;
       admitted = (authentic tok r \<and> (tid = [] \<or> parseAllowlist tenants = [] \<or> tid \<in> set (parseAllowlist tenants)));
       inner = mux (r\<lparr>ctx_decisionID := Some uuid, ctx_tenantID := Some tid\<rparr>) [''X-Decision-Id'' \<mapsto> uuid, ''X-Tenant-ID'' \<mapsto> tid] s;
       ((resp, span), s') = daemon_handler uuid tok tenants claims mux r s
   in if admitted then (resp, s') = inner \<and> sp_Error span = (status resp \<ge> 400)
      else s' = s \<and> status resp = (if authentic tok r then 403 else 401) \<and> sp_Error span \<and> rs_Header resp ''X-Decision-Id'' = Some uuid"
proof -
  let ?tid = "tenant_of tok claims r"
  let ?h = "[''X-Decision-Id'' \<mapsto> uuid]"
  let ?next = "auth_Middleware tok (tenant_Middleware claims (tenant_New tenants []) mux) (r\<lparr>ctx_decisionID := Some uuid\<rparr>) ?h s"
  obtain resp s' where n: "?next = (resp, s')" by (cases ?next)
  have d: "daemon_handler uuid tok tenants claims mux r s =
      ((resp, \<lparr>sp_Name = rq_Method r @ '' '' @ rq_Path r, sp_decision_id = uuid, sp_Error = (status resp \<ge> 400)\<rparr>), s')"
    using n by (simp add: daemon_handler_def otel_Middleware_def sw_status_first status_def)
  show ?thesis
  proof (cases "authentic tok r \<and> (?tid = [] \<or> parseAllowlist tenants = [] \<or> ?tid \<in> set (parseAllowlist tenants))")
    case True
    with mux_reached [of tok r claims tenants mux uuid ?h s] n have "(resp, s') = mux (r\<lparr>ctx_decisionID := Some uuid, ctx_tenantID := Some ?tid\<rparr>) (?h(''X-Tenant-ID'' \<mapsto> ?tid)) s"
      by simp
    with True show ?thesis by (simp add: d Let_def)
  next
    case False
    with mux_refused [OF False, of mux uuid ?h s] n
    have "resp = (if authentic tok r then http_Error ?h ''Forbidden'' 403 else http_Error ?h ''Unauthorized'' 401)" "s' = s" by auto
    with False show ?thesis by (simp add: d Let_def status_def http_Error_def)
  qed
qed

text \<open>Behind the authentication the claim in the token does not depend on the request.\<close>

lemma jwt_tenant_constant:
  "authentic tok r \<Longrightarrow> authentic tok r' \<Longrightarrow> tenantFromJWT claims r = tenantFromJWT claims r'"
  by (simp add: authentic_def tenantFromJWT_def)

section \<open>Policy rules\<close>

datatype DecisionKind = NoDecision | DecisionAllow | DecisionDeny | DecisionModify

record InvocationDecision =
  id_Kind :: DecisionKind
  id_Reason :: string
  ModifiedArgs :: "bindings option"

record Vetting =
  AgentID :: string
  SessionID :: string
  Hints :: "(string \<times> string) list"

type_synonym EvaluateAsyncFunc = "string \<Rightarrow> bindings \<Rightarrow> Vetting \<Rightarrow> InvocationDecision \<times> bool"

record PolicyRule =
  rule_Name :: string
  EvaluateAsync :: "EvaluateAsyncFunc option"

type_synonym Registry = "PolicyRule list"

definition Register :: "PolicyRule \<Rightarrow> Registry \<Rightarrow> Registry" where
  "Register rule r = r @ [rule]"

definition zero_decision :: InvocationDecision where
  "zero_decision = \<lparr>id_Kind = NoDecision, id_Reason = [], ModifiedArgs = None\<rparr>"

text \<open>The loop of \<open>Evaluate\<close>: \<open>cancelled i\<close> is whether the context is done after rule \<open>i\<close> was consulted.\<close>

fun evaluateRules :: "(nat \<Rightarrow> bool) \<Rightarrow> string \<Rightarrow> bindings \<Rightarrow> Vetting \<Rightarrow> nat \<Rightarrow> PolicyRule list \<Rightarrow> InvocationDecision \<times> bool" where
  "evaluateRules cancelled tool args v i [] = (zero_decision, False)"
| "evaluateRules cancelled tool args v i (rule # rs) = (case EvaluateAsync rule of
     None \<Rightarrow> evaluateRules cancelled tool args v (i + 1) rs
   | Some hook \<Rightarrow> (case hook tool args v of (dec, ok) \<Rightarrow>
       if ok \<and> id_Kind dec \<noteq> NoDecision then (dec, True)
       else if cancelled i then (zero_decision, False)
       else evaluateRules cancelled tool args v (i + 1) rs))"

definition policy_Evaluate :: "(nat \<Rightarrow> bool) \<Rightarrow> string \<Rightarrow> bindings \<Rightarrow> Vetting \<Rightarrow> Registry \<Rightarrow> InvocationDecision \<times> bool" where
  "policy_Evaluate cancelled tool args v r = evaluateRules cancelled tool args v 0 r"

text \<open>
  The closure that \<open>Prefetch\<close> returns: \<open>select\<close> takes the result or the end of the context, and may take
  either when both are there. \<open>done_first\<close> is its choice.
\<close>

definition Prefetch :: "bool \<Rightarrow> (nat \<Rightarrow> bool) \<Rightarrow> string \<Rightarrow> bindings \<Rightarrow> Vetting \<Rightarrow> Registry \<Rightarrow> InvocationDecision \<times> bool" where
  "Prefetch done_first cancelled tool args v r = (if done_first then (zero_decision, False) else policy_Evaluate cancelled tool args v r)"

definition rule_decides :: "PolicyRule \<Rightarrow> string \<Rightarrow> bindings \<Rightarrow> Vetting \<Rightarrow> InvocationDecision \<Rightarrow> bool" where
  "rule_decides rule tool args v dec \<longleftrightarrow> (\<exists>hook. EvaluateAsync rule = Some hook \<and> hook tool args v = (dec, True) \<and> id_Kind dec \<noteq> NoDecision)"

lemma evaluateRules_first:
  "evaluateRules cancelled tool args v i rs = (dec, True) \<longleftrightarrow>
     (\<exists>j < length rs. rule_decides (rs ! j) tool args v dec \<and>
        (\<forall>k < j. (\<nexists>d. rule_decides (rs ! k) tool args v d) \<and> (EvaluateAsync (rs ! k) \<noteq> None \<longrightarrow> \<not> cancelled (i + k))))"
proof (induction rs arbitrary: i)
  case (Cons r rs)
  let ?P = "\<lambda>rs i j. rule_decides (rs ! j) tool args v dec \<and>
        (\<forall>k < j. (\<nexists>d. rule_decides (rs ! k) tool args v d) \<and> (EvaluateAsync (rs ! k) \<noteq> None \<longrightarrow> \<not> cancelled (i + k)))"
  have split: "(\<exists>j < length (r # rs). ?P (r # rs) i j) \<longleftrightarrow> rule_decides r tool args v dec \<or>
      (\<nexists>d. rule_decides r tool args v d) \<and> (EvaluateAsync r \<noteq> None \<longrightarrow> \<not> cancelled i) \<and> (\<exists>j < length rs. ?P rs (i + 1) j)"
    unfolding length_Cons Ex_less_Suc2 All_less_Suc2 by auto
  have step: "evaluateRules cancelled tool args v i (r # rs) = (dec, True) \<longleftrightarrow> rule_decides r tool args v dec \<or>
      (\<nexists>d. rule_decides r tool args v d) \<and> (EvaluateAsync r \<noteq> None \<longrightarrow> \<not> cancelled i) \<and>
      evaluateRules cancelled tool args v (i + 1) rs = (dec, True)"
  proof (cases "EvaluateAsync r")
    case None
    then show ?thesis by (simp add: rule_decides_def)
  next
    case (Some hook)
    obtain d ok where "hook tool args v = (d, ok)" by (cases "hook tool args v")
    then show ?thesis using Some by (auto simp: rule_decides_def)
  qed
  show ?case unfolding split step Cons.IH ..
qed simp

text \<open>the registry returns the decision of the first rule, in the order of registration, that makes one, and
  it does so exactly when no earlier rule decided and the context was not done after an earlier rule that has
  a hook. Rules without a hook and rules that return the empty kind do not count.\<close>

theorem first_decision_wins:
  "policy_Evaluate cancelled tool args v (fold Register rs []) = (dec, True) \<longleftrightarrow>
     (\<exists>j < length rs. rule_decides (rs ! j) tool args v dec \<and>
        (\<forall>k < j. (\<nexists>d. rule_decides (rs ! k) tool args v d) \<and> (EvaluateAsync (rs ! k) \<noteq> None \<longrightarrow> \<not> cancelled k)))"
proof -
  have "fold Register rs xs = xs @ rs" for xs by (induction rs arbitrary: xs) (auto simp: Register_def)
  then show ?thesis using evaluateRules_first [of cancelled tool args v 0 rs dec] by (simp add: policy_Evaluate_def)
qed

definition demo_rules :: "PolicyRule list" where
  "demo_rules = [\<lparr>rule_Name = ''legacy'', EvaluateAsync = None\<rparr>,
     \<lparr>rule_Name = ''deny'', EvaluateAsync = Some (\<lambda>_ _ _. (\<lparr>id_Kind = DecisionDeny, id_Reason = ''no'', ModifiedArgs = None\<rparr>, True))\<rparr>]"

theorem first_decision_wins_witness:
  "policy_Evaluate (\<lambda>_. True) ''t'' [] \<lparr>AgentID = [], SessionID = [], Hints = []\<rparr> (fold Register demo_rules []) =
     (\<lparr>id_Kind = DecisionDeny, id_Reason = ''no'', ModifiedArgs = None\<rparr>, True)"
  unfolding first_decision_wins by (rule exI [of _ 1]) (simp add: demo_rules_def rule_decides_def)

end
