(* ===== verification/Daemon.thy ===== *)
theory Daemon
  imports SymService Composed Orchestrator AuditLog EvalCache SmtMetrics Gate
begin

text \<open>
  The daemon as a whole (\<open>src/cmd/symkerneld\<close>): the route table that \<open>RegisterRoutes\<close> mounts with the state it
  creates, the dispatch of Go's \<open>http.ServeMux\<close>, every endpoint behind its route, and the middleware chain of
  \<open>Gate\<close> around them. The state is what the route table owns: the router, the audit log, the evaluation cache, the
  diagnostics store and the global SMT metrics. The two decision caches of the solvers are package variables with
  locks of their own that concurrent requests share, so the content a request finds is an input of the request, as
  are its decoded body, the clock and the external processes. JSON encoding and decoding are parameters. Paths are
  clean and without percent signs (\<open>ServeMux\<close> redirects other paths).
\<close>

section \<open>Routes\<close>

datatype endpoint = Health | VerifyCel | VerifyZ3 | VerifyCriterion | VerifySymbolic | VerifySmt | VerifyComposed
  | MetricsPage | OrchRoute | OrchStats | OrchVerify | AuditExport | AuditStatistics | CacheInvalidate | CacheStatistics
  | DiagnosticsLookup

type_synonym route_table = "(string \<times> string \<times> endpoint) list"

definition RegisterMetricsRoute :: route_table where
  "RegisterMetricsRoute = [(''GET'', ''/metrics'', MetricsPage)]"

definition router_RegisterRoutes :: route_table where
  "router_RegisterRoutes = [(''POST'', ''/v1/orchestration/route'', OrchRoute), (''GET'', ''/v1/orchestration/stats'', OrchStats),
     (''POST'', ''/v1/verify/orchestrated'', OrchVerify)]"

definition audit_RegisterRoutes :: route_table where
  "audit_RegisterRoutes = [(''GET'', ''/v1/audit/export'', AuditExport), (''GET'', ''/v1/audit/stats'', AuditStatistics)]"

definition cache_RegisterRoutes :: route_table where
  "cache_RegisterRoutes = [(''POST'', ''/v1/admin/cache/invalidate'', CacheInvalidate),
     (''GET'', ''/v1/admin/cache/stats'', CacheStatistics)]"

definition diagnostics_RegisterRoutes :: route_table where
  "diagnostics_RegisterRoutes = [(''GET'', ''/v1/diagnostics/{decision_id}'', DiagnosticsLookup)]"

record daemon =
  dm_router :: Router
  dm_audit :: Log
  dm_cache :: "goany Cache"
  dm_diag :: DiagStore
  dm_metrics :: SMTMetrics

definition RegisterRoutes :: "route_table \<times> daemon" where
  "RegisterRoutes = ([(''GET'', ''/v1/health'', Health), (''POST'', ''/v1/verify/cel'', VerifyCel),
       (''POST'', ''/v1/verify/z3'', VerifyZ3), (''POST'', ''/v1/verify/criterion'', VerifyCriterion),
       (''POST'', ''/v1/verify/symbolic'', VerifySymbolic), (''POST'', ''/v1/verify/smt'', VerifySmt),
       (''POST'', ''/v1/verify/composed'', VerifyComposed)] @
     RegisterMetricsRoute @ router_RegisterRoutes @ audit_RegisterRoutes @ cache_RegisterRoutes @ diagnostics_RegisterRoutes,
     \<lparr>dm_router = NewRouter, dm_audit = audit_New [], dm_cache = NewCache [], dm_diag = diag_New, dm_metrics = NewSMTMetrics\<rparr>)"

text \<open>
  Dispatch: a pattern matches a path segment by segment, a wildcard \<open>{name}\<close> any segment but the empty one; \<open>GET\<close>
  also serves \<open>HEAD\<close>. A path that only other methods have is answered with 405.
\<close>

fun matchSegments :: "string list \<Rightarrow> string list \<Rightarrow> bool" where
  "matchSegments [] [] = True"
| "matchSegments (p # ps) (s # ss) = ((p = s \<or> HasPrefix p ''{'' \<and> s \<noteq> []) \<and> matchSegments ps ss)"
| "matchSegments _ _ = False"

datatype dispatch = Matched endpoint | MethodNotAllowed | NoRoute

definition findRoute :: "route_table \<Rightarrow> string \<Rightarrow> string \<Rightarrow> dispatch" where
  "findRoute routes meth path =
     (let ms = filter (\<lambda>(m, p, e). matchSegments (Split (CHR ''/'') p) (Split (CHR ''/'') path)) routes in
      case List.find (\<lambda>(m, p, e). m = meth \<or> m = ''GET'' \<and> meth = ''HEAD'') ms of
        Some (m, p, e) \<Rightarrow> Matched e
      | None \<Rightarrow> if ms = [] then NoRoute else MethodNotAllowed)"

definition PathValue :: "string \<Rightarrow> string" where
  "PathValue path = List.last (Split (CHR ''/'') path)"

section \<open>Endpoints\<close>

record ('ast, 'prg) request_env =
  re_uuid :: string
  re_lib :: "('ast, 'prg) cel_lib"
  re_f2i :: "rat \<Rightarrow> int"
  re_deadline :: "instant option"
  re_started :: instant
  re_ended :: instant
  re_marshal :: "goany \<Rightarrow> string + string"
  re_unmarshal :: "string \<Rightarrow> string + celArg"
  re_hash :: "string \<Rightarrow> string"
  re_verify_call :: "int \<Rightarrow> z3_call"
  re_late :: bool
  re_smt_call :: "duration \<Rightarrow> z3_call"
  re_fresh :: string
  re_stages :: "nat \<Rightarrow> stage_env"
  re_texts :: error_texts
  re_sym :: sym_env
  re_ids :: "nat \<Rightarrow> string"
  re_verify_cache :: DCache
  re_bridge_cache :: DCache
  re_visit :: "cacheKey set \<Rightarrow> cacheKey list"
  re_fmt :: "rat \<Rightarrow> string"
  re_query :: "string \<Rightarrow> string"
  re_parse3339 :: "string \<Rightarrow> int option"
  re_parse3339Nano :: "string \<Rightarrow> int option"
  re_cel_body :: "CELInput option"
  re_verify_body :: "VerifyInput option"
  re_criterion_body :: "ConstraintIR option"
  re_symbolic_body :: symbolic_body
  re_smt_body :: "SMTRequest option"
  re_composed_body :: "ComposedRequest option"
  re_route_body :: "VerificationRequest option"
  re_orchestrated_body :: "(VerificationRequest \<times> string option) option"
  re_invalidate_body :: "invalidateRequest option"

record healthResponse =
  hl_Status :: string

datatype reply =
    HealthReply healthResponse
  | CelReply "celOpaResponse http_reply"
  | Z3Reply "Solvers.opaResponse http_reply"
  | CriterionReply "VerifyCriterionResponse http_reply"
  | SymbolicReply symbolic_reply
  | SmtReply "SMTResponse http_reply"
  | ComposedReply "ComposedResponse http_reply"
  | MetricsText string
  | RouteReply "routeResponse Orchestrator.http_response"
  | StatsReply Stats string
  | OrchestratedReply "orchestratedResponse Orchestrator.http_response"
  | ExportReply export_reply
  | AuditStatsReply LogStats
  | InvalidateReply "unit + nat"
  | CacheStatsReply CacheStats
  | DiagReply diag_reply
  | NotAllowed
  | PageNotFound

definition healthHandler :: healthResponse where
  "healthHandler = \<lparr>hl_Status = ''ok''\<rparr>"

fun serve :: "('ast, 'prg) request_env \<Rightarrow> http_request \<Rightarrow> endpoint \<Rightarrow> daemon \<Rightarrow> reply \<times> daemon" where
  "serve env r Health s = (HealthReply healthHandler, s)"
| "serve env r VerifyCel s = (CelReply (cel_Handler (re_lib env) (re_f2i env) (re_deadline env) (re_started env) (re_ended env)
     (DecisionIDFromContext r) (re_cel_body env)), s)"
| "serve env r VerifyZ3 s = (Z3Reply (fst (verify_Handler (re_hash env) (re_verify_call env) (re_late env)
     (DecisionIDFromContext r) (re_verify_body env) (re_verify_cache env))), s)"
| "serve env r VerifyCriterion s = (CriterionReply (criterion_Handler (re_lib env) (re_marshal env) (re_unmarshal env)
     (re_deadline env) (re_started env) (re_ended env) (re_criterion_body env)), s)"
| "serve env r VerifySymbolic s = (SymbolicReply (SymbolicHandler (re_sym env) (re_ids env) (re_bridge_cache env) (re_symbolic_body env)), s)"
| "serve env r VerifySmt s = (SmtReply (fst (smthttp_Handler (re_hash env) (re_smt_call env) (re_fresh env) (re_smt_body env)
     (re_bridge_cache env))), s)"
| "serve env r VerifyComposed s = (ComposedReply (fst (composed_Handler (re_lib env) (re_hash env) (re_texts env) (re_stages env)
     (re_fresh env) (re_ended env - re_started env) (re_composed_body env) (re_bridge_cache env))), s)"
| "serve env r MetricsPage s = (MetricsText (MetricsHandler (re_fmt env) [dm_metrics s]), s)"
| "serve env r OrchRoute s = (case RouteHandler (DecisionIDFromContext r) (re_route_body env) (dm_router s) of
     (resp, router) \<Rightarrow> (RouteReply resp, s\<lparr>dm_router := router\<rparr>))"
| "serve env r OrchStats s = (case StatsHandler (DecisionIDFromContext r) (dm_router s) of (stats, i) \<Rightarrow> (StatsReply stats i, s))"
| "serve env r OrchVerify s = (case OrchestratedVerifyHandler (DecisionIDFromContext r) (re_orchestrated_body env) (dm_router s) of
     (resp, router) \<Rightarrow> (OrchestratedReply resp, s\<lparr>dm_router := router\<rparr>))"
| "serve env r AuditExport s = (ExportReply (exportHandler (re_parse3339 env) (re_parse3339Nano env)
     (re_query env ''from'') (re_query env ''format'') (dm_audit s)), s)"
| "serve env r AuditStatistics s = (AuditStatsReply (audit_Stats (dm_audit s)), s)"
| "serve env r CacheInvalidate s = (case invalidateHandler (re_visit env) (re_invalidate_body env) (dm_cache s) of
     (resp, c) \<Rightarrow> (InvalidateReply resp, s\<lparr>dm_cache := c\<rparr>))"
| "serve env r CacheStatistics s = (CacheStatsReply (cache_Stats (dm_cache s)), s)"
| "serve env r DiagnosticsLookup s = (DiagReply (lookupHandler (PathValue (rq_Path r)) (dm_diag s)), s)"

text \<open>
  The status of a reply. A panic of the router aborts the connection without one. The other handlers are total functions of
  their inputs that write one status; panics of the libraries they call are outside the model.
\<close>

fun http_reply_status :: "'r http_reply \<Rightarrow> int" where
  "http_reply_status (BadRequest e) = 400"
| "http_reply_status (ServerError e) = 500"
| "http_reply_status (Unprocessable e) = 422"
| "http_reply_status (Replied x) = 200"

fun routing_status :: "'r Orchestrator.http_response \<Rightarrow> int list" where
  "routing_status (HttpError n) = [int n]"
| "routing_status Aborted = []"
| "routing_status (HttpOK x) = [200]"

fun reply_status :: "reply \<Rightarrow> int list" where
  "reply_status (HealthReply x) = [200]"
| "reply_status (CelReply x) = [http_reply_status x]"
| "reply_status (Z3Reply x) = [http_reply_status x]"
| "reply_status (CriterionReply x) = [http_reply_status x]"
| "reply_status (SymbolicReply x) = (case x of SymbolicBadRequest e \<Rightarrow> [400] | SymbolicOK res \<Rightarrow> [200])"
| "reply_status (SmtReply x) = [http_reply_status x]"
| "reply_status (ComposedReply x) = [http_reply_status x]"
| "reply_status (MetricsText t) = [200]"
| "reply_status (RouteReply x) = routing_status x"
| "reply_status (StatsReply st i) = [200]"
| "reply_status (OrchestratedReply x) = routing_status x"
| "reply_status (ExportReply x) = (case x of Jsonl es \<Rightarrow> [200] | _ \<Rightarrow> [400])"
| "reply_status (AuditStatsReply st) = [200]"
| "reply_status (InvalidateReply x) = (case x of Inl _ \<Rightarrow> [400] | Inr n \<Rightarrow> [200])"
| "reply_status (CacheStatsReply st) = [200]"
| "reply_status (DiagReply x) = (case x of MissingID \<Rightarrow> [400] | NotFound i \<Rightarrow> [404] | Found rec \<Rightarrow> [200])"
| "reply_status NotAllowed = [405]"
| "reply_status PageNotFound = [404]"

text \<open>\<open>enc\<close> is the encoder of replies: the headers it sets and the body.\<close>

definition mux :: "(reply \<Rightarrow> headers \<Rightarrow> headers \<times> string) \<Rightarrow> ('ast, 'prg) request_env \<Rightarrow> daemon handler" where
  "mux enc env r h s =
     (let (rep, s') = (case findRoute (fst RegisterRoutes) (rq_Method r) (rq_Path r) of
            NoRoute \<Rightarrow> (PageNotFound, s) | MethodNotAllowed \<Rightarrow> (NotAllowed, s) | Matched e \<Rightarrow> serve env r e s);
          (h', text) = enc rep h
      in (\<lparr>rs_Codes = reply_status rep, rs_Header = h', rs_Body = text\<rparr>, s'))"

record daemon_config =
  dc_token :: string
  dc_tenants :: string
  dc_claims :: "string \<Rightarrow> string option"
  dc_render :: "reply \<Rightarrow> headers \<Rightarrow> headers \<times> string"

definition daemon_request :: "daemon_config \<Rightarrow> ('ast, 'prg) request_env \<times> http_request \<Rightarrow> daemon \<Rightarrow> (Gate.http_response \<times> span) \<times> daemon" where
  "daemon_request cfg er s = daemon_handler (re_uuid (fst er)) (dc_token cfg) (dc_tenants cfg) (dc_claims cfg)
     (mux (dc_render cfg) (fst er)) (snd er) s"


text \<open>No route hides another: each is found under its own method and path.\<close>

lemma routes_reachable: "list_all (\<lambda>(m, p, e). findRoute (fst RegisterRoutes) m p = Matched e) (fst RegisterRoutes)"
  by code_simp

section \<open>The daemon over its history\<close>

text \<open>The state after a sequence of requests, and the routing queries among them that reach the router.\<close>

definition daemon_after :: "daemon_config \<Rightarrow> (('ast, 'prg) request_env \<times> http_request) list \<Rightarrow> daemon" where
  "daemon_after cfg reqs = fold (\<lambda>er s. snd (daemon_request cfg er s)) reqs (snd RegisterRoutes)"

definition admitted :: "daemon_config \<Rightarrow> http_request \<Rightarrow> bool" where
  "admitted cfg r \<longleftrightarrow> authentic (dc_token cfg) r \<and>
     (let t = tenant_of (dc_token cfg) (dc_claims cfg) r in
      t = [] \<or> parseAllowlist (dc_tenants cfg) = [] \<or> t \<in> set (parseAllowlist (dc_tenants cfg)))"

fun endpoint_query :: "('ast, 'prg) request_env \<Rightarrow> endpoint \<Rightarrow> VerificationRequest list" where
  "endpoint_query env OrchRoute = (case re_route_body env of None \<Rightarrow> [] | Some q \<Rightarrow> [q])"
| "endpoint_query env OrchVerify = (case re_orchestrated_body env of None \<Rightarrow> [] | Some (q, cr) \<Rightarrow> [q])"
| "endpoint_query env _ = []"

definition routing_queries :: "daemon_config \<Rightarrow> ('ast, 'prg) request_env \<times> http_request \<Rightarrow> VerificationRequest list" where
  "routing_queries cfg er = (if admitted cfg (snd er)
     then (case findRoute (fst RegisterRoutes) (rq_Method (snd er)) (rq_Path (snd er)) of Matched e \<Rightarrow> endpoint_query (fst er) e | _ \<Rightarrow> [])
     else [])"

definition daemon_at :: "VerificationRequest list \<Rightarrow> daemon" where
  "daemon_at qs = \<lparr>dm_router = routed qs, dm_audit = audit_New [], dm_cache = NewCache [], dm_diag = diag_New, dm_metrics = NewSMTMetrics\<rparr>"

lemma invalidateTags_New: "invalidateTags visit tags n (NewCache []) = (n, NewCache [])"
  by (induction tags arbitrary: n) (simp_all add: InvalidateByTag_def NewCache_def)

lemma InvalidateAll_New: "snd (InvalidateAll (NewCache [])) = NewCache []"
  by (simp add: InvalidateAll_def NewCache_def)

lemma invalidate_New: "snd (invalidateHandler visit req (NewCache [])) = NewCache []"
  by (simp add: invalidateHandler_def invalidateTags_New InvalidateAll_New Let_def case_prod_beta split: option.splits)

lemma RouteHandler_router: "snd (RouteHandler i req (routed qs)) = routed (qs @ (case req of None \<Rightarrow> [] | Some q \<Rightarrow> [q]))"
  by (auto simp: RouteHandler_def routed_snoc split: option.splits prod.splits sum.splits)

lemma OrchestratedVerifyHandler_router:
  "snd (OrchestratedVerifyHandler i req (routed qs)) = routed (qs @ (case req of None \<Rightarrow> [] | Some (q, cr) \<Rightarrow> [q]))"
  by (auto simp: OrchestratedVerifyHandler_def routed_snoc split: option.splits prod.splits sum.splits)

lemma serve_at: "snd (serve env r e (daemon_at qs)) = daemon_at (qs @ endpoint_query env e)"
proof (cases e)
  case OrchRoute
  then show ?thesis using RouteHandler_router [of "DecisionIDFromContext r" "re_route_body env" qs]
    by (simp add: daemon_at_def case_prod_beta)
next
  case OrchVerify
  then show ?thesis using OrchestratedVerifyHandler_router [of "DecisionIDFromContext r" "re_orchestrated_body env" qs]
    by (simp add: daemon_at_def case_prod_beta)
next
  case CacheInvalidate
  then show ?thesis using invalidate_New [of "re_visit env" "re_invalidate_body env"] by (simp add: daemon_at_def case_prod_beta)
qed (simp_all add: daemon_at_def case_prod_beta)

text \<open>What an admitted request is passed on with.\<close>

definition passed :: "daemon_config \<Rightarrow> string \<Rightarrow> http_request \<Rightarrow> http_request" where
  "passed cfg uuid r = r\<lparr>ctx_decisionID := Some uuid, ctx_tenantID := Some (tenant_of (dc_token cfg) (dc_claims cfg) r)\<rparr>"

lemma request_cases:
  obtains (served) h where "admitted cfg r"
      "fst (fst (daemon_request cfg (env, r) s)) = fst (mux (dc_render cfg) env (passed cfg (re_uuid env) r) h s)"
      "snd (daemon_request cfg (env, r) s) = snd (mux (dc_render cfg) env (passed cfg (re_uuid env) r) h s)"
    | (refused) "\<not> admitted cfg r" "rs_Codes (fst (fst (daemon_request cfg (env, r) s))) = [if authentic (dc_token cfg) r then 403 else 401]"
      "snd (daemon_request cfg (env, r) s) = s"
proof (cases "admitted cfg r")
  case True
  note to_mux = mux_reached [of "dc_token cfg" r "dc_claims cfg" "dc_tenants cfg"]
  show ?thesis
    by (rule served [OF True]; insert True)
      (simp_all add: to_mux admitted_def Let_def daemon_request_def daemon_handler_def otel_Middleware_def passed_def case_prod_beta)
next
  case False
  note no_mux = mux_refused [of "dc_token cfg" r "dc_claims cfg" "dc_tenants cfg"]
  show ?thesis
    by (rule refused [OF False]; insert False)
      (simp_all add: no_mux admitted_def Let_def daemon_request_def daemon_handler_def otel_Middleware_def http_Error_def case_prod_beta)
qed

lemma snd_mux: "snd (mux enc env r h s) = (case findRoute (fst RegisterRoutes) (rq_Method r) (rq_Path r) of Matched e \<Rightarrow> snd (serve env r e s) | _ \<Rightarrow> s)"
  by (simp add: mux_def Let_def case_prod_beta split: dispatch.splits)

lemma codes_mux: "rs_Codes (fst (mux enc env r h s)) = reply_status (case findRoute (fst RegisterRoutes) (rq_Method r) (rq_Path r) of
    Matched e \<Rightarrow> fst (serve env r e s) | MethodNotAllowed \<Rightarrow> NotAllowed | NoRoute \<Rightarrow> PageNotFound)"
  by (simp add: mux_def Let_def case_prod_beta split: dispatch.splits)

lemma passed_target: "rq_Method (passed cfg uuid r) = rq_Method r" "rq_Path (passed cfg uuid r) = rq_Path r"
  by (simp_all add: passed_def)

lemma request_at: "snd (daemon_request cfg er (daemon_at qs)) = daemon_at (qs @ routing_queries cfg er)"
proof (cases er)
  case (Pair env r)
  show ?thesis
  proof (cases rule: request_cases [of cfg r env "daemon_at qs"])
    case (served h)
    then show ?thesis unfolding Pair by (simp add: routing_queries_def snd_mux passed_target serve_at split: dispatch.splits)
  next
    case refused
    then show ?thesis unfolding Pair by (simp add: routing_queries_def)
  qed
qed

lemma daemon_after_at: "daemon_after cfg reqs = daemon_at (concat (map (routing_queries cfg) reqs))"
proof (induction reqs rule: rev_induct)
  case Nil
  show ?case by (simp add: daemon_after_def daemon_at_def RegisterRoutes_def routed_def)
next
  case (snoc er reqs)
  then show ?case by (simp add: daemon_after_def request_at)
qed


section \<open>What the daemon reports\<close>

text \<open>In a daemon, whatever it has served, the two routing endpoints find their counters: they answer and do not panic.\<close>

lemma RouteHandler_status: "\<exists>c \<in> {200, 400}. routing_status (fst (RouteHandler i req (routed qs))) = [c]"
proof (cases req)
  case (Some q)
  have "fst (Route q (routed qs)) \<noteq> Inl Panic" using Route_counts [OF routed_counts] by blast
  then show ?thesis using Some by (auto simp: RouteHandler_def errorResponse_def split: prod.splits sum.splits)
qed (simp add: RouteHandler_def)

lemma OrchestratedVerifyHandler_status: "\<exists>c \<in> {200, 400}. routing_status (fst (OrchestratedVerifyHandler i req (routed qs))) = [c]"
proof (cases req)
  case (Some qc)
  obtain q cr where qc: "qc = (q, cr)" by fastforce
  have "fst (Route q (routed qs)) \<noteq> Inl Panic" using Route_counts [OF routed_counts] by blast
  then show ?thesis using Some qc by (auto simp: OrchestratedVerifyHandler_def errorResponse_def split: prod.splits sum.splits)
qed (simp add: OrchestratedVerifyHandler_def)

text \<open>C13: what the daemon reports of itself after any sequence of requests: the routing total is the number of valid
  queries that reached the router behind the token and the tenant check (modulo \<open>2^64\<close>), while the audit log, the
  evaluation cache, the diagnostics store and the SMT metrics are those of a daemon that has just started, however many
  verifications it has served.\<close>

theorem daemon_reports:
  "let s = daemon_after cfg reqs in
    (\<exists>stats. fst (serve env r OrchStats s) = StatsReply stats (DecisionIDFromContext r) \<and>
      TotalRoutes stats = of_nat (length (filter valid_request (concat (map (routing_queries cfg) reqs))))) \<and>
    fst (serve env r AuditStatistics s) = AuditStatsReply \<lparr>TotalEntries = 0, st_RotationCount = 0, st_MaxLen = 10000, TierBreakdown = Map.empty\<rparr> \<and>
    (\<exists>cs. fst (serve env r CacheStatistics s) = CacheStatsReply cs \<and> cs_Size cs = 0 \<and> cs_Hits cs = 0 \<and> cs_Misses cs = 0) \<and>
    fst (serve env r DiagnosticsLookup s) \<in> {DiagReply MissingID, DiagReply (NotFound (PathValue (rq_Path r)))} \<and>
    fst (serve env r MetricsPage s) = MetricsText (PrometheusText (re_fmt env) NewSMTMetrics)"
proof -
  let ?qs = "concat (map (routing_queries cfg) reqs)"
  have "TotalRoutes (router_Stats (routed ?qs)) = of_nat (length (filter valid_request ?qs))" by (rule routed_total)
  moreover have "audit_Stats (audit_New []) = \<lparr>TotalEntries = 0, st_RotationCount = 0, st_MaxLen = 10000, TierBreakdown = Map.empty\<rparr>"
    by (simp add: audit_Stats_def audit_New_def)
  moreover have "cs_Size (cache_Stats (NewCache [])) = 0" "cs_Hits (cache_Stats (NewCache [])) = 0" "cs_Misses (cache_Stats (NewCache [])) = 0"
    by (simp_all add: cache_Stats_def NewCache_def)
  moreover have "lookupHandler i diag_New \<in> {MissingID, NotFound i}" for i
    by (simp add: lookupHandler_def diag_Lookup_def diag_New_def)
  ultimately show ?thesis
    unfolding daemon_after_at Let_def by (simp add: daemon_at_def StatsHandler_def MetricsHandler_def)
qed


section \<open>Start and end of the process\<close>

text \<open>
  \<open>InitProvider\<close> of \<open>src/internal/otel/otel.go\<close> on the exporter constructor of the OpenTelemetry SDK; the global provider is
  state, and the function it returns is the shutdown of the provider. The process then ends in one of three ways:
  without a provider, when the server cannot listen (\<open>log.Fatalf\<close> exits without the deferred calls), or
  after a signal, which cancels the context and closes the server. While it runs, the handler of the server is
  \<open>daemon_request\<close>.
\<close>

definition InitProvider :: "('w \<Rightarrow> string + 'tp) \<Rightarrow> 'w \<Rightarrow> 'w option \<Rightarrow> 'tp option \<Rightarrow> (string + 'tp) \<times> 'tp option" where
  "InitProvider newProvider discard w glob =
     (let w = (case w of None \<Rightarrow> discard | Some w \<Rightarrow> w) in
      case newProvider w of
        Inl err \<Rightarrow> (Inl (''otel: create stdout exporter: '' @ err), glob)
      | Inr tp \<Rightarrow> (Inr tp, Some tp))"

datatype server_end = ListenFailed string | Signalled

record 'tp process_end =
  pe_fatal :: "string option"
  pe_addr :: "string option"
  pe_shutdowns :: "('tp \<times> bool) list"

text \<open>A shutdown is recorded with the state of the context that it gets: \<open>True\<close> when the context is cancelled.\<close>

definition symkerneld_main :: "('w \<Rightarrow> string + 'tp) \<Rightarrow> 'w \<Rightarrow> 'w \<Rightarrow> string \<Rightarrow> (string \<Rightarrow> server_end) \<Rightarrow> 'tp process_end" where
  "symkerneld_main newProvider discard stdout envAddr listen =
     (case fst (InitProvider newProvider discard (Some stdout) None) of
        Inl err \<Rightarrow> \<lparr>pe_fatal = Some (''otel init: '' @ err), pe_addr = None, pe_shutdowns = []\<rparr>
      | Inr tp \<Rightarrow> (let addr = (if envAddr \<noteq> [] then envAddr else '':8080'') in
          case listen addr of
            ListenFailed err \<Rightarrow> \<lparr>pe_fatal = Some (''server: '' @ err), pe_addr = Some addr, pe_shutdowns = []\<rparr>
          | Signalled \<Rightarrow> \<lparr>pe_fatal = None, pe_addr = Some addr, pe_shutdowns = [(tp, True)]\<rparr>))"

text \<open>The provider is shut down exactly when the process ends normally, and then once, with a context that is
  already cancelled.\<close>

lemma shutdown_gets_cancelled_context:
  "(\<exists>tp. pe_shutdowns (symkerneld_main newProvider discard stdout envAddr listen) = [(tp, True)] \<and> newProvider stdout = Inr tp) \<longleftrightarrow>
     pe_fatal (symkerneld_main newProvider discard stdout envAddr listen) = None"
  "(tp, cancelled) \<in> set (pe_shutdowns (symkerneld_main newProvider discard stdout envAddr listen)) \<Longrightarrow> cancelled"
  by (auto simp: symkerneld_main_def InitProvider_def Let_def split: sum.splits server_end.splits if_splits)

end
