(* ===== verification/Background.thy ===== *)
theory Background
  imports Coordination NodeManager Federation
begin

text \<open>
  The background goroutines as interleavings: \<open>Start\<close>, \<open>run\<close> and \<open>Stop\<close> of a coordination node
  (\<open>src/internal/distributed/coordination/coordination.go\<close>), which replaces its stop channel on every start, and the
  loops of the node manager (\<open>node_manager.go\<close>) and of the replicator (\<open>replicator.go\<close>), which keep one channel and a
  wait group. A ticker may fire at any moment; when it has fired and the channel is closed, \<open>select\<close> takes either case.
  The body of a loop is the operation of its component. Reads of the field \<open>stopCh\<close> are atomic here, although
  \<open>run\<close> reads it without the lock.
\<close>

section \<open>Goroutines\<close>

text \<open>
  Where a loop is: before its \<open>select\<close>, blocked there on the channel it read, in the case of the ticker, or gone.
\<close>

datatype goroutine = AtLoop | AtSelect nat | InTick | Exited

section \<open>The ticking of a coordination node\<close>

text \<open>Channels are numbered in the order they are made; 0 is the nil channel of a node that was never started.\<close>

record node_loops =
  nl_node :: Node
  nl_stopCh :: nat
  nl_closed :: "nat set"
  nl_loops :: "goroutine list"

definition new_loops :: "Node \<Rightarrow> node_loops" where
  "new_loops n = \<lparr>nl_node = n, nl_stopCh = 0, nl_closed = {}, nl_loops = []\<rparr>"

definition loop_Start :: "node_loops \<Rightarrow> node_loops" where
  "loop_Start s = (if running (nl_node s) then s
     else s\<lparr>nl_node := Start (nl_node s), nl_stopCh := nl_stopCh s + 1, nl_loops := nl_loops s @ [AtLoop]\<rparr>)"

text \<open>\<open>None\<close> is the panic of closing a nil or closed channel.\<close>

definition loop_Stop :: "node_loops \<Rightarrow> node_loops option" where
  "loop_Stop s = (if \<not> running (nl_node s) then Some s
     else if nl_stopCh s = 0 \<or> nl_stopCh s \<in> nl_closed s then None
     else Some (s\<lparr>nl_node := Stop (nl_node s), nl_closed := insert (nl_stopCh s) (nl_closed s)\<rparr>))"

definition goto_loop :: "nat \<Rightarrow> goroutine \<Rightarrow> node_loops \<Rightarrow> node_loops" where
  "goto_loop i g s = s\<lparr>nl_loops := (nl_loops s)[i := g]\<rparr>"

inductive loop_step :: "node_loops \<Rightarrow> node_loops \<Rightarrow> bool" where
  start: "loop_step s (loop_Start s)"
| stop: "loop_Stop s = Some t \<Longrightarrow> loop_step s t"
| enter: "i < length (nl_loops s) \<Longrightarrow> nl_loops s ! i = AtLoop \<Longrightarrow> loop_step s (goto_loop i (AtSelect (nl_stopCh s)) s)"
| leave: "i < length (nl_loops s) \<Longrightarrow> nl_loops s ! i = AtSelect c \<Longrightarrow> c \<in> nl_closed s \<Longrightarrow> loop_step s (goto_loop i Exited s)"
| fire: "i < length (nl_loops s) \<Longrightarrow> nl_loops s ! i = AtSelect c \<Longrightarrow> loop_step s (goto_loop i InTick s)"
| ticked: "i < length (nl_loops s) \<Longrightarrow> nl_loops s ! i = InTick \<Longrightarrow> Tick r (nl_node s) = Some (n, out) \<Longrightarrow>
    loop_step s (goto_loop i AtLoop (s\<lparr>nl_node := n\<rparr>))"
| receive: "loop_step s (s\<lparr>nl_node := Receive m (nl_node s)\<rparr>)"

section \<open>Stopping\<close>

text \<open>A tick leaves the flag of the node and its emptied inbox alone.\<close>

lemma sends_keep: "running (fold (\<lambda>p. sendLocked (f p)) ps n) = running n \<and> inbox (fold (\<lambda>p. sendLocked (f p)) ps n) = inbox n"
  by (induction ps arbitrary: n) (simp_all add: sendLocked_def)

lemma timers_keep: "running (stepTimersLocked r n) = running n \<and> inbox (stepTimersLocked r n) = inbox n"
  by (auto simp: stepTimersLocked_def startElectionLocked_def becomeLeaderLocked_def becomeFollowerLocked_def
    broadcastHeartbeatLocked_def sends_keep Let_def split: Role.splits)

lemma handle_keep: "handleLocked m n = Some n' \<Longrightarrow> running n' = running n"
  by (auto simp: handleLocked_def handleRequestVoteLocked_def handleRequestVoteRespLocked_def handleAppendEntriesLocked_def
    handleAppendEntriesRespLocked_def sendLocked_def becomeLeaderLocked_def becomeFollowerLocked_def Let_def
    split: MessageType.splits option.splits if_splits)

lemma handleAll_keep: "handleAll ms n = Some n' \<Longrightarrow> running n' = running n"
  by (induction ms arbitrary: n) (auto split: option.splits dest: handle_keep)

lemma Tick_running: "Tick r n = Some (n', out) \<Longrightarrow> running n' = running n"
  using handleAll_keep timers_keep by (fastforce simp: Tick_def Let_def split: option.splits)


text \<open>
  The channels made so far are closed but the current one of a running node, and a blocked loop waits on one of them.
\<close>

definition loops_inv :: "node_loops \<Rightarrow> bool" where
  "loops_inv s \<longleftrightarrow> nl_closed s = {1..nl_stopCh s} - (if running (nl_node s) then {nl_stopCh s} else {}) \<and>
     (running (nl_node s) \<longrightarrow> 0 < nl_stopCh s) \<and> (nl_loops s \<noteq> [] \<longrightarrow> 0 < nl_stopCh s) \<and>
     (\<forall>c. AtSelect c \<in> set (nl_loops s) \<longrightarrow> c \<in> {1..nl_stopCh s})"

lemma goto_inv:
  assumes "loops_inv s" and "i < length (nl_loops s)" and "\<And>c. g = AtSelect c \<Longrightarrow> c \<in> {1..nl_stopCh s}"
  shows "loops_inv (goto_loop i g s)"
proof -
  have "AtSelect c \<in> set ((nl_loops s)[i := g]) \<Longrightarrow> c \<in> {1..nl_stopCh s}" for c
    using assms(1,3) set_update_subset_insert [of "nl_loops s" i g] by (auto simp: loops_inv_def)
  then show ?thesis using assms(1) by (simp add: loops_inv_def goto_loop_def)
qed

lemma start_inv: "loops_inv s \<Longrightarrow> loops_inv (loop_Start s)"
  by (auto simp: loops_inv_def loop_Start_def Start_def)

lemma stop_inv: "loops_inv s \<Longrightarrow> loop_Stop s = Some t \<Longrightarrow> loops_inv t"
  by (auto simp: loops_inv_def loop_Stop_def Stop_def split: if_splits)

lemma loops_inv_step: "loops_inv s \<Longrightarrow> loop_step s t \<Longrightarrow> loops_inv t"
proof (erule loop_step.cases, goal_cases)
  case 1
  then show ?case using start_inv by simp
next
  case 2
  then show ?case using stop_inv by blast
next
  case (3 i s')
  then have "0 < nl_stopCh s" by (cases "nl_loops s") (auto simp: loops_inv_def)
  with 3 show ?case by (auto intro!: goto_inv)
next
  case (6 i s' r n out)
  then have "loops_inv (s\<lparr>nl_node := n\<rparr>)" using Tick_running by (auto simp: loops_inv_def)
  with 6 show ?case by (auto intro!: goto_inv)
next
  case 7
  then show ?case by (simp add: loops_inv_def Receive_def)
qed (auto intro!: goto_inv)

interpretation node_loop: invariant_system "\<lambda>s. \<exists>n. \<not> running n \<and> s = new_loops n" loop_step loops_inv
proof unfold_locales
  show "\<exists>n. \<not> running n \<and> s = new_loops n \<Longrightarrow> loops_inv s" for s by (auto simp: loops_inv_def new_loops_def)
qed (rule loops_inv_step)

lemma stop_returns: "loops_inv s \<Longrightarrow> \<exists>t. loop_Stop s = Some t \<and> \<not> running (nl_node t)"
  by (cases "running (nl_node s)") (auto simp: loops_inv_def loop_Stop_def Stop_def)

text \<open>stopping a node never panics, whatever starts, stops, ticks and messages came before, and leaves every
  channel closed, so that each loop that waits at its \<open>select\<close> can exit.\<close>

theorem node_Stop_releases:
  assumes "\<not> running n" and "loop_step\<^sup>*\<^sup>* (new_loops n) s"
  shows "\<exists>t. loop_Stop s = Some t \<and> \<not> running (nl_node t) \<and>
    list_all (\<lambda>g. case g of AtSelect c \<Rightarrow> c \<in> nl_closed t | _ \<Rightarrow> True) (nl_loops t)"
proof -
  have inv: "loops_inv s" using node_loop.invar_reachable assms by blast
  then obtain t where t: "loop_Stop s = Some t" "\<not> running (nl_node t)" using stop_returns by blast
  have "loops_inv t" using stop_inv inv t(1) by blast
  with t(2) have "AtSelect c \<in> set (nl_loops t) \<Longrightarrow> c \<in> nl_closed t" for c by (auto simp: loops_inv_def)
  with t show ?thesis by (auto simp: list_all_iff split: goroutine.splits)
qed

text \<open>The in-memory cluster starts and stops its nodes in order; stopping it never panics.\<close>

definition cluster_Start :: "node_loops list \<Rightarrow> node_loops list" where
  "cluster_Start ns = map loop_Start ns"

definition cluster_Stop :: "node_loops list \<Rightarrow> node_loops list option" where
  "cluster_Stop ns = those (map loop_Stop ns)"

lemma cluster_Stop_returns:
  assumes "list_all loops_inv ns"
  shows "\<exists>ts. cluster_Stop ns = Some ts \<and> length ts = length ns \<and> list_all (\<lambda>t. loops_inv t \<and> \<not> running (nl_node t)) ts"
  using assms
proof (induction ns)
  case (Cons s ns)
  then obtain ts where ts: "cluster_Stop ns = Some ts" "length ts = length ns" "list_all (\<lambda>t. loops_inv t \<and> \<not> running (nl_node t)) ts" by auto
  obtain t where t: "loop_Stop s = Some t" "\<not> running (nl_node t)" using stop_returns Cons.prems by auto
  with ts show ?case using stop_inv [OF _ t(1)] Cons.prems by (simp add: cluster_Stop_def)
qed (simp add: cluster_Stop_def)

lemma cluster_Start_inv: "list_all loops_inv ns \<Longrightarrow> list_all (\<lambda>s. loops_inv s \<and> running (nl_node s)) (cluster_Start ns)"
  by (auto simp: cluster_Start_def list_all_iff start_inv) (simp add: loop_Start_def Start_def)

section \<open>Restarting\<close>

lemma update_replicate: "(replicate (Suc j) x @ ys)[j := y] = replicate j x @ y # ys"
  by (induction j) simp_all

lemma nth_replicate_Suc: "(replicate (Suc j) x @ ys) ! j = x"
  by (induction j) simp_all

text \<open>A node that is running on an open channel, with the given loops and no messages.\<close>

definition ticking :: "nat \<Rightarrow> goroutine list \<Rightarrow> node_loops \<Rightarrow> bool" where
  "ticking ch gs s \<longleftrightarrow> loops_inv s \<and> running (nl_node s) \<and> inbox (nl_node s) = [] \<and> nl_stopCh s = ch \<and> nl_loops s = gs"

lemma Tick_idle: "inbox n = [] \<Longrightarrow> \<exists>n' out. Tick r n = Some (n', out) \<and> inbox n' = [] \<and> running n' = running n"
  using timers_keep by (simp add: Tick_def Let_def)

lemma ticking_goto:
  assumes "ticking ch (replicate (Suc j) x @ gs) s" and "loop_step s (goto_loop j y s)"
  shows "ticking ch (replicate j x @ y # gs) (goto_loop j y s)"
  using assms loops_inv_step [OF _ assms(2)] update_replicate [of j x gs y]
  by (simp add: ticking_def goto_loop_def del: replicate.simps)


lemma all_tick: "ticking ch (replicate j InTick @ gs) s \<Longrightarrow> \<exists>t. loop_step\<^sup>*\<^sup>* s t \<and> ticking ch (replicate j AtLoop @ gs) t"
proof (induction j arbitrary: s gs)
  case (Suc j)
  obtain n out where n: "Tick 0 (nl_node s) = Some (n, out)" "inbox n = []" "running n = running (nl_node s)"
    using Suc.prems Tick_idle [of "nl_node s" 0] by (auto simp: ticking_def)
  let ?t = "goto_loop j AtLoop (s\<lparr>nl_node := n\<rparr>)"
  have gs: "nl_loops s = replicate (Suc j) InTick @ gs" using Suc.prems by (simp add: ticking_def)
  have st: "loop_step s ?t" using n(1) by (intro loop_step.ticked) (simp_all add: gs nth_replicate_Suc del: replicate.simps)
  have "nl_loops ?t = replicate j InTick @ AtLoop # gs" by (simp add: goto_loop_def gs update_replicate del: replicate.simps)
  then have "ticking ch (replicate j InTick @ AtLoop # gs) ?t"
    using Suc.prems n(2,3) loops_inv_step [OF _ st] by (simp add: ticking_def goto_loop_def)
  from Suc.IH [OF this] obtain t where "loop_step\<^sup>*\<^sup>* ?t t" "ticking ch (replicate j AtLoop @ AtLoop # gs) t" by blast
  then show ?case using st by (metis converse_rtranclp_into_rtranclp replicate_Suc append_Cons replicate_app_Cons_same)
qed auto

lemma all_wait: "ticking ch (replicate j AtLoop @ gs) s \<Longrightarrow> \<exists>t. loop_step\<^sup>*\<^sup>* s t \<and> ticking ch (replicate j (AtSelect ch) @ gs) t"
proof (induction j arbitrary: s gs)
  case (Suc j)
  let ?t = "goto_loop j (AtSelect ch) s"
  have gs: "nl_loops s = replicate (Suc j) AtLoop @ gs" "nl_stopCh s = ch" using Suc.prems by (simp_all add: ticking_def)
  have st: "loop_step s ?t" using loop_step.enter [of j s] by (simp add: gs nth_replicate_Suc del: replicate.simps)
  from Suc.IH [OF ticking_goto [OF Suc.prems st]] obtain t
    where "loop_step\<^sup>*\<^sup>* ?t t" "ticking ch (replicate j (AtSelect ch) @ AtSelect ch # gs) t" by blast
  then show ?case using st by (metis converse_rtranclp_into_rtranclp replicate_Suc append_Cons replicate_app_Cons_same)
qed auto

text \<open>A stop and a start while the loop is in its tick: the loop lives on and a new one begins.\<close>

lemma restart_in_tick:
  assumes "ticking ch (gs @ [AtLoop]) s"
  shows "\<exists>t. loop_step\<^sup>*\<^sup>* s t \<and> ticking (Suc ch) (gs @ [InTick, AtLoop]) t"
proof -
  let ?i = "length gs"
  let ?s1 = "goto_loop ?i (AtSelect ch) s" let ?s2 = "goto_loop ?i InTick ?s1"
  have s: "nl_loops s = gs @ [AtLoop]" "nl_stopCh s = ch" "running (nl_node s)" "inbox (nl_node s) = []" "loops_inv s"
    using assms by (simp_all add: ticking_def)
  have 1: "loop_step s ?s1" using loop_step.enter [of ?i s] s(1,2) by simp
  have 2: "loop_step ?s1 ?s2" using loop_step.fire [of ?i ?s1 ch] s(1) by (simp add: goto_loop_def)
  have s2: "nl_loops ?s2 = gs @ [InTick]" "nl_node ?s2 = nl_node s" "nl_stopCh ?s2 = ch" "loops_inv ?s2"
    using s loops_inv_step [OF loops_inv_step [OF s(5) 1] 2] by (simp_all add: goto_loop_def)
  then have "0 < ch" "ch \<notin> nl_closed ?s2" using s(3) by (simp_all add: loops_inv_def)
  then obtain s3 where s3: "loop_Stop ?s2 = Some s3" and f: "nl_loops s3 = gs @ [InTick]" "nl_node s3 = Stop (nl_node s)" "nl_stopCh s3 = ch"
    using s2(1-3) s(3) by (simp add: loop_Stop_def)
  have 3: "loop_step ?s2 s3" using s3 by (rule loop_step.stop)
  have 4: "loop_step s3 (loop_Start s3)" by (rule loop_step.start)
  have "ticking (Suc ch) (gs @ [InTick, AtLoop]) (loop_Start s3)"
    using f s(3,4) loops_inv_step [OF loops_inv_step [OF s2(4) 3] 4] by (simp add: ticking_def loop_Start_def Start_def Stop_def)
  then show ?thesis using 1 2 3 4 by (meson converse_rtranclp_into_rtranclp r_into_rtranclp)
qed

lemma restarts: "\<not> running n \<Longrightarrow> inbox n = [] \<Longrightarrow> \<exists>s. loop_step\<^sup>*\<^sup>* (new_loops n) s \<and> ticking (Suc k) (replicate k InTick @ [AtLoop]) s"
proof (induction k)
  case 0
  have "ticking (Suc 0) [AtLoop] (loop_Start (new_loops n))"
    using 0 by (auto simp: ticking_def loops_inv_def loop_Start_def new_loops_def Start_def)
  then show ?case using loop_step.start by (metis r_into_rtranclp replicate_0 append_Nil)
next
  case (Suc k)
  then obtain s where s: "loop_step\<^sup>*\<^sup>* (new_loops n) s" "ticking (Suc k) (replicate k InTick @ [AtLoop]) s" by blast
  from restart_in_tick [OF s(2)] obtain t where "loop_step\<^sup>*\<^sup>* s t" "ticking (Suc (Suc k)) (replicate (Suc k) InTick @ [AtLoop]) t"
    by (auto simp: replicate_app_Cons_same)
  then show ?case using s(1) by (meson rtranclp_trans)
qed

text \<open>C16: restarting a node can leave any number of loops ticking it. Each stop and start while a loop is in its
  tick lets that loop read the new channel at its next \<open>select\<close>, so that the loops of earlier starts stay with the one
  of the last start, all waiting on the same open channel.\<close>

theorem restart_leaks_loops:
  assumes "\<not> running n" and "inbox n = []"
  shows "\<exists>s. loop_step\<^sup>*\<^sup>* (new_loops n) s \<and> running (nl_node s) \<and> nl_stopCh s \<notin> nl_closed s \<and>
    nl_loops s = replicate (Suc k) (AtSelect (nl_stopCh s))"
proof -
  obtain s1 where s1: "loop_step\<^sup>*\<^sup>* (new_loops n) s1" "ticking (Suc k) (replicate k InTick @ [AtLoop]) s1"
    using restarts [OF assms] by blast
  obtain s2 where s2: "loop_step\<^sup>*\<^sup>* s1 s2" "ticking (Suc k) (replicate k AtLoop @ [AtLoop]) s2" using all_tick [OF s1(2)] by blast
  then have "ticking (Suc k) (replicate (Suc k) AtLoop @ []) s2" by (simp add: replicate_append_same)
  from all_wait [OF this] obtain s where s: "loop_step\<^sup>*\<^sup>* s2 s" "ticking (Suc k) (replicate (Suc k) (AtSelect (Suc k))) s" by auto
  then have "nl_stopCh s = Suc k" "nl_stopCh s \<notin> nl_closed s" "running (nl_node s)" "nl_loops s = replicate (Suc k) (AtSelect (Suc k))"
    by (simp_all add: ticking_def loops_inv_def del: replicate.simps)
  moreover have "loop_step\<^sup>*\<^sup>* (new_loops n) s" using s1(1) s2(1) s(1) by (meson rtranclp_trans)
  ultimately show ?thesis by metis
qed

definition idle_node :: Node where
  "idle_node = NewNode 0 \<lparr>c_ID = ''a'', c_Peers = [''b''], HeartbeatTicks = 0, ElectionTicksMin = 0, ElectionTicksMax = 0,
     QuorumLossTicks = 0, QuorumAckTicks = 0, TickInterval = 0\<rparr>"

lemma idle_node: "\<not> running idle_node" "inbox idle_node = []"
  by (simp_all add: idle_node_def NewNode_def Let_def)

theorem restart_leaks_loops_witness:
  "\<exists>s. loop_step\<^sup>*\<^sup>* (new_loops idle_node) s \<and> running (nl_node s) \<and> nl_stopCh s \<notin> nl_closed s \<and>
    nl_loops s = replicate 2 (AtSelect (nl_stopCh s))"
  using restart_leaks_loops [OF idle_node, of 1] by (simp add: numeral_2_eq_2)

theorem node_Stop_releases_witness: "\<exists>t. loop_Stop (loop_Start (new_loops idle_node)) = Some t \<and> \<not> running (nl_node t)"
proof -
  have "loop_step\<^sup>*\<^sup>* (new_loops idle_node) (loop_Start (new_loops idle_node))" using loop_step.start by (rule r_into_rtranclp)
  from node_Stop_releases [OF idle_node(1) this] show ?thesis by blast
qed


section \<open>The loops of the node manager and of the replicator\<close>

text \<open>
  Both keep one stop channel and a wait group; \<open>work\<close> is the body of the loop and \<open>other\<close> what the remaining
  operations of the component do. \<open>bg_waited\<close> is the number of loops there were when a call of \<open>Stop\<close> returned.
\<close>

record 's background =
  bg_data :: 's
  bg_closed :: bool
  bg_loops :: "goroutine list"
  bg_waited :: nat

definition bg_new :: "'s \<Rightarrow> 's background" where
  "bg_new d = \<lparr>bg_data = d, bg_closed = False, bg_loops = [], bg_waited = 0\<rparr>"

definition bg_Start :: "'s background \<Rightarrow> 's background" where
  "bg_Start s = s\<lparr>bg_loops := bg_loops s @ [AtLoop]\<rparr>"

text \<open>The first half of \<open>Stop\<close>: closing a closed channel panics. The second half waits for the loops to exit.\<close>

definition bg_close :: "'s background \<Rightarrow> 's background option" where
  "bg_close s = (if bg_closed s then None else Some (s\<lparr>bg_closed := True\<rparr>))"

definition goto_bg :: "nat \<Rightarrow> goroutine \<Rightarrow> 's background \<Rightarrow> 's background" where
  "goto_bg i g s = s\<lparr>bg_loops := (bg_loops s)[i := g]\<rparr>"

inductive bg_step :: "('s \<Rightarrow> 's \<Rightarrow> bool) \<Rightarrow> ('s \<Rightarrow> 's \<Rightarrow> bool) \<Rightarrow> 's background \<Rightarrow> 's background \<Rightarrow> bool" for work other where
  start: "bg_step work other s (bg_Start s)"
| close: "bg_close s = Some t \<Longrightarrow> bg_step work other s t"
| waited: "bg_closed s \<Longrightarrow> list_all (\<lambda>g. g = Exited) (bg_loops s) \<Longrightarrow> bg_step work other s (s\<lparr>bg_waited := length (bg_loops s)\<rparr>)"
| enter: "i < length (bg_loops s) \<Longrightarrow> bg_loops s ! i = AtLoop \<Longrightarrow> bg_step work other s (goto_bg i (AtSelect 0) s)"
| leave: "i < length (bg_loops s) \<Longrightarrow> bg_loops s ! i = AtSelect 0 \<Longrightarrow> bg_closed s \<Longrightarrow> bg_step work other s (goto_bg i Exited s)"
| fire: "i < length (bg_loops s) \<Longrightarrow> bg_loops s ! i = AtSelect 0 \<Longrightarrow> bg_step work other s (goto_bg i InTick s)"
| worked: "i < length (bg_loops s) \<Longrightarrow> bg_loops s ! i = InTick \<Longrightarrow> work (bg_data s) d \<Longrightarrow>
    bg_step work other s (goto_bg i AtLoop (s\<lparr>bg_data := d\<rparr>))"
| other: "other (bg_data s) d \<Longrightarrow> bg_step work other s (s\<lparr>bg_data := d\<rparr>)"

text \<open>The body of \<open>checkLoop\<close> and the other operations of the manager; the body of \<open>loop\<close>, whose store other
  regions and callers may change in any way.\<close>

definition scan :: "NodeManager \<Rightarrow> NodeManager \<Rightarrow> bool" where
  "scan nm nm' \<longleftrightarrow> (\<exists>order now. distinct order \<and> set order = dom (nm_nodes nm) \<and> nm' = checkHealth order now nm)"

definition reconciled :: "Replicator \<times> World \<Rightarrow> Replicator \<times> World \<Rightarrow> bool" where
  "reconciled s t \<longleftrightarrow> (\<exists>visit. t = snd (Reconcile visit s))"

text \<open>Loops that had exited when \<open>Stop\<close> returned stay so.\<close>

definition bg_inv :: "'s background \<Rightarrow> bool" where
  "bg_inv s \<longleftrightarrow> bg_waited s \<le> length (bg_loops s) \<and> (\<forall>i < bg_waited s. bg_loops s ! i = Exited)"

lemma bg_inv_goto:
  assumes "bg_inv s" and "bg_loops s ! i \<noteq> Exited"
  shows "bg_inv (goto_bg i g s)"
proof -
  have "(bg_loops s)[i := g] ! k = Exited" if "k < bg_waited s" for k
  proof -
    have "bg_loops s ! k = Exited" using assms(1) that by (simp add: bg_inv_def)
    with assms(2) show ?thesis by (cases "i = k") simp_all
  qed
  with assms(1) show ?thesis by (simp add: bg_inv_def goto_bg_def)
qed

lemma bg_inv_step:
  assumes "bg_inv s" and "bg_step work other s t"
  shows "bg_inv t"
  using assms(2)
proof cases
  case start
  with assms(1) show ?thesis by (auto simp: bg_inv_def bg_Start_def nth_append)
next
  case close
  with assms(1) show ?thesis by (auto simp: bg_inv_def bg_close_def split: if_splits)
next
  case waited
  then show ?thesis by (simp add: bg_inv_def list_all_length)
next
  case (worked i d)
  have "bg_inv (s\<lparr>bg_data := d\<rparr>)" using assms(1) by (simp add: bg_inv_def)
  with worked show ?thesis by (simp add: bg_inv_goto)
next
  case (other d)
  with assms(1) show ?thesis by (simp add: bg_inv_def)
qed (use assms(1) in \<open>simp_all add: bg_inv_goto\<close>)

interpretation stopped: invariant_system "\<lambda>s. \<exists>d. s = bg_new d" "bg_step work other" bg_inv for work other
proof unfold_locales
  show "\<exists>d. s = bg_new d \<Longrightarrow> bg_inv s" for s :: "'a background" by (auto simp: bg_inv_def bg_new_def)
qed (rule bg_inv_step)

lemma quiet:
  assumes "(bg_step work other)\<^sup>*\<^sup>* (bg_new d) s" and "length (bg_loops s) = bg_waited s" and "bg_step work other s t"
  shows "bg_data t = bg_data s \<or> other (bg_data s) (bg_data t)"
proof -
  have "\<exists>d'. bg_new d = bg_new d'" by blast
  from stopped.invar_reachable [OF this assms(1)] have "bg_inv s" .
  with assms(2) have "i < length (bg_loops s) \<Longrightarrow> bg_loops s ! i = Exited" for i by (simp add: bg_inv_def)
  then have "i < length (bg_loops s) \<Longrightarrow> bg_loops s ! i \<noteq> InTick" for i by simp
  with assms(3) show ?thesis
  proof cases
    case (worked i d)
    with \<open>\<And>i. i < length (bg_loops s) \<Longrightarrow> bg_loops s ! i \<noteq> InTick\<close> [of i] show ?thesis by simp
  qed (simp_all add: bg_Start_def bg_close_def goto_bg_def split: if_splits, auto)
qed

text \<open>Once \<open>Stop\<close> of the node manager has returned and no loop has been started since, no health scan runs: what
  still changes the membership is another operation.\<close>

lemma no_scan_after_Stop:
  assumes "(bg_step scan other)\<^sup>*\<^sup>* (bg_new nm) s" and "length (bg_loops s) = bg_waited s" and "bg_step scan other s t"
  shows "bg_data t = bg_data s \<or> other (bg_data s) (bg_data t)"
  using assms by (rule quiet)

text \<open>The same holds of the anti-entropy passes of the replicator.\<close>

lemma no_pass_after_Stop:
  assumes "(bg_step reconciled other)\<^sup>*\<^sup>* (bg_new w) s" and "length (bg_loops s) = bg_waited s" and "bg_step reconciled other s t"
  shows "bg_data t = bg_data s \<or> other (bg_data s) (bg_data t)"
  using assms by (rule quiet)

text \<open>A second \<open>Stop\<close> panics.\<close>

lemma second_Stop_panics: "bg_close s = Some t \<Longrightarrow> bg_close t = None"
  by (auto simp: bg_close_def split: if_splits)

end
