(* ===== verification/SharedSolver.thy ===== *)
theory SharedSolver
  imports Z3Bridge
begin

text \<open>
  Concurrent queries of the Z3 bridge (\<open>src/internal/z3/z3.go\<close>). The cache of decisions is a package variable that
  all requests share; each of its operations takes its lock, but \<open>SolveConstraintsCtx\<close> does not: a call looks up the
  cache, runs the process without any lock, and stores the decision. The theory splits the call into these
  phases, shows that a call that nobody interrupts is the function of \<open>Z3Bridge\<close>, and lets any number of calls
  interleave.
\<close>

section \<open>The phases of a call\<close>

datatype phase = Asked | Missed | Parsed Solution | Answered "z3_error + Solution"

fun lookup_phase :: "(string \<Rightarrow> string) \<Rightarrow> query \<Rightarrow> DCache \<Rightarrow> phase \<times> DCache" where
  "lookup_phase hash (call, constraints, model) c =
     (if ctx_before call then (Answered (Inr (no_solution ''unknown'')), c)
      else case dcache_Get hash (buildSMT2 constraints model) c of
        (Some decision, c) \<Rightarrow> (Answered (Inr (solutionFromDecision decision (lookup_time call))), c)
      | (None, c) \<Rightarrow> (Missed, c))"

fun run_phase :: "query \<Rightarrow> phase" where
  "run_phase (call, constraints, model) =
     (let (failed, stdout) = z3_run call (buildSMT2 constraints model); solverMs = run_time call div 1000000 in
      if failed \<and> ctx_after call then Answered (Inr ((no_solution ''unknown'')\<lparr>SolverMs := solverMs\<rparr>))
      else if failed \<and> length stdout = 0 then Answered (Inl RunError)
      else case parseOutput stdout of
        Inl e \<Rightarrow> Answered (Inl (if failed then RunError else e))
      | Inr sol \<Rightarrow> (let sol = sol\<lparr>SolverMs := solverMs\<rparr> in
          if sol_Sat sol \<noteq> ''unknown'' then Parsed sol else Answered (Inr sol)))"

definition store_phase :: "(string \<Rightarrow> string) \<Rightarrow> query \<Rightarrow> Solution \<Rightarrow> DCache \<Rightarrow> phase \<times> DCache" where
  "store_phase hash q sol c = (Answered (Inr sol), dcache_Set hash (script q) (decisionFromSolution sol) c)"

text \<open>One phase of a call; an answered call does nothing.\<close>

fun advance :: "(string \<Rightarrow> string) \<Rightarrow> query \<Rightarrow> phase \<Rightarrow> DCache \<Rightarrow> phase \<times> DCache" where
  "advance hash q Asked c = lookup_phase hash q c"
| "advance hash q Missed c = (run_phase q, c)"
| "advance hash q (Parsed sol) c = store_phase hash q sol c"
| "advance hash q (Answered r) c = (Answered r, c)"

definition uninterrupted :: "(string \<Rightarrow> string) \<Rightarrow> query \<Rightarrow> DCache \<Rightarrow> phase \<times> DCache" where
  "uninterrupted hash q c = (let (ph, c) = advance hash q Asked c; (ph, c) = advance hash q ph c in advance hash q ph c)"

lemma uninterrupted_is_solve:
  "uninterrupted hash q c = (let (r, c') = solve_query hash q c in (Answered r, c'))"
proof -
  obtain call cs m where q: "q = (call, cs, m)" by (cases q)
  show ?thesis
  proof (cases "ctx_before call")
    case True
    then show ?thesis by (simp add: q uninterrupted_def SolveConstraintsCtx_def)
  next
    case live: False
    obtain d c1 where g: "dcache_Get hash (buildSMT2 cs m) c = (d, c1)" by fastforce
    show ?thesis
    proof (cases d)
      case (Some x)
      then show ?thesis using live g by (simp add: q uninterrupted_def SolveConstraintsCtx_def)
    next
      case None
      obtain failed out where r: "z3_run call (buildSMT2 cs m) = (failed, out)" by fastforce
      show ?thesis using live g None r
        by (auto simp: q uninterrupted_def SolveConstraintsCtx_def store_phase_def Let_def split: sum.splits)
    qed
  qed
qed

section \<open>Interleaved calls\<close>

record solver_state =
  sv_cache :: DCache
  sv_calls :: "(query \<times> phase) list"

definition new_solver :: "int \<Rightarrow> solver_state" where
  "new_solver n = \<lparr>sv_cache = NewDCache n, sv_calls = []\<rparr>"

inductive solver_step :: "(string \<Rightarrow> string) \<Rightarrow> solver_state \<Rightarrow> solver_state \<Rightarrow> bool" for hash where
  ask: "solver_step hash s (s\<lparr>sv_calls := sv_calls s @ [(q, Asked)]\<rparr>)"
| go: "i < length (sv_calls s) \<Longrightarrow> sv_calls s ! i = (q, ph) \<Longrightarrow> advance hash q ph (sv_cache s) = (ph', c) \<Longrightarrow>
    solver_step hash s (s\<lparr>sv_cache := c, sv_calls := (sv_calls s)[i := (q, ph')]\<rparr>)"

text \<open>What a call in a phase knows: a parsed solution was printed for its program, an answer by some call.\<close>

fun phase_ok :: "(string \<Rightarrow> string) \<Rightarrow> query set \<Rightarrow> query \<Rightarrow> phase \<Rightarrow> bool" where
  "phase_ok hash Q q (Parsed sol) \<longleftrightarrow> answers q (decisionFromSolution sol)"
| "phase_ok hash Q q (Answered (Inr sol)) \<longleftrightarrow>
     sol_Sat sol = ''unknown'' \<or> stored_from hash Q (hash (script q)) (decisionFromSolution sol)"
| "phase_ok hash Q q _ \<longleftrightarrow> True"

definition solver_inv :: "(string \<Rightarrow> string) \<Rightarrow> solver_state \<Rightarrow> bool" where
  "solver_inv hash s \<longleftrightarrow> (let Q = fst ` set (sv_calls s) in
     provenance hash Q (sv_cache s) \<and> (\<forall>(q, ph) \<in> set (sv_calls s). phase_ok hash Q q ph))"

lemma stored_from_subset: "stored_from hash Q h d \<Longrightarrow> Q \<subseteq> Q' \<Longrightarrow> stored_from hash Q' h d"
  by (auto simp: stored_from_def)

lemma provenance_subset: "provenance hash Q c \<Longrightarrow> Q \<subseteq> Q' \<Longrightarrow> provenance hash Q' c"
  by (meson provenance_def stored_from_subset)

lemma phase_ok_subset: "phase_ok hash Q q ph \<Longrightarrow> Q \<subseteq> Q' \<Longrightarrow> phase_ok hash Q' q ph"
  using stored_from_subset by (cases "(hash, Q, q, ph)" rule: phase_ok.cases) auto

lemma lookup_ok:
  assumes "provenance hash Q c" and "lookup_phase hash q c = (ph, c')"
  shows "provenance hash Q c' \<and> phase_ok hash Q q ph"
proof -
  obtain call cs m where q: "q = (call, cs, m)" by (cases q)
  have inv: "dcache_inv c" and P: "\<forall>h d. map_of (absl c) h = Some d \<longrightarrow> stored_from hash Q h d"
    using assms(1) by (auto simp: provenance_def)
  let ?G = "GetByHash (hash (script q)) c"
  have "provenance hash Q (snd ?G)"
    using solver_cache.get_good [OF inv] solver_cache.get_provenance(2) [OF inv P] by (simp add: provenance_def)
  moreover have "fst ?G = Some d \<Longrightarrow> stored_from hash Q (hash (script q)) d" for d
    by (rule solver_cache.get_provenance(1) [OF inv P])
  ultimately show ?thesis
    using assms by (auto simp: q dcache_Get_def no_solution_def split: if_splits prod.splits option.splits)
qed

lemma run_ok: "phase_ok hash Q q (run_phase q)"
  by (cases q) (auto simp: Let_def no_solution_def split: prod.splits sum.splits)

lemma store_ok:
  assumes "provenance hash Q c" and "q \<in> Q" and "answers q (decisionFromSolution sol)" and "store_phase hash q sol c = (ph, c')"
  shows "provenance hash Q c' \<and> phase_ok hash Q q ph"
proof -
  have inv: "dcache_inv c" and P: "\<forall>h d. map_of (absl c) h = Some d \<longrightarrow> stored_from hash Q h d"
    using assms(1) by (auto simp: provenance_def)
  have s: "stored_from hash Q (hash (script q)) (decisionFromSolution sol)" using assms(2,3) by (auto simp: stored_from_def)
  from solver_cache.put_good [OF inv] solver_cache.put_provenance [OF inv P s] s show ?thesis
    using assms(4) by (auto simp: store_phase_def dcache_Set_def provenance_def)
qed

lemma advance_ok:
  assumes "provenance hash Q c" and "q \<in> Q" and "phase_ok hash Q q ph" and "advance hash q ph c = (ph', c')"
  shows "provenance hash Q c' \<and> phase_ok hash Q q ph'"
proof (cases ph)
  case Asked
  with assms show ?thesis by (simp add: lookup_ok)
next
  case Missed
  with assms run_ok [of hash Q q] show ?thesis by auto
next
  case (Parsed sol)
  with assms show ?thesis using store_ok by auto
next
  case (Answered r)
  with assms show ?thesis by auto
qed

lemma queries_update: "i < length xs \<Longrightarrow> xs ! i = (q, ph) \<Longrightarrow> map fst (xs[i := (q, ph')]) = map fst xs"
  by (simp add: map_update) (metis fst_conv list_update_id nth_map)

lemma solver_inv_step:
  assumes "solver_inv hash s" and "solver_step hash s t"
  shows "solver_inv hash t"
proof -
  let ?Q = "fst ` set (sv_calls s)"
  have s: "provenance hash ?Q (sv_cache s)" "\<And>q ph. (q, ph) \<in> set (sv_calls s) \<Longrightarrow> phase_ok hash ?Q q ph"
    using assms(1) by (auto simp: solver_inv_def Let_def)
  from assms(2) show ?thesis
  proof cases
    case (ask q)
    have sub: "?Q \<subseteq> insert q ?Q" by blast
    from provenance_subset [OF s(1) sub] phase_ok_subset [OF s(2) sub] show ?thesis
      by (auto simp: ask solver_inv_def)
  next
    case (go i q ph ph' c)
    have mem: "(q, ph) \<in> set (sv_calls s)" using go(2,3) nth_mem by fastforce
    then have adv: "provenance hash ?Q c \<and> phase_ok hash ?Q q ph'" using advance_ok [OF s(1) _ s(2) go(4)] by force
    have "map fst ((sv_calls s)[i := (q, ph')]) = map fst (sv_calls s)" using go(2,3) by (rule queries_update)
    then have "fst ` set ((sv_calls s)[i := (q, ph')]) = ?Q" by (metis list.set_map)
    moreover have "(q1, ph1) \<in> set ((sv_calls s)[i := (q, ph')]) \<Longrightarrow> phase_ok hash ?Q q1 ph1" for q1 ph1
      using set_update_subset_insert [of "sv_calls s" i "(q, ph')"] adv s(2) by blast
    ultimately show ?thesis using adv by (auto simp: go(1) solver_inv_def Let_def)
  qed
qed

interpretation shared_solver: invariant_system "\<lambda>s. \<exists>n. s = new_solver n" "solver_step hash" "solver_inv hash" for hash
proof unfold_locales
  fix s assume "\<exists>n. s = new_solver n"
  then show "solver_inv hash s"
    by (auto simp: new_solver_def solver_inv_def provenance_def dcache_inv_New) (simp add: absl_def NewDCache_def)
qed (rule solver_inv_step)

text \<open>C27: however the calls of concurrent requests interleave around the shared cache, a call that is answered sat or unsat
  gets an answer that the process printed, in this or another call, for exactly the same SMT-LIB program, as long as
  the hash does not collide on the programs asked.\<close>

theorem shared_answers:
  assumes "inj_on hash (script ` fst ` set (sv_calls s))" and "(solver_step hash)\<^sup>*\<^sup>* (new_solver n) s"
    and "(q, Answered (Inr sol)) \<in> set (sv_calls s)" and "sol_Sat sol \<noteq> ''unknown''"
  shows "\<exists>q' \<in> fst ` set (sv_calls s). script q' = script q \<and> answers q' (decisionFromSolution sol)"
proof -
  have "solver_inv hash s" using shared_solver.invar_reachable assms(2) by blast
  then have "phase_ok hash (fst ` set (sv_calls s)) q (Answered (Inr sol))" using assms(3) by (auto simp: solver_inv_def Let_def)
  with assms(4) have "stored_from hash (fst ` set (sv_calls s)) (hash (script q)) (decisionFromSolution sol)" by simp
  from stored_from_same [OF this assms(1)] assms(3) show ?thesis by force
qed

section \<open>Every call can finish\<close>

fun phase_rank :: "phase \<Rightarrow> nat" where
  "phase_rank Asked = 3"
| "phase_rank Missed = 2"
| "phase_rank (Parsed sol) = 1"
| "phase_rank (Answered r) = 0"

lemma advance_rank: "advance hash q ph c = (ph', c') \<Longrightarrow> phase_rank ph \<noteq> 0 \<Longrightarrow> phase_rank ph' < phase_rank ph"
  by (cases ph; cases q) (auto simp: store_phase_def Let_def split: if_splits prod.splits sum.splits option.splits)

definition work_left :: "solver_state \<Rightarrow> nat" where
  "work_left s = (\<Sum>(q, ph) \<leftarrow> sv_calls s. phase_rank ph)"

lemma sum_list_update_less:
  "i < length xs \<Longrightarrow> f y < (f (xs ! i) :: nat) \<Longrightarrow> sum_list (map f (xs[i := y])) < sum_list (map f xs)"
  by (induction xs arbitrary: i) (auto split: nat.split)

text \<open>No call waits for another: from any state every call can be answered without a new one being made, in at
  most three steps per call.\<close>

lemma calls_answered:
  "\<exists>t. (solver_step hash)\<^sup>*\<^sup>* s t \<and> map fst (sv_calls t) = map fst (sv_calls s) \<and> work_left t = 0"
proof (induction "work_left s" arbitrary: s rule: less_induct)
  case less
  show ?case
  proof (cases "work_left s = 0")
    case False
    then obtain q ph where "(q, ph) \<in> set (sv_calls s)" "phase_rank ph \<noteq> 0" by (auto simp: work_left_def)
    then obtain i where i: "i < length (sv_calls s)" "sv_calls s ! i = (q, ph)" "phase_rank ph \<noteq> 0" by (metis in_set_conv_nth)
    obtain ph' c where a: "advance hash q ph (sv_cache s) = (ph', c)" by fastforce
    let ?t = "s\<lparr>sv_cache := c, sv_calls := (sv_calls s)[i := (q, ph')]\<rparr>"
    have st: "solver_step hash s ?t" using i(1,2) a by (rule solver_step.go)
    have "work_left ?t < work_left s"
      using sum_list_update_less [OF i(1), of "\<lambda>(q, ph). phase_rank ph" "(q, ph')"] advance_rank [OF a i(3)] i(2) by (simp add: work_left_def)
    moreover have "map fst (sv_calls ?t) = map fst (sv_calls s)" using queries_update [OF i(1,2)] by simp
    ultimately show ?thesis using less [of ?t] st by (metis converse_rtranclp_into_rtranclp)
  qed auto
qed

section \<open>An interleaving\<close>

datatype solver_op = Ask query | Go nat

fun solver_exec :: "(string \<Rightarrow> string) \<Rightarrow> solver_op \<Rightarrow> solver_state \<Rightarrow> solver_state" where
  "solver_exec hash (Ask q) s = s\<lparr>sv_calls := sv_calls s @ [(q, Asked)]\<rparr>"
| "solver_exec hash (Go i) s = (if i < length (sv_calls s) then (case sv_calls s ! i of (q, ph) \<Rightarrow>
     (case advance hash q ph (sv_cache s) of (ph', c) \<Rightarrow> s\<lparr>sv_cache := c, sv_calls := (sv_calls s)[i := (q, ph')]\<rparr>)) else s)"

lemma solver_exec_reachable: "(solver_step hash)\<^sup>*\<^sup>* s (solver_exec hash op s)"
proof (cases op)
  case (Go i)
  obtain q ph where c: "sv_calls s ! i = (q, ph)" by fastforce
  obtain ph' c' where a: "advance hash q ph (sv_cache s) = (ph', c')" by fastforce
  show ?thesis
  proof (cases "i < length (sv_calls s)")
    case True
    from solver_step.go [OF True c a] show ?thesis using True c a Go by auto
  qed (use Go in simp)
qed (use solver_step.ask in auto)

lemma solver_run_reachable: "(solver_step hash)\<^sup>*\<^sup>* s (fold (solver_exec hash) ops s)"
proof (induction ops arbitrary: s)
  case (Cons op ops)
  then show ?case using solver_exec_reachable by (metis fold_simps(2) rtranclp_trans)
qed simp

lemma solver_run_queries:
  "map fst (sv_calls (fold (solver_exec hash) ops s)) = map fst (sv_calls s) @ concat (map (\<lambda>op. case op of Ask q \<Rightarrow> [q] | Go i \<Rightarrow> []) ops)"
proof (induction ops arbitrary: s)
  case (Cons op ops)
  have "map fst (sv_calls (solver_exec hash op s)) = map fst (sv_calls s) @ (case op of Ask q \<Rightarrow> [q] | Go i \<Rightarrow> [])"
    by (cases op) (auto simp: queries_update split: prod.splits)
  with Cons show ?case by simp
qed simp

text \<open>Two calls miss the same program, both run the process, and a third one is answered from the cache.\<close>

definition three_calls :: solver_state where
  "three_calls = fold (solver_exec id) [Ask (demo_call True, ''(assert false)'', []), Ask (demo_call True, ''(assert false)'', []),
     Go 0, Go 1, Go 1, Go 0, Go 0, Ask (demo_call False, ''(assert false)'', []), Go 2, Go 1] (new_solver 10)"

theorem shared_answers_witness:
  "\<exists>sol. sv_calls three_calls ! 2 = ((demo_call False, ''(assert false)'', []), Answered (Inr sol)) \<and>
    (\<exists>q' \<in> fst ` set (sv_calls three_calls). answers q' (decisionFromSolution sol))"
proof -
  let ?q = "(demo_call False, ''(assert false)'', [])"
  have len: "length (sv_calls three_calls) = 3" by code_simp
  have "(case snd (sv_calls three_calls ! 2) of Answered (Inr sol) \<Rightarrow> sol_Sat sol = ''unsat'' | _ \<Rightarrow> False)" by code_simp
  then obtain sol where sol: "snd (sv_calls three_calls ! 2) = Answered (Inr sol)" "sol_Sat sol = ''unsat''"
    by (auto split: phase.splits sum.splits)
  have "map fst (sv_calls three_calls) ! 2 = ?q" unfolding three_calls_def solver_run_queries by (simp add: new_solver_def)
  then have "fst (sv_calls three_calls ! 2) = ?q" using len by simp
  with sol(1) have at: "sv_calls three_calls ! 2 = (?q, Answered (Inr sol))" by (metis prod.collapse)
  have "sv_calls three_calls ! 2 \<in> set (sv_calls three_calls)" by (rule nth_mem) (simp only: len)
  then have "(?q, Answered (Inr sol)) \<in> set (sv_calls three_calls)" by (simp only: at)
  moreover have "(solver_step id)\<^sup>*\<^sup>* (new_solver 10) three_calls" unfolding three_calls_def by (rule solver_run_reachable)
  ultimately have "\<exists>q' \<in> fst ` set (sv_calls three_calls). script q' = script ?q \<and> answers q' (decisionFromSolution sol)"
    by (intro shared_answers [where hash = id and n = 10]) (simp_all add: sol(2))
  with at show ?thesis by blast
qed

end
