(* ===== verification/RollbackRace.thy ===== *)
theory RollbackRace
  imports Deployment
begin

text \<open>
  Concurrent rollbacks (\<open>src/internal/governance/rollback.go\<close>). \<open>Rollback\<close> takes the lock of the manager to find the
  previous version, releases it, takes the lock of the policy for the transition, and takes the lock of the manager
  again for the record. The theory splits the call into these three steps and interleaves any number of
  calls with deployments that are recorded and transitions that are made meanwhile.
\<close>

section \<open>The steps of a rollback\<close>

datatype rb_phase = RbCalled | RbFound SchemaVersion | RbMoved SchemaVersion SchemaVersion | RbDone "rollback_error + RollbackRecord"

record rb_call =
  rc_actor :: string
  rc_reason :: string
  rc_env :: Environment
  rc_now1 :: instant
  rc_now2 :: instant
  rc_phase :: rb_phase

fun rb_advance :: "rb_call \<Rightarrow> rb_phase \<Rightarrow> Policy \<times> RollbackManager \<Rightarrow> rb_phase \<times> Policy \<times> RollbackManager" where
  "rb_advance c RbCalled (p, m) = (case rm_PreviousVersion m (p_ID p) of
     None \<Rightarrow> (RbDone (Inl (NoPreviousVersion (p_ID p))), p, m)
   | Some prev \<Rightarrow> (RbFound prev, p, m))"
| "rb_advance c (RbFound prev) (p, m) = (let frm = p_Version p in
     case Transition StateRolledBack (rc_actor c) (rc_reason c) (rc_now1 c) p of
       (Inl e, p') \<Rightarrow> (RbDone (Inl (TransitionFailed e)), p', m)
     | (Inr _, p') \<Rightarrow> (RbMoved prev frm, p', m))"
| "rb_advance c (RbMoved prev frm) (p, m) =
     (let (rb, m') = RecordRollback (p_ID p) frm prev (rc_actor c) (rc_reason c) (rc_env c) (rc_now2 c) m in (RbDone (Inr rb), p, m'))"
| "rb_advance c (RbDone r) (p, m) = (RbDone r, p, m)"

text \<open>A call that nobody interrupts is the function of \<open>Deployment\<close>.\<close>

definition rb_uninterrupted :: "rb_call \<Rightarrow> Policy \<times> RollbackManager \<Rightarrow> rb_phase \<times> Policy \<times> RollbackManager" where
  "rb_uninterrupted c s = (let (ph, s) = rb_advance c RbCalled s; (ph, s) = rb_advance c ph s in rb_advance c ph s)"

lemma uninterrupted_is_Rollback:
  "rb_uninterrupted c (p, m) = (let (r, p', m') = Rollback p (rc_actor c) (rc_reason c) (rc_env c) (rc_now1 c) (rc_now2 c) m in (RbDone r, p', m'))"
proof (cases "rm_PreviousVersion m (p_ID p)")
  case (Some prev)
  obtain r p' where "Transition StateRolledBack (rc_actor c) (rc_reason c) (rc_now1 c) p = (r, p')" by fastforce
  then show ?thesis using Some by (cases r) (simp_all add: rb_uninterrupted_def Rollback_def case_prod_beta Let_def)
qed (simp add: rb_uninterrupted_def Rollback_def)

section \<open>Interleavings\<close>

text \<open>\<open>rw_entries\<close> counts how often the policy has entered the deployed state.\<close>

record rb_world =
  rw_policy :: Policy
  rw_manager :: RollbackManager
  rw_calls :: "rb_call list"
  rw_entries :: nat

definition rb_start :: "Policy \<Rightarrow> RollbackManager \<Rightarrow> rb_world" where
  "rb_start p m = \<lparr>rw_policy = p, rw_manager = m, rw_calls = [], rw_entries = (if p_State p = StateDeployed then 1 else 0)\<rparr>"

inductive rb_step :: "rb_world \<Rightarrow> rb_world \<Rightarrow> bool" where
  called: "rc_phase c = RbCalled \<Longrightarrow> rb_step w (w\<lparr>rw_calls := rw_calls w @ [c]\<rparr>)"
| go: "i < length (rw_calls w) \<Longrightarrow> rw_calls w ! i = c \<Longrightarrow> rb_advance c (rc_phase c) (rw_policy w, rw_manager w) = (ph, p, m) \<Longrightarrow>
    rb_step w (w\<lparr>rw_policy := p, rw_manager := m, rw_calls := (rw_calls w)[i := c\<lparr>rc_phase := ph\<rparr>]\<rparr>)"
| deployed: "rb_step w (w\<lparr>rw_manager := RecordDeploy i v actor env now (rw_manager w)\<rparr>)"
| moved: "Transition to actor reason now (rw_policy w) = (Inr rec, p) \<Longrightarrow>
    rb_step w (w\<lparr>rw_policy := p, rw_entries := rw_entries w + (if to = StateDeployed then 1 else 0)\<rparr>)"

text \<open>The calls that have rolled the policy back.\<close>

definition rolled :: "rb_call \<Rightarrow> bool" where
  "rolled c \<longleftrightarrow> (case rc_phase c of RbMoved prev frm \<Rightarrow> True | RbDone (Inr rb) \<Rightarrow> True | _ \<Rightarrow> False)"

definition rb_inv :: "rb_world \<Rightarrow> bool" where
  "rb_inv w \<longleftrightarrow> length (filter rolled (rw_calls w)) + (if p_State (rw_policy w) = StateDeployed then 1 else 0) \<le> rw_entries w"

lemma filter_update_length:
  "i < length xs \<Longrightarrow> length (filter P (xs[i := y])) + (if P (xs ! i) then 1 else 0) = length (filter P xs) + (if P y then 1 else 0)"
proof (induction xs arbitrary: i)
  case (Cons x xs)
  show ?case
  proof (cases i)
    case (Suc j)
    with Cons.IH [of j] Cons.prems show ?thesis by simp
  qed simp
qed simp

lemma Transition_state:
  "Transition to actor reason now p = (r, p') \<Longrightarrow> (case r of Inl e \<Rightarrow> p' = p | Inr rec \<Rightarrow> p_State p' = to \<and> canTransition (p_State p) to)"
  by (auto simp: Transition_def canTransition_def find_eq_None split: option.splits if_splits)

text \<open>One step of a call: it keeps the state of the policy, or takes it from deployed to rolled back.\<close>

lemma rb_advance_cases:
  assumes "rb_advance c (rc_phase c) (p, m) = (ph, p', m')"
  shows "(p_State p' = p_State p \<and> (rolled (c\<lparr>rc_phase := ph\<rparr>) \<longleftrightarrow> rolled c)) \<or>
    (p_State p = StateDeployed \<and> p_State p' = StateRolledBack \<and> \<not> rolled c \<and> rolled (c\<lparr>rc_phase := ph\<rparr>))"
proof (cases "rc_phase c")
  case (RbFound prev)
  obtain r p1 where t: "Transition StateRolledBack (rc_actor c) (rc_reason c) (rc_now1 c) p = (r, p1)" by fastforce
  from Transition_state [OF t] RbFound assms t show ?thesis
    by (cases r) (auto simp: rolled_def only_deployed_rolls_back)
qed (use assms in \<open>auto simp: rolled_def RecordRollback_def split: option.splits\<close>)

lemma rb_inv_step:
  assumes "rb_inv w" and "rb_step w w'"
  shows "rb_inv w'"
  using assms(2)
proof cases
  case (called c)
  then have "\<not> rolled c" by (simp add: rolled_def)
  with assms(1) called(1) show ?thesis by (simp add: rb_inv_def)
next
  case (go i c ph p m)
  note len = filter_update_length [OF go(2), of rolled "c\<lparr>rc_phase := ph\<rparr>"]
  have d: "StateRolledBack \<noteq> StateDeployed" by (simp add: state_defs)
  from rb_advance_cases [OF go(4)] assms(1) len go(3) d show ?thesis by (auto simp: go(1) rb_inv_def split: if_splits)
next
  case (moved to actor reason now rec p)
  have "\<not> canTransition StateDeployed StateDeployed" by (auto simp: canTransition_iff state_defs)
  with Transition_state [OF moved(2)] assms(1) show ?thesis by (auto simp: moved(1) rb_inv_def)
qed (use assms(1) in \<open>simp add: rb_inv_def\<close>)

interpretation rollbacks: invariant_system "\<lambda>w. \<exists>p m. w = rb_start p m" rb_step rb_inv
proof unfold_locales
  show "\<exists>p m. w = rb_start p m \<Longrightarrow> rb_inv w" for w by (auto simp: rb_inv_def rb_start_def)
qed (rule rb_inv_step)

text \<open>C29: however rollbacks, recorded deployments and transitions of one policy interleave, no more rollbacks succeed than
  the policy has entered the deployed state: a deployment is rolled back at most once.\<close>

theorem rollback_once_per_deployment:
  assumes "rb_step\<^sup>*\<^sup>* (rb_start p m) w"
  shows "length (filter (\<lambda>c. \<exists>rb. rc_phase c = RbDone (Inr rb)) (rw_calls w)) \<le> rw_entries w"
proof -
  have "rb_inv w" using rollbacks.invar_reachable assms by blast
  moreover have "length (filter (\<lambda>c. \<exists>rb. rc_phase c = RbDone (Inr rb)) cs) \<le> length (filter rolled cs)" for cs
    by (induction cs) (auto simp: rolled_def)
  ultimately show ?thesis unfolding rb_inv_def by (meson add_leD1 order_trans)
qed

section \<open>Schedules\<close>

datatype rb_op = OCall rb_call | OGo nat | ODeploy string SchemaVersion string Environment instant

fun rb_exec :: "rb_op \<Rightarrow> rb_world \<Rightarrow> rb_world" where
  "rb_exec (OCall c) w = w\<lparr>rw_calls := rw_calls w @ [c\<lparr>rc_phase := RbCalled\<rparr>]\<rparr>"
| "rb_exec (OGo i) w = (if i < length (rw_calls w) then (let c = rw_calls w ! i in
     case rb_advance c (rc_phase c) (rw_policy w, rw_manager w) of (ph, p, m) \<Rightarrow>
       w\<lparr>rw_policy := p, rw_manager := m, rw_calls := (rw_calls w)[i := c\<lparr>rc_phase := ph\<rparr>]\<rparr>) else w)"
| "rb_exec (ODeploy i v actor env now) w = w\<lparr>rw_manager := RecordDeploy i v actor env now (rw_manager w)\<rparr>"

lemma rb_exec_reachable: "rb_step\<^sup>*\<^sup>* w (rb_exec op w)"
proof (cases op)
  case (OCall c)
  then show ?thesis using rb_step.called [of "c\<lparr>rc_phase := RbCalled\<rparr>" w] by auto
next
  case (OGo i)
  obtain ph p m where "rb_advance (rw_calls w ! i) (rc_phase (rw_calls w ! i)) (rw_policy w, rw_manager w) = (ph, p, m)"
    by (metis prod_cases3)
  then show ?thesis using OGo rb_step.go [of i w "rw_calls w ! i" ph p m] by (auto simp: Let_def)
qed (use rb_step.deployed in auto)

lemma rb_run_reachable: "rb_step\<^sup>*\<^sup>* w (fold rb_exec ops w)"
proof (induction ops arbitrary: w)
  case (Cons op ops)
  then show ?case using rb_exec_reachable by (metis fold_simps(2) rtranclp_trans)
qed simp

definition bob_call :: rb_call where
  "bob_call = \<lparr>rc_actor = ''bob'', rc_reason = [], rc_env = EnvProd, rc_now1 = 4, rc_now2 = 5, rc_phase = RbCalled\<rparr>"

abbreviation deploy_3 :: rb_op where
  "deploy_3 \<equiv> ODeploy ''p'' (ver 3 0) ''alice'' EnvProd 3"

definition versions_after :: "rb_op list \<Rightarrow> SchemaVersion list" where
  "versions_after ops = map d_Version (History (rw_manager (fold rb_exec ops (rb_start live_policy two_deploys))) ''p'')"

text \<open>Two calls for one deployed policy: the second fails.\<close>

theorem rollback_once_per_deployment_witness:
  "length (filter (\<lambda>c. \<exists>rb. rc_phase c = RbDone (Inr rb))
     (rw_calls (fold rb_exec [OCall bob_call, OCall bob_call, OGo 0, OGo 1, OGo 1, OGo 0, OGo 1] (rb_start live_policy two_deploys))))
   \<le> rw_entries (fold rb_exec [OCall bob_call, OCall bob_call, OGo 0, OGo 1, OGo 1, OGo 0, OGo 1] (rb_start live_policy two_deploys))"
  by (rule rollback_once_per_deployment [OF rb_run_reachable])

text \<open>a rollback is not atomic. A deployment of version 3 that is recorded while a rollback from version 2 is
  under way leaves a history that neither order of the two calls gives: the last record rolls version 3 back to
  version 1, although the version before it is 2.\<close>

theorem rollback_not_atomic:
  "versions_after [OCall bob_call, OGo 0, deploy_3, OGo 0, OGo 0] = [ver 1 0, ver 2 0, ver 3 0, ver 1 0] \<and>
   versions_after [OCall bob_call, OGo 0, OGo 0, OGo 0, deploy_3] = [ver 1 0, ver 2 0, ver 1 0, ver 3 0] \<and>
   versions_after [deploy_3, OCall bob_call, OGo 0, OGo 0, OGo 0] = [ver 1 0, ver 2 0, ver 3 0, ver 2 0]"
  by code_simp

end
