(* ===== verification/Grafana.thy ===== *)
theory Grafana
  imports ObsService GoStrings
begin

text \<open>
  The Grafana provisioning model (\<open>src/internal/observability/dashboard.go\<close>) with its routes, and the
  selectors, metric names with label matchers, of its queries and of the exported alert rules, against the text that the
  collector exposes and the observations behind it. The YAML
  and JSON encoders are not modelled.
\<close>

section \<open>The dashboard\<close>

record grafanaTime =
  gt_From :: string
  gt_To :: string

record grafanaVarQuery =
  vq_Query :: string
  vq_Format :: string

record grafanaVariable =
  gv_Name :: string
  gv_Type :: string
  gv_Label :: string
  IncludeAll :: bool
  Multi :: bool
  gv_Query :: grafanaVarQuery
  gv_Current :: "string \<rightharpoonup> string"

record grafanaGrid =
  gr_H :: int
  gr_W :: int
  gr_X :: int
  gr_Y :: int

record grafanaTarget =
  tg_Expr :: string
  LegendFmt :: string
  RefID :: string

record GrafanaPanel =
  pn_ID :: int
  pn_Title :: string
  pn_Type :: string
  GridPos :: grafanaGrid
  Targets :: "grafanaTarget list"

record GrafanaDashboard =
  gd_UID :: string
  gd_Title :: string
  gd_Tags :: "string list"
  gd_Timezone :: string
  gd_SchemaVersion :: int
  gd_Refresh :: string
  gd_Time :: grafanaTime
  gd_Templating :: "grafanaVariable list"
  gd_Panels :: "GrafanaPanel list"

definition GrafanaDashboardJSON :: "string \<Rightarrow> GrafanaDashboard" where
  "GrafanaDashboardJSON title = (let title = (if title = [] then ''symkernel '' @ emDash @ '' Policy Performance'' else title) in
   \<lparr>gd_UID = ''symkernel-policy-perf'', gd_Title = title, gd_Tags = [''symkernel'', ''verification''], gd_Timezone = ''browser'',
    gd_SchemaVersion = 39, gd_Refresh = ''10s'', gd_Time = \<lparr>gt_From = ''now-1h'', gt_To = ''now''\<rparr>,
    gd_Templating = [\<lparr>gv_Name = ''policy_id'', gv_Type = ''query'', gv_Label = ''Policy'', IncludeAll = True, Multi = True,
      gv_Query = \<lparr>vq_Query = ''label_values(symkernel_policy_verification_duration_seconds_count, policy_id)'', vq_Format = ''string''\<rparr>,
      gv_Current = [''text'' \<mapsto> ''All'', ''value'' \<mapsto> ''$__all'']\<rparr>],
    gd_Panels = [
      \<lparr>pn_ID = 1, pn_Title = ''Verification Latency (p50 / p95 / p99)'', pn_Type = ''timeseries'', GridPos = \<lparr>gr_H = 8, gr_W = 12, gr_X = 0, gr_Y = 0\<rparr>,
        Targets = [\<lparr>tg_Expr = ''histogram_quantile(0.50, sum by (le) (rate(symkernel_policy_verification_duration_seconds_bucket{policy_id=~\"$policy_id\"}[5m])))'', LegendFmt = ''p50'', RefID = ''A''\<rparr>,
          \<lparr>tg_Expr = ''histogram_quantile(0.95, sum by (le) (rate(symkernel_policy_verification_duration_seconds_bucket{policy_id=~\"$policy_id\"}[5m])))'', LegendFmt = ''p95'', RefID = ''B''\<rparr>,
          \<lparr>tg_Expr = ''histogram_quantile(0.99, sum by (le) (rate(symkernel_policy_verification_duration_seconds_bucket{policy_id=~\"$policy_id\"}[5m])))'', LegendFmt = ''p99'', RefID = ''C''\<rparr>]\<rparr>,
      \<lparr>pn_ID = 2, pn_Title = ''Error Rate'', pn_Type = ''timeseries'', GridPos = \<lparr>gr_H = 8, gr_W = 12, gr_X = 12, gr_Y = 0\<rparr>,
        Targets = [\<lparr>tg_Expr = ''sum by (policy_id) (rate(symkernel_policy_verification_total{policy_id=~\"$policy_id\",result=\"failure\"}[5m])) / clamp_min(sum by (policy_id) (rate(symkernel_policy_verification_total{policy_id=~\"$policy_id\"}[5m])), 1)'', LegendFmt = ''{{policy_id}}'', RefID = ''A''\<rparr>]\<rparr>,
      \<lparr>pn_ID = 3, pn_Title = ''Peak Memory (bytes)'', pn_Type = ''timeseries'', GridPos = \<lparr>gr_H = 8, gr_W = 12, gr_X = 0, gr_Y = 8\<rparr>,
        Targets = [\<lparr>tg_Expr = ''max by (policy_id) (symkernel_policy_verification_memory_bytes_max{policy_id=~\"$policy_id\"})'', LegendFmt = ''{{policy_id}}'', RefID = ''A''\<rparr>]\<rparr>,
      \<lparr>pn_ID = 4, pn_Title = ''Throughput (ops/s)'', pn_Type = ''timeseries'', GridPos = \<lparr>gr_H = 8, gr_W = 12, gr_X = 12, gr_Y = 8\<rparr>,
        Targets = [\<lparr>tg_Expr = ''sum by (policy_id) (rate(symkernel_policy_verification_duration_seconds_count{policy_id=~\"$policy_id\"}[5m]))'', LegendFmt = ''{{policy_id}}'', RefID = ''A''\<rparr>]\<rparr>]\<rparr>)"

definition grafanaHandler :: "Service \<Rightarrow> GrafanaDashboard" where
  "grafanaHandler s = GrafanaDashboardJSON []"

section \<open>Selectors\<close>

text \<open>
  The selectors of an expression: its identifiers that begin with the prefix of the program, each with the matchers in the
  braces behind it. The variable of the dashboard stands for the policies, so its matcher is left out.
\<close>

definition ident_char :: "char \<Rightarrow> bool" where
  "ident_char c \<longleftrightarrow> (let n = of_char c :: nat in 48 \<le> n \<and> n \<le> 58 \<or> 65 \<le> n \<and> n \<le> 90 \<or> n = 95 \<or> 97 \<le> n \<and> n \<le> 122)"

definition symkernel_metric :: "string \<Rightarrow> bool" where
  "symkernel_metric w \<longleftrightarrow> take 10 w = ''symkernel_''"

definition matchers :: "string \<Rightarrow> string list" where
  "matchers braces = filter (\<lambda>m. m \<noteq> [] \<and> m \<noteq> ''policy_id=~\"$policy_id\"'') (Split (CHR '','') braces)"

fun selectors :: "string \<Rightarrow> string \<Rightarrow> (string \<times> string list) list" where
  "selectors w [] = (if symkernel_metric w then [(w, [])] else [])"
| "selectors w (c # cs) = (if ident_char c then selectors (w @ [c]) cs
     else (if symkernel_metric w then [(w, if c = CHR ''{'' then matchers (takeWhile (\<lambda>d. d \<noteq> CHR ''}'') cs) else [])] else []) @ selectors [] cs)"

definition dashboard_selectors :: "GrafanaDashboard \<Rightarrow> (string \<times> string list) list" where
  "dashboard_selectors d = concat (map (\<lambda>v. selectors [] (vq_Query (gv_Query v))) (gd_Templating d)) @
     concat (map (\<lambda>p. concat (map (\<lambda>t. selectors [] (tg_Expr t)) (Targets p))) (gd_Panels d))"

definition rule_selectors :: "promRule list \<Rightarrow> (string \<times> string list) list" where
  "rule_selectors rs = concat (map (\<lambda>r. selectors [] (pr_Expr r)) rs)"

definition family_name :: "string \<Rightarrow> string" where
  "family_name f = ''symkernel_policy_verification_'' @ f"

text \<open>The families and matchers that the panels and the rules use.\<close>

definition used_selectors :: "(string \<times> string list) list" where
  "used_selectors = [(''duration_seconds_bucket'', []), (''duration_seconds_count'', []), (''total'', []),
     (''total'', [''result=\"failure\"'']), (''memory_bytes_max'', [])]"

abbreviation known_selector :: "string \<times> string list \<Rightarrow> bool" where
  "known_selector q \<equiv> q \<in> set (map (map_prod family_name id) used_selectors)"

lemma dashboard_known: "list_all known_selector (dashboard_selectors (GrafanaDashboardJSON title))"
proof -
  have "gd_Templating (GrafanaDashboardJSON title) = gd_Templating (GrafanaDashboardJSON [])"
    "gd_Panels (GrafanaDashboardJSON title) = gd_Panels (GrafanaDashboardJSON [])" by (simp_all add: GrafanaDashboardJSON_def)
  then have "dashboard_selectors (GrafanaDashboardJSON title) = dashboard_selectors (GrafanaDashboardJSON [])" by (simp add: dashboard_selectors_def)
  moreover have "list_all known_selector (dashboard_selectors (GrafanaDashboardJSON []))" by code_simp
  ultimately show ?thesis by simp
qed

text \<open>A text whose braces are closed and which does not end in a word can be followed by another.\<close>

fun closed :: "string \<Rightarrow> bool" where
  "closed [] = True"
| "closed (c # cs) = ((c = CHR ''{'' \<longrightarrow> CHR ''}'' \<in> set cs) \<and> closed cs)"

lemma takeWhile_closed: "x \<in> set a \<Longrightarrow> takeWhile (\<lambda>d. d \<noteq> x) (a @ b) = takeWhile (\<lambda>d. d \<noteq> x) a"
  by (induction a) auto

lemma selectors_append:
  "closed s \<Longrightarrow> s \<noteq> [] \<Longrightarrow> \<not> ident_char (List.last s) \<Longrightarrow> selectors w (s @ t) = selectors w s @ selectors [] t"
proof (induction s arbitrary: w)
  case (Cons c s)
  show ?case
  proof (cases "s = []")
    case True
    then show ?thesis using Cons.prems by (simp add: symkernel_metric_def)
  next
    case False
    then have "selectors v (s @ t) = selectors v s @ selectors [] t" for v using Cons by simp
    moreover have "c = CHR ''{'' \<Longrightarrow> takeWhile (\<lambda>d. d \<noteq> CHR ''}'') (s @ t) = takeWhile (\<lambda>d. d \<noteq> CHR ''}'') s"
      using Cons.prems(1) by (intro takeWhile_closed) simp
    ultimately show ?thesis by simp
  qed
qed simp

text \<open>The fixed part of the expression of each metric of a rule; a number follows.\<close>

definition promQL_head :: "string \<Rightarrow> string" where
  "promQL_head m =
     (if m = ''latency_p95_ms'' then
        ''histogram_quantile(0.95, sum by (policy_id, le) (rate(symkernel_policy_verification_duration_seconds_bucket[5m]))) > ''
      else if m = ''latency_p99_ms'' then
        ''histogram_quantile(0.99, sum by (policy_id, le) (rate(symkernel_policy_verification_duration_seconds_bucket[5m]))) > ''
      else if m = ''error_rate'' then
        ''sum by (policy_id) (rate(symkernel_policy_verification_total{result='' @ [CHR 0x22] @ ''failure'' @ [CHR 0x22] @
        ''}[5m])) / clamp_min(sum by (policy_id) (rate(symkernel_policy_verification_total[5m])), 1) > ''
      else ''max by (policy_id) (symkernel_policy_verification_memory_bytes_max) > '')"

definition prom_metrics :: "string list" where
  "prom_metrics = [''latency_p95_ms'', ''latency_p99_ms'', ''error_rate'', ''peak_memory_bytes'']"

definition promQL_number :: "AlertRule \<Rightarrow> rat" where
  "promQL_number r = (if ar_Metric r = ''latency_p95_ms'' \<or> ar_Metric r = ''latency_p99_ms'' then ar_Threshold r / 1000 else ar_Threshold r)"

lemma promQLFor_head:
  assumes "ar_Metric r \<in> set prom_metrics"
  shows "promQLFor fmtg r = promQL_head (ar_Metric r) @ fmtg (promQL_number r)"
proof -
  consider "ar_Metric r = ''latency_p95_ms''" | "ar_Metric r = ''latency_p99_ms''" | "ar_Metric r = ''error_rate''" | "ar_Metric r = ''peak_memory_bytes''"
    using assms by (auto simp: prom_metrics_def)
  then show ?thesis by cases (simp_all add: promQLFor_def promQL_head_def promQL_number_def)
qed

lemma promQLFor_other: "ar_Metric r \<notin> set prom_metrics \<Longrightarrow> promQLFor fmtg r = []"
  by (simp add: promQLFor_def prom_metrics_def)

lemma promQL_head_ok:
  "list_all (\<lambda>m. let s = promQL_head m in closed s \<and> s \<noteq> [] \<and> \<not> ident_char (List.last s) \<and> list_all known_selector (selectors [] s)) prom_metrics"
  by code_simp

lemma promQL_known:
  assumes "\<And>x. selectors [] (fmtg x) = []"
  shows "list_all known_selector (selectors [] (promQLFor fmtg r))"
proof (cases "ar_Metric r \<in> set prom_metrics")
  case True
  have "closed (promQL_head (ar_Metric r)) \<and> promQL_head (ar_Metric r) \<noteq> [] \<and> \<not> ident_char (List.last (promQL_head (ar_Metric r))) \<and>
      list_all known_selector (selectors [] (promQL_head (ar_Metric r)))"
    using promQL_head_ok True unfolding list_all_iff Let_def by blast
  then show ?thesis unfolding promQLFor_head [OF True] using selectors_append assms by simp
next
  case False
  then show ?thesis using promQLFor_other by (simp add: symkernel_metric_def)
qed

lemma rules_known:
  assumes "\<And>x. selectors [] (fmtg x) = []"
  shows "list_all known_selector (rule_selectors (promRules fmtg fmt4g durString rules))"
proof -
  have "\<exists>r'. pr_Expr r = promQLFor fmtg r'" if "r \<in> set (promRules fmtg fmt4g durString rules)" for r
  proof -
    from that obtain r' where "promQLFor fmtg r' \<noteq> []" "promRules fmtg fmt4g durString [r'] = [r]"
      by (auto simp: promRules_def List.map_filter_def comp_def Let_def split: if_splits)
    then show ?thesis by (intro exI [of _ r']) (auto simp: promRules_def List.map_filter_def Let_def)
  qed
  then have "list_all known_selector (selectors [] (pr_Expr r))" if "r \<in> set (promRules fmtg fmt4g durString rules)" for r
    using that promQL_known [of fmtg, OF assms] by metis
  then show ?thesis by (auto simp: rule_selectors_def list_all_iff)
qed

section \<open>The lines of the text\<close>

text \<open>Texts that consist of whole lines, and a line of a text.\<close>

definition whole_lines :: "string \<Rightarrow> bool" where
  "whole_lines t \<longleftrightarrow> t = [] \<or> List.last t = CHR 10"

definition emits :: "string \<Rightarrow> string \<Rightarrow> bool" where
  "emits text l \<longleftrightarrow> (\<exists>pre post. text = pre @ l @ post \<and> whole_lines pre)"

lemma whole_append: "whole_lines a \<Longrightarrow> whole_lines b \<Longrightarrow> whole_lines (a @ b)"
  by (auto simp: whole_lines_def last_append)

lemma whole_concat: "list_all whole_lines ts \<Longrightarrow> whole_lines (concat ts)"
  by (induction ts) (auto intro: whole_append simp: whole_lines_def [of "[]"])

lemma whole_sample: "whole_lines (sample_line n l v)"
  by (simp add: whole_lines_def sample_line_def text_line_def)

lemma whole_samples: "whole_lines (concat (map (\<lambda>x. sample_line (n x) (l x) (v x)) xs))"
  by (rule whole_concat) (simp add: list_all_iff whole_sample)

lemma emits_left: "emits a l \<Longrightarrow> emits (a @ b) l"
  by (metis append.assoc emits_def)

lemma emits_right: "whole_lines a \<Longrightarrow> emits b l \<Longrightarrow> emits (a @ b) l"
  by (metis append.assoc emits_def whole_append)

lemma emits_concat: "list_all whole_lines ts \<Longrightarrow> t \<in> set ts \<Longrightarrow> emits t l \<Longrightarrow> emits (concat ts) l"
  by (induction ts) (auto intro: emits_left emits_right)

lemma emits_self: "emits l l"
  by (auto simp: emits_def whole_lines_def intro: exI [of _ "[]"])

text \<open>The text of one series, part by part.\<close>

definition series_parts :: "(rat \<Rightarrow> string) \<Rightarrow> (string \<Rightarrow> string) \<Rightarrow> (string set \<Rightarrow> string list) \<Rightarrow> string \<Rightarrow> policySeries \<Rightarrow> string list" where
  "series_parts fmt_g fmt_q visit labels ps =
     map (\<lambda>p. sample_line ''duration_seconds_bucket'' (labels @ '',le=\"'' @ fmt_g (fst p) @ ''\"'') (u64_text (snd p)))
        (promBuckets latencyBucketsSeconds (la_buckets (ps_lat ps)) 0) @
     [sample_line ''duration_seconds_bucket'' (labels @ '',le=\"+Inf\"'') (u64_text (la_count (ps_lat ps))),
      sample_line ''duration_seconds_sum'' labels (fmt_g (Seconds (la_sum (ps_lat ps)))),
      sample_line ''duration_seconds_count'' labels (u64_text (la_count (ps_lat ps))),
      sample_line ''total'' (labels @ '',result=\"success\"'') (u64_text (ps_successes ps)),
      sample_line ''total'' (labels @ '',result=\"failure\"'') (u64_text (ps_failures ps)),
      concat (map (\<lambda>code. sample_line ''errors_total'' (labels @ '',code='' @ fmt_q code) (u64_text (the (ps_errorsByCode ps code))))
        (sortedKeys visit (ps_errorsByCode ps))),
      sample_line ''memory_bytes_max'' labels (u64_text (ps_maxMemory ps)),
      sample_line ''instructions_total'' labels (u64_text (ps_totalInstructions ps))]"

definition series_labels :: "(string \<Rightarrow> string) \<Rightarrow> policySeries \<Rightarrow> string" where
  "series_labels fmt_q ps = ''policy_id='' @ fmt_q (ps_policyID ps) @ '',tier='' @ fmt_q (Tier_String (ps_tier ps))"

lemma seriesText_parts: "seriesText fmt_g fmt_q visit ps = concat (series_parts fmt_g fmt_q visit (series_labels fmt_q ps) ps)"
  unfolding seriesText_def series_parts_def series_labels_def Let_def case_prod_beta concat.simps concat_append append_Nil2 append_assoc by (rule refl)

lemma series_parts_whole: "list_all whole_lines (series_parts fmt_g fmt_q visit labels ps)"
  unfolding series_parts_def list_all_append list.pred_inject
  by (simp only: whole_samples whole_sample simp_thms) (simp add: list_all_iff whole_sample)

lemma seriesText_emits: "l \<in> set (series_parts fmt_g fmt_q visit (series_labels fmt_q ps) ps) \<Longrightarrow> emits (seriesText fmt_g fmt_q visit ps) l"
  unfolding seriesText_parts by (rule emits_concat [OF series_parts_whole _ emits_self])

section \<open>What the selectors find\<close>

text \<open>
  What the samples of a policy should say, read off its observations: the distinguishing labels of each sample and its
  number.
\<close>

definition family_samples :: "(rat \<Rightarrow> string) \<Rightarrow> Observation list \<Rightarrow> string \<Rightarrow> (string \<times> u64) list" where
  "family_samples fmt_g obs f =
     (if f = ''duration_seconds_bucket'' then map (\<lambda>b. ('',le=\"'' @ fmt_g b @ ''\"'', tally (\<lambda>ob. Seconds (ob_Latency ob) \<le> b) obs)) latencyBucketsSeconds @
        [('',le=\"+Inf\"'', of_nat (length obs))]
      else if f = ''duration_seconds_count'' then [([], of_nat (length obs))]
      else if f = ''total'' then [('',result=\"success\"'', tally ob_Success obs), ('',result=\"failure\"'', tally (\<lambda>ob. \<not> ob_Success ob) obs)]
      else if f = ''memory_bytes_max'' then [([], Max (insert 0 (ob_MemoryBytes ` set obs)))]
      else [])"

definition selected :: "(rat \<Rightarrow> string) \<Rightarrow> Observation list \<Rightarrow> string \<Rightarrow> string list \<Rightarrow> (string \<times> u64) list" where
  "selected fmt_g obs f mt = filter (\<lambda>(x, v). \<forall>m \<in> set mt. x = CHR '','' # m) (family_samples fmt_g obs f)"

definition policy_labels :: "(string \<Rightarrow> string) \<Rightarrow> string \<Rightarrow> Observation list \<Rightarrow> string" where
  "policy_labels fmt_q p obs = ''policy_id='' @ fmt_q p @ '',tier='' @
     fmt_q (if ob_Tier (List.last obs) = [] then ''unknown'' else ob_Tier (List.last obs))"

lemma used_nonempty: "(f, mt) \<in> set used_selectors \<Longrightarrow> selected fmt_g obs f mt \<noteq> []"
  unfolding used_selectors_def by (auto simp: selected_def family_samples_def)

lemma promBuckets_counts:
  "promBuckets latencyBucketsSeconds (bucketCounts (map ob_Latency obs)) 0 =
     map (\<lambda>b. (b, tally (\<lambda>ob. Seconds (ob_Latency ob) \<le> b) obs)) latencyBucketsSeconds"
proof (rule nth_equalityI)
  have "length (promBuckets bs ns cum) = min (length bs) (length ns)" for bs ns cum
    by (induction bs ns cum rule: promBuckets.induct) (auto simp: Let_def)
  moreover have "length (bucketCounts (map ob_Latency obs)) = 12" by (simp add: numLatencyBuckets_eq)
  ultimately show len: "length (promBuckets latencyBucketsSeconds (bucketCounts (map ob_Latency obs)) 0) =
      length (map (\<lambda>b. (b, tally (\<lambda>ob. Seconds (ob_Latency ob) \<le> b) obs)) latencyBucketsSeconds)"
    by (simp add: latencyBucketsSeconds_def)
  fix j assume "j < length (promBuckets latencyBucketsSeconds (bucketCounts (map ob_Latency obs)) 0)"
  then have j: "j < 11" "j < length latencyBucketsSeconds" using len by (simp_all add: latencyBucketsSeconds_def)
  have "before (map ob_Latency obs) (Suc j) = length (filter (\<lambda>ob. Seconds (ob_Latency ob) \<le> latencyBucketsSeconds ! j) obs)"
    by (simp add: before_def filter_map comp_def latencyBucketIndex_le_iff [OF j(1)])
  then show "promBuckets latencyBucketsSeconds (bucketCounts (map ob_Latency obs)) 0 ! j =
      map (\<lambda>b. (b, tally (\<lambda>ob. Seconds (ob_Latency ob) \<le> b) obs)) latencyBucketsSeconds ! j"
    using promBuckets_nth [of j latencyBucketsSeconds "bucketCounts (map ob_Latency obs)" 0] bucketCounts_prefix [of "Suc j" "map ob_Latency obs"] j
    by (simp add: numLatencyBuckets_eq tally_def)
qed

lemma sample_in_series:
  assumes "summarises ps obs" and "(x, v) \<in> set (family_samples fmt_g obs f)"
  shows "sample_line f (labels @ x) (u64_text v) \<in> set (series_parts fmt_g fmt_q visit labels ps)"
proof -
  have n: "promBuckets latencyBucketsSeconds (la_buckets (ps_lat ps)) 0 = map (\<lambda>b. (b, tally (\<lambda>ob. Seconds (ob_Latency ob) \<le> b) obs)) latencyBucketsSeconds"
    "la_count (ps_lat ps) = of_nat (length obs)" "ps_successes ps = tally ob_Success obs"
    "ps_failures ps = tally (\<lambda>ob. \<not> ob_Success ob) obs" "ps_maxMemory ps = Max (insert 0 (ob_MemoryBytes ` set obs))"
    using assms(1) promBuckets_counts [of obs] by (simp_all add: summarises_def agg_def)
  consider (bucket) b where "f = ''duration_seconds_bucket''" "b \<in> set latencyBucketsSeconds" "x = '',le=\"'' @ fmt_g b @ ''\"''" "v = tally (\<lambda>ob. Seconds (ob_Latency ob) \<le> b) obs"
    | (inf) "f = ''duration_seconds_bucket''" "x = '',le=\"+Inf\"''" "v = of_nat (length obs)"
    | (cnt) "f = ''duration_seconds_count''" "x = []" "v = of_nat (length obs)"
    | (ok) "f = ''total''" "x = '',result=\"success\"''" "v = tally ob_Success obs"
    | (bad) "f = ''total''" "x = '',result=\"failure\"''" "v = tally (\<lambda>ob. \<not> ob_Success ob) obs"
    | (mem) "f = ''memory_bytes_max''" "x = []" "v = Max (insert 0 (ob_MemoryBytes ` set obs))"
    using assms(2) unfolding family_samples_def by (auto split: if_splits)
  then show ?thesis
  proof cases
    case bucket
    then show ?thesis unfolding series_parts_def n set_append set_map image_image fst_conv snd_conv by blast
  next
    case inf
    then show ?thesis unfolding series_parts_def n by (simp only: set_append list.set insert_iff Un_iff simp_thms)
  next
    case cnt
    then show ?thesis unfolding series_parts_def n by (simp only: set_append list.set insert_iff Un_iff simp_thms append_Nil2)
  next
    case ok
    then show ?thesis unfolding series_parts_def n by (simp only: set_append list.set insert_iff Un_iff simp_thms)
  next
    case bad
    then show ?thesis unfolding series_parts_def n by (simp only: set_append list.set insert_iff Un_iff simp_thms)
  next
    case mem
    then show ?thesis unfolding series_parts_def n by (simp only: set_append list.set insert_iff Un_iff simp_thms append_Nil2)
  qed
qed

text \<open>C37: what the operator's tools ask for is there. For every policy with an observation, every selector in the queries of
  the Grafana dashboard and in the exported rules of any alert engine, with its metric name and its matchers, selects samples
  of the exposition text, and the text has a line for each of them with the number that the observations of the
  policy give: the observations per latency bound and in all, the successes and failures, the peak memory.\<close>

theorem queried_metrics_exported:
  assumes "\<And>x. selectors [] (fmtg x) = []" and "visits visit" and "length evs \<le> 2 ^ 64" and "sv_collector s = collect evs"
    and "p \<noteq> []" and "of_policy p evs \<noteq> []"
    and "(n, mt) \<in> set (dashboard_selectors (grafanaHandler s) @ rule_selectors (promRules fmtg fmt4g durString (sv_alerts s)))"
  shows "\<exists>f. n = family_name f \<and> selected fmt_g (of_policy p evs) f mt \<noteq> [] \<and>
    (\<forall>(x, v) \<in> set (selected fmt_g (of_policy p evs) f mt).
      emits (metricsHandler fmt_g fmt_q visit s) (sample_line f (policy_labels fmt_q p (of_policy p evs) @ x) (u64_text v)))"
proof -
  let ?os = "of_policy p evs"
  have "known_selector (n, mt)"
    using assms(7) dashboard_known [of "[]"] rules_known [of fmtg fmt4g durString "sv_alerts s", OF assms(1)]
    unfolding grafanaHandler_def set_append list_all_iff by blast
  then obtain f where f: "(f, mt) \<in> set used_selectors" "n = family_name f" by auto
  have refl: "reflects (collect evs) evs" by (rule reflects_collect [OF assms(3)])
  then obtain ps where ps: "collect evs p = Some ps" "ps_policyID ps = p" "summarises ps ?os" "ps_tier ps = ob_Tier (List.last ?os)"
    using assms(5,6) unfolding reflects_def by meson
  have labels: "series_labels fmt_q ps = policy_labels fmt_q p ?os" using ps by (simp add: series_labels_def policy_labels_def Tier_String_def)
  have "finite (dom (collect evs))" using dom_reflects [OF refl] by simp
  then have "set (allSeries visit (collect evs)) = (\<lambda>k. the (collect evs k)) ` dom (collect evs)"
    using assms(2) by (simp add: allSeries_sort visits_def)
  then have "ps \<in> set (allSeries visit (collect evs))" using ps(1) by force
  then have m: "seriesText fmt_g fmt_q visit ps \<in> set (map (seriesText fmt_g fmt_q visit) (allSeries visit (sv_collector s)))"
    using assms(4) by simp
  have w: "list_all whole_lines (map (seriesText fmt_g fmt_q visit) (allSeries visit (sv_collector s)))"
    using whole_concat [OF series_parts_whole] by (simp add: list_all_iff seriesText_parts)
  have h: "whole_lines prom_header" unfolding prom_header_def by (rule whole_concat) (simp add: whole_lines_def text_line_def)
  have "emits (metricsHandler fmt_g fmt_q visit s) (sample_line f (policy_labels fmt_q p ?os @ x) (u64_text v))"
    if "(x, v) \<in> set (selected fmt_g ?os f mt)" for x v
  proof -
    have "(x, v) \<in> set (family_samples fmt_g ?os f)" using that by (simp add: selected_def)
    from seriesText_emits [OF sample_in_series [OF ps(3) this, of "series_labels fmt_q ps" fmt_q visit]]
    have "emits (seriesText fmt_g fmt_q visit ps) (sample_line f (policy_labels fmt_q p ?os @ x) (u64_text v))" unfolding labels .
    from emits_right [OF h emits_concat [OF w m this]] show ?thesis
      unfolding metricsHandler_def collector_PrometheusText_def .
  qed
  then show ?thesis using f used_nonempty by blast
qed

text \<open>The error-rate panel asks for the failures of a policy with one failed verification.\<close>

definition one_failure :: Service where
  "one_failure = NewService (Some (collect [(0, failed_cel)]))"

theorem queried_metrics_exported_witness:
  "emits (metricsHandler (\<lambda>_. ''1'') id sorted_list_of_set one_failure)
     (sample_line ''total'' (policy_labels id (ob_PolicyID failed_cel) [failed_cel] @ '',result=\"failure\"'') (u64_text 1))"
proof -
  let ?q = "(family_name ''total'', [''result=\"failure\"''])"
  have one: "selectors [] ''1'' = []" by code_simp
  have q: "?q \<in> set (dashboard_selectors (GrafanaDashboardJSON []))" by code_simp
  have os: "of_policy (ob_PolicyID failed_cel) [(0, failed_cel)] = [failed_cel]" "ob_PolicyID failed_cel \<noteq> []" "\<not> ob_Success failed_cel"
    by (simp_all add: of_policy_def failed_cel_def)
  have "\<exists>f. family_name ''total'' = family_name f \<and> selected (\<lambda>_. ''1'') [failed_cel] f [''result=\"failure\"''] \<noteq> [] \<and>
    (\<forall>(x, v) \<in> set (selected (\<lambda>_. ''1'') [failed_cel] f [''result=\"failure\"'']).
      emits (metricsHandler (\<lambda>_. ''1'') id sorted_list_of_set one_failure) (sample_line f (policy_labels id (ob_PolicyID failed_cel) [failed_cel] @ x) (u64_text v)))"
    using queried_metrics_exported [of "\<lambda>_. ''1''" sorted_list_of_set "[(0, failed_cel)]" one_failure "ob_PolicyID failed_cel" "family_name ''total''"
        "[''result=\"failure\"'']" "\<lambda>_. []" "\<lambda>_. []" "\<lambda>_. ''1''" id] one q os
    by (simp add: one_failure_def NewService_def grafanaHandler_def visits_def)
  then have "\<forall>(x, v) \<in> set (selected (\<lambda>_. ''1'') [failed_cel] ''total'' [''result=\"failure\"'']).
      emits (metricsHandler (\<lambda>_. ''1'') id sorted_list_of_set one_failure) (sample_line ''total'' (policy_labels id (ob_PolicyID failed_cel) [failed_cel] @ x) (u64_text v))"
    by (simp add: family_name_def)
  moreover have "('',result=\"failure\"'', 1) \<in> set (selected (\<lambda>_. ''1'') [failed_cel] ''total'' [''result=\"failure\"''])"
    using os(3) by (simp add: selected_def family_samples_def)
  ultimately show ?thesis by blast
qed

end
