(* ===== verification/Symk.thy ===== *)
theory Symk
  imports CelEval
begin

text \<open>
  The command-line tool (\<open>src/cmd/symk/main.go\<close>) from \<open>os.Args\<close> to its exit status, with the part of Go's package
  \<open>flag\<close> that it uses: a flag set with two string flags and the policy \<open>ExitOnError\<close>. Reading and decoding the context
  file is a parameter, printing is left out. The types of constraint violations
  (\<open>src/internal/criterion/constraint_violation.go\<close>) are here as well.
\<close>

section \<open>Flags\<close>

datatype flag_error = BadSyntax | Undefined string | NeedsArgument string | HelpRequested

record symk_flags =
  fl_expr :: string
  fl_context :: string

text \<open>One flag: \<open>None\<close> when the arguments go on with something else, otherwise the name, the value if it is given with
  an equals sign, and the remaining arguments.\<close>

definition splitFlag :: "string \<Rightarrow> string \<times> string option" where
  "splitFlag name = (if CHR ''='' \<in> set (tl name)
     then (let n = hd name # takeWhile (\<lambda>c. c \<noteq> CHR ''='') (tl name) in (n, Some (drop (length n + 1) name)))
     else (name, None))"

definition stripMinus :: "string \<Rightarrow> string" where
  "stripMinus s = (if s ! 1 = CHR ''-'' then drop 2 s else drop 1 s)"

fun setFlag :: "string \<Rightarrow> string \<Rightarrow> symk_flags \<Rightarrow> symk_flags" where
  "setFlag name val fl = (if name = ''expr'' then fl\<lparr>fl_expr := val\<rparr> else fl\<lparr>fl_context := val\<rparr>)"

fun parseFlags :: "string list \<Rightarrow> symk_flags \<Rightarrow> flag_error + symk_flags" where
  "parseFlags [] fl = Inr fl"
| "parseFlags (s # rest) fl =
     (if length s < 2 \<or> s ! 0 \<noteq> CHR ''-'' \<or> s = ''--'' then Inr fl
      else (let name = stripMinus s in
        if name = [] \<or> hd name = CHR ''-'' \<or> hd name = CHR ''='' then Inl BadSyntax
        else (case splitFlag name of (n, val) \<Rightarrow>
          if n \<noteq> ''expr'' \<and> n \<noteq> ''context''
          then Inl (if n = ''help'' \<or> n = ''h'' then HelpRequested else Undefined n)
          else (case val of Some v \<Rightarrow> parseFlags rest (setFlag n v fl)
            | None \<Rightarrow> (case rest of [] \<Rightarrow> Inl (NeedsArgument n) | v # rest' \<Rightarrow> parseFlags rest' (setFlag n v fl))))))"

section \<open>The tool\<close>

datatype symk_outcome = NoCommand | UnknownCommand string | FlagsRejected flag_error | Ran symk_exit

text \<open>\<open>readContext\<close> reads and decodes a context file.\<close>

definition symk_verify :: "('ast, 'prg) cel_lib \<Rightarrow> (rat \<Rightarrow> int) \<Rightarrow> instant \<Rightarrow> instant \<Rightarrow> (string \<Rightarrow> string + bindings) \<Rightarrow> string list \<Rightarrow> symk_outcome" where
  "symk_verify lib f2i started ended readContext args =
     (if length args < 2 \<or> args ! 0 \<noteq> ''cel'' then Ran Usage
      else case parseFlags (drop 1 args) \<lparr>fl_expr = [], fl_context = []\<rparr> of
        Inl err \<Rightarrow> FlagsRejected err
      | Inr fl \<Rightarrow> Ran (cmdVerify lib f2i started ended args (fl_expr fl)
          (if fl_context fl \<noteq> [] then Some (readContext (fl_context fl)) else None)))"

definition symk_main :: "('ast, 'prg) cel_lib \<Rightarrow> (rat \<Rightarrow> int) \<Rightarrow> instant \<Rightarrow> instant \<Rightarrow> (string \<Rightarrow> string + bindings) \<Rightarrow> string list \<Rightarrow> symk_outcome" where
  "symk_main lib f2i started ended readContext osArgs =
     (if length osArgs < 2 then NoCommand
      else if osArgs ! 1 = ''verify'' then symk_verify lib f2i started ended readContext (drop 2 osArgs)
      else UnknownCommand (osArgs ! 1))"

text \<open>The exit status; the package \<open>flag\<close> exits with 2 on an error and with 0 after printing the help.\<close>

fun exit_status :: "symk_outcome \<Rightarrow> nat" where
  "exit_status NoCommand = 1"
| "exit_status (UnknownCommand c) = 1"
| "exit_status (FlagsRejected err) = (if err = HelpRequested then 0 else 2)"
| "exit_status (Ran (PASS v)) = 0"
| "exit_status (Ran _) = 1"

section \<open>What the exit status says\<close>

text \<open>The spellings of a flag with its value.\<close>

definition spellings :: "string \<Rightarrow> string \<Rightarrow> string list set" where
  "spellings name val = {[''--'' @ name, val], [''-'' @ name, val], [''--'' @ name @ ''='' @ val], [''-'' @ name @ ''='' @ val]}"

lemma parseFlags_spelling:
  assumes "name \<in> {''expr'', ''context''}" and "fs \<in> spellings name v"
  shows "parseFlags (fs @ rest) fl = parseFlags rest (setFlag name v fl)"
  using assms by (auto simp: spellings_def stripMinus_def splitFlag_def simp del: setFlag.simps)

lemma parseFlags_expr:
  assumes "es \<in> spellings ''expr'' e"
  shows "parseFlags es \<lparr>fl_expr = [], fl_context = []\<rparr> = Inr \<lparr>fl_expr = e, fl_context = []\<rparr>"
  using parseFlags_spelling [OF _ assms, of "[]"] by simp

lemma parseFlags_both:
  assumes "es \<in> spellings ''expr'' e" and "cs \<in> spellings ''context'' f"
  shows "parseFlags (es @ cs) \<lparr>fl_expr = [], fl_context = []\<rparr> = Inr \<lparr>fl_expr = e, fl_context = f\<rparr>"
    "parseFlags (cs @ es) \<lparr>fl_expr = [], fl_context = []\<rparr> = Inr \<lparr>fl_expr = e, fl_context = f\<rparr>"
  using parseFlags_spelling [OF _ assms(1)] parseFlags_spelling [OF _ assms(2)]
    parseFlags_spelling [OF _ assms(1), of "[]"] parseFlags_spelling [OF _ assms(2), of "[]"] by simp_all

lemma spelling_nonempty: "es \<in> spellings name e \<Longrightarrow> es \<noteq> []"
  by (auto simp: spellings_def)

text \<open>however the flags of the tool are spelled and ordered, its exit status is 0 exactly when the expression has a value on
  the variables of the context file, and what it prints is that value. The status does not depend on the value:
  an expression that is false exits like one that is true.\<close>

theorem symk_exit_status:
  assumes "e \<noteq> []" and "f \<noteq> []" and "readContext f = Inr m"
    and "es \<in> spellings ''expr'' e" and "cs \<in> spellings ''context'' f" and "args \<in> {es @ cs, cs @ es}"
  shows "(exit_status (symk_main lib f2i started ended readContext (prog # ''verify'' # ''cel'' # args)) = 0 \<longleftrightarrow>
      cel_value lib e (normalizeContext f2i m) \<noteq> None) \<and>
    (symk_main lib f2i started ended readContext (prog # ''verify'' # ''cel'' # args) = Ran (PASS v) \<longleftrightarrow>
      cel_value lib e (normalizeContext f2i m) = Some v)"
proof -
  have len: "2 \<le> length (''cel'' # args)" using assms(6) spelling_nonempty [OF assms(4)] by (auto simp: Suc_le_eq)
  have "parseFlags args \<lparr>fl_expr = [], fl_context = []\<rparr> = Inr \<lparr>fl_expr = e, fl_context = f\<rparr>"
    using assms(6) parseFlags_both [OF assms(4,5)] by auto
  then have main: "symk_main lib f2i started ended readContext (prog # ''verify'' # ''cel'' # args) =
      Ran (cmdVerify lib f2i started ended (''cel'' # args) e (Some (Inr m)))"
    using len assms(2,3) by (auto simp: symk_main_def symk_verify_def)
  have pass: "cmdVerify lib f2i started ended (''cel'' # args) e (Some (Inr m)) = PASS w \<longleftrightarrow> cel_value lib e (normalizeContext f2i m) = Some w" for w
    using cmdVerify_decides [OF len _ assms(1)] by simp
  have "exit_status (Ran r) = 0 \<longleftrightarrow> (\<exists>w. r = PASS w)" for r by (cases r) auto
  then show ?thesis unfolding main using pass by auto
qed

theorem symk_exit_status_witness:
  "exit_status (symk_main demo_lib floor 7 8 (\<lambda>_. Inr [(''x'', ABool False)]) [''symk'', ''verify'', ''cel'', ''--expr'', ''x'', ''-context=c'']) = 0"
proof -
  have "cel_value demo_lib ''x'' (normalizeContext floor [(''x'', ABool False)]) \<noteq> None"
    by (simp add: cel_value_def demo_lib_def declare_vars_def normalizeContext_def normalizeValue_def)
  moreover have "[''--expr'', ''x''] \<in> spellings ''expr'' ''x''" "[''-context=c''] \<in> spellings ''context'' ''c''"
    by (simp_all add: spellings_def)
  ultimately show ?thesis
    using symk_exit_status [of "''x''" "''c''" "\<lambda>_. Inr [(''x'', ABool False)]" "[(''x'', ABool False)]" "[''--expr'', ''x'']" "[''-context=c'']"
      "[''--expr'', ''x''] @ [''-context=c'']" demo_lib floor 7 8 "''symk''"] by simp
qed

text \<open>Only one command exists.\<close>

lemma other_commands_unknown:
  "cmd \<noteq> ''verify'' \<Longrightarrow> symk_main lib f2i started ended readContext (prog # cmd # args) = UnknownCommand cmd"
  by (simp add: symk_main_def)

section \<open>Constraint violations\<close>

datatype DetectedAt = DetectedPreDecode | DetectedPostDecode | DetectedPostToolCall

record EvidenceSpan =
  RegionID :: string
  JSONPointer :: string
  CharRange :: "int list"
  LineRange :: "int list"

record ConstraintViolation =
  cv_ConstraintID :: string
  cv_Level :: Level
  cv_Category :: Category
  cv_Hint :: string
  cv_EvidenceSpan :: "EvidenceSpan option"
  cv_DetectedAt :: DetectedAt

end
