(* ===== verification/Spec2Isabelle.thy ===== *)
theory Spec2Isabelle
  imports CircuitBreaker Cluster NodeManager Deployment WasmRoundtrip Federation DistCache RegoImport ShardMetrics Sandbox ObsService Bench Daemon Background SharedSolver RollbackRace Grafana Symk
begin

text \<open>
  A verification development for symkernel.

  \<^bold>\<open>The program.\<close> symkernel is a verification kernel for policies, written in Go. Its daemon
  (\<open>src/cmd/symkerneld\<close>) serves HTTP endpoints that decide CEL expressions, SMT constraints (through a Z3 process),
  compositions of both, symbolic executions of WebAssembly functions, and the routing of a request to the cheapest
  sufficient tier. Around it are libraries for running the kernel at scale: a Raft-like coordination cluster, a
  consistent-hashing ring with a node manager, a circuit breaker for Z3, caches (evaluation results, solver decisions,
  and a distributed cache over Redis), policy governance (schemas, lifecycle, approval, staging, blue-green deployment,
  rollback), multi-region federation, importers for Cedar and Rego policies, an audit trail, metrics and alerts, a
  sandbox for WebAssembly and a benchmark. The libraries share state only through the interfaces their packages export;
  the development follows the packages, one theory or a short chain of theories per component.

  \<^bold>\<open>Conventions\<close> (theory \<open>Prelude\<close>). A struct is a record, an enum a datatype, an operation a function from the state
  to a result and a new state; errors and panics are values. A method that holds its mutex for its whole body is one
  atomic step. The clock, random numbers, fresh identifiers, the order in which Go visits a map, and what processes,
  servers and third-party packages (Z3, cel-go, wazero, OPA, cedar-go, Redis, JSON, SHA-256, xxhash) do are arguments of
  the definitions that use them; where a theorem relies on such code, its documented behaviour is a named hypothesis with
  a witness. \<open>uint64\<close> counters are words and wrap around; \<open>int64\<close> values that can overflow are wrapped explicitly;
  other integers are unbounded. Quotients and averages of \<open>float64\<close> numbers are exact rational or real numbers, which
  the code rounds. Strings are byte strings; case and white space are those of ASCII (\<open>GoStrings\<close>). \<open>GoTime\<close> has the
  RFC 3339 text of a UTC time for years below 10000, with a proof that parsing reads formatting back; \<open>GoValues\<close> the
  dynamically typed values.

  \<^bold>\<open>Interfaces.\<close> \<open>Prelude\<close> states what several components share as locales: \<open>invariant_system\<close> and
  \<open>operation_system\<close> (what every step keeps holds in every reachable state; interpreted for the breaker, the network, the
  node manager, the approval workflow, the slots, the policy store, the region registry, the schema registry, the
  decision cache, concurrent queries and concurrent rollbacks), \<open>quorum_system\<close> (two quorums meet), \<open>ranked_list\<close> (the first element of a sorted list is a best one).
  \<open>hash_sorter\<close>, \<open>newest_scan\<close>, \<open>decision_store\<close>, \<open>kv_backend\<close> with \<open>reliable_backend\<close>, \<open>policy_store\<close> and
  \<open>run_relation\<close> are the contracts of single components, each interpreted on the code's own definitions.

  \<^bold>\<open>Theories and sources\<close> (paths under \<open>src/internal\<close> unless said otherwise).

  \<^item> \<open>Coordination\<close>, \<open>Election\<close>, \<open>Cluster\<close>: \<open>distributed/coordination/coordination.go\<close>. The node with every handler, timer
    and its work assignment; the nodes over an asynchronous lossy network; the in-memory cluster with partitions. At most
    one leader per term at any moment, carried from the network to the cluster by a simulation; an isolated leader steps
    down within a bound; an execution in which a term has two leaders one after the other.
  \<^item> \<open>Ring\<close>, \<open>NodeManager\<close>, \<open>ShardMetrics\<close>: \<open>distributed/sharding\<close>. Lookup by binary search against the clockwise
    successor, minimal movement of keys, membership and ring in agreement, removal of silent nodes, load counters.
  \<^item> \<open>CircuitBreaker\<close>: \<open>circuitbreaker/circuitbreaker.go\<close>, with its state invariant.
  \<^item> \<open>Schema\<close>, \<open>Lifecycle\<close>, \<open>Deployment\<close>: \<open>governance\<close>. Versions and migration chains with termination, the lifecycle
    state machine over a heap of shared policies, approvals, staging, slots, rollback. \<open>RollbackRace\<close>
    splits a rollback at the locks it releases: a deployment is rolled back at most once under every interleaving, but a
    rollback is not atomic.
  \<^item> \<open>DecisionCache\<close>, \<open>Z3Bridge\<close>, \<open>Solvers\<close>: \<open>symbolic/cache/cache.go\<close>, \<open>z3/z3.go\<close>, \<open>verify/z3.go\<close>,
    \<open>verify/handler.go\<close>, \<open>smt/smt.go\<close>, \<open>smthttp\<close>. The LRU cache refines a bounded list of pairs; a cached answer was printed by
    Z3 for exactly the same program, and so was every verdict of \<open>/v1/verify/z3\<close>, by a process that did not fail. \<open>SharedSolver\<close> splits a query of the
    bridge at the operations of the cache that all requests share, and shows the same for concurrent queries.
  \<^item> \<open>WasmBinary\<close>, \<open>WasmRoundtrip\<close>, \<open>SymExec\<close>, \<open>SmtTerm\<close>, \<open>SymSound\<close>, \<open>SymPaths\<close>, \<open>SymRun\<close>, \<open>SymService\<close>:
    \<open>verify/symbolic.go\<close>. The decoder reads back the function bodies that the binary format writes with the instructions it knows, with
    LEB128 integers of any length; the printed SMT terms and programs determine their meaning;
    every reported path is sound for the WebAssembly semantics of the function, the paths are complete within the depth
    limit if the solver is right about the programs it calls unsatisfiable; values stay well typed and the exploration within 4096 states.
  \<^item> \<open>EvalCache\<close>: \<open>cache/cache.go\<close>, with the aliasing of its eviction loop and the panics that follow from it. A hit
    returns the last live store. \<open>Resp\<close>, \<open>DistCache\<close>: \<open>cache/distributed\<close>. The RESP codec and client, and the cache over any
    backend with exact tag invalidation.
  \<^item> \<open>CelEval\<close>, \<open>Composed\<close>, \<open>Orchestrator\<close>: \<open>cel/evaluator.go\<close>, \<open>criterion\<close>, \<open>src/cmd/symk\<close>,
    \<open>composed/handler.go\<close>, \<open>orchestrator/orchestrator.go\<close>. The ways to evaluate CEL agree; an accepted composition satisfies
    every stage; the cheapest sufficient tier is selected. \<open>Symk\<close>: \<open>src/cmd/symk\<close> from its arguments to its exit status,
    and the types of constraint violations.
  \<^item> \<open>FedRegion\<close>, \<open>Federation\<close>: \<open>federation\<close>. Two anti-entropy passes converge; a synchronous write discards newer revisions.
  \<^item> \<open>PolicyImport\<close>, \<open>RegoImport\<close>: \<open>policyimport\<close>. The translators fail closed and keep translated terms apart.
  \<^item> \<open>AuditLog\<close>: \<open>audit/audit.go\<close>, \<open>diagnostics/diagnostics.go\<close>. \<open>Observability\<close>, \<open>Alerting\<close>, \<open>ObsService\<close>:
    \<open>observability\<close>. \<open>SmtMetrics\<close>: \<open>otel/metrics.go\<close>. Export, histograms, percentiles, rollups, alerts
    and the exposition text describe exactly what was recorded; rotation does up to the overlap of calls. \<open>Grafana\<close>: the
    dashboard model; every selector of its queries and of the alert rules finds samples with the recorded numbers.
  \<^item> \<open>Sandbox\<close>: \<open>sandbox/sandbox.go\<close>, \<open>repair/repair.go\<close>. Memory limits with their wrap-around, captured output, traps.
  \<^item> \<open>Gate\<close>: \<open>auth\<close>, \<open>tenant\<close>, \<open>otel/otel.go\<close>, \<open>policy/policyrule.go\<close>. Who reaches the routes; which rule decides.
  \<^item> \<open>Daemon\<close>: \<open>src/cmd/symkerneld\<close>. The route table, its state, dispatch and all endpoints behind the middleware chain:
    what the daemon reports after any history; how the process starts and ends. Only the replies of the routing endpoints
    can express a panic.
  \<^item> \<open>Bench\<close>: \<open>src/bench/symbolic/symbolic.go\<close>. The report of a run passes its validation.
  \<^item> \<open>Background\<close>: the goroutines of \<open>Start\<close> and \<open>Stop\<close> of the coordination node, the node manager and the replicator as
    interleavings. Stopping never panics a node and releases its loops; restarting it in a tick leaks them; nothing runs
    after the other two have stopped.

  \<^bold>\<open>Loops, fuel and bounds.\<close> Loops are structural recursions or functions with a measure (the eviction loop: the length of
  the access order). The RESP reader takes fuel, and twice the length of the input plus two is shown to be enough;
  the migration chain follows links that the code does not bound, so it takes fuel, one turn per registered schema is shown
  to be enough when versions decrease, and a cyclic registry is shown to exhaust any fuel. The parser of function bodies
  recurses on the remaining bytes. Theorems that need a counter not to have wrapped say so (\<open>2^63\<close>, \<open>2^64\<close>, \<open>2^53\<close>).

  \<^bold>\<open>Not modelled.\<close> Sockets, signals and printed text; the inside of the OpenTelemetry SDK; the time between ticks of a
  ticker, which may fire at any moment; the text tables \<open>FprintStats\<close> and \<open>FormatTable\<close>; accessors that return a field;
  the JSON and YAML codecs, which are parameters or left out. Data races are outside the model: a method of a
  shared object is one step, whether it takes its lock for its whole body or not. What happens between the steps of a method that
  does not is modelled for rollbacks (\<open>RollbackRace\<close>), for queries of the Z3 bridge (\<open>SharedSolver\<close>) and for \<open>Record\<close> of the
  audit trail, which reads the clock before it takes the lock (\<open>AuditLog\<close>); the distributed cache, whose \<open>SetByKey\<close> stores an
  entry and then indexes its tags one by one, is modelled for calls that do not overlap. In \<open>Daemon\<close> the content of the decision caches that a request finds is an input of the request.
\<close>

end
